(* ===== verification/MOS_Prelude.thy ===== *)
theory MOS_Prelude
  imports Main "HOL-Library.Word" "HOL-Library.Monad_Syntax"
begin

text \<open>
  The types and the generic facts that the component theories share.

  The integer types are those of \<^verbatim>\<open>kernel/include/public/mos/types.h\<close>, kept at their
  width.  A computation that can end in \<^verbatim>\<open>mos_panic\<close>, in a failed \<^verbatim>\<open>MOS_ASSERT\<close> or in an
  access the C language leaves undefined (an index outside of its object, a division by zero,
  an over-long shift) is a value of an option type, and \<^const>\<open>None\<close> is that end: a theorem that
  such a computation is \<^const>\<open>Some\<close> says that it neither panics nor faults.  Error codes that the
  code returns are ordinary results.
\<close>

type_synonym u8 = "8 word"
type_synonym u16 = "16 word"
type_synonym u32 = "32 word"
type_synonym u64 = "64 word"
type_synonym size_t = "64 word"
type_synonym ptr_t = "64 word"
type_synonym uintn = "64 word"

named_theorems word_nat \<open>moving word arithmetic that does not wrap to the naturals\<close>
named_theorems guards \<open>checked operations that return\<close>

section \<open>Definitions\<close>

text \<open>\<^verbatim>\<open>MOS_ASSERT(cond)\<close>: go on when the condition holds, panic otherwise.\<close>

definition mos_assert :: "bool \<Rightarrow> unit option" where
  "mos_assert c = (if c then Some () else None)"

text \<open>The remainder \<^verbatim>\<open>a % b\<close> of two \<^verbatim>\<open>size_t\<close> values, which traps when \<^verbatim>\<open>b\<close> is zero.\<close>

definition mod_chk :: "size_t \<Rightarrow> size_t \<Rightarrow> size_t option" where
  "mod_chk a b = (if b = 0 then None else Some (a mod b))"

text \<open>Reading and writing one element of an array object, with the bounds of the object.\<close>

definition arr_get :: "'a list \<Rightarrow> nat \<Rightarrow> 'a option" where
  "arr_get xs i = (if i < length xs then Some (xs ! i) else None)"

definition arr_set :: "'a list \<Rightarrow> nat \<Rightarrow> 'a \<Rightarrow> 'a list option" where
  "arr_set xs i v = (if i < length xs then Some (xs[i := v]) else None)"

text \<open>
  Copying \<open>n\<close> elements from offset \<open>si\<close> of one object to offset \<open>di\<close> of another one, the effect
  of \<^verbatim>\<open>memcpy(dst + di, src + si, n)\<close> on distinct objects.
\<close>

definition blit :: "'a list \<Rightarrow> nat \<Rightarrow> 'a list \<Rightarrow> nat \<Rightarrow> nat \<Rightarrow> 'a list option" where
  "blit dst di src si n =
     (if di + n \<le> length dst \<and> si + n \<le> length src
      then Some (take di dst @ take n (drop si src) @ drop (di + n) dst)
      else None)"

text \<open>Testing a flag of a bit set, \<^verbatim>\<open>flags & f\<close> as a condition.\<close>

definition has_flag :: "u32 \<Rightarrow> u32 \<Rightarrow> bool" where
  "has_flag flags f \<longleftrightarrow> and flags f \<noteq> 0"

section \<open>Checked operations\<close>

lemma mos_assert_simps [simp]:
  "mos_assert True = Some ()" "mos_assert False = None"
  by (simp_all add: mos_assert_def)

lemma mos_assert_eq_Some [simp]: "mos_assert c = Some u \<longleftrightarrow> c"
  by (simp add: mos_assert_def)

lemma mod_chk_Some [guards]: "b \<noteq> 0 \<Longrightarrow> mod_chk a b = Some (a mod b)"
  by (simp add: mod_chk_def)

lemma arr_get_Some [guards]: "i < length xs \<Longrightarrow> arr_get xs i = Some (xs ! i)"
  by (simp add: arr_get_def)

lemma arr_set_Some [guards]: "i < length xs \<Longrightarrow> arr_set xs i v = Some (xs[i := v])"
  by (simp add: arr_set_def)

lemma blit_Some:
  "di + n \<le> length dst \<Longrightarrow> si + n \<le> length src \<Longrightarrow>
   blit dst di src si n = Some (take di dst @ take n (drop si src) @ drop (di + n) dst)"
  by (simp add: blit_def)

lemma blit_eq_Some:
  "blit dst di src si n = Some r \<longleftrightarrow>
     di + n \<le> length dst \<and> si + n \<le> length src \<and>
     r = take di dst @ take n (drop si src) @ drop (di + n) dst"
  by (auto simp: blit_def)

lemma nth_blit:
  assumes "di + n \<le> length dst" "si + n \<le> length src" "j < length dst"
  shows "(take di dst @ take n (drop si src) @ drop (di + n) dst) ! j =
         (if di \<le> j \<and> j < di + n then src ! (si + (j - di)) else dst ! j)"
  using assms by (auto simp: nth_append)

section \<open>Words and naturals\<close>

lemma unat_add_fits [word_nat]:
  fixes a b :: "'a::len word"
  assumes "unat a + unat b < 2 ^ LENGTH('a)"
  shows "unat (a + b) = unat a + unat b"
  using assms by (simp add: unat_word_ariths)

lemma unat_sub_fits [word_nat]:
  fixes a b :: "'a::len word"
  assumes "unat b \<le> unat a"
  shows "unat (a - b) = unat a - unat b"
  using assms by (simp add: unat_sub word_le_nat_alt)

lemma unat_min [word_nat]:
  fixes a b :: "'a::len word"
  shows "unat (min a b) = min (unat a) (unat b)"
  by (simp add: min_def word_le_nat_alt)

lemma unat_less_2p: "unat (w :: 'a::len word) < 2 ^ LENGTH('a)"
  by (rule unsigned_less)

lemma unat_eq_0_word: "unat (a :: 'a::len word) = 0 \<longleftrightarrow> a = 0"
  by (simp add: unat_eq_zero)

lemmas word_cmp_nat = word_le_nat_alt word_less_nat_alt

lemma take_min_length [simp]: "take (min (length xs) n) xs = take n xs"
  by (simp add: min_def)

lemma mod_shift_less:
  fixes s i c :: nat
  assumes "i < c" "s \<le> c"
  shows "(s + i) mod c = (if s + i < c then s + i else s + i - c)"
    and "(i + s) mod c = (if s + i < c then s + i else s + i - c)"
  using assms by (simp_all add: le_mod_geq add.commute)

section \<open>Page alignment\<close>

definition MOS_PAGE_SIZE :: u64 where
  "MOS_PAGE_SIZE = 4096"

definition ALIGN_DOWN_TO_PAGE :: "u64 \<Rightarrow> u64" where
  "ALIGN_DOWN_TO_PAGE addr = and addr (not (MOS_PAGE_SIZE - 1))"

definition ALIGN_UP_TO_PAGE :: "u64 \<Rightarrow> u64" where
  "ALIGN_UP_TO_PAGE addr = and (addr + (MOS_PAGE_SIZE - 1)) (not (MOS_PAGE_SIZE - 1))"

lemma unat_page_size [simp]: "unat MOS_PAGE_SIZE = 4096"
  by (simp add: MOS_PAGE_SIZE_def)

lemma unat_and_not_mask:
  "unat (and (a :: u64) (not (mask n))) = unat a div 2 ^ n * 2 ^ n"
proof -
  have "and a (not (mask n)) = push_bit n (drop_bit n a)"
    by (rule bit_word_eqI) (auto simp: bit_simps)
  moreover have "unat a div 2 ^ n * 2 ^ n < 2 ^ 64"
    by (rule le_less_trans [OF div_times_less_eq_dividend]) (use unsigned_less [of a, where 'a = nat] in simp)
  moreover have "take_bit 64 (unat a) = unat a"
    using unsigned_less [of a, where 'a = nat] by (simp add: take_bit_nat_eq_self)
  ultimately show ?thesis
    by (simp add: unsigned_push_bit_eq unsigned_drop_bit_eq)
      (simp add: drop_bit_eq_div push_bit_eq_mult take_bit_nat_eq_self)
qed

lemma page_mask: "MOS_PAGE_SIZE - 1 = mask 12"
  by (simp add: MOS_PAGE_SIZE_def mask_eq_exp_minus_1)

lemma unat_align_down: "unat (ALIGN_DOWN_TO_PAGE a) = unat a div 4096 * 4096"
  using unat_and_not_mask [of a 12] by (simp add: ALIGN_DOWN_TO_PAGE_def page_mask)

lemma unat_align_up:
  assumes "unat a + 4095 < 2 ^ 64"
  shows "unat (ALIGN_UP_TO_PAGE a) = (unat a + 4095) div 4096 * 4096"
proof -
  have "unat (a + mask 12) = unat a + 4095"
    using assms unat_add_fits [of a "mask 12"] by (simp add: mask_eq_exp_minus_1)
  then show ?thesis
    using unat_and_not_mask [of "a + mask 12" 12] by (simp add: ALIGN_UP_TO_PAGE_def page_mask)
qed

end
