(* ===== verification/LinkedList.thy ===== *)
theory LinkedList
  imports MOS_Prelude
begin

text \<open>
  The circular doubly-linked intrusive list of \<^verbatim>\<open>kernel/lib/structures/list.c\<close>, at the level of
  its pointers: a heap gives the \<^verbatim>\<open>prev\<close> and \<^verbatim>\<open>next\<close> field of every node, and each operation is
  the sequence of its field writes.  \<open>is_list h head ns\<close> relates a heap to the HOL list of the
  nodes that hang off a list head; the locale \<open>intrusive_list\<close> is the contract that the users of
  the list (the free lists of the frame allocator, the wait lists) rely on.
\<close>

section \<open>Definitions\<close>

record 'n list_heap =
  ln_prev :: "'n \<Rightarrow> 'n"
  ln_next :: "'n \<Rightarrow> 'n"

definition set_prev :: "'n list_heap \<Rightarrow> 'n \<Rightarrow> 'n \<Rightarrow> 'n list_heap" where
  "set_prev h x y = h\<lparr>ln_prev := (ln_prev h)(x := y)\<rparr>"

definition set_next :: "'n list_heap \<Rightarrow> 'n \<Rightarrow> 'n \<Rightarrow> 'n list_heap" where
  "set_next h x y = h\<lparr>ln_next := (ln_next h)(x := y)\<rparr>"

definition linked_list_init :: "'n list_heap \<Rightarrow> 'n \<Rightarrow> 'n list_heap" where
  "linked_list_init h node = (let h = set_prev h node node in set_next h node node)"

definition list_is_empty :: "'n list_heap \<Rightarrow> 'n \<Rightarrow> bool" where
  "list_is_empty h head = (ln_next h head = head)"

definition list_node_remove :: "'n list_heap \<Rightarrow> 'n \<Rightarrow> 'n list_heap" where
  "list_node_remove h node =
     (let h = set_next h (ln_prev h node) (ln_next h node);
          h = set_prev h (ln_next h node) (ln_prev h node);
          h = set_next h node node
      in set_prev h node node)"

definition list_node_insert :: "'n list_heap \<Rightarrow> 'n \<Rightarrow> 'n \<Rightarrow> 'n \<Rightarrow> 'n list_heap" where
  "list_node_insert h prev new_node next =
     (let h = set_prev h new_node prev;
          h = set_next h new_node next;
          h = set_next h prev new_node
      in set_prev h next new_node)"

definition list_node_pop :: "'n list_heap \<Rightarrow> 'n \<Rightarrow> 'n list_heap \<times> 'n" where
  "list_node_pop h head = (let node = ln_next h head in (list_node_remove h node, node))"

definition list_node_prepend :: "'n list_heap \<Rightarrow> 'n \<Rightarrow> 'n \<Rightarrow> 'n list_heap" where
  "list_node_prepend h head item = list_node_insert h head item (ln_next h head)"

definition list_node_append :: "'n list_heap \<Rightarrow> 'n \<Rightarrow> 'n \<Rightarrow> 'n list_heap" where
  "list_node_append h head item = list_node_insert h (ln_prev h head) item head"

definition list_node_insert_before :: "'n list_heap \<Rightarrow> 'n \<Rightarrow> 'n \<Rightarrow> 'n list_heap" where
  "list_node_insert_before h element item = list_node_insert h (ln_prev h element) item element"

definition list_node_insert_after :: "'n list_heap \<Rightarrow> 'n \<Rightarrow> 'n \<Rightarrow> 'n list_heap" where
  "list_node_insert_after h element item = list_node_insert h element item (ln_next h element)"

text \<open>
  The loop of \<^verbatim>\<open>list_foreach\<close> and \<^verbatim>\<open>list_node_foreach\<close>, from the current node on, with a body
  that leaves the loop at the first node satisfying \<open>p\<close> (\<open>Some (Some v)\<close>) or falls off its end
  (\<open>Some None\<close>).  On a heap where the walk never comes back to the head the loop does not end,
  which is \<^const>\<open>None\<close>.
\<close>

partial_function (option) list_find ::
  "'n list_heap \<Rightarrow> 'n \<Rightarrow> ('n \<Rightarrow> bool) \<Rightarrow> 'n \<Rightarrow> 'n option option" where
  "list_find h head p v =
     (if v = head then Some None
      else if p v then Some (Some v)
      else list_find h head p (ln_next h v))"

text \<open>The same loop with a body that looks at every node: the nodes in the order of the visits.\<close>

partial_function (option) list_visit :: "'n list_heap \<Rightarrow> 'n \<Rightarrow> 'n \<Rightarrow> 'n list option" where
  "list_visit h head v =
     (if v = head then Some []
      else do { vs \<leftarrow> list_visit h head (ln_next h v); Some (v # vs) })"

declare list_find.simps [code] list_visit.simps [code]

fun chain :: "'n list_heap \<Rightarrow> 'n list \<Rightarrow> bool" where
  "chain h (x # y # ys) = (ln_next h x = y \<and> ln_prev h y = x \<and> chain h (y # ys))"
| "chain h _ = True"

definition is_list :: "'n list_heap \<Rightarrow> 'n \<Rightarrow> 'n list \<Rightarrow> bool" where
  "is_list h head ns = (distinct (head # ns) \<and> chain h (head # ns @ [head]))"

section \<open>Chains\<close>

lemma set_simps [simp]:
  "ln_prev (set_prev h x y) = (ln_prev h)(x := y)" "ln_next (set_prev h x y) = ln_next h"
  "ln_next (set_next h x y) = (ln_next h)(x := y)" "ln_prev (set_next h x y) = ln_prev h"
  by (simp_all add: set_prev_def set_next_def)

lemma chain_append: "chain h (xs @ y # ys) \<longleftrightarrow> chain h (xs @ [y]) \<and> chain h (y # ys)"
proof (induction xs)
  case Nil
  then show ?case by simp
next
  case (Cons x xs)
  then show ?case by (cases xs) auto
qed

lemma chain_link: "chain h (xs @ x # y # ys) \<Longrightarrow> ln_next h x = y \<and> ln_prev h y = x"
  using chain_append [of h xs x "y # ys"] by simp

lemma chain_frame:
  assumes "chain h xs" "\<And>x. x \<in> set (butlast xs) \<Longrightarrow> ln_next h' x = ln_next h x"
    "\<And>x. x \<in> set (tl xs) \<Longrightarrow> ln_prev h' x = ln_prev h x"
  shows "chain h' xs"
  using assms
proof (induction h xs rule: chain.induct)
  case (1 h x y ys)
  from 1(2) have "chain h (y # ys)" by simp
  moreover have "\<And>z. z \<in> set (butlast (y # ys)) \<Longrightarrow> ln_next h' z = ln_next h z"
    using 1(3) by simp
  moreover have "\<And>z. z \<in> set ys \<Longrightarrow> ln_prev h' z = ln_prev h z"
    using 1(4) by simp
  ultimately have "chain h' (y # ys)"
    using 1(1) by simp
  moreover have "ln_next h' x = y" "ln_prev h' y = x"
    using 1(2) 1(3) [of x] 1(4) [of y] by auto
  ultimately show ?case by simp
qed auto

text \<open>Two nodes that follow each other on a circular list, and replacing the link between them.\<close>

lemma is_list_nodes:
  assumes "is_list h head (as @ n # bs)"
  shows "ln_prev h n = last (head # as)" "ln_next h n = hd (bs @ [head])"
proof -
  have "chain h ((head # as) @ n # bs @ [head])"
    using assms by (simp add: is_list_def)
  then have l: "chain h ((head # as) @ [n])" and r: "chain h (n # bs @ [head])"
    using chain_append [of h "head # as" n "bs @ [head]"] by blast+
  have "chain h (butlast (head # as) @ last (head # as) # n # [])"
    using l append_butlast_last_id [of "head # as"] by (metis append.assoc append_Cons append_Nil list.discI)
  then show "ln_prev h n = last (head # as)"
    using chain_link by metis
  show "ln_next h n = hd (bs @ [head])"
    using r by (cases bs) auto
qed

lemma is_list_ends:
  assumes "is_list h head ns"
  shows "ln_next h head = hd (ns @ [head])" "ln_prev h head = last (head # ns)"
proof -
  have c: "chain h (head # ns @ [head])"
    using assms by (simp add: is_list_def)
  then show "ln_next h head = hd (ns @ [head])"
    by (cases ns) auto
  have "chain h (butlast (head # ns) @ last (head # ns) # head # [])"
    using c append_butlast_last_id [of "head # ns"] by (metis append.assoc append_Cons append_Nil list.discI)
  then show "ln_prev h head = last (head # ns)"
    using chain_link by metis
qed

lemma is_list_relink:
  assumes "distinct (head # as @ bs)" "chain h (head # as)" "chain h (bs @ [head])"
    and "p = last (head # as)" "q = hd (bs @ [head])"
    and "ln_next h p = q" "ln_prev h q = p"
  shows "is_list h head (as @ bs)"
proof -
  obtain P where P: "head # as = P @ [p]"
    using assms(4) by (metis append_butlast_last_id list.discI)
  obtain Q where Q: "bs @ [head] = q # Q"
    using assms(5) by (metis hd_Cons_tl snoc_eq_iff_butlast)
  have "chain h (P @ p # q # Q)"
    using assms(2,3,6,7) P Q chain_append [of h P p "q # Q"] by simp
  moreover have "head # (as @ bs) @ [head] = P @ p # q # Q"
    using P Q by simp
  ultimately show ?thesis
    using assms(1) unfolding is_list_def by metis
qed

lemma is_list_distinct: "is_list h head ns \<Longrightarrow> distinct (head # ns)"
  by (simp add: is_list_def)

lemma is_list_halves:
  assumes "is_list h head (as @ bs)"
  shows "chain h (head # as)" "chain h (bs @ [head])"
proof -
  have c: "chain h (head # as @ bs @ [head])"
    using assms by (simp add: is_list_def)
  then show "chain h (bs @ [head])"
    using chain_append [of h "head # as" "hd (bs @ [head])" "tl (bs @ [head])"] by simp
  obtain P l where P: "head # as = P @ [l]"
    by (metis append_butlast_last_id list.discI)
  then have "chain h (P @ l # bs @ [head])"
    using c by (metis append.assoc append_Cons append_Nil)
  then show "chain h (head # as)"
    using P chain_append by metis
qed

lemma is_list_frame:
  assumes "is_list h head ns" "\<And>x. x \<in> set (head # ns) \<Longrightarrow> ln_next h' x = ln_next h x"
    "\<And>x. x \<in> set (head # ns) \<Longrightarrow> ln_prev h' x = ln_prev h x"
  shows "is_list h' head ns"
  using assms chain_frame [of h "head # ns @ [head]" h'] unfolding is_list_def
  by (auto simp: butlast_append)

section \<open>The operations on the represented lists\<close>

lemma insert_fields:
  assumes "x \<noteq> p" "x \<noteq> q"
  shows "ln_next (list_node_insert h p x q) = (ln_next h)(x := q, p := x)"
    "ln_prev (list_node_insert h p x q) = (ln_prev h)(x := p, q := x)"
  using assms by (simp_all add: list_node_insert_def Let_def fun_eq_iff)

lemma remove_fields:
  assumes "ln_prev h n \<noteq> n" "ln_next h n \<noteq> n"
  shows "ln_next (list_node_remove h n) = (ln_next h)(ln_prev h n := ln_next h n, n := n)"
    "ln_prev (list_node_remove h n) = (ln_prev h)(ln_next h n := ln_prev h n, n := n)"
  using assms by (simp_all add: list_node_remove_def Let_def fun_eq_iff)

lemma end_nodes:
  "last (head # as) \<in> set (head # as)" "hd (bs @ [head]) \<in> set (head # bs)"
  by (simp, cases bs) auto

lemma list_node_insert_is_list:
  assumes l: "is_list h head (as @ bs)" and x: "x \<notin> set (head # as @ bs)"
  shows "is_list (list_node_insert h (last (head # as)) x (hd (bs @ [head]))) head (as @ x # bs)"
    (is "is_list ?h _ _")
proof (rule is_list_relink)
  let ?p = "last (head # as)" and ?q = "hd (bs @ [head])"
  have d: "distinct (head # as @ bs)"
    using is_list_distinct [OF l] .
  have xpq: "x \<noteq> ?p" "x \<noteq> ?q"
    using x end_nodes(1) [of head as] end_nodes(2) [of bs head] by auto
  note f = insert_fields [OF xpq, of h]
  show "distinct (head # as @ x # bs)"
    using d x by auto
  have "?p \<notin> set (butlast (head # as))"
    using d append_butlast_last_id [of "head # as"] distinct_append [of "butlast (head # as)" "[?p]"]
    by (simp del: butlast.simps last.simps)
  moreover have "?q \<notin> set as"
    using d end_nodes(2) [of bs head] by auto
  ultimately show "chain ?h (head # as)"
    using x by (intro chain_frame [OF is_list_halves(1) [OF l]])
      (auto simp del: butlast.simps last.simps simp: f dest: in_set_butlastD)
  have "?p \<notin> set bs"
    using d end_nodes(1) [of head as] by auto
  moreover have "?q \<notin> set (tl (bs @ [head]))"
    using d by (cases bs) auto
  moreover have "x \<notin> set (tl (bs @ [head]))"
    using x by (cases bs) auto
  ultimately have "chain ?h (bs @ [head])"
    using x by (intro chain_frame [OF is_list_halves(2) [OF l]]) (auto simp: f simp del: last.simps)
  moreover have "ln_next ?h x = ?q" "ln_prev ?h ?q = x"
    using xpq by (auto simp: f simp del: last.simps)
  ultimately show "chain ?h ((x # bs) @ [head])"
    by (cases bs) auto
  show "ln_next ?h ?p = x" "ln_prev ?h x = ?p"
    using xpq by (auto simp: f simp del: last.simps)
qed auto

lemma list_node_remove_is_list:
  assumes l: "is_list h head (as @ n # bs)"
  shows "is_list (list_node_remove h n) head (as @ bs)" (is "is_list ?h _ _")
    and "ln_next (list_node_remove h n) n = n" "ln_prev (list_node_remove h n) n = n"
proof -
  let ?p = "last (head # as)" and ?q = "hd (bs @ [head])"
  have d: "distinct (head # as @ n # bs)"
    using is_list_distinct [OF l] .
  have pq: "ln_prev h n = ?p" "ln_next h n = ?q"
    using is_list_nodes [OF l] .
  have npq: "ln_prev h n \<noteq> n" "ln_next h n \<noteq> n"
    unfolding pq using d end_nodes(1) [of head as] end_nodes(2) [of bs head] by auto
  note f = remove_fields [OF npq, unfolded pq]
  have l2: "is_list h head ((as @ [n]) @ bs)"
    using l by simp
  show "is_list ?h head (as @ bs)"
  proof (rule is_list_relink [OF _ _ _ refl refl])
    show "distinct (head # as @ bs)"
      using d by auto
    have "?p \<notin> set (butlast (head # as))"
      using d append_butlast_last_id [of "head # as"] distinct_append [of "butlast (head # as)" "[?p]"]
      by (simp del: butlast.simps last.simps)
    moreover have "?q \<notin> set as"
      using d end_nodes(2) [of bs head] by auto
    moreover have "n \<notin> set (butlast (head # as))"
      using d by (auto simp del: butlast.simps dest: in_set_butlastD)
    ultimately show "chain ?h (head # as)"
      using d by (intro chain_frame [OF is_list_halves(1) [OF l]])
        (auto simp del: butlast.simps last.simps simp: f)
    have "?p \<notin> set bs"
      using d end_nodes(1) [of head as] by auto
    moreover have "?q \<notin> set (tl (bs @ [head]))" "n \<notin> set (tl (bs @ [head]))"
      using d by (cases bs; auto)+
    ultimately show "chain ?h (bs @ [head])"
      using d by (intro chain_frame [OF is_list_halves(2) [OF l2]])
        (auto simp: f simp del: last.simps)
    show "ln_next ?h ?p = ?q" "ln_prev ?h ?q = ?p"
      using npq pq by (auto simp: f simp del: last.simps)
  qed
  show "ln_next ?h n = n" "ln_prev ?h n = n"
    by (simp_all add: f)
qed

lemma list_node_insert_other:
  assumes "is_list h head (as @ bs)" "is_list h head' ms"
    and "set (head' # ms) \<inter> set (x # head # as @ bs) = {}"
  shows "is_list (list_node_insert h (last (head # as)) x (hd (bs @ [head]))) head' ms"
proof (rule is_list_frame [OF assms(2)])
  fix y assume y: "y \<in> set (head' # ms)"
  then have "y \<noteq> x" "y \<noteq> last (head # as)" "y \<noteq> hd (bs @ [head])"
    using assms(3) end_nodes(1) [of head as] end_nodes(2) [of bs head] by auto
  then show "ln_next (list_node_insert h (last (head # as)) x (hd (bs @ [head]))) y = ln_next h y"
    "ln_prev (list_node_insert h (last (head # as)) x (hd (bs @ [head]))) y = ln_prev h y"
    by (simp_all add: list_node_insert_def Let_def del: last.simps)
qed

lemma list_node_remove_other:
  assumes l: "is_list h head (as @ n # bs)" and "is_list h head' ms"
    and "set (head' # ms) \<inter> set (head # as @ n # bs) = {}"
  shows "is_list (list_node_remove h n) head' ms"
proof (rule is_list_frame [OF assms(2)])
  fix y assume y: "y \<in> set (head' # ms)"
  then have "y \<noteq> n" "y \<noteq> ln_prev h n" "y \<noteq> ln_next h n"
    using is_list_nodes [OF l] assms(3) end_nodes(1) [of head as] end_nodes(2) [of bs head] by auto
  then show "ln_next (list_node_remove h n) y = ln_next h y"
    "ln_prev (list_node_remove h n) y = ln_prev h y"
    by (auto simp add: list_node_remove_def Let_def)
qed

lemma insert_before_as_insert:
  assumes "is_list h head (as @ bs)"
  shows "list_node_insert_before h (hd (bs @ [head])) x =
         list_node_insert h (last (head # as)) x (hd (bs @ [head]))"
proof (cases bs)
  case Nil
  then show ?thesis
    using is_list_ends(2) [OF assms] by (simp add: list_node_insert_before_def)
next
  case (Cons b bs')
  then show ?thesis
    using is_list_nodes(1) [of h head as b bs'] assms by (simp add: list_node_insert_before_def)
qed

lemma append_as_insert_before: "list_node_append h head x = list_node_insert_before h head x"
  by (simp add: list_node_append_def list_node_insert_before_def)

lemma insert_after_as_insert:
  assumes "is_list h head (as @ bs)"
  shows "list_node_insert_after h (last (head # as)) x =
         list_node_insert h (last (head # as)) x (hd (bs @ [head]))"
proof (cases as rule: rev_cases)
  case Nil
  then show ?thesis
    using is_list_ends(1) [OF assms] by (simp add: list_node_insert_after_def)
next
  case (snoc as' a)
  then show ?thesis
    using is_list_nodes(2) [of h head as' a bs] assms by (simp add: list_node_insert_after_def)
qed

lemma prepend_as_insert_after: "list_node_prepend h head x = list_node_insert_after h head x"
  by (simp add: list_node_prepend_def list_node_insert_after_def)

lemma is_list_init: "is_list (linked_list_init h head) head []"
  by (simp add: linked_list_init_def is_list_def Let_def)

lemma is_list_init_other:
  "is_list h head' ms \<Longrightarrow> head \<notin> set (head' # ms) \<Longrightarrow> is_list (linked_list_init h head) head' ms"
  by (rule is_list_frame) (auto simp: linked_list_init_def Let_def)

lemma list_is_empty_iff: "is_list h head ns \<Longrightarrow> list_is_empty h head \<longleftrightarrow> ns = []"
  using is_list_ends(1) [of h head ns]
  by (cases ns) (auto simp: list_is_empty_def is_list_def)

lemma list_node_pop_eq:
  "is_list h head (n # ns) \<Longrightarrow> list_node_pop h head = (list_node_remove h n, n)"
  using is_list_ends(1) [of h head "n # ns"] by (simp add: list_node_pop_def)

text \<open>The loops over a represented list end and see its nodes in their order.\<close>

lemma list_find_suffix:
  "is_list h head (as @ bs) \<Longrightarrow> list_find h head p (hd (bs @ [head])) = Some (find p bs)"
proof (induction bs arbitrary: as)
  case Nil
  then show ?case by (subst list_find.simps) simp
next
  case (Cons b bs)
  then have "b \<noteq> head" "ln_next h b = hd (bs @ [head])"
    using is_list_nodes(2) [of h head as b bs] is_list_distinct [OF Cons.prems] by auto
  with Cons.IH [of "as @ [b]"] Cons.prems show ?case
    by (subst list_find.simps) simp
qed

lemma list_visit_suffix:
  "is_list h head (as @ bs) \<Longrightarrow> list_visit h head (hd (bs @ [head])) = Some bs"
proof (induction bs arbitrary: as)
  case Nil
  then show ?case by (subst list_visit.simps) simp
next
  case (Cons b bs)
  then have "b \<noteq> head" "ln_next h b = hd (bs @ [head])"
    using is_list_nodes(2) [of h head as b bs] is_list_distinct [OF Cons.prems] by auto
  with Cons.IH [of "as @ [b]"] Cons.prems show ?case
    by (subst list_visit.simps) simp
qed

lemma list_find_is_list: "is_list h head ns \<Longrightarrow> list_find h head p (ln_next h head) = Some (find p ns)"
  using list_find_suffix [of h head "[]" ns p] is_list_ends(1) [of h head ns] by simp

lemma list_visit_is_list: "is_list h head ns \<Longrightarrow> list_visit h head (ln_next h head) = Some ns"
  using list_visit_suffix [of h head "[]" ns] is_list_ends(1) [of h head ns] by simp

section \<open>The contract\<close>

locale intrusive_list =
  fixes rep :: "'h \<Rightarrow> 'n \<Rightarrow> 'n list \<Rightarrow> bool"
    and init :: "'h \<Rightarrow> 'n \<Rightarrow> 'h"
    and insert_before :: "'h \<Rightarrow> 'n \<Rightarrow> 'n \<Rightarrow> 'h"
    and remove :: "'h \<Rightarrow> 'n \<Rightarrow> 'h"
    and first :: "'h \<Rightarrow> 'n \<Rightarrow> 'n"
    and search :: "'h \<Rightarrow> 'n \<Rightarrow> ('n \<Rightarrow> bool) \<Rightarrow> 'n \<Rightarrow> 'n option option"
  assumes rep_distinct: "rep h head ns \<Longrightarrow> distinct (head # ns)"
    and init_law: "rep (init h head) head []"
    and init_other: "rep h head' ms \<Longrightarrow> head \<notin> set (head' # ms) \<Longrightarrow> rep (init h head) head' ms"
    and insert_law: "rep h head (as @ bs) \<Longrightarrow> x \<notin> set (head # as @ bs) \<Longrightarrow>
      rep (insert_before h (hd (bs @ [head])) x) head (as @ x # bs)"
    and insert_other: "rep h head (as @ bs) \<Longrightarrow> rep h head' ms \<Longrightarrow>
      set (head' # ms) \<inter> set (x # head # as @ bs) = {} \<Longrightarrow>
      rep (insert_before h (hd (bs @ [head])) x) head' ms"
    and remove_law: "rep h head (as @ n # bs) \<Longrightarrow> rep (remove h n) head (as @ bs)"
    and remove_other: "rep h head (as @ n # bs) \<Longrightarrow> rep h head' ms \<Longrightarrow>
      set (head' # ms) \<inter> set (head # as @ n # bs) = {} \<Longrightarrow> rep (remove h n) head' ms"
    and first_law: "rep h head ns \<Longrightarrow> first h head = hd (ns @ [head])"
    and search_law: "rep h head ns \<Longrightarrow> search h head p (first h head) = Some (find p ns)"
begin

lemma remove_member:
  assumes "rep h head ns" "n \<in> set ns"
  shows "rep (remove h n) head (remove1 n ns)"
proof -
  obtain as bs where ns: "ns = as @ n # bs" "n \<notin> set as"
    using split_list_first [OF assms(2)] by blast
  then show ?thesis
    using remove_law assms(1) by (simp add: remove1_append)
qed

lemma remove_member_other:
  assumes "rep h head ns" "n \<in> set ns" "rep h head' ms" "set (head' # ms) \<inter> set (head # ns) = {}"
  shows "rep (remove h n) head' ms"
  using remove_other [of h head _ n _ head' ms] assms split_list [OF assms(2)] by metis

text \<open>Inserting a node where the first node satisfying a test was found, or at the end.\<close>

definition place :: "('n \<Rightarrow> bool) \<Rightarrow> 'n \<Rightarrow> 'n list \<Rightarrow> 'n list" where
  "place p x ns = takeWhile (\<lambda>y. \<not> p y) ns @ x # dropWhile (\<lambda>y. \<not> p y) ns"

lemma search_place:
  assumes l: "rep h head ns" and x: "x \<notin> set (head # ns)"
  shows "\<exists>r. search h head p (first h head) = Some r \<and>
           rep (insert_before h (case r of None \<Rightarrow> head | Some v \<Rightarrow> v) x) head (place p x ns) \<and>
           (\<forall>head' ms. rep h head' ms \<longrightarrow> set (head' # ms) \<inter> set (x # head # ns) = {} \<longrightarrow>
              rep (insert_before h (case r of None \<Rightarrow> head | Some v \<Rightarrow> v) x) head' ms)"
proof -
  let ?as = "takeWhile (\<lambda>y. \<not> p y) ns" and ?bs = "dropWhile (\<lambda>y. \<not> p y) ns"
  have at: "(case find p ns of None \<Rightarrow> head | Some v \<Rightarrow> v) = hd (?bs @ [head])"
    by (induction ns) auto
  have split: "rep h head (?as @ ?bs)" "set (?as @ ?bs) = set ns"
    using l by simp_all
  then show ?thesis
    using search_law [OF l, of p] insert_law [OF split(1), of x] x
      insert_other [OF split(1)] at
    unfolding place_def by auto
qed

end

interpretation ll: intrusive_list is_list linked_list_init list_node_insert_before list_node_remove
  "\<lambda>h head. ln_next h head" list_find
proof
  fix h :: "'a list_heap" and head x and as bs :: "'a list"
  assume l: "is_list h head (as @ bs)" and x: "x \<notin> set (head # as @ bs)"
  show "is_list (list_node_insert_before h (hd (bs @ [head])) x) head (as @ x # bs)"
    unfolding insert_before_as_insert [OF l] by (rule list_node_insert_is_list [OF l x])
next
  fix h :: "'a list_heap" and head x head' and as bs ms :: "'a list"
  assume l: "is_list h head (as @ bs)" and o: "is_list h head' ms"
    "set (head' # ms) \<inter> set (x # head # as @ bs) = {}"
  show "is_list (list_node_insert_before h (hd (bs @ [head])) x) head' ms"
    unfolding insert_before_as_insert [OF l] by (rule list_node_insert_other [OF l o])
qed (fact is_list_distinct is_list_init is_list_init_other list_node_remove_is_list(1)
      list_node_remove_other is_list_ends(1) list_find_is_list)+

section \<open>Properties\<close>

definition two_nodes :: "nat list_heap" where
  "two_nodes = list_node_append (list_node_append
     (linked_list_init \<lparr>ln_prev = (\<lambda>_. 0), ln_next = (\<lambda>_. 0)\<rparr> 9) 9 1) 9 2"

lemmas list_code = two_nodes_def list_node_append_def list_node_prepend_def list_node_insert_def
  list_node_remove_def linked_list_init_def set_prev_def set_next_def Let_def

lemma two_nodes_is_list: "is_list two_nodes 9 [1, 2]"
  by (simp add: is_list_def list_code)

text \<open>
  C21: \<^verbatim>\<open>list_node_remove\<close> takes exactly its node out of the list it is on: the other nodes keep
  their order, the removed node becomes an empty list of its own, and every list that shares no
  node with this one is unchanged.
\<close>

theorem list_node_remove_correct:
  assumes "is_list h head (as @ n # bs)"
  shows "is_list (list_node_remove h n) head (as @ bs) \<and> is_list (list_node_remove h n) n [] \<and>
     (\<forall>head' ms. is_list h head' ms \<and> set (head' # ms) \<inter> set (head # as @ n # bs) = {} \<longrightarrow>
        is_list (list_node_remove h n) head' ms)"
  using list_node_remove_is_list [OF assms] list_node_remove_other [OF assms]
  by (auto simp: is_list_def)

theorem list_node_remove_correct_witness:
  "is_list two_nodes 9 [1, 2] \<and> is_list (list_node_remove two_nodes 1) 9 [2] \<and>
   is_list (list_node_remove two_nodes 1) 1 []"
  using list_node_remove_correct [of two_nodes 9 "[]" 1 "[2]"] two_nodes_is_list by simp

text \<open>
  The four insertions put a node that is not yet on the list at the place their names say, for
  a list of any length: at either end of the list, and directly before or after one of its nodes.
\<close>

theorem list_insertions_correct:
  assumes "is_list h head (as @ e # bs)" "x \<notin> set (head # as @ e # bs)"
  shows "is_list (list_node_prepend h head x) head (x # as @ e # bs) \<and>
         is_list (list_node_append h head x) head (as @ e # bs @ [x]) \<and>
         is_list (list_node_insert_before h e x) head (as @ x # e # bs) \<and>
         is_list (list_node_insert_after h e x) head (as @ e # x # bs)"
proof -
  have m: "is_list h head ((as @ [e]) @ bs)" and z: "is_list h head ((as @ e # bs) @ [])"
    and a: "is_list h head ([] @ as @ e # bs)"
    using assms(1) by simp_all
  have "is_list (list_node_insert_after h (last (head # as @ [e])) x) head ((as @ [e]) @ x # bs)"
    unfolding insert_after_as_insert [OF m] by (rule list_node_insert_is_list [OF m]) (use assms(2) in auto)
  moreover have "is_list (list_node_insert_after h (last [head]) x) head ([] @ x # as @ e # bs)"
    unfolding insert_after_as_insert [OF a] by (rule list_node_insert_is_list [OF a]) (use assms(2) in auto)
  ultimately show ?thesis
    using ll.insert_law [OF z, of x] ll.insert_law [OF assms] assms(2)
    by (simp add: append_as_insert_before prepend_as_insert_after)
qed

theorem list_insertions_correct_witness:
  "is_list (list_node_prepend two_nodes 9 5) 9 [5, 1, 2] \<and>
   is_list (list_node_append two_nodes 9 5) 9 [1, 2, 5] \<and>
   is_list (list_node_insert_before two_nodes 2 5) 9 [1, 5, 2] \<and>
   is_list (list_node_insert_after two_nodes 2 5) 9 [1, 2, 5]"
  using list_insertions_correct [of two_nodes 9 "[1]" 2 "[]" 5] two_nodes_is_list by simp

text \<open>
  \<^verbatim>\<open>list_foreach\<close> over a well-formed list ends; it visits the nodes of the list in their
  order, and a loop that breaks at the first node satisfying a condition stops there.
\<close>

theorem list_foreach_correct:
  assumes "is_list h head ns"
  shows "list_visit h head (ln_next h head) = Some ns \<and>
         list_find h head p (ln_next h head) = Some (find p ns)"
  using list_visit_is_list [OF assms] list_find_is_list [OF assms] by simp

theorem list_foreach_correct_witness:
  "list_visit two_nodes 9 (ln_next two_nodes 9) = Some [1, 2] \<and>
   list_find two_nodes 9 (\<lambda>n. n > 1) (ln_next two_nodes 9) = Some (Some 2)"
  using list_foreach_correct [OF two_nodes_is_list, of "\<lambda>n. n > 1"] by simp

end
