(* ===== verification/BuddyBlocks.thy ===== *)
theory BuddyBlocks
  imports MOS_Prelude
begin

text \<open>
  The arithmetic of the buddy system, apart from the data structures: the aligned blocks of a
  power of two of frames, the buddy of a block, and sets of pairwise disjoint blocks.  A block is
  a pair of its first frame number and its order.
\<close>

unbundle bit_operations_syntax

section \<open>Definitions\<close>

definition max_order :: nat where
  "max_order = 25"

text \<open>\<^verbatim>\<open>get_buddy_pfn\<close>: the exclusive or of the frame number and the size of the block.\<close>

definition get_buddy_pfn :: "nat \<Rightarrow> nat \<Rightarrow> nat" where
  "get_buddy_pfn page_pfn order = page_pfn XOR 2 ^ order"

definition frames_of :: "nat \<Rightarrow> nat \<Rightarrow> nat set" where
  "frames_of p k = {p..<p + 2 ^ k}"

definition cover :: "(nat \<times> nat) set \<Rightarrow> nat set" where
  "cover B = (\<Union>(p, k)\<in>B. frames_of p k)"

definition blocks_ok :: "nat \<Rightarrow> (nat \<times> nat) set \<Rightarrow> bool" where
  "blocks_ok N B \<longleftrightarrow> finite B \<and>
     (\<forall>p k. (p, k) \<in> B \<longrightarrow> k \<le> max_order \<and> 2 ^ k dvd p \<and> p + 2 ^ k \<le> N) \<and>
     (\<forall>p k q l. (p, k) \<in> B \<longrightarrow> (q, l) \<in> B \<longrightarrow> frames_of p k \<inter> frames_of q l \<noteq> {} \<longrightarrow> p = q \<and> k = l)"

section \<open>Aligned blocks\<close>

lemma frames_of_iff [simp]: "b \<in> frames_of p k \<longleftrightarrow> p \<le> b \<and> b < p + 2 ^ k"
  by (simp add: frames_of_def)

lemma base_in_frames [simp]: "p \<in> frames_of p k"
  by simp

lemma frames_of_0 [simp]: "frames_of p 0 = {p}"
  by (auto simp: frames_of_def)

lemma frames_of_split:
  "frames_of p (Suc k) = frames_of p k \<union> frames_of (p + 2 ^ k) k"
  "frames_of p k \<inter> frames_of (p + 2 ^ k) k = {}"
  by auto

lemma aligned_le:
  fixes x q b d :: nat
  assumes "d dvd x" "d dvd q" "q < x + d"
  shows "q \<le> x"
proof -
  obtain m n where "x = d * m" "q = d * n"
    using assms by (auto elim!: dvdE)
  moreover from this have "d * n < d * (m + 1)"
    using assms(3) by (simp add: algebra_simps)
  then have "n < m + 1"
    by (simp only: nat_mult_less_cancel_disj)
  ultimately show ?thesis
    by simp
qed

lemma aligned_nested:
  assumes "2 ^ i dvd x" "2 ^ k dvd q" "i \<le> k" "frames_of x i \<inter> frames_of q k \<noteq> {}"
  shows "frames_of x i \<subseteq> frames_of q k"
proof -
  obtain b where b: "x \<le> b" "b < x + 2 ^ i" "q \<le> b" "b < q + 2 ^ k"
    using assms(4) by auto
  have d: "(2::nat) ^ i dvd 2 ^ k"
    using assms(3) by (rule le_imp_power_dvd)
  have q: "2 ^ i dvd q" "(2::nat) ^ i dvd q + 2 ^ k"
    using dvd_trans [OF d assms(2)] d by simp_all
  have "q \<le> x"
    using aligned_le [OF assms(1) q(1)] b by simp
  moreover have "x + 2 ^ i \<le> q + 2 ^ k"
  proof -
    have "2 ^ i dvd x + 2 ^ i"
      using assms(1) by simp
    then have "x + 2 ^ i \<le> q + 2 ^ k"
      by (rule aligned_le [OF q(2)]) (use b in linarith)
    then show ?thesis .
  qed
  ultimately show ?thesis
    by auto
qed

lemma interior_order_less:
  assumes "2 ^ k dvd q" "b \<in> frames_of q k" "b \<noteq> q" "2 ^ i dvd b"
  shows "i < k"
proof (rule ccontr)
  assume "\<not> i < k"
  then have "2 ^ k dvd b"
    using assms(4) by (meson dvd_trans le_imp_power_dvd not_less)
  then have "b \<le> q"
    using aligned_le [OF assms(1)] assms(2) by auto
  with assms(2,3) show False by auto
qed

section \<open>Buddies\<close>

lemma buddy_eq:
  assumes "2 ^ k dvd p"
  shows "get_buddy_pfn p k = (if 2 ^ Suc k dvd p then p + 2 ^ k else p - 2 ^ k)"
proof -
  obtain m where p: "p = 2 ^ k * m"
    using assms by blast
  have "p XOR 2 ^ k = push_bit k m XOR push_bit k 1"
    by (simp add: p push_bit_eq_mult mult.commute)
  also have "\<dots> = push_bit k (m XOR 1)"
    by simp
  also have "\<dots> = 2 ^ k * (m + of_bool (even m) - of_bool (odd m))"
    unfolding xor_one_eq by (simp add: push_bit_eq_mult mult.commute)
  finally have "get_buddy_pfn p k = 2 ^ k * (m + of_bool (even m) - of_bool (odd m))"
    by (simp add: get_buddy_pfn_def)
  moreover have "2 ^ Suc k dvd p \<longleftrightarrow> even m"
    by (simp add: p)
  ultimately show ?thesis
    by (auto simp: p algebra_simps)
qed

lemma odd_block_ge: "2 ^ k dvd p \<Longrightarrow> \<not> 2 ^ Suc k dvd p \<Longrightarrow> (2::nat) ^ k \<le> p"
  by (metis dvd_0_right dvd_imp_le gr0I)

lemma buddy_aligned: "2 ^ k dvd p \<Longrightarrow> 2 ^ k dvd get_buddy_pfn p k"
  by (simp add: buddy_eq)

lemma buddy_min_aligned:
  assumes "2 ^ k dvd p"
  shows "2 ^ Suc k dvd min p (get_buddy_pfn p k)"
proof (cases "2 ^ Suc k dvd p")
  case True
  then show ?thesis using assms by (simp add: buddy_eq min_def)
next
  case False
  obtain m where p: "p = 2 ^ k * m"
    using assms by blast
  with False have "odd m" by simp
  then obtain n where "m = 2 * n + 1" by (auto elim: oddE)
  then have "p - 2 ^ k = 2 ^ Suc k * n"
    by (simp add: p algebra_simps)
  moreover have "min p (p - 2 ^ k) = p - 2 ^ k"
    by simp
  ultimately show ?thesis
    using False by (simp add: buddy_eq [OF assms])
qed

lemma buddy_union:
  assumes "2 ^ k dvd p"
  shows "frames_of (min p (get_buddy_pfn p k)) (Suc k) = frames_of p k \<union> frames_of (get_buddy_pfn p k) k"
    "frames_of p k \<inter> frames_of (get_buddy_pfn p k) k = {}"
  using assms odd_block_ge [OF assms] by (auto simp: buddy_eq min_def)

lemma buddy_involution:
  assumes "2 ^ k dvd p"
  shows "get_buddy_pfn (get_buddy_pfn p k) k = p"
  by (simp add: get_buddy_pfn_def xor.assoc)

text \<open>The buddy of an aligned part of a block lies in the same block.\<close>

lemma buddy_inside:
  assumes "2 ^ k dvd q" "b \<in> frames_of q k" "2 ^ i dvd b" "i < k"
  shows "frames_of (get_buddy_pfn b i) i \<subseteq> frames_of q k"
proof -
  have "frames_of (min b (get_buddy_pfn b i)) (Suc i) \<subseteq> frames_of q k"
  proof (rule aligned_nested [OF buddy_min_aligned [OF assms(3)] assms(1)])
    have "b \<in> frames_of (min b (get_buddy_pfn b i)) (Suc i)"
      using buddy_union(1) [OF assms(3)] by simp
    with assms(2) show "frames_of (min b (get_buddy_pfn b i)) (Suc i) \<inter> frames_of q k \<noteq> {}"
      by blast
  qed (use assms in simp)
  then show ?thesis
    using buddy_union(1) [OF assms(3)] by blast
qed

section \<open>Sets of blocks\<close>

lemma cover_insert [simp]: "cover (insert (p, k) B) = frames_of p k \<union> cover B"
  by (auto simp: cover_def)

lemma cover_empty [simp]: "cover {} = {}"
  by (simp add: cover_def)

lemma in_cover: "b \<in> cover B \<longleftrightarrow> (\<exists>p k. (p, k) \<in> B \<and> p \<le> b \<and> b < p + 2 ^ k)"
  by (fastforce simp: cover_def)

lemma blocks_okD:
  assumes "blocks_ok N B" "(p, k) \<in> B"
  shows "k \<le> max_order" "2 ^ k dvd p" "p + 2 ^ k \<le> N" "finite B" "p < N"
proof -
  show *: "k \<le> max_order" "2 ^ k dvd p" "p + 2 ^ k \<le> N" "finite B"
    using assms by (auto simp: blocks_ok_def)
  then show "p < N"
    using zero_less_power [of "2::nat" k] by linarith
qed

lemma blocks_ok_unique:
  assumes "blocks_ok N B" "(p, k) \<in> B" "(q, l) \<in> B" "b \<in> frames_of p k" "b \<in> frames_of q l"
  shows "p = q \<and> k = l"
  using assms unfolding blocks_ok_def by blast

lemma blocks_ok_remove: "blocks_ok N B \<Longrightarrow> blocks_ok N (B - {(p, k)})"
  unfolding blocks_ok_def by blast

lemma cover_remove:
  assumes "blocks_ok N B" "(p, k) \<in> B"
  shows "cover (B - {(p, k)}) = cover B - frames_of p k"
  using blocks_ok_unique [OF assms(1,2)] unfolding cover_def by blast

lemma blocks_ok_insert:
  assumes "blocks_ok N B" "k \<le> max_order" "2 ^ k dvd p" "p + 2 ^ k \<le> N" "frames_of p k \<inter> cover B = {}"
  shows "blocks_ok N (insert (p, k) B)"
proof -
  have "frames_of p k \<inter> frames_of q l = {}" if "(q, l) \<in> B" for q l
    using assms(5) that by (auto simp: cover_def simp del: frames_of_iff)
  then show ?thesis
    using assms(1-4) unfolding blocks_ok_def by (auto simp del: frames_of_iff; blast)
qed

lemma cover_bound: "blocks_ok N B \<Longrightarrow> b \<in> cover B \<Longrightarrow> b < N"
  using blocks_okD(3) by (fastforce simp: in_cover)

lemma blocks_ok_split:
  assumes B: "blocks_ok N B" and "(p, Suc k) \<in> B"
  shows "blocks_ok N (insert (p + 2 ^ k, k) (insert (p, k) (B - {(p, Suc k)})))"
    "cover (insert (p + 2 ^ k, k) (insert (p, k) (B - {(p, Suc k)}))) = cover B"
proof -
  note d = blocks_okD [OF assms]
  have a: "2 ^ k dvd p"
    using d(2) by (metis dvd_mult_right power_Suc)
  have c: "cover (B - {(p, Suc k)}) = cover B - frames_of p (Suc k)"
    by (rule cover_remove [OF assms])
  have B1: "blocks_ok N (insert (p, k) (B - {(p, Suc k)}))"
    by (rule blocks_ok_insert [OF blocks_ok_remove [OF B]])
      (use d a c frames_of_split [of p k] in auto)
  show "blocks_ok N (insert (p + 2 ^ k, k) (insert (p, k) (B - {(p, Suc k)})))"
    by (rule blocks_ok_insert [OF B1]) (use d a c frames_of_split [of p k] in auto)
  have "frames_of p (Suc k) \<subseteq> cover B"
    using assms(2) by (auto simp: cover_def)
  then show "cover (insert (p + 2 ^ k, k) (insert (p, k) (B - {(p, Suc k)}))) = cover B"
    using c by (auto simp: frames_of_split simp del: frames_of_iff)
qed

end
