(* ===== verification/Buddy.thy ===== *)
theory Buddy
  imports LinkedList BuddyBlocks
begin

text \<open>
  The buddy allocator of \<^verbatim>\<open>kernel/mm/physical/buddy_core.c\<close> over the frame array of
  \<^verbatim>\<open>kernel/include/private/mos/mm/physical/pmm.h\<close>.  The free lists are lists of the heap of
  theory \<open>LinkedList\<close>: a node is the head of one of the 26 free lists or the list node of a frame.
  A pointer to a frame is its frame number.  Frame numbers, frame counts and orders are naturals:
  a physical address has at most 52 bits, so that no sum of the code comes near to \<open>2 ^ 64\<close>.
  An access beyond the frame array or the array of free lists, and the shift of \<^verbatim>\<open>pow2(order - 1)\<close>
  for order 0, are faults.
\<close>

section \<open>Definitions\<close>

datatype phyframe_state = PHYFRAME_RESERVED | PHYFRAME_FREE | PHYFRAME_ALLOCATED

record phyframe =
  pf_state :: phyframe_state
  pf_order :: nat
  pf_refcount :: size_t

datatype node = Freelist nat | Frame nat

record pmm =
  pmm_heap :: "node list_heap"
  phyframes :: "nat \<Rightarrow> phyframe"
  pmm_total_frames :: nat
  pmm_allocated_frames :: size_t
  pmm_reserved_frames :: size_t

text \<open>
  \<^verbatim>\<open>pfn_phyframe\<close> and \<^verbatim>\<open>phyframe_pfn\<close>: the array has \<^verbatim>\<open>pmm_total_frames\<close> elements, and only the
  node of a frame has a frame number.
\<close>

definition pfn_phyframe :: "pmm \<Rightarrow> nat \<Rightarrow> phyframe option" where
  "pfn_phyframe s pfn = (if pfn < pmm_total_frames s then Some (phyframes s pfn) else None)"

fun phyframe_pfn :: "node \<Rightarrow> nat option" where
  "phyframe_pfn (Frame pfn) = Some pfn"
| "phyframe_pfn (Freelist _) = None"

definition upd_frame :: "nat \<Rightarrow> (phyframe \<Rightarrow> phyframe) \<Rightarrow> pmm \<Rightarrow> pmm" where
  "upd_frame pfn f s = s\<lparr>phyframes := (phyframes s)(pfn := f (phyframes s pfn))\<rparr>"

definition upd_heap :: "(node list_heap \<Rightarrow> node list_heap) \<Rightarrow> pmm \<Rightarrow> pmm" where
  "upd_heap f s = s\<lparr>pmm_heap := f (pmm_heap s)\<rparr>"

text \<open>\<^verbatim>\<open>log2\<close> is 0 for 0 and the index of the highest set bit otherwise.\<close>

fun log2 :: "nat \<Rightarrow> nat" where
  "log2 x = (if x \<le> 1 then 0 else Suc (log2 (x div 2)))"

declare log2.simps [simp del]

definition log2_ceil :: "nat \<Rightarrow> nat" where
  "log2_ceil x = log2 x + (if 2 ^ log2 x < x then 1 else 0)"

text \<open>The node pointers of frames compare as the frame numbers do: the frames form one array.\<close>

fun node_before :: "node \<Rightarrow> nat \<Rightarrow> bool" where
  "node_before (Frame p) pfn = (p < pfn)"
| "node_before (Freelist _) pfn = False"

definition add_to_freelist :: "nat \<Rightarrow> nat \<Rightarrow> pmm \<Rightarrow> pmm option" where
  "add_to_freelist order pfn s = do {
     frame \<leftarrow> pfn_phyframe s pfn;
     mos_assert (pf_state frame = PHYFRAME_FREE);
     let s = upd_frame pfn (pf_order_update (\<lambda>_. order)) s;
     mos_assert (list_is_empty (pmm_heap s) (Frame pfn));
     mos_assert (order \<le> max_order);
     let head = Freelist order;
     node \<leftarrow> list_find (pmm_heap s) head (\<lambda>v. \<not> node_before v pfn) (ln_next (pmm_heap s) head);
     let node = (case node of None \<Rightarrow> head | Some v \<Rightarrow> v);
     Some (upd_heap (\<lambda>h. list_node_insert_before h node (Frame pfn)) s) }"

lemma step_measure: "c + 2 ^ k \<le> (e::nat) \<Longrightarrow> e - (c + 2 ^ k) < e - c"
  using zero_less_power [of "2::nat" k] by linarith

text \<open>\<^verbatim>\<open>populate_freelist\<close>: the loop over the blocks of one order, then the smaller orders.\<close>

function populate_loop :: "nat \<Rightarrow> nat \<Rightarrow> nat \<Rightarrow> nat \<Rightarrow> pmm \<Rightarrow> (pmm \<times> nat \<times> nat) option" where
  "populate_loop order end_pfn current nframes_left s =
     (if current + 2 ^ order \<le> end_pfn then do {
        frame \<leftarrow> pfn_phyframe s current;
        let s = upd_heap (\<lambda>h. linked_list_init h (Frame current)) s;
        let s = upd_frame current (pf_state_update (\<lambda>_. PHYFRAME_FREE)) s;
        let s = upd_frame current (pf_order_update (\<lambda>_. order)) s;
        s \<leftarrow> add_to_freelist order current s;
        populate_loop order end_pfn (current + 2 ^ order) (nframes_left - 2 ^ order) s }
      else Some (s, current, nframes_left))"
  by pat_completeness auto
termination
  by (relation "measure (\<lambda>(order, e, c, n, s). e - c)") (auto simp: step_measure)

fun populate_freelist :: "nat \<Rightarrow> nat \<Rightarrow> nat \<Rightarrow> pmm \<Rightarrow> pmm option" where
  "populate_freelist start_pfn nframes order s = do {
     (s, current, nframes_left) \<leftarrow> populate_loop order (start_pfn + nframes) start_pfn nframes s;
     if nframes_left \<noteq> 0 then
       (case order of 0 \<Rightarrow> None | Suc o' \<Rightarrow> populate_freelist current nframes_left o' s)
     else Some s }"

definition break_this_pfn :: "nat \<Rightarrow> nat \<Rightarrow> pmm \<Rightarrow> pmm option" where
  "break_this_pfn this_pfn this_order s = do {
     frame \<leftarrow> pfn_phyframe s this_pfn;
     mos_assert (pf_state frame = PHYFRAME_FREE);
     let s = upd_heap (\<lambda>h. list_node_remove h (Frame this_pfn)) s;
     mos_assert (this_order \<noteq> 0);
     let frame2_pfn = this_pfn + 2 ^ (this_order - 1);
     frame2 \<leftarrow> pfn_phyframe s frame2_pfn;
     let s = upd_heap (\<lambda>h. linked_list_init h (Frame frame2_pfn)) s;
     let s = upd_frame frame2_pfn (pf_state_update (\<lambda>_. pf_state (phyframes s this_pfn))) s;
     s \<leftarrow> add_to_freelist (this_order - 1) this_pfn s;
     add_to_freelist (this_order - 1) frame2_pfn s }"

text \<open>
  \<^verbatim>\<open>extract_exact_range\<close>: the round of the inner loop for one order, the inner loop over the
  orders from \<^verbatim>\<open>max_order\<close> down, and the outer loop.  The state of the loops is the allocator, the
  first frame still to be extracted and the number of frames left.
\<close>

definition extract_hit :: "nat \<Rightarrow> nat \<Rightarrow> node \<Rightarrow> bool" where
  "extract_hit order start f = (case f of
     Frame start_pfn \<Rightarrow>
       start_pfn = start \<or> (start_pfn \<le> start \<and> start_pfn + 2 ^ order - 1 \<ge> start)
   | Freelist _ \<Rightarrow> False)"

definition extract_order ::
  "phyframe_state \<Rightarrow> nat \<Rightarrow> pmm \<times> nat \<times> nat \<Rightarrow> (pmm \<times> nat \<times> nat) option" where
  "extract_order state order = (\<lambda>(s, start, nframes). do {
     hit \<leftarrow> list_find (pmm_heap s) (Freelist order) (extract_hit order start)
             (ln_next (pmm_heap s) (Freelist order));
     case hit of
       None \<Rightarrow> Some (s, start, nframes)
     | Some f \<Rightarrow> do {
         start_pfn \<leftarrow> phyframe_pfn f;
         if start_pfn = start \<and> 2 ^ order \<le> nframes then do {
           let s = upd_heap (\<lambda>h. list_node_remove h f) s;
           let s = upd_frame start_pfn (pf_state_update (\<lambda>_. state)) s;
           let s = upd_frame start_pfn (pf_order_update (\<lambda>_. 0)) s;
           Some (s, start + 2 ^ order, nframes - 2 ^ order) }
         else do {
           s \<leftarrow> break_this_pfn start_pfn order s;
           Some (s, start, nframes) } } })"

fun extract_pass ::
  "phyframe_state \<Rightarrow> nat \<Rightarrow> pmm \<times> nat \<times> nat \<Rightarrow> (pmm \<times> nat \<times> nat) option" where
  "extract_pass state 0 x =
     (if list_is_empty (pmm_heap (fst x)) (Freelist 0) then Some x else extract_order state 0 x)"
| "extract_pass state (Suc order) x =
     (if list_is_empty (pmm_heap (fst x)) (Freelist (Suc order)) then extract_pass state order x
      else do {
        (s, start, nframes) \<leftarrow> extract_order state (Suc order) x;
        if nframes = 0 then Some (s, start, nframes)
        else extract_pass state order (s, start, nframes) })"

text \<open>The test for a round without progress, with the skipping of frames reserved before.\<close>

definition extract_skip ::
  "phyframe_state \<Rightarrow> nat \<Rightarrow> pmm \<Rightarrow> nat \<Rightarrow> nat \<Rightarrow> (nat \<times> nat) option" where
  "extract_skip state last_nframes s start nframes =
     (if last_nframes = nframes then do {
        frame \<leftarrow> pfn_phyframe s start;
        if state = PHYFRAME_RESERVED \<and> pf_state frame = PHYFRAME_RESERVED then do {
          mos_assert (pf_order frame = 0);
          Some (start + 1, nframes - 1) }
        else None }
      else Some (start, nframes))"

lemma extract_order_le:
  "extract_order state order (s, start, n) = Some (s', start', n') \<Longrightarrow> n' \<le> n"
  by (auto simp: extract_order_def Let_def split: if_splits option.splits bind_splits)

lemma extract_pass_le:
  "extract_pass state order x = Some (s', start', n') \<Longrightarrow> n' \<le> snd (snd x)"
proof (induction state order x arbitrary: s' start' n' rule: extract_pass.induct)
  case (1 state x)
  then show ?case by (cases x) (auto dest: extract_order_le split: if_splits)
next
  case (2 state order x)
  then show ?case
    by (cases x) (fastforce split: bind_splits if_splits dest: extract_order_le)
qed

lemma extract_skip_le:
  "extract_skip state l s start n = Some (start', n') \<Longrightarrow> n' \<le> n \<and> (l = n \<longrightarrow> n' = n - 1)"
  by (auto simp: extract_skip_def split: if_splits bind_splits)

function extract_loop ::
  "phyframe_state \<Rightarrow> nat \<Rightarrow> nat \<Rightarrow> nat \<Rightarrow> pmm \<Rightarrow> pmm option" where
  "extract_loop state start nframes last_nframes s =
     (if nframes = 0 then Some s
      else case extract_skip state last_nframes s start nframes of
        None \<Rightarrow> None
      | Some (start, nframes) \<Rightarrow>
          if start \<le> pmm_total_frames s then
            (case extract_pass state max_order (s, start, nframes) of
               None \<Rightarrow> None
             | Some (s', start', nframes') \<Rightarrow> extract_loop state start' nframes' nframes s')
          else None)"
  by pat_completeness auto
termination
  by (relation "measure (\<lambda>(state, start, n, l, s). 2 * n + (if l = n then 0 else 1))")
    (auto dest!: extract_pass_le extract_skip_le split: if_splits)

definition extract_exact_range :: "nat \<Rightarrow> nat \<Rightarrow> phyframe_state \<Rightarrow> pmm \<Rightarrow> pmm option" where
  "extract_exact_range start nframes state s = extract_loop state start nframes 0 s"

text \<open>\<^verbatim>\<open>break_the_order\<close>: splitting the first block of a list, and the search for a block.\<close>

definition break_first :: "nat \<Rightarrow> pmm \<Rightarrow> pmm option" where
  "break_first order s = do {
     frame_pfn \<leftarrow> phyframe_pfn (ln_next (pmm_heap s) (Freelist order));
     frame \<leftarrow> pfn_phyframe s frame_pfn;
     mos_assert (pf_state frame = PHYFRAME_FREE);
     let s = upd_heap (\<lambda>h. list_node_remove h (Frame frame_pfn)) s;
     mos_assert (order \<noteq> 0);
     let frame2_pfn = frame_pfn + 2 ^ (order - 1);
     frame2 \<leftarrow> pfn_phyframe s frame2_pfn;
     let s = upd_heap (\<lambda>h. linked_list_init h (Frame frame2_pfn)) s;
     let s = upd_frame frame2_pfn (pf_state_update (\<lambda>_. PHYFRAME_FREE)) s;
     s \<leftarrow> add_to_freelist (order - 1) frame_pfn s;
     add_to_freelist (order - 1) frame2_pfn s }"

function break_the_order :: "nat \<Rightarrow> pmm \<Rightarrow> pmm option" where
  "break_the_order order s =
     (if order > max_order then Some s
      else do {
        s \<leftarrow> (if list_is_empty (pmm_heap s) (Freelist order) then break_the_order (order + 1) s
             else Some s);
        if list_is_empty (pmm_heap s) (Freelist order) then Some s
        else break_first order s })"
  by pat_completeness auto
termination
  by (relation "measure (\<lambda>(order, s). Suc max_order - order)") auto

function try_merge :: "nat \<Rightarrow> nat \<Rightarrow> pmm \<Rightarrow> (pmm \<times> bool) option" where
  "try_merge pfn order s =
     (if order > max_order then Some (s, False)
      else do {
        let buddy_pfn = get_buddy_pfn pfn order;
        if buddy_pfn \<ge> pmm_total_frames s then Some (s, False)
        else do {
          buddy \<leftarrow> pfn_phyframe s buddy_pfn;
          if pf_state buddy \<noteq> PHYFRAME_FREE then Some (s, False)
          else if pf_order buddy \<noteq> order then Some (s, False)
          else do {
            let s = upd_heap (\<lambda>h. list_node_remove h (Frame buddy_pfn)) s;
            frame \<leftarrow> pfn_phyframe s pfn;
            let s = upd_frame pfn (pf_state_update (\<lambda>_. PHYFRAME_FREE)) s;
            let high_order_pfn = min pfn buddy_pfn;
            (s, merged) \<leftarrow> try_merge high_order_pfn (order + 1) s;
            if merged then Some (s, True)
            else do {
              high_order_frame \<leftarrow> pfn_phyframe s high_order_pfn;
              let s = upd_heap (\<lambda>h. linked_list_init h (Frame high_order_pfn)) s;
              let s = upd_frame high_order_pfn (pf_state_update (\<lambda>_. PHYFRAME_FREE)) s;
              s \<leftarrow> add_to_freelist (order + 1) high_order_pfn s;
              Some (s, True) } } } })"
  by pat_completeness auto
termination
  by (relation "measure (\<lambda>(pfn, order, s). Suc max_order - order)") auto

definition buddy_init :: "nat \<Rightarrow> pmm \<Rightarrow> pmm option" where
  "buddy_init max_nframes s =
     (let s = fold (\<lambda>i. upd_heap (\<lambda>h. linked_list_init h (Freelist i))) [0..<Suc max_order] s;
          order = min (log2 max_nframes) max_order
      in populate_freelist 0 max_nframes order s)"

definition buddy_reserve_n :: "nat \<Rightarrow> nat \<Rightarrow> pmm \<Rightarrow> pmm option" where
  "buddy_reserve_n pfn nframes s = extract_exact_range pfn nframes PHYFRAME_RESERVED s"

fun mark_allocated :: "nat \<Rightarrow> nat \<Rightarrow> pmm \<Rightarrow> pmm option" where
  "mark_allocated start 0 s = Some s"
| "mark_allocated start (Suc n) s = do {
     f \<leftarrow> pfn_phyframe s start;
     let s = upd_frame start (pf_state_update (\<lambda>_. PHYFRAME_ALLOCATED)) s;
     let s = upd_frame start (pf_order_update (\<lambda>_. 0)) s;
     mark_allocated (start + 1) n s }"

definition buddy_alloc_n_exact :: "nat \<Rightarrow> pmm \<Rightarrow> (pmm \<times> nat option) option" where
  "buddy_alloc_n_exact nframes s = do {
     let order = log2_ceil nframes;
     if order > max_order then Some (s, None)
     else do {
       s \<leftarrow> (if list_is_empty (pmm_heap s) (Freelist order) then break_the_order (order + 1) s
            else Some s);
       if list_is_empty (pmm_heap s) (Freelist order) then Some (s, None)
       else do {
         start \<leftarrow> phyframe_pfn (ln_next (pmm_heap s) (Freelist order));
         s \<leftarrow> extract_exact_range start nframes PHYFRAME_ALLOCATED s;
         s \<leftarrow> mark_allocated start nframes s;
         Some (s, Some start) } } }"

definition buddy_free_n :: "nat \<Rightarrow> nat \<Rightarrow> pmm \<Rightarrow> pmm option" where
  "buddy_free_n pfn nframes s = do {
     frame \<leftarrow> pfn_phyframe s pfn;
     mos_assert (pf_state frame = PHYFRAME_ALLOCATED);
     mos_assert (list_is_empty (pmm_heap s) (Frame pfn));
     let s = upd_frame pfn (pf_state_update (\<lambda>_. PHYFRAME_FREE)) s;
     let order = log2_ceil nframes;
     (s, merged) \<leftarrow> try_merge pfn order s;
     if merged then Some s else add_to_freelist order pfn s }"

declare populate_loop.simps [simp del] populate_freelist.simps [simp del] extract_loop.simps [simp del]
  break_the_order.simps [simp del] try_merge.simps [simp del]

end
