(* ===== verification/BuddyInv.thy ===== *)
theory BuddyInv
  imports Buddy
begin

text \<open>
  The invariant of the buddy allocator and what the operations on single blocks do to it.  The
  abstract state is the set of the free blocks; \<open>hrep\<close> says that the free list of every order is
  the sorted list of the blocks of that order, \<open>pmm_core\<close> adds the frame array.
\<close>

section \<open>Definitions\<close>

definition blist :: "(nat \<times> nat) set \<Rightarrow> nat \<Rightarrow> nat list" where
  "blist B k = sorted_list_of_set {p. (p, k) \<in> B}"

definition hrep :: "node list_heap \<Rightarrow> (nat \<times> nat) set \<Rightarrow> bool" where
  "hrep h B \<longleftrightarrow> (\<forall>k\<le>max_order. is_list h (Freelist k) (map Frame (blist B k)))"

definition one_list :: "(nat \<times> nat) set \<Rightarrow> bool" where
  "one_list B \<longleftrightarrow> finite B \<and> (\<forall>p k l. (p, k) \<in> B \<longrightarrow> (p, l) \<in> B \<longrightarrow> k = l)"

abbreviation detached :: "node list_heap \<Rightarrow> nat \<Rightarrow> bool" where
  "detached h p \<equiv> is_list h (Frame p) []"

text \<open>
  Free frames are listed with their order and never marked allocated; the order field of every
  frame, stale or not, is one its frame number is aligned to.
\<close>

definition pmm_core :: "pmm \<Rightarrow> (nat \<times> nat) set \<Rightarrow> bool" where
  "pmm_core s B \<longleftrightarrow> blocks_ok (pmm_total_frames s) B \<and> hrep (pmm_heap s) B \<and>
     (\<forall>p k. (p, k) \<in> B \<longrightarrow> pf_state (phyframes s p) = PHYFRAME_FREE \<and> pf_order (phyframes s p) = k) \<and>
     (\<forall>b < pmm_total_frames s. 2 ^ pf_order (phyframes s b) dvd b) \<and>
     (\<forall>b \<in> cover B. pf_state (phyframes s b) \<noteq> PHYFRAME_ALLOCATED)"

text \<open>What a step on the frames of a set \<open>F\<close> leaves alone.\<close>

definition step_ok :: "nat set \<Rightarrow> pmm \<Rightarrow> pmm \<Rightarrow> bool" where
  "step_ok F s s' \<longleftrightarrow> pmm_total_frames s' = pmm_total_frames s \<and>
     pmm_allocated_frames s' = pmm_allocated_frames s \<and>
     pmm_reserved_frames s' = pmm_reserved_frames s \<and>
     (\<forall>b. pf_refcount (phyframes s' b) = pf_refcount (phyframes s b)) \<and>
     (\<forall>b. b \<notin> F \<longrightarrow> phyframes s' b = phyframes s b)"

section \<open>The lists\<close>

lemma upd_simps [simp]:
  "pmm_heap (upd_heap f s) = f (pmm_heap s)" "phyframes (upd_heap f s) = phyframes s"
  "pmm_total_frames (upd_heap f s) = pmm_total_frames s"
  "pmm_heap (upd_frame p g s) = pmm_heap s"
  "phyframes (upd_frame p g s) = (phyframes s)(p := g (phyframes s p))"
  "pmm_total_frames (upd_frame p g s) = pmm_total_frames s"
  "pmm_allocated_frames (upd_heap f s) = pmm_allocated_frames s"
  "pmm_reserved_frames (upd_heap f s) = pmm_reserved_frames s"
  "pmm_allocated_frames (upd_frame p g s) = pmm_allocated_frames s"
  "pmm_reserved_frames (upd_frame p g s) = pmm_reserved_frames s"
  by (simp_all add: upd_heap_def upd_frame_def)

lemma pfn_phyframe_Some [guards]:
  "p < pmm_total_frames s \<Longrightarrow> pfn_phyframe s p = Some (phyframes s p)"
  by (simp add: pfn_phyframe_def)

lemma blocks_ok_one_list:
  assumes "blocks_ok N B"
  shows "one_list B"
  unfolding one_list_def
proof (intro conjI allI impI)
  show "finite B"
    using assms by (simp add: blocks_ok_def)
  show "k = l" if "(p, k) \<in> B" "(p, l) \<in> B" for p k l
    using blocks_ok_unique [OF assms that base_in_frames base_in_frames] by simp
qed

lemma one_list_sub: "one_list B \<Longrightarrow> A \<subseteq> B \<Longrightarrow> one_list A"
  unfolding one_list_def by (meson finite_subset subsetD)

lemma finite_order: "one_list B \<Longrightarrow> finite {p. (p, k) \<in> B}"
  by (rule finite_subset [of _ "fst ` B"]) (force simp: one_list_def)+

lemma set_blist [simp]: "one_list B \<Longrightarrow> set (blist B k) = {p. (p, k) \<in> B}"
  by (simp add: blist_def finite_order)

lemma insort_split:
  "insort p xs = takeWhile (\<lambda>y. y < p) xs @ p # dropWhile (\<lambda>y. y < p) xs" for p :: nat
  by (induction xs) auto

lemma place_frames:
  "ll.place (\<lambda>v. \<not> node_before v p) (Frame p) (map Frame xs) = map Frame (insort p xs)"
  unfolding ll.place_def insort_split
  by (induction xs) auto

lemma blist_insert:
  assumes "one_list B" "\<And>k. (p, k) \<notin> B"
  shows "blist (insert (p, k) B) l = (if l = k then insort p (blist B k) else blist B l)"
proof -
  have "{q. (q, l) \<in> insert (p, k) B} = (if l = k then insert p {q. (q, k) \<in> B} else {q. (q, l) \<in> B})"
    by auto
  then show ?thesis
    using assms finite_order [OF assms(1)] by (simp add: blist_def)
qed

lemma blist_remove:
  assumes "one_list B" "(p, k) \<in> B"
  shows "blist (B - {(p, k)}) l = (if l = k then remove1 p (blist B k) else blist B l)"
proof -
  have "{q. (q, l) \<in> B - {(p, k)}} = (if l = k then {q. (q, k) \<in> B} - {p} else {q. (q, l) \<in> B})"
    by auto
  then show ?thesis
    using finite_order [OF assms(1)] by (simp add: blist_def sorted_list_of_set_remove)
qed

lemma other_lists:
  assumes "one_list B" "k \<noteq> l"
  shows "set (Freelist k # map Frame (blist B k)) \<inter> set (Freelist l # map Frame (blist B l)) = {}"
  using assms by (auto simp: one_list_def)

lemma remove1_map_Frame: "remove1 (Frame p) (map Frame xs) = map Frame (remove1 p xs)"
  by (induction xs) auto

lemma hrep_insert:
  assumes rep: "hrep h B" and one: "one_list B" and p: "\<And>k. (p, k) \<notin> B" and k: "k \<le> max_order"
  shows "\<exists>r. list_find h (Freelist k) (\<lambda>v. \<not> node_before v p) (ln_next h (Freelist k)) = Some r \<and>
     hrep (list_node_insert_before h (case r of None \<Rightarrow> Freelist k | Some v \<Rightarrow> v) (Frame p))
       (insert (p, k) B) \<and>
     (\<forall>q. q \<noteq> p \<longrightarrow> (\<forall>l. (q, l) \<notin> B) \<longrightarrow> detached h q \<longrightarrow>
        detached (list_node_insert_before h (case r of None \<Rightarrow> Freelist k | Some v \<Rightarrow> v) (Frame p)) q)"
proof -
  have l: "is_list h (Freelist k) (map Frame (blist B k))"
    using rep k by (simp add: hrep_def)
  have "Frame p \<notin> set (Freelist k # map Frame (blist B k))"
    using p one by auto
  from ll.search_place [OF l this, of "\<lambda>v. \<not> node_before v p"]
  obtain r where r: "list_find h (Freelist k) (\<lambda>v. \<not> node_before v p) (ln_next h (Freelist k)) = Some r"
    and new: "is_list (list_node_insert_before h (case r of None \<Rightarrow> Freelist k | Some v \<Rightarrow> v) (Frame p))
        (Freelist k) (map Frame (insort p (blist B k)))"
    and old: "\<And>head' ms. is_list h head' ms \<Longrightarrow>
        set (head' # ms) \<inter> set (Frame p # Freelist k # map Frame (blist B k)) = {} \<Longrightarrow>
        is_list (list_node_insert_before h (case r of None \<Rightarrow> Freelist k | Some v \<Rightarrow> v) (Frame p)) head' ms"
    unfolding place_frames by blast
  let ?h = "list_node_insert_before h (case r of None \<Rightarrow> Freelist k | Some v \<Rightarrow> v) (Frame p)"
  have "hrep ?h (insert (p, k) B)"
    unfolding hrep_def
  proof (intro allI impI)
    fix l assume "l \<le> max_order"
    then have "is_list h (Freelist l) (map Frame (blist B l))"
      using rep by (simp add: hrep_def)
    from old [OF this] show "is_list ?h (Freelist l) (map Frame (blist (insert (p, k) B) l))"
      using new other_lists [OF one, of l k] p one
      by (cases "l = k") (auto simp: blist_insert [OF one p] image_iff)
  qed
  moreover have "detached ?h q" if "q \<noteq> p" "\<forall>l. (q, l) \<notin> B" "detached h q" for q
    using old [OF that(3)] that one by auto
  ultimately show ?thesis
    using r by blast
qed

lemma hrep_remove:
  assumes rep: "hrep h B" and one: "one_list B" and p: "(p, k) \<in> B" and k: "k \<le> max_order"
  shows "hrep (list_node_remove h (Frame p)) (B - {(p, k)})" "detached (list_node_remove h (Frame p)) p"
    "\<And>q. (\<forall>l. (q, l) \<notin> B) \<Longrightarrow> detached h q \<Longrightarrow> detached (list_node_remove h (Frame p)) q"
proof -
  have l: "is_list h (Freelist k) (map Frame (blist B k))"
    using rep k by (simp add: hrep_def)
  have m: "Frame p \<in> set (map Frame (blist B k))"
    using p one by auto
  show "hrep (list_node_remove h (Frame p)) (B - {(p, k)})"
    unfolding hrep_def
  proof (intro allI impI)
    fix l' assume "l' \<le> max_order"
    then have l': "is_list h (Freelist l') (map Frame (blist B l'))"
      using rep by (simp add: hrep_def)
    show "is_list (list_node_remove h (Frame p)) (Freelist l') (map Frame (blist (B - {(p, k)}) l'))"
    proof (cases "l' = k")
      case True
      then show ?thesis
        using ll.remove_member [OF l m] by (simp add: blist_remove [OF one p] remove1_map_Frame)
    next
      case False
      then show ?thesis
        using ll.remove_member_other [OF l m l' other_lists [OF one False]]
        by (simp add: blist_remove [OF one p])
    qed
  qed
  obtain as bs where "map Frame (blist B k) = as @ Frame p # bs"
    using split_list [OF m] by blast
  with l show "detached (list_node_remove h (Frame p)) p"
    using list_node_remove_is_list(2,3) [of h "Freelist k" as "Frame p" bs] by (simp add: is_list_def)
  show "detached (list_node_remove h (Frame p)) q" if "\<forall>l. (q, l) \<notin> B" "detached h q" for q
    using ll.remove_member_other [OF l m that(2)] that(1) one by auto
qed

lemma hrep_init_frame:
  assumes "hrep h B" "one_list B" "\<And>k. (p, k) \<notin> B"
  shows "hrep (linked_list_init h (Frame p)) B" "detached (linked_list_init h (Frame p)) p"
    "\<And>q. q \<noteq> p \<Longrightarrow> detached h q \<Longrightarrow> detached (linked_list_init h (Frame p)) q"
  using assms unfolding hrep_def
  by (auto intro!: ll.init_other simp: ll.init_law)

lemma hrep_empty_iff:
  assumes "hrep h B" "one_list B" "k \<le> max_order"
  shows "list_is_empty h (Freelist k) \<longleftrightarrow> (\<forall>p. (p, k) \<notin> B)"
proof -
  have "blist B k = [] \<longleftrightarrow> (\<forall>p. (p, k) \<notin> B)"
    using set_blist [OF assms(2), of k] by (metis (no_types, lifting) Collect_empty_eq set_empty)
  then show ?thesis
    using list_is_empty_iff [of h "Freelist k" "map Frame (blist B k)"] assms by (simp add: hrep_def)
qed

lemma hrep_first:
  assumes "hrep h B" "one_list B" "k \<le> max_order" "\<not> list_is_empty h (Freelist k)"
  shows "\<exists>p. ln_next h (Freelist k) = Frame p \<and> (p, k) \<in> B"
proof -
  have l: "is_list h (Freelist k) (map Frame (blist B k))"
    using assms by (simp add: hrep_def)
  then obtain p ps where "blist B k = p # ps"
    using assms(4) list_is_empty_iff [OF l] by (cases "blist B k") auto
  then show ?thesis
    using is_list_ends(1) [OF l] set_blist [OF assms(2), of k] by auto
qed

section \<open>Single blocks\<close>

lemma pmm_coreD:
  assumes "pmm_core s B"
  shows "blocks_ok (pmm_total_frames s) B" "hrep (pmm_heap s) B" "one_list B"
    "\<And>p k. (p, k) \<in> B \<Longrightarrow> pf_state (phyframes s p) = PHYFRAME_FREE"
    "\<And>p k. (p, k) \<in> B \<Longrightarrow> pf_order (phyframes s p) = k"
    "\<And>b. b < pmm_total_frames s \<Longrightarrow> 2 ^ pf_order (phyframes s b) dvd b"
    "\<And>b. b \<in> cover B \<Longrightarrow> pf_state (phyframes s b) \<noteq> PHYFRAME_ALLOCATED"
  using assms blocks_ok_one_list by (auto simp: pmm_core_def)

lemma step_ok_refl: "step_ok F s s"
  by (simp add: step_ok_def)

lemma step_ok_trans:
  "step_ok F s s' \<Longrightarrow> step_ok G s' s'' \<Longrightarrow> F \<subseteq> H \<Longrightarrow> G \<subseteq> H \<Longrightarrow> step_ok H s s''"
  unfolding step_ok_def by (metis subsetD)

lemma step_ok_mono: "step_ok F s s' \<Longrightarrow> F \<subseteq> G \<Longrightarrow> step_ok G s s'"
  unfolding step_ok_def by blast

lemma not_listed: "p \<notin> cover B \<Longrightarrow> (p, k) \<notin> B"
  by (auto simp: in_cover)

lemma add_to_freelist_core:
  assumes core: "pmm_core s B" and k: "k \<le> max_order" "2 ^ k dvd p" "p + 2 ^ k \<le> pmm_total_frames s"
    and new: "frames_of p k \<inter> cover B = {}" and free: "pf_state (phyframes s p) = PHYFRAME_FREE"
    and na: "\<And>b. b \<in> frames_of p k \<Longrightarrow> pf_state (phyframes s b) \<noteq> PHYFRAME_ALLOCATED"
    and det: "detached (pmm_heap s) p"
  shows "\<exists>s'. add_to_freelist k p s = Some s' \<and> pmm_core s' (insert (p, k) B) \<and> step_ok {p} s s' \<and>
           (\<forall>b. pf_state (phyframes s' b) = pf_state (phyframes s b)) \<and>
           (\<forall>q. q \<noteq> p \<longrightarrow> (\<forall>l. (q, l) \<notin> B) \<longrightarrow> detached (pmm_heap s) q \<longrightarrow> detached (pmm_heap s') q)"
proof -
  note C = pmm_coreD [OF core]
  have pN: "p < pmm_total_frames s"
    using k(3) zero_less_power [of "2::nat" k] by linarith
  have "p \<notin> cover B"
    using new base_in_frames by blast
  note p = not_listed [OF this]
  obtain r where
    r: "list_find (pmm_heap s) (Freelist k) (\<lambda>v. \<not> node_before v p) (ln_next (pmm_heap s) (Freelist k)) = Some r"
    and rep: "hrep (list_node_insert_before (pmm_heap s) (case r of None \<Rightarrow> Freelist k | Some v \<Rightarrow> v) (Frame p))
       (insert (p, k) B)"
    and others: "\<forall>q. q \<noteq> p \<longrightarrow> (\<forall>l. (q, l) \<notin> B) \<longrightarrow> detached (pmm_heap s) q \<longrightarrow>
       detached (list_node_insert_before (pmm_heap s) (case r of None \<Rightarrow> Freelist k | Some v \<Rightarrow> v) (Frame p)) q"
    using hrep_insert [OF C(2,3) p k(1)] by blast
  define s' where "s' = upd_heap (\<lambda>h. list_node_insert_before h (case r of None \<Rightarrow> Freelist k | Some v \<Rightarrow> v) (Frame p))
       (upd_frame p (pf_order_update (\<lambda>_. k)) s)"
  have run: "add_to_freelist k p s = Some s'"
    using pN free list_is_empty_iff [OF det] k(1) r
    by (simp add: add_to_freelist_def guards s'_def)
  have "pmm_core s' (insert (p, k) B)"
    unfolding pmm_core_def
  proof (intro conjI allI impI ballI)
    show "blocks_ok (pmm_total_frames s') (insert (p, k) B)"
      using blocks_ok_insert [OF C(1) k new] by (simp add: s'_def)
    show "hrep (pmm_heap s') (insert (p, k) B)"
      using rep by (simp add: s'_def)
    show "pf_state (phyframes s' q) = PHYFRAME_FREE" "pf_order (phyframes s' q) = l"
      if "(q, l) \<in> insert (p, k) B" for q l
      using that C(4,5) free p by (auto simp: s'_def)
    show "2 ^ pf_order (phyframes s' b) dvd b" if "b < pmm_total_frames s'" for b
      using that C(6) k(2) by (simp add: s'_def)
    show "pf_state (phyframes s' b) \<noteq> PHYFRAME_ALLOCATED" if "b \<in> cover (insert (p, k) B)" for b
      using that C(7) na by (auto simp: s'_def free)
  qed
  then show ?thesis
    using run others by (simp add: s'_def step_ok_def)
qed

lemma add_to_freelist_too_large:
  "order > max_order \<Longrightarrow> add_to_freelist order p s = None"
  by (auto simp: add_to_freelist_def mos_assert_def Let_def split: bind_splits)

text \<open>Taking a block off its list.\<close>

lemma remove_core:
  assumes core: "pmm_core s B" and B: "(p, k) \<in> B"
  defines "s' \<equiv> upd_heap (\<lambda>h. list_node_remove h (Frame p)) s"
  shows "pmm_core s' (B - {(p, k)})" "detached (pmm_heap s') p"
    "\<And>q. (\<forall>l. (q, l) \<notin> B) \<Longrightarrow> detached (pmm_heap s) q \<Longrightarrow> detached (pmm_heap s') q"
proof -
  note C = pmm_coreD [OF core]
  have k: "k \<le> max_order"
    using blocks_okD(1) [OF C(1) B] .
  note h = hrep_remove [OF C(2,3) B k]
  have "cover (B - {(p, k)}) \<subseteq> cover B"
    by (auto simp: cover_def)
  then show "pmm_core s' (B - {(p, k)})"
    unfolding pmm_core_def
    using C h(1) blocks_ok_remove [OF C(1)] by (auto simp: s'_def)
  show "detached (pmm_heap s') p"
    using h(2) by (simp add: s'_def)
  show "detached (pmm_heap s') q" if "\<forall>l. (q, l) \<notin> B" "detached (pmm_heap s) q" for q
    using h(3) [OF that] by (simp add: s'_def)
qed

text \<open>Updates of the state and of the links of a frame outside of every free block.\<close>

lemma init_core:
  assumes core: "pmm_core s B" and p: "p \<notin> cover B"
  defines "s' \<equiv> upd_heap (\<lambda>h. linked_list_init h (Frame p)) s"
  shows "pmm_core s' B" "detached (pmm_heap s') p"
    "\<And>q. q \<noteq> p \<Longrightarrow> detached (pmm_heap s) q \<Longrightarrow> detached (pmm_heap s') q"
proof -
  note h = hrep_init_frame [OF pmm_coreD(2) [OF core] pmm_coreD(3) [OF core] not_listed [OF p]]
  show "pmm_core s' B"
    using core h(1) by (simp add: pmm_core_def s'_def)
  show "detached (pmm_heap s') p"
    using h(2) by (simp add: s'_def)
  show "detached (pmm_heap s') q" if "q \<noteq> p" "detached (pmm_heap s) q" for q
    using h(3) [OF that] by (simp add: s'_def)
qed

lemma state_core:
  assumes core: "pmm_core s B" and p: "p \<notin> cover B"
  shows "pmm_core (upd_frame p (pf_state_update (\<lambda>_. st)) s) B"
  using core p not_listed [OF p] by (auto simp: pmm_core_def)

lemma order0_core:
  assumes core: "pmm_core s B" and p: "p \<notin> cover B"
  shows "pmm_core (upd_frame p (pf_order_update (\<lambda>_. 0)) s) B"
  using core p not_listed [OF p] by (auto simp: pmm_core_def)

text \<open>
  Splitting a block, the tail that \<^verbatim>\<open>break_this_pfn\<close> and \<^verbatim>\<open>break_the_order\<close> share: the block is
  off its list, the upper half gets a fresh list node, and both halves go to the list of the next
  lower order.
\<close>

lemma split_core:
  assumes core: "pmm_core s B" and B: "(p, Suc k) \<in> B"
  defines "s1 \<equiv> upd_frame (p + 2 ^ k) (pf_state_update (\<lambda>_. PHYFRAME_FREE))
      (upd_heap (\<lambda>h. linked_list_init h (Frame (p + 2 ^ k)))
        (upd_heap (\<lambda>h. list_node_remove h (Frame p)) s))"
  shows "\<exists>s2 s3. add_to_freelist k p s1 = Some s2 \<and> add_to_freelist k (p + 2 ^ k) s2 = Some s3 \<and>
     pmm_core s3 (insert (p + 2 ^ k, k) (insert (p, k) (B - {(p, Suc k)}))) \<and>
     step_ok (frames_of p (Suc k)) s s3"
proof -
  note C = pmm_coreD [OF core]
  note d = blocks_okD [OF C(1) B]
  let ?q = "p + 2 ^ k" and ?B1 = "B - {(p, Suc k)}"
  have c: "cover ?B1 = cover B - frames_of p (Suc k)"
    by (rule cover_remove [OF C(1) B])
  then have out: "frames_of p k \<inter> cover ?B1 = {}" "frames_of ?q k \<inter> cover ?B1 = {}" "?q \<notin> cover ?B1"
    using frames_of_split [of p k] by auto
  have in_B: "frames_of p (Suc k) \<subseteq> cover B"
    using B by (auto simp: cover_def)
  have a: "2 ^ k dvd p"
    using d(2) by (metis dvd_mult_right power_Suc)
  note r = remove_core [OF core B]
  note i = init_core [OF r(1) out(3)]
  have core1: "pmm_core s1 ?B1"
    unfolding s1_def by (rule state_core [OF i(1) out(3)])
  have det: "detached (pmm_heap s1) p" "detached (pmm_heap s1) ?q"
    using i(3) [of p] r(2) i(2) by (simp_all add: s1_def)
  have st1: "pf_state (phyframes s1 b) = (if b = ?q then PHYFRAME_FREE else pf_state (phyframes s b))" for b
    by (simp add: s1_def)
  have na: "pf_state (phyframes s1 b) \<noteq> PHYFRAME_ALLOCATED" if "b \<in> frames_of p (Suc k)" for b
    using C(7) in_B that unfolding st1 by (metis phyframe_state.distinct(5) subsetD)
  have tot: "pmm_total_frames s1 = pmm_total_frames s"
    by (simp add: s1_def)
  obtain s2 where s2: "add_to_freelist k p s1 = Some s2" "pmm_core s2 (insert (p, k) ?B1)"
    "step_ok {p} s1 s2" "\<forall>b. pf_state (phyframes s2 b) = pf_state (phyframes s1 b)"
    "detached (pmm_heap s2) ?q"
    using add_to_freelist_core [OF core1, of k p] d a out na det C(4) [OF B] not_listed [OF out(3)]
      frames_of_split [of p k] by (fastforce simp: tot st1 simp del: frames_of_iff)
  obtain s3 where s3: "add_to_freelist k ?q s2 = Some s3" "pmm_core s3 (insert (?q, k) (insert (p, k) ?B1))"
    "step_ok {?q} s2 s3"
    using add_to_freelist_core [OF s2(2), of k ?q] d a out na s2(3-5)
      frames_of_split [of p k] by (fastforce simp: tot st1 step_ok_def simp del: frames_of_iff)
  have "step_ok (frames_of p (Suc k)) s s1"
    by (simp add: s1_def step_ok_def)
  from step_ok_trans [OF this s2(3) order_refl] step_ok_trans [OF _ s3(3) order_refl]
  have "step_ok (frames_of p (Suc k)) s s3"
    by simp
  with s2 s3 show ?thesis by blast
qed

abbreviation split_blocks :: "nat \<Rightarrow> nat \<Rightarrow> (nat \<times> nat) set \<Rightarrow> (nat \<times> nat) set" where
  "split_blocks p k B \<equiv> insert (p + 2 ^ k, k) (insert (p, k) (B - {(p, Suc k)}))"

lemma break_this_pfn_core:
  assumes core: "pmm_core s B" and B: "(p, Suc k) \<in> B"
  shows "\<exists>s'. break_this_pfn p (Suc k) s = Some s' \<and> pmm_core s' (split_blocks p k B) \<and>
           step_ok (frames_of p (Suc k)) s s'"
proof -
  note C = pmm_coreD [OF core]
  note d = blocks_okD [OF C(1) B]
  have "p + 2 ^ k < pmm_total_frames s"
    using d(3) zero_less_power [of "2::nat" k] by (simp only: power_Suc) linarith
  with split_core [OF core B] C(4) [OF B] d(5) show ?thesis
    by (auto simp: break_this_pfn_def guards)
qed

end
