(* ===== verification/BuddyOps.thy ===== *)
theory BuddyOps
  imports BuddyInv
begin

text \<open>
  The operations of the buddy allocator on the set of free blocks: extracting a range, breaking
  larger blocks, allocating, freeing with merging, and the initial population.
\<close>

section \<open>Definitions\<close>

definition contains :: "(nat \<times> nat) set \<Rightarrow> nat \<Rightarrow> nat \<Rightarrow> bool" where
  "contains B k b \<longleftrightarrow> (\<exists>q. (q, k) \<in> B \<and> b \<in> frames_of q k)"

text \<open>
  What extraction with the new state \<open>st\<close> leaves behind in the fields of the extracted frames \<open>X\<close>:
  only the first frame of every block is marked, so that the others may still say free; the buddy
  of such a frame was extracted with it.
\<close>

definition taken :: "phyframe_state \<Rightarrow> pmm \<Rightarrow> nat set \<Rightarrow> bool" where
  "taken st s X \<longleftrightarrow>
     (st \<noteq> PHYFRAME_FREE \<longrightarrow> (\<forall>b\<in>X. pf_state (phyframes s b) = PHYFRAME_FREE \<longrightarrow>
        frames_of (get_buddy_pfn b (pf_order (phyframes s b))) (pf_order (phyframes s b)) \<subseteq> X)) \<and>
     (st \<noteq> PHYFRAME_ALLOCATED \<longrightarrow> (\<forall>b\<in>X. pf_state (phyframes s b) \<noteq> PHYFRAME_ALLOCATED))"

text \<open>
  A frame that is outside of every free block and still marked free is inside of a reserved
  range, together with its buddy.
\<close>

definition quiet :: "pmm \<Rightarrow> nat set \<Rightarrow> bool" where
  "quiet s U \<longleftrightarrow> (\<forall>b < pmm_total_frames s. b \<notin> U \<longrightarrow> pf_state (phyframes s b) = PHYFRAME_FREE \<longrightarrow>
     (\<forall>c \<in> frames_of (get_buddy_pfn b (pf_order (phyframes s b))) (pf_order (phyframes s b)).
        c < pmm_total_frames s \<longrightarrow> c \<notin> U \<and> pf_state (phyframes s c) \<noteq> PHYFRAME_ALLOCATED))"

abbreviation settled :: "pmm \<Rightarrow> (nat \<times> nat) set \<Rightarrow> bool" where
  "settled s B \<equiv> quiet s (cover B)"

section \<open>Extracting a range\<close>

lemma find_unique:
  assumes "x \<in> set xs" "P x" "\<And>y. y \<in> set xs \<Longrightarrow> P y \<Longrightarrow> y = x"
  shows "find P xs = Some x"
proof (cases "find P xs")
  case None
  then show ?thesis using assms(1,2) by (simp add: find_None_iff)
next
  case (Some y)
  then have "y \<in> set xs" "P y"
    by (auto simp: find_Some_iff)
  then show ?thesis
    using Some assms(3) by simp
qed

lemma extract_hit_iff: "extract_hit k start (Frame p) \<longleftrightarrow> start \<in> frames_of p k"
proof -
  have "start \<le> p + 2 ^ k - 1 \<longleftrightarrow> start < p + 2 ^ k"
    using zero_less_power [of "2::nat" k] by linarith
  then show ?thesis
    by (auto simp: extract_hit_def)
qed

lemma extract_find:
  assumes core: "pmm_core s B" and k: "k \<le> max_order"
  shows "(q, k) \<in> B \<Longrightarrow> start \<in> frames_of q k \<Longrightarrow>
      list_find (pmm_heap s) (Freelist k) (extract_hit k start) (ln_next (pmm_heap s) (Freelist k))
        = Some (Some (Frame q))"
    and "\<not> contains B k start \<Longrightarrow>
      list_find (pmm_heap s) (Freelist k) (extract_hit k start) (ln_next (pmm_heap s) (Freelist k))
        = Some None"
proof -
  note C = pmm_coreD [OF core]
  have l: "is_list (pmm_heap s) (Freelist k) (map Frame (blist B k))"
    using C(2) k by (simp add: hrep_def)
  note f = list_find_is_list [OF l, of "extract_hit k start"]
  show "list_find (pmm_heap s) (Freelist k) (extract_hit k start) (ln_next (pmm_heap s) (Freelist k))
        = Some (Some (Frame q))" if q: "(q, k) \<in> B" "start \<in> frames_of q k"
  proof -
    have "find (extract_hit k start) (map Frame (blist B k)) = Some (Frame q)"
      using q C(3) blocks_ok_unique [OF C(1)]
      by (intro find_unique) (auto simp: extract_hit_iff simp del: frames_of_iff)
    with f show ?thesis by simp
  qed
  show "list_find (pmm_heap s) (Freelist k) (extract_hit k start) (ln_next (pmm_heap s) (Freelist k))
        = Some None" if "\<not> contains B k start"
  proof -
    have "find (extract_hit k start) (map Frame (blist B k)) = None"
      using that C(3)
      by (auto simp: find_None_iff extract_hit_iff contains_def simp del: frames_of_iff)
    with f show ?thesis by simp
  qed
qed

lemma contains_unique:
  "blocks_ok N B \<Longrightarrow> contains B k b \<Longrightarrow> contains B l b \<Longrightarrow> k = l"
  unfolding contains_def using blocks_ok_unique by blast

lemma cover_contains: "b \<in> cover B \<longleftrightarrow> (\<exists>k. contains B k b)"
  unfolding in_cover contains_def by auto

lemma taken_union: "taken st s X \<Longrightarrow> taken st s Y \<Longrightarrow> taken st s (X \<union> Y)"
  unfolding taken_def by blast

lemma taken_empty: "taken st s {}"
  by (simp add: taken_def)

lemma taken_step: "taken st s X \<Longrightarrow> step_ok F s s' \<Longrightarrow> X \<inter> F = {} \<Longrightarrow> taken st s' X"
  unfolding taken_def step_ok_def by (metis disjoint_iff)

text \<open>The block that starts the range goes to the caller as a whole.\<close>

lemma extract_whole:
  assumes core: "pmm_core s B" and B: "(p, k) \<in> B" and n: "2 ^ k \<le> n"
  shows "\<exists>s'. extract_order st k (s, p, n) = Some (s', p + 2 ^ k, n - 2 ^ k) \<and>
           pmm_core s' (B - {(p, k)}) \<and> step_ok {p} s s' \<and> taken st s' (frames_of p k)"
proof -
  note C = pmm_coreD [OF core]
  note d = blocks_okD [OF C(1) B]
  define s' where "s' = upd_frame p (pf_order_update (\<lambda>_. 0)) (upd_frame p (pf_state_update (\<lambda>_. st))
    (upd_heap (\<lambda>h. list_node_remove h (Frame p)) s))"
  have out: "p \<notin> cover (B - {(p, k)})"
    using cover_remove [OF C(1) B] by simp
  have "extract_order st k (s, p, n) = Some (s', p + 2 ^ k, n - 2 ^ k)"
    using n by (simp add: extract_order_def extract_find(1) [OF core d(1) B base_in_frames] s'_def)
  moreover have "pmm_core s' (B - {(p, k)})"
    unfolding s'_def by (intro order0_core state_core remove_core(1) [OF core B] out)
  moreover have "taken st s' (frames_of p k)"
    unfolding taken_def
  proof (intro conjI impI ballI)
    have in_B: "frames_of p k \<subseteq> cover B"
      using B by (auto simp: cover_def)
    show "pf_state (phyframes s' b) \<noteq> PHYFRAME_ALLOCATED"
      if "st \<noteq> PHYFRAME_ALLOCATED" "b \<in> frames_of p k" for b
      using that in_B C(7) by (auto simp: s'_def)
    fix b assume b: "st \<noteq> PHYFRAME_FREE" "b \<in> frames_of p k" "pf_state (phyframes s' b) = PHYFRAME_FREE"
    then have "b \<noteq> p" and fr: "phyframes s' b = phyframes s b"
      by (auto simp: s'_def)
    have al: "2 ^ pf_order (phyframes s b) dvd b"
      using C(6) cover_bound [OF C(1)] in_B b(2) by blast
    then have "pf_order (phyframes s b) < k"
      by (rule interior_order_less [OF d(2) b(2) \<open>b \<noteq> p\<close>])
    from buddy_inside [OF d(2) b(2) al this]
    show "frames_of (get_buddy_pfn b (pf_order (phyframes s' b))) (pf_order (phyframes s' b))
        \<subseteq> frames_of p k"
      by (simp add: fr)
  qed
  ultimately show ?thesis
    by (auto simp: step_ok_def s'_def)
qed

text \<open>
  One round of the inner loop: it extracts \<open>m\<close> frames, or splits the block that contains the
  first frame of the range, or does nothing.
\<close>

definition extracts ::
  "phyframe_state \<Rightarrow> pmm \<Rightarrow> (nat \<times> nat) set \<Rightarrow> nat \<Rightarrow> nat \<Rightarrow> pmm \<Rightarrow> (nat \<times> nat) set \<Rightarrow> bool" where
  "extracts st s B start m s' B' \<longleftrightarrow> pmm_core s' B' \<and> cover B' = cover B - {start..<start + m} \<and>
     step_ok (cover B) s s' \<and> taken st s' {start..<start + m}"

lemma extracts_none: "pmm_core s B \<Longrightarrow> extracts st s B start 0 s B"
  by (simp add: extracts_def step_ok_refl taken_empty)

lemma extracts_trans:
  assumes 1: "extracts st s B start m s1 B1" and 2: "extracts st s1 B1 (start + m) n s2 B2"
  shows "extracts st s B start (m + n) s2 B2"
proof -
  have c1: "cover B1 = cover B - {start..<start + m}"
    using 1 by (simp add: extracts_def)
  then have "taken st s2 {start..<start + m}"
    using 1 2 by (intro taken_step [of st s1 _ "cover B1" s2]) (auto simp: extracts_def)
  then have "taken st s2 ({start..<start + m} \<union> {start + m..<start + m + n})"
    using 2 by (intro taken_union) (auto simp: extracts_def)
  moreover have "{start..<start + m} \<union> {start + m..<start + m + n} = {start..<start + (m + n)}"
    by auto
  moreover have "step_ok (cover B) s s2"
    using 1 2 c1 by (intro step_ok_trans [of "cover B" s s1 "cover B1" s2]) (auto simp: extracts_def)
  ultimately show ?thesis
    using 1 2 unfolding extracts_def by auto
qed

lemma extract_order_core:
  assumes core: "pmm_core s B" and k: "k \<le> max_order" and n: "0 < n"
  shows "\<exists>s' B' m. extract_order st k (s, start, n) = Some (s', start + m, n - m) \<and> m \<le> n \<and>
     extracts st s B start m s' B' \<and>
     (\<forall>l\<le>k. contains B l start \<longrightarrow> 0 < m \<or> (\<exists>l'<k. contains B' l' start))"
proof (cases "contains B k start")
  case False
  have "\<exists>l'<k. contains B l' start" if "l \<le> k" "contains B l start" for l
    using that False by (metis le_neq_implies_less)
  moreover have "extract_order st k (s, start, n) = Some (s, start + 0, n - 0)"
    by (simp add: extract_order_def extract_find(2) [OF core k False])
  ultimately show ?thesis
    using extracts_none [OF core] by blast
next
  case True
  note C = pmm_coreD [OF core]
  obtain q where q: "(q, k) \<in> B" "start \<in> frames_of q k"
    using True by (auto simp: contains_def)
  show ?thesis
  proof (cases "q = start \<and> 2 ^ k \<le> n")
    case True
    then obtain s' where "extract_order st k (s, start, n) = Some (s', start + 2 ^ k, n - 2 ^ k)"
      "pmm_core s' (B - {(start, k)})" "step_ok {start} s s'" "taken st s' (frames_of start k)"
      using extract_whole [OF core q(1)] by blast
    moreover have "cover (B - {(start, k)}) = cover B - {start..<start + 2 ^ k}"
      using cover_remove [OF C(1)] q(1) True by (simp add: frames_of_def)
    moreover have "start \<in> cover B"
      using q(1) True unfolding in_cover by force
    then have "step_ok (cover B) s s'"
      using step_ok_mono [OF calculation(3)] by simp
    ultimately show ?thesis
      using True by (intro exI [of _ s'] exI [of _ "B - {(start, k)}"] exI [of _ "2 ^ k"])
        (auto simp: extracts_def frames_of_def)
  next
    case False
    then obtain j where j: "k = Suc j"
      using q(2) n by (cases k) auto
    obtain s' where s': "break_this_pfn q k s = Some s'" "pmm_core s' (split_blocks q j B)"
      "step_ok (frames_of q k) s s'"
      using break_this_pfn_core [OF core] q(1) j by blast
    have "extract_order st k (s, start, n) = Some (s', start + 0, n - 0)"
      using False s'(1) by (simp add: extract_order_def extract_find(1) [OF core k q])
    moreover have "extracts st s B start 0 s' (split_blocks q j B)"
      using s' step_ok_mono [OF s'(3)] q(1) blocks_ok_split(2) [OF C(1), of q j] j
      by (auto simp: extracts_def taken_empty cover_def simp del: frames_of_iff)
    moreover have "contains (split_blocks q j B) j start"
      using q(2) frames_of_split(1) [of q j] unfolding contains_def j by blast
    ultimately show ?thesis
      using j by blast
  qed
qed

lemma extract_pass_core:
  assumes "pmm_core s B" "k \<le> max_order" "0 < n"
  shows "\<exists>s' B' m. extract_pass st k (s, start, n) = Some (s', start + m, n - m) \<and> m \<le> n \<and>
     extracts st s B start m s' B' \<and> ((\<exists>l\<le>k. contains B l start) \<longrightarrow> 0 < m)"
  using assms
proof (induction k arbitrary: s B start n)
  case 0
  note C = pmm_coreD [OF 0(1)]
  show ?case
  proof (cases "list_is_empty (pmm_heap s) (Freelist 0)")
    case True
    then have "\<not> contains B 0 start"
      using hrep_empty_iff [OF C(2,3)] by (simp add: contains_def)
    then show ?thesis
      using True extracts_none [OF 0(1)]
      by (intro exI [of _ s] exI [of _ B] exI [of _ 0]) simp
  next
    case False
    then show ?thesis
      using extract_order_core [OF 0, of st start] by auto
  qed
next
  case (Suc k)
  note C = pmm_coreD [OF Suc.prems(1)]
  show ?case
  proof (cases "list_is_empty (pmm_heap s) (Freelist (Suc k))")
    case True
    then have "\<not> contains B (Suc k) start"
      using hrep_empty_iff [OF C(2,3)] Suc.prems(2) by (simp add: contains_def)
    then show ?thesis
      using True Suc.IH [OF Suc.prems(1) _ Suc.prems(3), of start] Suc.prems(2)
      by (auto simp: le_Suc_eq)
  next
    case False
    obtain s1 B1 m where 1: "extract_order st (Suc k) (s, start, n) = Some (s1, start + m, n - m)"
      "m \<le> n" "extracts st s B start m s1 B1"
      and prog: "\<forall>l\<le>Suc k. contains B l start \<longrightarrow> 0 < m \<or> (\<exists>l'<Suc k. contains B1 l' start)"
      using extract_order_core [OF Suc.prems] by blast
    show ?thesis
    proof (cases "n - m = 0")
      case True
      then show ?thesis
        using 1 False Suc.prems(3) by (intro exI [of _ s1] exI [of _ B1] exI [of _ m]) auto
    next
      case more: False
      obtain s2 B2 m2 where 2: "extract_pass st k (s1, start + m, n - m) = Some (s2, start + m + m2, n - m - m2)"
        "m2 \<le> n - m" "extracts st s1 B1 (start + m) m2 s2 B2"
        and prog2: "(\<exists>l\<le>k. contains B1 l (start + m)) \<longrightarrow> 0 < m2"
        using Suc.IH [of s1 B1 "n - m" "start + m"] 1(3) Suc.prems(2) more
        by (auto simp: extracts_def)
      have "0 < m + m2" if "l \<le> Suc k" "contains B l start" for l
        using prog prog2 that by (cases "m = 0") (auto simp: less_Suc_eq_le)
      then show ?thesis
        using 1 2 False more extracts_trans [OF 1(3) 2(3)]
        by (intro exI [of _ s2] exI [of _ B2] exI [of _ "m + m2"]) (auto simp: add.assoc)
    qed
  qed
qed

lemma extract_loop_core:
  assumes "pmm_core s B" "{start..<start + n} \<subseteq> cover B" "l \<noteq> n \<or> n = 0"
  shows "\<exists>s' B'. extract_loop st start n l s = Some s' \<and> extracts st s B start n s' B'"
  using assms
proof (induction n arbitrary: s B start l rule: less_induct)
  case (less n)
  show ?case
  proof (cases "n = 0")
    case True
    then show ?thesis
      using extracts_none [OF less.prems(1)] by (intro exI [of _ s] exI [of _ B]) (simp add: extract_loop.simps)
  next
    case False
    note C = pmm_coreD [OF less.prems(1)]
    have start: "start \<in> cover B"
      using less.prems(2) False by auto
    then obtain k where k: "contains B k start" "k \<le> max_order"
      using blocks_okD(1) [OF C(1)] unfolding cover_contains contains_def by blast
    obtain s1 B1 m where 1: "extract_pass st max_order (s, start, n) = Some (s1, start + m, n - m)"
      "m \<le> n" "extracts st s B start m s1 B1" "0 < m"
      using extract_pass_core [OF less.prems(1) order_refl, of n st start] False k by blast
    have "{start + m..<start + m + (n - m)} \<subseteq> cover B1"
      using less.prems(2) 1(2,3) by (auto simp: extracts_def)
    moreover have "pmm_core s1 B1"
      using 1(3) by (simp add: extracts_def)
    moreover have "n - m < n" "n \<noteq> n - m \<or> n - m = 0"
      using 1(4) False by auto
    ultimately obtain s2 B2 where 2: "extract_loop st (start + m) (n - m) n s1 = Some s2"
      "extracts st s1 B1 (start + m) (n - m) s2 B2"
      using less.IH by blast
    have "start \<le> pmm_total_frames s"
      using cover_bound [OF C(1) start] by simp
    then have "extract_loop st start n l s = Some s2"
      using False less.prems(3) 1(1) 2(1) by (subst extract_loop.simps) (simp add: extract_skip_def)
    moreover have "extracts st s B start n s2 B2"
      using extracts_trans [OF 1(3) 2(2)] 1(2) by simp
    ultimately show ?thesis by blast
  qed
qed

lemma extract_exact_range_core:
  assumes "pmm_core s B" "{start..<start + n} \<subseteq> cover B"
  shows "\<exists>s' B'. extract_exact_range start n st s = Some s' \<and> extracts st s B start n s' B'"
  unfolding extract_exact_range_def by (rule extract_loop_core [OF assms]) linarith

section \<open>Allocating\<close>

lemma log2_bounds: "0 < x \<Longrightarrow> 2 ^ log2 x \<le> x \<and> x < 2 * 2 ^ log2 x"
proof (induction x rule: log2.induct)
  case (1 x)
  show ?case
  proof (cases "x \<le> 1")
    case True
    with 1(2) have "x = 1" by simp
    then show ?thesis by (simp add: log2.simps)
  next
    case False
    then have "2 ^ log2 (x div 2) \<le> x div 2 \<and> x div 2 < 2 * 2 ^ log2 (x div 2)"
      by (intro 1(1)) auto
    moreover have "log2 x = Suc (log2 (x div 2))"
      using False by (simp add: log2.simps [of x])
    ultimately show ?thesis by auto
  qed
qed

lemma log2_ceil_bound: "x \<le> 2 ^ log2_ceil x"
  using log2_bounds [of x] by (cases "x = 0") (auto simp: log2_ceil_def)

lemma log2_ceil_least: "1 < x \<Longrightarrow> 2 ^ (log2_ceil x - 1) < x"
  using log2_bounds [of x] by (cases "log2 x") (auto simp: log2_ceil_def)

lemma break_first_core:
  assumes core: "pmm_core s B" and k: "Suc k \<le> max_order"
    and ne: "\<not> list_is_empty (pmm_heap s) (Freelist (Suc k))"
  shows "\<exists>s' p. break_first (Suc k) s = Some s' \<and> (p, Suc k) \<in> B \<and> pmm_core s' (split_blocks p k B) \<and>
           step_ok (cover B) s s'"
proof -
  note C = pmm_coreD [OF core]
  obtain p where p: "ln_next (pmm_heap s) (Freelist (Suc k)) = Frame p" "(p, Suc k) \<in> B"
    using hrep_first [OF C(2,3) k ne] by blast
  note d = blocks_okD [OF C(1) p(2)]
  have "p + 2 ^ k < pmm_total_frames s"
    using d(3) zero_less_power [of "2::nat" k] by (simp only: power_Suc) linarith
  then obtain s' where "break_first (Suc k) s = Some s'" "pmm_core s' (split_blocks p k B)"
    "step_ok (frames_of p (Suc k)) s s'"
    using split_core [OF core p(2)] C(4) [OF p(2)] d(5) p(1)
    by (auto simp: break_first_def guards)
  moreover have "frames_of p (Suc k) \<subseteq> cover B"
    using p(2) by (auto simp: cover_def)
  ultimately show ?thesis
    using p(2) step_ok_mono by blast
qed

text \<open>
  \<^verbatim>\<open>break_the_order\<close> provides a block of the order below its argument whenever there is any block
  of its order or a larger one, and changes nothing otherwise.
\<close>

lemma break_the_order_core:
  assumes "pmm_core s B"
  shows "\<exists>s' B'. break_the_order (Suc k) s = Some s' \<and> pmm_core s' B' \<and> cover B' = cover B \<and>
     step_ok (cover B) s s' \<and>
     (if \<exists>p l. (p, l) \<in> B \<and> k < l then \<exists>p. (p, k) \<in> B' else s' = s \<and> B' = B)"
  using assms
proof (induction "max_order - k" arbitrary: s B k)
  case 0
  then have "\<not> (\<exists>p l. (p, l) \<in> B \<and> k < l)"
    using blocks_okD(1) [OF pmm_coreD(1) [OF 0(2)]] by fastforce
  then show ?case
    using 0 step_ok_refl by (subst break_the_order.simps) auto
next
  case (Suc x)
  note C = pmm_coreD [OF Suc.prems(1)]
  have k: "Suc k \<le> max_order" "x = max_order - Suc k"
    using Suc(2) by simp_all
  define s1 where "s1 = (if list_is_empty (pmm_heap s) (Freelist (Suc k))
    then break_the_order (Suc (Suc k)) s else Some s)"
  have run: "break_the_order (Suc k) s = do { s \<leftarrow> s1;
      if list_is_empty (pmm_heap s) (Freelist (Suc k)) then Some s else break_first (Suc k) s }"
    using k by (subst break_the_order.simps) (simp add: s1_def)
  have "\<exists>t B1. s1 = Some t \<and> pmm_core t B1 \<and> cover B1 = cover B \<and> step_ok (cover B) s t \<and>
      (if \<exists>p l. (p, l) \<in> B \<and> k < l then \<exists>p. (p, Suc k) \<in> B1 else t = s \<and> B1 = B)"
  proof (cases "list_is_empty (pmm_heap s) (Freelist (Suc k))")
    case True
    then have "(\<exists>p l. (p, l) \<in> B \<and> k < l) \<longleftrightarrow> (\<exists>p l. (p, l) \<in> B \<and> Suc k < l)"
      using hrep_empty_iff [OF C(2,3) k(1)] by (metis Suc_lessI Suc_lessD)
    then show ?thesis
      using True Suc.hyps(1) [OF k(2) Suc.prems] by (simp add: s1_def)
  next
    case False
    then have "\<exists>p. (p, Suc k) \<in> B"
      using hrep_empty_iff [OF C(2,3) k(1)] by blast
    then show ?thesis
      using False Suc.prems step_ok_refl by (auto simp: s1_def)
  qed
  then obtain t B1 where t: "s1 = Some t" "pmm_core t B1" "cover B1 = cover B" "step_ok (cover B) s t"
    "if \<exists>p l. (p, l) \<in> B \<and> k < l then \<exists>p. (p, Suc k) \<in> B1 else t = s \<and> B1 = B"
    by blast
  note D = pmm_coreD [OF t(2)]
  show ?case
  proof (cases "list_is_empty (pmm_heap t) (Freelist (Suc k))")
    case True
    then have "\<not> (\<exists>p. (p, Suc k) \<in> B1)"
      using hrep_empty_iff [OF D(2,3) k(1)] by blast
    then show ?thesis
      using t run True Suc.prems by (auto split: if_splits)
  next
    case False
    obtain s' p where s': "break_first (Suc k) t = Some s'" "(p, Suc k) \<in> B1"
      "pmm_core s' (split_blocks p k B1)" "step_ok (cover B1) t s'"
      using break_first_core [OF t(2) k(1) False] by blast
    moreover have "\<exists>p l. (p, l) \<in> B \<and> k < l"
      using t(5) s'(2) by (metis lessI)
    ultimately show ?thesis
      using t run False blocks_ok_split(2) [OF D(1) s'(2)] step_ok_trans [OF t(4), of "cover B1" s' "cover B"]
      by auto
  qed
qed

lemma mark_allocated_core:
  assumes "pmm_core s B" "{start..<start + n} \<inter> cover B = {}" "start + n \<le> pmm_total_frames s"
  shows "\<exists>s'. mark_allocated start n s = Some s' \<and> pmm_core s' B \<and> step_ok {start..<start + n} s s' \<and>
     (\<forall>b\<in>{start..<start + n}. pf_state (phyframes s' b) = PHYFRAME_ALLOCATED)"
  using assms
proof (induction n arbitrary: s start)
  case 0
  then show ?case using step_ok_refl by auto
next
  case (Suc n)
  define t where "t = upd_frame start (pf_order_update (\<lambda>_. 0))
    (upd_frame start (pf_state_update (\<lambda>_. PHYFRAME_ALLOCATED)) s)"
  have out: "start \<notin> cover B"
    using Suc.prems(2) by (simp add: disjoint_iff)
  have core: "pmm_core t B"
    unfolding t_def by (intro order0_core state_core Suc.prems out)
  moreover have "{start + 1..<start + 1 + n} \<inter> cover B = {}" "start + 1 + n \<le> pmm_total_frames t"
    using Suc.prems(2,3) by (auto simp: t_def disjoint_iff)
  ultimately obtain s' where s': "mark_allocated (start + 1) n t = Some s'" "pmm_core s' B"
    "step_ok {start + 1..<start + 1 + n} t s'"
    "\<forall>b\<in>{start + 1..<start + 1 + n}. pf_state (phyframes s' b) = PHYFRAME_ALLOCATED"
    using Suc.IH by blast
  have "step_ok {start} s t"
    by (simp add: step_ok_def t_def)
  then have step: "step_ok {start..<start + Suc n} s s'"
    using step_ok_trans [OF _ s'(3)] by simp
  have "pf_state (phyframes s' start) = PHYFRAME_ALLOCATED"
    using s'(3) by (simp add: step_ok_def t_def)
  then have "\<forall>b\<in>{start..<start + Suc n}. pf_state (phyframes s' b) = PHYFRAME_ALLOCATED"
    using s'(4) by (metis Suc_eq_plus1 Suc_leI add.commute add_Suc_shift atLeastLessThan_iff le_neq_implies_less)
  with step s'(1,2) Suc.prems(3) show ?case
    by (auto simp: guards t_def)
qed

lemma quietD:
  assumes "quiet s U" "b < pmm_total_frames s" "b \<notin> U" "pf_state (phyframes s b) = PHYFRAME_FREE"
    "c \<in> frames_of (get_buddy_pfn b (pf_order (phyframes s b))) (pf_order (phyframes s b))"
    "c < pmm_total_frames s"
  shows "c \<notin> U \<and> pf_state (phyframes s c) \<noteq> PHYFRAME_ALLOCATED"
  using assms unfolding quiet_def by blast

lemma quiet_step:
  assumes "quiet s U" "step_ok U s s'"
  shows "quiet s' U"
  unfolding quiet_def
proof (intro allI impI ballI)
  fix b c
  assume b: "b < pmm_total_frames s'" "b \<notin> U" "pf_state (phyframes s' b) = PHYFRAME_FREE"
    and c: "c \<in> frames_of (get_buddy_pfn b (pf_order (phyframes s' b))) (pf_order (phyframes s' b))"
      "c < pmm_total_frames s'"
  have eq: "phyframes s' b = phyframes s b" "pmm_total_frames s' = pmm_total_frames s"
    using assms(2) b(2) by (simp_all add: step_ok_def)
  have "c \<notin> U \<and> pf_state (phyframes s c) \<noteq> PHYFRAME_ALLOCATED"
    using quietD [OF assms(1), of b c] b c unfolding eq by blast
  then show "c \<notin> U \<and> pf_state (phyframes s' c) \<noteq> PHYFRAME_ALLOCATED"
    using assms(2) by (simp add: step_ok_def)
qed

lemma quiet_shrink:
  assumes "quiet s U" "step_ok U s s'" "X \<subseteq> U"
    and "\<And>b. b \<in> X \<Longrightarrow> pf_state (phyframes s' b) = PHYFRAME_FREE \<Longrightarrow>
      frames_of (get_buddy_pfn b (pf_order (phyframes s' b))) (pf_order (phyframes s' b)) \<subseteq> X \<and>
      (\<forall>c\<in>X. pf_state (phyframes s' c) \<noteq> PHYFRAME_ALLOCATED)"
  shows "quiet s' (U - X)"
  unfolding quiet_def
proof (intro allI impI ballI)
  fix b c
  assume b: "b < pmm_total_frames s'" "b \<notin> U - X" "pf_state (phyframes s' b) = PHYFRAME_FREE"
    and c: "c \<in> frames_of (get_buddy_pfn b (pf_order (phyframes s' b))) (pf_order (phyframes s' b))"
      "c < pmm_total_frames s'"
  show "c \<notin> U - X \<and> pf_state (phyframes s' c) \<noteq> PHYFRAME_ALLOCATED"
  proof (cases "b \<in> X")
    case True
    then show ?thesis
      using assms(4) b(3) c(1) by blast
  next
    case False
    then show ?thesis
      using quietD [OF quiet_step [OF assms(1,2)] b(1) _ b(3) c] b(2) by blast
  qed
qed

text \<open>The invariant of the allocator.\<close>

definition buddy_inv :: "pmm \<Rightarrow> (nat \<times> nat) set \<Rightarrow> bool" where
  "buddy_inv s B \<longleftrightarrow> pmm_core s B \<and> settled s B"

definition alloc_done :: "pmm \<Rightarrow> (nat \<times> nat) set \<Rightarrow> nat \<Rightarrow> nat \<Rightarrow> pmm \<Rightarrow> (nat \<times> nat) set \<Rightarrow> bool" where
  "alloc_done s B start n s' B' \<longleftrightarrow> buddy_inv s' B' \<and> {start..<start + n} \<subseteq> cover B \<and>
     cover B' = cover B - {start..<start + n} \<and> step_ok (cover B) s s' \<and>
     (\<forall>b\<in>{start..<start + n}. pf_state (phyframes s' b) = PHYFRAME_ALLOCATED)"

lemma alloc_from_list:
  assumes core: "pmm_core s B" and settled: "settled s B" and k: "k = log2_ceil n" "k \<le> max_order"
    and ne: "\<not> list_is_empty (pmm_heap s) (Freelist k)"
  shows "\<exists>start s2 s3 B'. phyframe_pfn (ln_next (pmm_heap s) (Freelist k)) = Some start \<and>
     extract_exact_range start n PHYFRAME_ALLOCATED s = Some s2 \<and>
     mark_allocated start n s2 = Some s3 \<and> alloc_done s B start n s3 B'"
proof -
  note C = pmm_coreD [OF core]
  obtain p where p: "ln_next (pmm_heap s) (Freelist k) = Frame p" "(p, k) \<in> B"
    using hrep_first [OF C(2,3) k(2) ne] by blast
  note d = blocks_okD [OF C(1) p(2)]
  let ?X = "{p..<p + n}"
  have "n \<le> 2 ^ k"
    using log2_ceil_bound k(1) by simp
  then have "?X \<subseteq> frames_of p k" and bound: "p + n \<le> pmm_total_frames s"
    using d(3) by auto
  then have X: "?X \<subseteq> cover B"
    using p(2) by (auto simp: cover_def simp del: frames_of_iff)
  obtain s2 B' where s2: "extract_exact_range p n PHYFRAME_ALLOCATED s = Some s2"
    "pmm_core s2 B'" "cover B' = cover B - ?X" "step_ok (cover B) s s2"
    using extract_exact_range_core [OF core X, of PHYFRAME_ALLOCATED] by (auto simp: extracts_def)
  have "?X \<inter> cover B' = {}" "p + n \<le> pmm_total_frames s2"
    using s2(3,4) bound by (auto simp: step_ok_def)
  then obtain s3 where s3: "mark_allocated p n s2 = Some s3" "pmm_core s3 B'" "step_ok ?X s2 s3"
    "\<forall>b\<in>?X. pf_state (phyframes s3 b) = PHYFRAME_ALLOCATED"
    using mark_allocated_core [OF s2(2)] by blast
  have step: "step_ok (cover B) s s3"
    using step_ok_trans [OF s2(4) s3(3) order_refl X] .
  have "settled s3 B'"
    unfolding s2(3) by (rule quiet_shrink [OF settled step X]) (use s3(4) in auto)
  then show ?thesis
    using p(1) s2 s3 step X unfolding alloc_done_def buddy_inv_def by auto
qed

lemma buddy_alloc_core:
  assumes inv: "buddy_inv s B"
  shows "if \<exists>p l. (p, l) \<in> B \<and> log2_ceil n \<le> l
     then \<exists>start s' B'. buddy_alloc_n_exact n s = Some (s', Some start) \<and> alloc_done s B start n s' B'
     else buddy_alloc_n_exact n s = Some (s, None)"
proof -
  let ?k = "log2_ceil n"
  have core: "pmm_core s B" and settled: "settled s B"
    using inv by (simp_all add: buddy_inv_def)
  note C = pmm_coreD [OF core]
  show ?thesis
  proof (cases "?k \<le> max_order")
    case False
    then have "\<not> (\<exists>p l. (p, l) \<in> B \<and> ?k \<le> l)"
      using blocks_okD(1) [OF C(1)] by fastforce
    with False show ?thesis
      by (simp add: buddy_alloc_n_exact_def)
  next
    case k: True
    define s1 where "s1 = (if list_is_empty (pmm_heap s) (Freelist ?k) then break_the_order (?k + 1) s else Some s)"
    have run: "buddy_alloc_n_exact n s = do { s \<leftarrow> s1;
        if list_is_empty (pmm_heap s) (Freelist ?k) then Some (s, None)
        else do {
          start \<leftarrow> phyframe_pfn (ln_next (pmm_heap s) (Freelist ?k));
          s \<leftarrow> extract_exact_range start n PHYFRAME_ALLOCATED s;
          s \<leftarrow> mark_allocated start n s;
          Some (s, Some start) } }"
      using k by (simp add: buddy_alloc_n_exact_def s1_def Let_def)
    have "\<exists>t B1. s1 = Some t \<and> pmm_core t B1 \<and> cover B1 = cover B \<and> step_ok (cover B) s t \<and>
        (if \<exists>p l. (p, l) \<in> B \<and> ?k \<le> l then \<exists>p. (p, ?k) \<in> B1 else t = s \<and> B1 = B)"
    proof (cases "list_is_empty (pmm_heap s) (Freelist ?k)")
      case True
      then have "(\<exists>p l. (p, l) \<in> B \<and> ?k \<le> l) \<longleftrightarrow> (\<exists>p l. (p, l) \<in> B \<and> ?k < l)"
        using hrep_empty_iff [OF C(2,3) k] by (metis le_neq_implies_less less_imp_le_nat)
      then show ?thesis
        using True break_the_order_core [OF core, of ?k] by (simp add: s1_def)
    next
      case False
      then have "\<exists>p. (p, ?k) \<in> B"
        using hrep_empty_iff [OF C(2,3) k] by blast
      then show ?thesis
        using False core step_ok_refl by (auto simp: s1_def)
    qed
    then obtain t B1 where t: "s1 = Some t" "pmm_core t B1" "cover B1 = cover B" "step_ok (cover B) s t"
      "if \<exists>p l. (p, l) \<in> B \<and> ?k \<le> l then \<exists>p. (p, ?k) \<in> B1 else t = s \<and> B1 = B"
      by blast
    note D = pmm_coreD [OF t(2)]
    have settled1: "settled t B1"
      unfolding t(3) by (rule quiet_step [OF settled t(4)])
    show ?thesis
    proof (cases "list_is_empty (pmm_heap t) (Freelist ?k)")
      case True
      then have "\<not> (\<exists>p. (p, ?k) \<in> B1)"
        using hrep_empty_iff [OF D(2,3) k] by blast
      then show ?thesis
        using t run True by (auto split: if_splits)
    next
      case False
      obtain start s2 s3 B' where a: "phyframe_pfn (ln_next (pmm_heap t) (Freelist ?k)) = Some start"
        "extract_exact_range start n PHYFRAME_ALLOCATED t = Some s2"
        "mark_allocated start n s2 = Some s3" "alloc_done t B1 start n s3 B'"
        using alloc_from_list [OF t(2) settled1 refl k False] by blast
      have "alloc_done s B start n s3 B'"
        using a(4) t(3,4) step_ok_trans [OF t(4), of "cover B1" s3 "cover B"]
        by (simp add: alloc_done_def)
      moreover have "\<exists>p l. (p, l) \<in> B \<and> ?k \<le> l"
        using t(5) False hrep_empty_iff [OF D(2,3) k] by (metis order_refl)
      ultimately show ?thesis
        using run t(1) False a(1-3) by auto
    qed
  qed
qed

lemma buddy_reserve_core:
  assumes inv: "buddy_inv s B" and X: "{start..<start + n} \<subseteq> cover B"
  shows "\<exists>s' B'. buddy_reserve_n start n s = Some s' \<and> buddy_inv s' B' \<and>
     cover B' = cover B - {start..<start + n} \<and> step_ok (cover B) s s' \<and>
     (\<forall>b\<in>{start..<start + n}. pf_state (phyframes s' b) \<noteq> PHYFRAME_ALLOCATED)"
proof -
  have core: "pmm_core s B" and settled: "settled s B"
    using inv by (simp_all add: buddy_inv_def)
  obtain s' B' where s': "extract_exact_range start n PHYFRAME_RESERVED s = Some s'"
    "pmm_core s' B'" "cover B' = cover B - {start..<start + n}" "step_ok (cover B) s s'"
    "taken PHYFRAME_RESERVED s' {start..<start + n}"
    using extract_exact_range_core [OF core X, of PHYFRAME_RESERVED] by (auto simp: extracts_def)
  have "settled s' B'"
    unfolding s'(3) by (rule quiet_shrink [OF settled s'(4) X]) (use s'(5) in \<open>auto simp: taken_def\<close>)
  then show ?thesis
    using s' by (auto simp: buddy_inv_def buddy_reserve_n_def taken_def)
qed

section \<open>Freeing\<close>

text \<open>The invariant while the block of frames \<open>X\<close> is being freed: neither allocated nor listed.\<close>

definition freeing :: "pmm \<Rightarrow> (nat \<times> nat) set \<Rightarrow> nat set \<Rightarrow> bool" where
  "freeing s B X \<longleftrightarrow> pmm_core s B \<and> X \<inter> cover B = {} \<and>
     (\<forall>b\<in>X. pf_state (phyframes s b) \<noteq> PHYFRAME_ALLOCATED) \<and> quiet s (cover B \<union> X)"

lemma freeing_done:
  assumes "freeing s B X" "pmm_core s' B'" "cover B' = cover B \<union> X" "step_ok (cover B \<union> X) s s'"
  shows "buddy_inv s' B'"
  using assms quiet_step [of s "cover B \<union> X" s'] by (simp add: buddy_inv_def freeing_def)

text \<open>A buddy that looks free at the order of the freed block is a listed block of that order.\<close>

lemma buddy_listed:
  assumes fr: "freeing s B (frames_of p k)" and p: "2 ^ k dvd p" "p + 2 ^ k \<le> pmm_total_frames s"
    and b: "b = get_buddy_pfn p k" "b < pmm_total_frames s"
      "pf_state (phyframes s b) = PHYFRAME_FREE" "pf_order (phyframes s b) = k"
  shows "(b, k) \<in> B"
proof -
  have core: "pmm_core s B" and disj: "frames_of p k \<inter> cover B = {}"
    using fr by (simp_all add: freeing_def)
  note C = pmm_coreD [OF core]
  have pb: "get_buddy_pfn b k = p"
    using b(1) buddy_involution [OF p(1)] by simp
  have "b \<notin> frames_of p k"
    using buddy_union(2) [OF p(1)] b(1) base_in_frames by blast
  moreover have "p \<in> frames_of (get_buddy_pfn b k) k" "p < pmm_total_frames s"
    using p(2) zero_less_power [of "2::nat" k] by (simp add: pb, linarith)
  ultimately have "b \<in> cover B"
    using fr quietD [of s "cover B \<union> frames_of p k" b p] b(2-4) unfolding freeing_def
    by (metis UnE UnI2 base_in_frames)
  then obtain q l where q: "(q, l) \<in> B" "b \<in> frames_of q l"
    unfolding in_cover by auto
  note d = blocks_okD [OF C(1) q(1)]
  show ?thesis
  proof (cases "b = q")
    case True
    then show ?thesis
      using q(1) C(5) [OF q(1)] b(4) by simp
  next
    case False
    have al: "2 ^ k dvd b"
      using C(6) b(2,4) by metis
    have "k < l"
      by (rule interior_order_less [OF d(2) q(2) False al])
    from buddy_inside [OF d(2) q(2) al this] have "p \<in> cover B"
      using q(1) pb base_in_frames unfolding cover_def by blast
    then show ?thesis
      using disj base_in_frames by blast
  qed
qed

lemma merge_step:
  assumes fr: "freeing s B (frames_of p k)" and p: "2 ^ k dvd p" "p + 2 ^ k \<le> pmm_total_frames s"
    and b: "b = get_buddy_pfn p k" "(b, k) \<in> B"
  defines "s' \<equiv> upd_frame p (pf_state_update (\<lambda>_. PHYFRAME_FREE))
      (upd_heap (\<lambda>h. list_node_remove h (Frame b)) s)"
  shows "freeing s' (B - {(b, k)}) (frames_of (min p b) (Suc k))"
    "step_ok (cover B \<union> frames_of p k) s s'"
    "cover (B - {(b, k)}) \<union> frames_of (min p b) (Suc k) = cover B \<union> frames_of p k"
    "2 ^ Suc k dvd min p b" "min p b + 2 ^ Suc k \<le> pmm_total_frames s'"
proof -
  have core: "pmm_core s B" and disj: "frames_of p k \<inter> cover B = {}"
    using fr by (simp_all add: freeing_def)
  note C = pmm_coreD [OF core]
  have un: "frames_of (min p b) (Suc k) = frames_of p k \<union> frames_of b k"
    using buddy_union(1) [OF p(1)] b(1) by simp
  have c: "cover (B - {(b, k)}) = cover B - frames_of b k"
    by (rule cover_remove [OF C(1) b(2)])
  have bB: "frames_of b k \<subseteq> cover B"
    using b(2) by (auto simp: cover_def simp del: frames_of_iff)
  show all: "cover (B - {(b, k)}) \<union> frames_of (min p b) (Suc k) = cover B \<union> frames_of p k"
    using un c bB by blast
  show step: "step_ok (cover B \<union> frames_of p k) s s'"
    by (simp add: step_ok_def s'_def)
  show "2 ^ Suc k dvd min p b"
    using buddy_min_aligned [OF p(1)] b(1) by simp
  have "b + 2 ^ k \<le> pmm_total_frames s"
    using blocks_okD(3) [OF C(1) b(2)] .
  then have "max p b + 2 ^ k \<le> pmm_total_frames s'"
    using p(2) by (simp add: s'_def max_def)
  moreover have "min p b + 2 ^ Suc k = max p b + 2 ^ k"
    using buddy_eq [OF p(1)] odd_block_ge [OF p(1)] b(1) by (auto simp: min_def max_def)
  ultimately show "min p b + 2 ^ Suc k \<le> pmm_total_frames s'"
    by (simp only:)
  have out: "p \<notin> cover (B - {(b, k)})"
    using disj c base_in_frames by blast
  have "pmm_core s' (B - {(b, k)})"
    unfolding s'_def by (intro state_core remove_core(1) [OF core b(2)] out)
  moreover have "frames_of (min p b) (Suc k) \<inter> cover (B - {(b, k)}) = {}"
    using un c disj by blast
  moreover have "pf_state (phyframes s' x) \<noteq> PHYFRAME_ALLOCATED" if "x \<in> frames_of (min p b) (Suc k)" for x
    using that un bB C(7) fr by (auto simp: s'_def freeing_def simp del: frames_of_iff)
  moreover have "quiet s' (cover B \<union> frames_of p k)"
    using fr quiet_step [OF _ step] by (simp add: freeing_def)
  ultimately show "freeing s' (B - {(b, k)}) (frames_of (min p b) (Suc k))"
    unfolding freeing_def all by blast
qed

lemma try_merge_core:
  assumes "freeing s B (frames_of p k)" "k \<le> max_order" "2 ^ k dvd p" "p + 2 ^ k \<le> pmm_total_frames s"
    "pmm_total_frames s < 2 ^ Suc max_order"
  shows "try_merge p k s = Some (s, False) \<or>
    (\<exists>s' B'. try_merge p k s = Some (s', True) \<and> buddy_inv s' B' \<and> cover B' = cover B \<union> frames_of p k \<and>
       step_ok (cover B \<union> frames_of p k) s s')"
  using assms
proof (induction "max_order - k" arbitrary: s B p k)
  case (0 k s B p)
  then have k: "k = max_order" by simp
  let ?b = "get_buddy_pfn p k"
  have "\<not> (?b < pmm_total_frames s \<and> pf_state (phyframes s ?b) = PHYFRAME_FREE \<and>
    pf_order (phyframes s ?b) = k)"
  proof
    assume "?b < pmm_total_frames s \<and> pf_state (phyframes s ?b) = PHYFRAME_FREE \<and>
      pf_order (phyframes s ?b) = k"
    then have "(?b, k) \<in> B"
      using buddy_listed [OF 0(2,4,5) refl] by blast
    from merge_step(5) [OF 0(2,4,5) refl this] show False
      using 0(6) k by simp
  qed
  then have "try_merge p k s = Some (s, False)"
    using k by (subst try_merge.simps) (auto simp: guards Let_def)
  then show ?case by blast
next
  case (Suc x k s B p)
  let ?b = "get_buddy_pfn p k"
  show ?case
  proof (cases "?b < pmm_total_frames s \<and> pf_state (phyframes s ?b) = PHYFRAME_FREE \<and>
      pf_order (phyframes s ?b) = k")
    case False
    then have "try_merge p k s = Some (s, False)"
      using Suc.prems(2) by (subst try_merge.simps) (auto simp: guards Let_def)
    then show ?thesis by blast
  next
    case True
    then have b: "(?b, k) \<in> B"
      using buddy_listed [OF Suc.prems(1,3,4) refl] by blast
    define m where "m = min p ?b"
    define s1 where "s1 = upd_frame p (pf_state_update (\<lambda>_. PHYFRAME_FREE))
      (upd_heap (\<lambda>h. list_node_remove h (Frame ?b)) s)"
    define B1 where "B1 = B - {(?b, k)}"
    define X where "X = frames_of m (Suc k)"
    note ms = merge_step [OF Suc.prems(1,3,4) refl b, folded m_def s1_def B1_def X_def]
    have pN: "p < pmm_total_frames s"
      using Suc.prems(4) zero_less_power [of "2::nat" k] by linarith
    have "m < pmm_total_frames s"
      using pN by (simp add: m_def)
    then have mN: "m < pmm_total_frames s1"
      by (simp add: s1_def)
    have run: "try_merge p k s = do {
      (s, merged) \<leftarrow> try_merge m (Suc k) s1;
      if merged then Some (s, True)
      else do {
        high_order_frame \<leftarrow> pfn_phyframe s m;
        let s = upd_heap (\<lambda>h. linked_list_init h (Frame m)) s;
        let s = upd_frame m (pf_state_update (\<lambda>_. PHYFRAME_FREE)) s;
        s \<leftarrow> add_to_freelist (Suc k) m s;
        Some (s, True) } }"
      unfolding m_def s1_def Suc_eq_plus1 using True Suc.prems(2) pN
      by (subst try_merge.simps) (simp add: guards Let_def)
    have k1: "Suc k \<le> max_order" "x = max_order - Suc k"
      using Suc.hyps(2) by auto
    have N1: "pmm_total_frames s1 < 2 ^ Suc max_order"
      using Suc.prems(5) by (simp add: s1_def)
    from Suc.hyps(1) [OF k1(2) ms(1) [unfolded X_def] k1(1) ms(4,5) N1]
    consider (no) "try_merge m (Suc k) s1 = Some (s1, False)"
      | (yes) s' B' where "try_merge m (Suc k) s1 = Some (s', True)" "buddy_inv s' B'"
          "cover B' = cover B1 \<union> X" "step_ok (cover B1 \<union> X) s1 s'"
      unfolding X_def by blast
    then show ?thesis
    proof cases
      case yes
      then show ?thesis
        using run ms(2,3) step_ok_trans [OF ms(2), of "cover B1 \<union> X" s' "cover B \<union> frames_of p k"] by auto
    next
      case no
      have core1: "pmm_core s1 B1" and out: "X \<inter> cover B1 = {}"
        and na: "\<And>c. c \<in> X \<Longrightarrow> pf_state (phyframes s1 c) \<noteq> PHYFRAME_ALLOCATED"
        using ms(1) by (auto simp: freeing_def)
      have m_out: "m \<notin> cover B1"
        using out base_in_frames unfolding X_def by blast
      define s2 where "s2 = upd_frame m (pf_state_update (\<lambda>_. PHYFRAME_FREE))
        (upd_heap (\<lambda>h. linked_list_init h (Frame m)) s1)"
      note i = init_core [OF core1 m_out]
      have core2: "pmm_core s2 B1"
        unfolding s2_def by (rule state_core [OF i(1) m_out])
      have det: "detached (pmm_heap s2) m"
        using i(2) by (simp add: s2_def)
      obtain s3 where s3: "add_to_freelist (Suc k) m s2 = Some s3" "pmm_core s3 (insert (m, Suc k) B1)"
        "step_ok {m} s2 s3"
      proof -
        have "m + 2 ^ Suc k \<le> pmm_total_frames s2" "pf_state (phyframes s2 m) = PHYFRAME_FREE"
          using ms(5) by (simp_all add: s2_def)
        moreover have "pf_state (phyframes s2 c) \<noteq> PHYFRAME_ALLOCATED" if "c \<in> frames_of m (Suc k)" for c
          using na [of c] that by (simp add: s2_def X_def del: frames_of_iff)
        ultimately show ?thesis
          using add_to_freelist_core [OF core2 k1(1) ms(4) _ out [unfolded X_def] _ _ det] that by blast
      qed
      have "step_ok X s1 s2"
        by (simp add: s2_def step_ok_def X_def)
      from step_ok_trans [OF this s3(3)] have "step_ok X s1 s3"
        by (simp add: X_def)
      then have step: "step_ok (cover B \<union> frames_of p k) s s3"
        using step_ok_trans [OF ms(2), of X s3] ms(3) by blast
      have "buddy_inv s3 (insert (m, Suc k) B1)"
        by (rule freeing_done [OF ms(1) s3(2)])
          (use \<open>step_ok X s1 s3\<close> step_ok_mono in \<open>auto simp: X_def simp del: frames_of_iff\<close>)
      moreover have "try_merge p k s = Some (s3, True)"
        using run no mN s3(1) by (simp add: guards s2_def)
      moreover have "cover (insert (m, Suc k) B1) = cover B \<union> frames_of p k"
        using ms(3) by (simp add: X_def Un_commute)
      ultimately show ?thesis
        using step by blast
    qed
  qed
qed

lemma buddy_free_core:
  assumes inv: "buddy_inv s B" and p: "p < pmm_total_frames s"
    and st: "pf_state (phyframes s p) = PHYFRAME_ALLOCATED" and det: "detached (pmm_heap s) p"
    and N: "pmm_total_frames s < 2 ^ Suc max_order"
  shows "\<exists>s' B'. buddy_free_n p 1 s = Some s' \<and> buddy_inv s' B' \<and> cover B' = insert p (cover B) \<and>
     step_ok (insert p (cover B)) s s'"
proof -
  have core: "pmm_core s B" and settled: "settled s B"
    using inv by (simp_all add: buddy_inv_def)
  note C = pmm_coreD [OF core]
  have out: "p \<notin> cover B"
    using C(7) st by blast
  define s1 where "s1 = upd_frame p (pf_state_update (\<lambda>_. PHYFRAME_FREE)) s"
  have l1: "log2_ceil 1 = 0"
    by (simp add: log2_ceil_def log2.simps)
  have core1: "pmm_core s1 B"
    unfolding s1_def by (rule state_core [OF core out])
  have "c \<noteq> p" if "b < pmm_total_frames s" "b \<notin> insert p (cover B)" "pf_state (phyframes s b) = PHYFRAME_FREE"
      "c \<in> frames_of (get_buddy_pfn b (pf_order (phyframes s b))) (pf_order (phyframes s b))"
      "c < pmm_total_frames s" for b c
    using quietD [OF settled, of b c] that st by auto
  then have "quiet s (insert p (cover B))"
    using settled unfolding quiet_def by blast
  then have "quiet s1 (insert p (cover B))"
    by (rule quiet_step) (simp add: s1_def step_ok_def)
  then have fr: "freeing s1 B (frames_of p 0)"
    using core1 out by (simp add: freeing_def s1_def)
  have run: "buddy_free_n p 1 s = do { (s, merged) \<leftarrow> try_merge p 0 s1;
      if merged then Some s else add_to_freelist 0 p s }"
    using p st list_is_empty_iff [OF det] l1 by (simp add: buddy_free_n_def guards s1_def)
  have step1: "step_ok (insert p (cover B)) s s1"
    by (simp add: step_ok_def s1_def)
  have "p + 2 ^ 0 \<le> pmm_total_frames s1" "pmm_total_frames s1 < 2 ^ Suc max_order"
    using p N by (simp_all add: s1_def)
  from try_merge_core [OF fr _ _ this]
  consider (no) "try_merge p 0 s1 = Some (s1, False)"
    | (yes) s' B' where "try_merge p 0 s1 = Some (s', True)" "buddy_inv s' B'"
        "cover B' = cover B \<union> frames_of p 0" "step_ok (cover B \<union> frames_of p 0) s1 s'"
    by auto
  then show ?thesis
  proof cases
    case yes
    then show ?thesis
      using run step_ok_trans [OF step1, of "insert p (cover B)" s' "insert p (cover B)"] by auto
  next
    case no
    obtain s' where s': "add_to_freelist 0 p s1 = Some s'" "pmm_core s' (insert (p, 0) B)" "step_ok {p} s1 s'"
      using add_to_freelist_core [of s1 B 0 p] fr p out det by (auto simp: freeing_def s1_def)
    have "buddy_inv s' (insert (p, 0) B)"
      by (rule freeing_done [OF fr s'(2)]) (use s'(3) step_ok_mono in auto)
    moreover have "step_ok (insert p (cover B)) s s'"
      using step_ok_trans [OF step1 s'(3)] by blast
    ultimately show ?thesis
      using run no s'(1) by (intro exI [of _ s'] exI [of _ "insert (p, 0) B"]) simp
  qed
qed

section \<open>Initialising\<close>

definition fresh_from :: "pmm \<Rightarrow> nat \<Rightarrow> bool" where
  "fresh_from s c \<longleftrightarrow> (\<forall>b\<ge>c. pf_state (phyframes s b) \<noteq> PHYFRAME_ALLOCATED)"

lemma populate_loop_core:
  assumes "pmm_core s B" "cover B = {0..<c}" "2 ^ k dvd c" "k \<le> max_order" "c \<le> e" "e \<le> pmm_total_frames s"
    "fresh_from s c"
  shows "\<exists>s' B' c'. populate_loop k e c n s = Some (s', c', n - (c' - c)) \<and> pmm_core s' B' \<and>
     cover B' = {0..<c'} \<and> 2 ^ k dvd c' \<and> c \<le> c' \<and> c' \<le> e \<and> e < c' + 2 ^ k \<and> fresh_from s' c' \<and>
     pmm_total_frames s' = pmm_total_frames s \<and> pmm_allocated_frames s' = pmm_allocated_frames s"
  using assms
proof (induction k e c n s arbitrary: B rule: populate_loop.induct)
  case (1 k e c n s)
  show ?case
  proof (cases "c + 2 ^ k \<le> e")
    case False
    then show ?thesis
      using 1(2-) by (subst populate_loop.simps) auto
  next
    case True
    have cN: "c < pmm_total_frames s"
      using True 1(7) zero_less_power [of "2::nat" k] by linarith
    have out: "c \<notin> cover B"
      using 1(3) by simp
    define s0 where "s0 = upd_heap (\<lambda>h. linked_list_init h (Frame c)) s"
    define s1 where "s1 = upd_frame c (pf_state_update (\<lambda>_. PHYFRAME_FREE)) s0"
    define s2 where "s2 = upd_frame c (pf_order_update (\<lambda>_. k)) s1"
    note i = init_core [OF 1(2) out, folded s0_def]
    have core1: "pmm_core s1 B"
      unfolding s1_def by (rule state_core [OF i(1) out])
    then have core2: "pmm_core s2 B"
      using not_listed [OF out] 1(4) by (auto simp: pmm_core_def s2_def)
    have "detached (pmm_heap s2) c" "pmm_total_frames s2 = pmm_total_frames s"
      using i(2) by (simp_all add: s2_def s1_def s0_def)
    moreover have "pf_state (phyframes s2 b) \<noteq> PHYFRAME_ALLOCATED" if "c \<le> b" for b
      using 1(8) that by (simp add: s2_def s1_def s0_def fresh_from_def)
    moreover have "pf_state (phyframes s2 c) = PHYFRAME_FREE"
      by (simp add: s2_def s1_def)
    moreover have "frames_of c k \<inter> cover B = {}"
      using 1(3) by auto
    ultimately obtain s3 where s3: "add_to_freelist k c s2 = Some s3" "pmm_core s3 (insert (c, k) B)"
      "step_ok {c} s2 s3" "\<forall>b. pf_state (phyframes s3 b) = pf_state (phyframes s2 b)"
      using add_to_freelist_core [OF core2 1(5,4)] True 1(7) by auto
    have tot: "pmm_total_frames s3 = pmm_total_frames s" "pmm_allocated_frames s3 = pmm_allocated_frames s"
      using s3(3) by (simp_all add: step_ok_def s2_def s1_def s0_def)
    have cov: "cover (insert (c, k) B) = {0..<c + 2 ^ k}"
      unfolding cover_insert 1(3) by auto
    have al: "2 ^ k dvd c + 2 ^ k"
      using 1(4) by simp
    have fresh: "fresh_from s3 (c + 2 ^ k)"
      using 1(8) s3(4) by (simp add: fresh_from_def s2_def s1_def s0_def)
    have run: "populate_loop k e c n s = populate_loop k e (c + 2 ^ k) (n - 2 ^ k) s3"
      using True cN s3(1) by (subst populate_loop.simps) (simp add: guards s2_def s1_def s0_def)
    have "\<exists>s' B' c'. populate_loop k e (c + 2 ^ k) (n - 2 ^ k) s3 = Some (s', c', n - 2 ^ k - (c' - (c + 2 ^ k))) \<and>
        pmm_core s' B' \<and> cover B' = {0..<c'} \<and> 2 ^ k dvd c' \<and> c + 2 ^ k \<le> c' \<and> c' \<le> e \<and> e < c' + 2 ^ k \<and>
        fresh_from s' c' \<and> pmm_total_frames s' = pmm_total_frames s3 \<and>
        pmm_allocated_frames s' = pmm_allocated_frames s3"
      by (rule 1(1) [OF True pfn_phyframe_Some [OF cN] s0_def s1_def s2_def s3(1) s3(2) cov al 1(5) True _ fresh])
        (use 1(7) tot in simp)
    then obtain s' B' c' where
      4: "populate_loop k e (c + 2 ^ k) (n - 2 ^ k) s3 = Some (s', c', n - 2 ^ k - (c' - (c + 2 ^ k)))"
        "pmm_core s' B'" "cover B' = {0..<c'}" "2 ^ k dvd c'" "c + 2 ^ k \<le> c'" "c' \<le> e" "e < c' + 2 ^ k"
        "fresh_from s' c'" "pmm_total_frames s' = pmm_total_frames s"
        "pmm_allocated_frames s' = pmm_allocated_frames s"
      unfolding tot by blast
    moreover have "n - 2 ^ k - (c' - (c + 2 ^ k)) = n - (c' - c)" "c \<le> c'"
      using 4(5) by linarith+
    ultimately show ?thesis
      unfolding run by metis
  qed
qed

lemma populate_freelist_core:
  assumes "pmm_core s B" "cover B = {0..<c}" "2 ^ k dvd c" "k \<le> max_order" "c + n \<le> pmm_total_frames s"
    "fresh_from s c"
  shows "\<exists>s' B'. populate_freelist c n k s = Some s' \<and> pmm_core s' B' \<and> cover B' = {0..<c + n} \<and>
     pmm_total_frames s' = pmm_total_frames s \<and> pmm_allocated_frames s' = pmm_allocated_frames s"
  using assms
proof (induction k arbitrary: c n s B)
  case 0
  obtain s' B' c' where 1: "populate_loop 0 (c + n) c n s = Some (s', c', n - (c' - c))" "pmm_core s' B'"
    "cover B' = {0..<c'}" "c \<le> c'" "c' \<le> c + n" "c + n < c' + 2 ^ 0" "pmm_total_frames s' = pmm_total_frames s"
    "pmm_allocated_frames s' = pmm_allocated_frames s"
    using populate_loop_core [OF 0(1-4) le_add1 0(5,6), of n] by blast
  then have "c' = c + n" by simp
  with 1 show ?case
    by (subst populate_freelist.simps) auto
next
  case (Suc k)
  obtain s1 B1 c1 where 1: "populate_loop (Suc k) (c + n) c n s = Some (s1, c1, n - (c1 - c))" "pmm_core s1 B1"
    "cover B1 = {0..<c1}" "2 ^ Suc k dvd c1" "c \<le> c1" "c1 \<le> c + n" "fresh_from s1 c1"
    "pmm_total_frames s1 = pmm_total_frames s" "pmm_allocated_frames s1 = pmm_allocated_frames s"
    using populate_loop_core [OF Suc.prems(1-4) le_add1 Suc.prems(5,6), of n] by blast
  show ?case
  proof (cases "n - (c1 - c) = 0")
    case True
    then have "c1 = c + n" using 1(5,6) by simp
    with True 1 show ?thesis
      by (subst populate_freelist.simps) auto
  next
    case False
    have "2 ^ k dvd c1" "k \<le> max_order" and sum: "c1 + (n - (c1 - c)) = c + n"
      using 1(4-6) Suc.prems(4) by (auto intro: dvd_mult_right)
    then obtain s' B' where "populate_freelist c1 (n - (c1 - c)) k s1 = Some s'" "pmm_core s' B'"
      "cover B' = {0..<c + n}" "pmm_total_frames s' = pmm_total_frames s"
      "pmm_allocated_frames s' = pmm_allocated_frames s"
      using Suc.IH [OF 1(2,3) _ _ _ 1(7), of "n - (c1 - c)"] 1(8,9) Suc.prems(5) unfolding sum by auto
    then show ?thesis
      using 1(1) False by (subst populate_freelist.simps) auto
  qed
qed

text \<open>The frame array as the platform hands it over: zeroed, so that every frame is reserved.\<close>

definition zeroed :: "pmm \<Rightarrow> bool" where
  "zeroed s \<longleftrightarrow> (\<forall>b. pf_state (phyframes s b) = PHYFRAME_RESERVED \<and> pf_order (phyframes s b) = 0)"

lemma fold_init_lists:
  "\<forall>k<n. is_list (pmm_heap (fold (\<lambda>i. upd_heap (\<lambda>h. linked_list_init h (Freelist i))) [0..<n] s)) (Freelist k) []"
  "phyframes (fold (\<lambda>i. upd_heap (\<lambda>h. linked_list_init h (Freelist i))) [0..<n] s) = phyframes s"
  "pmm_total_frames (fold (\<lambda>i. upd_heap (\<lambda>h. linked_list_init h (Freelist i))) [0..<n] s) = pmm_total_frames s"
  "pmm_allocated_frames (fold (\<lambda>i. upd_heap (\<lambda>h. linked_list_init h (Freelist i))) [0..<n] s) =
     pmm_allocated_frames s"
proof (induction n)
  case (Suc n)
  {
    case 1
    then show ?case
      using Suc(1) by (auto simp: less_Suc_eq intro: ll.init_other ll.init_law)
  next
    case 2
    then show ?case using Suc(2) by simp
  next
    case 3
    then show ?case using Suc(3) by simp
  next
    case 4
    then show ?case using Suc(4) by simp
  }
qed simp_all

lemma buddy_init_core:
  assumes "zeroed s" "N = pmm_total_frames s"
  shows "\<exists>s' B. buddy_init N s = Some s' \<and> buddy_inv s' B \<and> cover B = {0..<N} \<and> pmm_total_frames s' = N \<and>
     pmm_allocated_frames s' = pmm_allocated_frames s"
proof -
  define s1 where "s1 = fold (\<lambda>i. upd_heap (\<lambda>h. linked_list_init h (Freelist i))) [0..<Suc max_order] s"
  have "hrep (pmm_heap s1) {}"
    using fold_init_lists(1) [of "Suc max_order" s] by (auto simp: hrep_def s1_def blist_def less_Suc_eq_le)
  then have core: "pmm_core s1 {}"
    using assms fold_init_lists(2) [of "Suc max_order" s]
    by (simp add: pmm_core_def blocks_ok_def zeroed_def s1_def del: fold_append upt_Suc)
  have fresh: "fresh_from s1 0" and tot: "pmm_total_frames s1 = N" "pmm_allocated_frames s1 = pmm_allocated_frames s"
    using assms fold_init_lists(2-4) [of "Suc max_order" s]
    by (auto simp: fresh_from_def zeroed_def s1_def simp del: upt_Suc)
  obtain s' B where "populate_freelist 0 N (min (log2 N) max_order) s1 = Some s'" "pmm_core s' B"
    "cover B = {0..<N}" "pmm_total_frames s' = N" "pmm_allocated_frames s' = pmm_allocated_frames s"
    using populate_freelist_core [OF core, of 0 "min (log2 N) max_order" N] fresh tot by auto
  moreover from this have "quiet s' (cover B)"
    by (simp add: quiet_def)
  ultimately show ?thesis
    unfolding buddy_init_def Let_def s1_def [symmetric] by (auto simp: buddy_inv_def)
qed

end
