(* ===== verification/Pmm.thy ===== *)
theory Pmm
  imports BuddyOps
begin

text \<open>
  The physical memory manager of \<^verbatim>\<open>kernel/mm/physical/pmm.c\<close> on top of the buddy allocator:
  allocation with the frame counter, freeing frame by frame, reservation, and the reference counts
  that free a frame when the last reference is dropped.  The free frames of a state are read off
  its free lists.  \<open>frame_allocator\<close> is the contract of an allocator of frames; its client is the
  sequence of allocations and releases at the end of the theory.
\<close>

section \<open>Definitions\<close>

datatype pmm_allocation_flags = PMM_ALLOC_NORMAL

definition pmm_init :: "nat \<Rightarrow> pmm \<Rightarrow> pmm option" where
  "pmm_init max_nframes s = buddy_init max_nframes (s\<lparr>pmm_total_frames := max_nframes\<rparr>)"

fun reset_refcounts :: "nat \<Rightarrow> nat \<Rightarrow> pmm \<Rightarrow> pmm option" where
  "reset_refcounts pfn 0 s = Some s"
| "reset_refcounts pfn (Suc n) s = do {
     frame \<leftarrow> pfn_phyframe s pfn;
     reset_refcounts (pfn + 1) n (upd_frame pfn (pf_refcount_update (\<lambda>_. 0)) s) }"

definition pmm_allocate_frames ::
  "nat \<Rightarrow> pmm_allocation_flags \<Rightarrow> pmm \<Rightarrow> (pmm \<times> nat option) option" where
  "pmm_allocate_frames n_frames flags s = do {
     mos_assert (flags = PMM_ALLOC_NORMAL);
     (s, frame) \<leftarrow> buddy_alloc_n_exact n_frames s;
     case frame of
       None \<Rightarrow> Some (s, None)
     | Some pfn \<Rightarrow> do {
         s \<leftarrow> reset_refcounts pfn n_frames s;
         Some (s\<lparr>pmm_allocated_frames := pmm_allocated_frames s + of_nat n_frames\<rparr>, Some pfn) } }"

fun free_frames_loop :: "nat \<Rightarrow> nat \<Rightarrow> pmm \<Rightarrow> pmm option" where
  "free_frames_loop pfn 0 s = Some s"
| "free_frames_loop pfn (Suc n) s = do {
     frame \<leftarrow> pfn_phyframe s pfn;
     s \<leftarrow> buddy_free_n pfn 1 (upd_heap (\<lambda>h. linked_list_init h (Frame pfn)) s);
     free_frames_loop (pfn + 1) n s }"

definition pmm_free_frames :: "nat \<Rightarrow> nat \<Rightarrow> pmm \<Rightarrow> pmm option" where
  "pmm_free_frames start n_pages s = do {
     s \<leftarrow> free_frames_loop start n_pages s;
     Some (s\<lparr>pmm_allocated_frames := pmm_allocated_frames s - of_nat n_pages\<rparr>) }"

definition pmm_reserve_frames :: "nat \<Rightarrow> nat \<Rightarrow> pmm \<Rightarrow> (pmm \<times> nat) option" where
  "pmm_reserve_frames pfn_start npages s = do {
     mos_assert (pfn_start + npages \<le> pmm_total_frames s);
     s \<leftarrow> buddy_reserve_n pfn_start npages s;
     Some (s\<lparr>pmm_reserved_frames := pmm_reserved_frames s + of_nat npages\<rparr>, pfn_start) }"

record pmm_region =
  pr_pfn_start :: u64
  pr_nframes :: size_t
  pr_reserved :: bool
  pr_type :: u32

text \<open>The regions come from the boot loader; \<^verbatim>\<open>MOS_PAGE_SIZE\<close> is 4096 (\<^verbatim>\<open>arch/x86_64/Kconfig\<close>).\<close>

fun pmm_find_reserved_region :: "pmm_region list \<Rightarrow> ptr_t \<Rightarrow> pmm_region option" where
  "pmm_find_reserved_region [] needle = None"
| "pmm_find_reserved_region (r # rs) needle =
     (let needle_pfn = needle div 4096 in
      if pr_reserved r \<and> pr_pfn_start r \<le> needle_pfn \<and> needle_pfn < pr_pfn_start r + pr_nframes r
      then Some r else pmm_find_reserved_region rs needle)"

fun ref_loop :: "nat \<Rightarrow> nat \<Rightarrow> pmm \<Rightarrow> pmm option" where
  "ref_loop pfn 0 s = Some s"
| "ref_loop pfn (Suc n) s = do {
     frame \<leftarrow> pfn_phyframe s pfn;
     ref_loop (pfn + 1) n (upd_frame pfn (pf_refcount_update (\<lambda>c. c + 1)) s) }"

definition pmm_ref_phyframes :: "nat \<Rightarrow> nat \<Rightarrow> pmm \<Rightarrow> pmm option" where
  "pmm_ref_phyframes start n_pages s = do {
     mos_assert (start + n_pages \<le> pmm_total_frames s);
     ref_loop start n_pages s }"

fun unref_loop :: "nat \<Rightarrow> nat \<Rightarrow> pmm \<Rightarrow> pmm option" where
  "unref_loop pfn 0 s = Some s"
| "unref_loop pfn (Suc n) s = do {
     frame \<leftarrow> pfn_phyframe s pfn;
     mos_assert (pf_refcount frame > 0);
     let s = upd_frame pfn (pf_refcount_update (\<lambda>c. c - 1)) s;
     s \<leftarrow> (if pf_refcount (phyframes s pfn) = 0 then pmm_free_frames pfn 1 s else Some s);
     unref_loop (pfn + 1) n s }"

definition pmm_unref_phyframes :: "nat \<Rightarrow> nat \<Rightarrow> pmm \<Rightarrow> pmm option" where
  "pmm_unref_phyframes start n_pages s = do {
     mos_assert (start + n_pages \<le> pmm_total_frames s);
     unref_loop start n_pages s }"

text \<open>The free blocks and frames that the free lists of a state hold, and the allocated frames.\<close>

definition free_blocks :: "pmm \<Rightarrow> (nat \<times> nat) set" where
  "free_blocks s = {(p, k). k \<le> max_order \<and>
     (case list_visit (pmm_heap s) (Freelist k) (ln_next (pmm_heap s) (Freelist k)) of
        None \<Rightarrow> False | Some ns \<Rightarrow> Frame p \<in> set ns)}"

definition free_frames :: "pmm \<Rightarrow> nat set" where
  "free_frames s = cover (free_blocks s)"

definition used_frames :: "pmm \<Rightarrow> nat set" where
  "used_frames s = {b. b < pmm_total_frames s \<and> pf_state (phyframes s b) = PHYFRAME_ALLOCATED}"

text \<open>
  The invariant of the manager.  The frame counter is the number of allocated frames, and there
  are fewer than \<open>2 ^ 26\<close> frames (256 GiB), so that no merge leaves the largest order.
\<close>

definition pmm_wf :: "pmm \<Rightarrow> bool" where
  "pmm_wf s \<longleftrightarrow> buddy_inv s (free_blocks s) \<and> pmm_total_frames s < 2 ^ 26 \<and>
     pmm_allocated_frames s = of_nat (card (used_frames s))"

section \<open>The state of the free lists\<close>

lemma free_blocks_eq:
  assumes "pmm_core s B"
  shows "free_blocks s = B"
proof -
  note C = pmm_coreD [OF assms]
  have "list_visit (pmm_heap s) (Freelist k) (ln_next (pmm_heap s) (Freelist k)) = Some (map Frame (blist B k))"
    if "k \<le> max_order" for k
    by (rule list_visit_is_list) (use C(2) that in \<open>simp add: hrep_def\<close>)
  then have "(p, k) \<in> free_blocks s \<longleftrightarrow> k \<le> max_order \<and> (p, k) \<in> B" for p k
    using C(3) by (auto simp: free_blocks_def)
  then show ?thesis
    using blocks_okD(1) [OF C(1)] by auto
qed

lemma buddy_inv_free:
  "buddy_inv s B \<Longrightarrow> free_blocks s = B" "buddy_inv s B \<Longrightarrow> free_frames s = cover B"
  using free_blocks_eq by (auto simp: buddy_inv_def free_frames_def)

lemma pmm_wf_inv: "pmm_wf s \<Longrightarrow> buddy_inv s (free_blocks s)"
  by (simp add: pmm_wf_def)

lemma finite_used [simp]: "finite (used_frames s)"
  by (rule finite_subset [of _ "{..<pmm_total_frames s}"]) (auto simp: used_frames_def)

lemma used_free_disjoint: "buddy_inv s B \<Longrightarrow> used_frames s \<inter> cover B = {}"
  using pmm_coreD(7) by (auto simp: used_frames_def buddy_inv_def)

text \<open>The invariant does not look at the counters and the reference counts.\<close>

definition same_alloc :: "pmm \<Rightarrow> pmm \<Rightarrow> bool" where
  "same_alloc s s' \<longleftrightarrow> pmm_heap s' = pmm_heap s \<and> pmm_total_frames s' = pmm_total_frames s \<and>
     (\<forall>b. pf_state (phyframes s' b) = pf_state (phyframes s b) \<and>
          pf_order (phyframes s' b) = pf_order (phyframes s b))"

lemma same_alloc_inv: "same_alloc s s' \<Longrightarrow> buddy_inv s' B \<longleftrightarrow> buddy_inv s B"
  by (simp add: same_alloc_def buddy_inv_def pmm_core_def quiet_def)

lemma same_alloc_views:
  "same_alloc s s' \<Longrightarrow> free_blocks s' = free_blocks s \<and> used_frames s' = used_frames s"
  by (simp add: same_alloc_def free_blocks_def used_frames_def)

lemma alloc_done_used:
  assumes inv: "buddy_inv s B" and fin: "alloc_done s B start n s' B'"
  shows "used_frames s' = used_frames s \<union> {start..<start + n}" "used_frames s \<inter> {start..<start + n} = {}"
proof -
  have d: "cover B' = cover B - {start..<start + n}" "step_ok (cover B) s s'" "buddy_inv s' B'"
    "{start..<start + n} \<subseteq> cover B"
    "\<And>b. b \<in> {start..<start + n} \<Longrightarrow> pf_state (phyframes s' b) = PHYFRAME_ALLOCATED"
    using fin by (auto simp: alloc_done_def)
  have bound: "b < pmm_total_frames s" if "b \<in> cover B" for b
    using inv cover_bound [OF pmm_coreD(1)] that by (auto simp: buddy_inv_def)
  show "used_frames s \<inter> {start..<start + n} = {}"
    using used_free_disjoint [OF inv] d(4) by blast
  show "used_frames s' = used_frames s \<union> {start..<start + n}"
  proof (rule set_eqI)
    fix b
    consider "b \<in> {start..<start + n}" | "b \<in> cover B'" | "b \<notin> cover B"
      using d(1) by blast
    then show "b \<in> used_frames s' \<longleftrightarrow> b \<in> used_frames s \<union> {start..<start + n}"
    proof cases
      case 1
      then show ?thesis
        using d(2,4,5) bound by (auto simp: used_frames_def step_ok_def)
    next
      case 2
      then show ?thesis
        using used_free_disjoint [OF d(3)] used_free_disjoint [OF inv] d(1) by blast
    next
      case 3
      then show ?thesis
        using d(2,4) by (auto simp: used_frames_def step_ok_def)
    qed
  qed
qed

section \<open>The operations\<close>

lemma reset_refcounts_run:
  "pfn + n \<le> pmm_total_frames s \<Longrightarrow> \<exists>s'. reset_refcounts pfn n s = Some s' \<and> same_alloc s s' \<and>
     pmm_allocated_frames s' = pmm_allocated_frames s \<and> pmm_reserved_frames s' = pmm_reserved_frames s \<and>
     (\<forall>b. pf_refcount (phyframes s' b) = (if pfn \<le> b \<and> b < pfn + n then 0 else pf_refcount (phyframes s b)))"
proof (induction n arbitrary: pfn s)
  case 0
  then show ?case by (auto simp: same_alloc_def)
next
  case (Suc n)
  let ?t = "upd_frame pfn (pf_refcount_update (\<lambda>_. 0)) s"
  obtain s' where "reset_refcounts (pfn + 1) n ?t = Some s'" "same_alloc ?t s'"
    "pmm_allocated_frames s' = pmm_allocated_frames ?t" "pmm_reserved_frames s' = pmm_reserved_frames ?t"
    "\<forall>b. pf_refcount (phyframes s' b) = (if pfn + 1 \<le> b \<and> b < pfn + 1 + n then 0 else pf_refcount (phyframes ?t b))"
    using Suc.IH [of "pfn + 1" ?t] Suc.prems by auto
  then show ?case
    using Suc.prems by (intro exI [of _ s']) (auto simp: guards same_alloc_def)
qed

text \<open>An allocation takes a whole range of free frames, or finds no block that is large enough.\<close>

definition allocated :: "pmm \<Rightarrow> nat \<Rightarrow> nat \<Rightarrow> pmm \<Rightarrow> bool" where
  "allocated s pfn n s' \<longleftrightarrow> {pfn..<pfn + n} \<subseteq> free_frames s \<and>
     free_frames s' = free_frames s - {pfn..<pfn + n} \<and>
     used_frames s' = used_frames s \<union> {pfn..<pfn + n} \<and> used_frames s \<inter> {pfn..<pfn + n} = {} \<and>
     (\<forall>b. pf_refcount (phyframes s' b) = (if b \<in> {pfn..<pfn + n} then 0 else pf_refcount (phyframes s b))) \<and>
     pmm_total_frames s' = pmm_total_frames s"

lemma pmm_allocate_run:
  assumes wf: "pmm_wf s" and n: "0 < n"
  shows "if \<exists>p k. (p, k) \<in> free_blocks s \<and> log2_ceil n \<le> k
     then \<exists>s' pfn. pmm_allocate_frames n PMM_ALLOC_NORMAL s = Some (s', Some pfn) \<and> pmm_wf s' \<and>
            allocated s pfn n s'
     else pmm_allocate_frames n PMM_ALLOC_NORMAL s = Some (s, None)"
proof (cases "\<exists>p k. (p, k) \<in> free_blocks s \<and> log2_ceil n \<le> k")
  case False
  then show ?thesis
    using buddy_alloc_core [OF pmm_wf_inv [OF wf], of n] by (auto simp: pmm_allocate_frames_def)
next
  case True
  note inv = pmm_wf_inv [OF wf]
  let ?X = "\<lambda>pfn. {pfn..<pfn + n}"
  obtain pfn s1 B1 where 1: "buddy_alloc_n_exact n s = Some (s1, Some pfn)"
    and ad: "alloc_done s (free_blocks s) pfn n s1 B1"
    using buddy_alloc_core [OF inv, of n] True by auto
  have inv1: "buddy_inv s1 B1" and step: "step_ok (free_frames s) s s1"
    and X: "?X pfn \<subseteq> free_frames s" and cov: "cover B1 = free_frames s - ?X pfn"
    using ad by (auto simp: alloc_done_def free_frames_def)
  note used = alloc_done_used [OF inv ad]
  have "pfn + n - 1 \<in> free_frames s"
    using X n by auto
  then have "pfn + n - 1 < pmm_total_frames s"
    using inv cover_bound [OF pmm_coreD(1)] by (auto simp: buddy_inv_def free_frames_def)
  then have "pfn + n \<le> pmm_total_frames s1"
    using step n by (simp add: step_ok_def)
  then obtain s2 where s2: "reset_refcounts pfn n s1 = Some s2" "same_alloc s1 s2"
    "pmm_allocated_frames s2 = pmm_allocated_frames s1"
    "\<forall>b. pf_refcount (phyframes s2 b) = (if pfn \<le> b \<and> b < pfn + n then 0 else pf_refcount (phyframes s1 b))"
    using reset_refcounts_run by blast
  define s' where "s' = s2\<lparr>pmm_allocated_frames := pmm_allocated_frames s2 + of_nat n\<rparr>"
  have sa: "same_alloc s1 s'"
    using s2(2) by (simp add: same_alloc_def s'_def)
  have inv': "buddy_inv s' B1"
    using inv1 same_alloc_inv [OF sa] by simp
  have fb: "free_blocks s' = B1"
    using buddy_inv_free(1) [OF inv'] .
  have u': "used_frames s' = used_frames s \<union> ?X pfn"
    using used(1) same_alloc_views [OF sa] by simp
  have "card (used_frames s') = card (used_frames s) + n"
    unfolding u' by (subst card_Un_disjoint) (use used(2) in auto)
  moreover have "pmm_allocated_frames s' = pmm_allocated_frames s + of_nat n"
    using s2(3) step by (simp add: s'_def step_ok_def)
  moreover have "pmm_total_frames s' = pmm_total_frames s"
    using sa step by (simp add: same_alloc_def step_ok_def)
  ultimately have "pmm_wf s'"
    using wf inv' fb by (simp add: pmm_wf_def)
  moreover have "pf_refcount (phyframes s' b) = (if b \<in> ?X pfn then 0 else pf_refcount (phyframes s b))" for b
    using s2(4) step by (simp add: s'_def step_ok_def)
  ultimately have "pmm_wf s'" "allocated s pfn n s'"
    using X cov used u' sa step fb
    by (auto simp: allocated_def free_frames_def same_alloc_def step_ok_def)
  moreover have "pmm_allocate_frames n PMM_ALLOC_NORMAL s = Some (s', Some pfn)"
    using 1 s2(1) by (simp add: pmm_allocate_frames_def s'_def)
  ultimately show ?thesis
    using True by auto
qed

text \<open>Freeing allocated frames.\<close>

definition released :: "pmm \<Rightarrow> nat set \<Rightarrow> pmm \<Rightarrow> bool" where
  "released s R s' \<longleftrightarrow> free_frames s' = free_frames s \<union> R \<and>
     used_frames s' = used_frames s - R \<and> pmm_total_frames s' = pmm_total_frames s \<and>
     (\<forall>b. pf_refcount (phyframes s' b) = pf_refcount (phyframes s b))"

definition free_frame :: "nat \<Rightarrow> pmm \<Rightarrow> pmm option" where
  "free_frame pfn s = buddy_free_n pfn 1 (upd_heap (\<lambda>h. linked_list_init h (Frame pfn)) s)"

lemma free_frame_inv:
  assumes inv: "buddy_inv s B" and p: "pfn \<in> used_frames s" and N: "pmm_total_frames s < 2 ^ 26"
  shows "\<exists>s' B'. free_frame pfn s = Some s' \<and> buddy_inv s' B' \<and> released s {pfn} s' \<and>
     pmm_allocated_frames s' = pmm_allocated_frames s"
proof -
  have pN: "pfn < pmm_total_frames s" and st: "pf_state (phyframes s pfn) = PHYFRAME_ALLOCATED"
    using p by (auto simp: used_frames_def)
  have out: "pfn \<notin> cover B"
    using used_free_disjoint [OF inv] p by blast
  define t where "t = upd_heap (\<lambda>h. linked_list_init h (Frame pfn)) s"
  have core: "pmm_core s B" and settled: "settled s B"
    using inv by (simp_all add: buddy_inv_def)
  note i = init_core [OF core out, folded t_def]
  have invt: "buddy_inv t B"
    using i(1) settled by (simp add: buddy_inv_def quiet_def t_def)
  have "pfn < pmm_total_frames t" "pf_state (phyframes t pfn) = PHYFRAME_ALLOCATED"
    "pmm_total_frames t < 2 ^ Suc max_order"
    using pN st N by (simp_all add: t_def max_order_def)
  from buddy_free_core [OF invt this(1,2) i(2) this(3)]
  obtain s' B' where 1: "buddy_free_n pfn 1 t = Some s'" "buddy_inv s' B'"
    "cover B' = insert pfn (cover B)" "step_ok (insert pfn (cover B)) t s'"
    by blast
  have "b \<in> used_frames s' \<longleftrightarrow> b \<in> used_frames s - {pfn}" for b
  proof (cases "b \<in> insert pfn (cover B)")
    case True
    then show ?thesis
      using used_free_disjoint [OF 1(2)] used_free_disjoint [OF inv] 1(3) by blast
  next
    case False
    then show ?thesis
      using 1(4) by (auto simp: used_frames_def step_ok_def t_def)
  qed
  then have "used_frames s' = used_frames s - {pfn}"
    by blast
  then have "released s {pfn} s'"
    using 1(3,4) buddy_inv_free(2) [OF inv] buddy_inv_free(2) [OF 1(2)]
    by (simp add: released_def step_ok_def t_def)
  moreover have "pmm_allocated_frames s' = pmm_allocated_frames s"
    using 1(4) by (simp add: step_ok_def t_def)
  ultimately show ?thesis
    using 1(1,2) by (auto simp: free_frame_def t_def)
qed

lemma free_frames_loop_run:
  assumes "buddy_inv s B" "{pfn..<pfn + n} \<subseteq> used_frames s" "pmm_total_frames s < 2 ^ 26"
  shows "\<exists>s' B'. free_frames_loop pfn n s = Some s' \<and> buddy_inv s' B' \<and> released s {pfn..<pfn + n} s' \<and>
     pmm_allocated_frames s' = pmm_allocated_frames s"
  using assms
proof (induction n arbitrary: pfn s B)
  case 0
  then show ?case by (auto simp: released_def)
next
  case (Suc n)
  have p: "pfn \<in> used_frames s"
    by (rule subsetD [OF Suc.prems(2)]) simp
  then obtain s1 B1 where 1: "free_frame pfn s = Some s1" "buddy_inv s1 B1" "released s {pfn} s1"
    "pmm_allocated_frames s1 = pmm_allocated_frames s"
    using free_frame_inv [OF Suc.prems(1) _ Suc.prems(3)] by blast
  have "{pfn + 1..<pfn + 1 + n} \<subseteq> used_frames s1" "pmm_total_frames s1 < 2 ^ 26"
    using Suc.prems(2,3) 1(3) by (auto simp: released_def)
  then obtain s2 B2 where 2: "free_frames_loop (pfn + 1) n s1 = Some s2" "buddy_inv s2 B2"
    "released s1 {pfn + 1..<pfn + 1 + n} s2" "pmm_allocated_frames s2 = pmm_allocated_frames s1"
    using Suc.IH [OF 1(2)] by blast
  have "{pfn..<pfn + Suc n} = insert pfn {pfn + 1..<pfn + 1 + n}"
    by auto
  then have "released s {pfn..<pfn + Suc n} s2"
    using 1(3) 2(3) by (auto simp: released_def)
  moreover have "pfn < pmm_total_frames s"
    using p by (simp add: used_frames_def)
  ultimately show ?case
    using 1(1,4) 2(1,2,4) by (auto simp: guards free_frame_def)
qed

lemma pmm_free_run:
  assumes wf: "pmm_wf s" and R: "{pfn..<pfn + n} \<subseteq> used_frames s"
  shows "\<exists>s'. pmm_free_frames pfn n s = Some s' \<and> pmm_wf s' \<and> released s {pfn..<pfn + n} s'"
proof -
  obtain s1 B where 1: "free_frames_loop pfn n s = Some s1" "buddy_inv s1 B" "released s {pfn..<pfn + n} s1"
    "pmm_allocated_frames s1 = pmm_allocated_frames s"
    using free_frames_loop_run [OF pmm_wf_inv [OF wf] R] wf by (auto simp: pmm_wf_def)
  define s' where "s' = s1\<lparr>pmm_allocated_frames := pmm_allocated_frames s1 - of_nat n\<rparr>"
  have sa: "same_alloc s1 s'"
    by (simp add: same_alloc_def s'_def)
  have rel: "released s {pfn..<pfn + n} s'"
    using 1(3) same_alloc_views [OF sa] by (simp add: released_def free_frames_def s'_def)
  have "card (used_frames s) = card (used_frames s') + n"
    using card_Un_disjoint [of "used_frames s'" "{pfn..<pfn + n}"] rel R
    by (auto simp: released_def Un_absorb2)
  then have "pmm_wf s'"
    using wf 1 same_alloc_inv [OF sa] same_alloc_views [OF sa] buddy_inv_free(1) [OF 1(2)] rel
    by (simp add: pmm_wf_def s'_def released_def)
  then show ?thesis
    using rel 1(1) by (simp add: pmm_free_frames_def s'_def)
qed

lemma pmm_free_one:
  assumes "pmm_wf s" "pfn \<in> used_frames s"
  shows "\<exists>s'. pmm_free_frames pfn 1 s = Some s' \<and> pmm_wf s' \<and> released s {pfn} s'"
  using pmm_free_run [OF assms(1), of pfn 1] assms(2) by simp

text \<open>Reference counts.\<close>

lemma ref_loop_run:
  "pfn + n \<le> pmm_total_frames s \<Longrightarrow> \<exists>s'. ref_loop pfn n s = Some s' \<and> same_alloc s s' \<and>
     pmm_allocated_frames s' = pmm_allocated_frames s \<and>
     (\<forall>b. pf_refcount (phyframes s' b) =
        (if b \<in> {pfn..<pfn + n} then pf_refcount (phyframes s b) + 1 else pf_refcount (phyframes s b)))"
proof (induction n arbitrary: pfn s)
  case 0
  then show ?case by (auto simp: same_alloc_def)
next
  case (Suc n)
  let ?t = "upd_frame pfn (pf_refcount_update (\<lambda>c. c + 1)) s"
  obtain s' where "ref_loop (pfn + 1) n ?t = Some s'" "same_alloc ?t s'"
    "pmm_allocated_frames s' = pmm_allocated_frames ?t"
    "\<forall>b. pf_refcount (phyframes s' b) = (if b \<in> {pfn + 1..<pfn + 1 + n}
        then pf_refcount (phyframes ?t b) + 1 else pf_refcount (phyframes ?t b))"
    using Suc.IH [of "pfn + 1" ?t] Suc.prems by auto
  then show ?case
    using Suc.prems by (intro exI [of _ s']) (auto simp: guards same_alloc_def not_less_eq_eq dest: le_antisym)
qed

lemma same_alloc_wf:
  "pmm_wf s \<Longrightarrow> same_alloc s s' \<Longrightarrow> pmm_allocated_frames s' = pmm_allocated_frames s \<Longrightarrow> pmm_wf s'"
  using same_alloc_inv [of s s'] same_alloc_views [of s s'] by (simp add: pmm_wf_def same_alloc_def)

definition unreferenced :: "pmm \<Rightarrow> nat set \<Rightarrow> pmm \<Rightarrow> bool" where
  "unreferenced s R s' \<longleftrightarrow> (let dead = {b \<in> R. pf_refcount (phyframes s b) = 1} in
     free_frames s' = free_frames s \<union> dead \<and> used_frames s' = used_frames s - dead \<and>
     pmm_total_frames s' = pmm_total_frames s \<and>
     (\<forall>b. pf_refcount (phyframes s' b) = pf_refcount (phyframes s b) - (if b \<in> R then 1 else 0)))"

lemma unref_one:
  assumes wf: "pmm_wf s" and p: "pfn \<in> used_frames s" and r: "pf_refcount (phyframes s pfn) > 0"
  shows "\<exists>s'. unref_loop pfn 1 s = Some s' \<and> pmm_wf s' \<and> unreferenced s {pfn} s'"
proof -
  define t where "t = upd_frame pfn (pf_refcount_update (\<lambda>c. c - 1)) s"
  have sa: "same_alloc s t"
    by (simp add: same_alloc_def t_def)
  have wft: "pmm_wf t"
    using same_alloc_wf [OF wf sa] by (simp add: t_def)
  have pN: "pfn < pmm_total_frames s"
    using p by (simp add: used_frames_def)
  have views: "free_frames t = free_frames s" "used_frames t = used_frames s"
    using same_alloc_views [OF sa] by (simp_all add: free_frames_def)
  show ?thesis
  proof (cases "pf_refcount (phyframes s pfn) = 1")
    case True
    obtain s' where s': "pmm_free_frames pfn 1 t = Some s'" "pmm_wf s'" "released t {pfn} s'"
      using pmm_free_one [OF wft, of pfn] p views by blast
    have "{b \<in> {pfn}. pf_refcount (phyframes s b) = 1} = {pfn}"
      using True by auto
    then have "unreferenced s {pfn} s'"
      using s'(3) views by (simp add: unreferenced_def released_def t_def)
    then show ?thesis
      using s'(1,2) pN r True by (simp add: guards t_def)
  next
    case False
    have none: "{b \<in> {pfn}. pf_refcount (phyframes s b) = 1} = {}"
      using False by auto
    have "unreferenced s {pfn} t"
      unfolding unreferenced_def none using views by (simp add: t_def)
    then show ?thesis
      using wft pN r False by (simp add: guards t_def)
  qed
qed

lemma unref_loop_Suc: "unref_loop pfn (Suc n) s = unref_loop pfn 1 s \<bind> unref_loop (pfn + 1) n"
proof -
  have "unref_loop x 0 = Some" for x
    by (rule ext) simp
  then show ?thesis
    by (simp add: Option.bind_assoc Let_def)
qed

lemma unref_run:
  assumes "pmm_wf s" "{pfn..<pfn + n} \<subseteq> used_frames s"
    "\<forall>b\<in>{pfn..<pfn + n}. pf_refcount (phyframes s b) > 0"
  shows "\<exists>s'. unref_loop pfn n s = Some s' \<and> pmm_wf s' \<and> unreferenced s {pfn..<pfn + n} s'"
  using assms
proof (induction n arbitrary: pfn s)
  case 0
  then show ?case by (simp add: unreferenced_def)
next
  case (Suc n)
  have "pfn \<in> used_frames s" "pf_refcount (phyframes s pfn) > 0"
    by (rule subsetD [OF Suc.prems(2)], simp, rule bspec [OF Suc.prems(3)], simp)
  then obtain s1 where 1: "unref_loop pfn 1 s = Some s1" "pmm_wf s1" "unreferenced s {pfn} s1"
    using unref_one [OF Suc.prems(1)] by blast
  have "{pfn + 1..<pfn + 1 + n} \<subseteq> used_frames s1"
    "\<forall>b\<in>{pfn + 1..<pfn + 1 + n}. pf_refcount (phyframes s1 b) > 0"
    using 1(3) Suc.prems(2,3) by (auto simp: unreferenced_def Let_def)
  then obtain s2 where 2: "unref_loop (pfn + 1) n s1 = Some s2" "pmm_wf s2"
    "unreferenced s1 {pfn + 1..<pfn + 1 + n} s2"
    using Suc.IH [OF 1(2)] by blast
  have "{pfn..<pfn + Suc n} = insert pfn {pfn + 1..<pfn + 1 + n}"
    by auto
  then have "unreferenced s {pfn..<pfn + Suc n} s2"
    using 1(3) 2(3) unfolding unreferenced_def Let_def by auto
  moreover have "unref_loop pfn (Suc n) s = Some s2"
    unfolding unref_loop_Suc using 1(1) 2(1) by simp
  ultimately show ?case
    using 2(2) by blast
qed

lemma pmm_init_run:
  assumes z: "zeroed s" and N: "N < 2 ^ 26" and a: "pmm_allocated_frames s = 0"
  shows "\<exists>s'. pmm_init N s = Some s' \<and> pmm_wf s' \<and> free_frames s' = {0..<N} \<and> pmm_total_frames s' = N \<and>
     used_frames s' = {}"
proof -
  define t where "t = s\<lparr>pmm_total_frames := N\<rparr>"
  have "zeroed t" "N = pmm_total_frames t"
    using z by (simp_all add: zeroed_def t_def)
  then obtain s' B where 1: "buddy_init N t = Some s'" "buddy_inv s' B" "cover B = {0..<N}"
    "pmm_total_frames s' = N" "pmm_allocated_frames s' = pmm_allocated_frames t"
    using buddy_init_core by blast
  have "used_frames s' = {}"
    using used_free_disjoint [OF 1(2)] 1(3,4) by (auto simp: used_frames_def)
  then have "pmm_wf s'"
    using 1 N a buddy_inv_free(1) [OF 1(2)] by (simp add: pmm_wf_def t_def)
  then show ?thesis
    using 1 buddy_inv_free(2) [OF 1(2)] \<open>used_frames s' = {}\<close> by (simp add: pmm_init_def t_def)
qed

section \<open>The contract of a frame allocator\<close>

datatype frame_op = Alloc nat | Release nat

text \<open>
  A client that allocates ranges and releases frames it owns.  Being given a frame that it owns
  already would be the fault \<^const>\<open>None\<close>.
\<close>

fun frame_run ::
  "(nat \<Rightarrow> 's \<Rightarrow> ('s \<times> nat option) option) \<Rightarrow> (nat \<Rightarrow> 's \<Rightarrow> 's option) \<Rightarrow> 's \<Rightarrow> nat set \<Rightarrow>
   frame_op list \<Rightarrow> ('s \<times> nat set) option" where
  "frame_run alloc release s owned [] = Some (s, owned)"
| "frame_run alloc release s owned (Alloc n # ops) = do {
     (s, r) \<leftarrow> alloc n s;
     case r of
       None \<Rightarrow> frame_run alloc release s owned ops
     | Some p \<Rightarrow> do {
         mos_assert ({p..<p + n} \<inter> owned = {});
         frame_run alloc release s (owned \<union> {p..<p + n}) ops } }"
| "frame_run alloc release s owned (Release p # ops) =
     (if p \<in> owned then do {
        s \<leftarrow> release p s;
        frame_run alloc release s (owned - {p}) ops }
      else frame_run alloc release s owned ops)"

fun frame_op_ok :: "frame_op \<Rightarrow> bool" where
  "frame_op_ok (Alloc n) = (0 < n)"
| "frame_op_ok (Release p) = True"

locale frame_allocator =
  fixes invar :: "'s \<Rightarrow> bool"
    and free used :: "'s \<Rightarrow> nat set"
    and alloc :: "nat \<Rightarrow> 's \<Rightarrow> ('s \<times> nat option) option"
    and release :: "nat \<Rightarrow> 's \<Rightarrow> 's option"
  assumes disjoint: "invar s \<Longrightarrow> used s \<inter> free s = {}"
    and alloc_law: "invar s \<Longrightarrow> 0 < n \<Longrightarrow> \<exists>s' r. alloc n s = Some (s', r) \<and> invar s' \<and>
      (case r of
         None \<Rightarrow> s' = s
       | Some p \<Rightarrow> {p..<p + n} \<subseteq> free s \<and> free s' = free s - {p..<p + n} \<and>
                   used s' = used s \<union> {p..<p + n})"
    and release_law: "invar s \<Longrightarrow> p \<in> used s \<Longrightarrow> \<exists>s'. release p s = Some s' \<and> invar s' \<and>
      free s' = insert p (free s) \<and> used s' = used s - {p}"
begin

lemma run_exclusive:
  assumes "invar s" "owned \<subseteq> used s" "\<forall>op \<in> set ops. frame_op_ok op"
  shows "\<exists>s' owned'. frame_run alloc release s owned ops = Some (s', owned') \<and> invar s' \<and>
     owned' \<subseteq> used s' \<and> owned' \<inter> free s' = {} \<and> owned' \<union> free s' = owned \<union> free s"
  using assms
proof (induction ops arbitrary: s owned)
  case Nil
  then show ?case using disjoint by auto
next
  case (Cons op ops)
  show ?case
  proof (cases op)
    case (Alloc n)
    obtain s1 r where 1: "alloc n s = Some (s1, r)" "invar s1"
      "case r of None \<Rightarrow> s1 = s
         | Some p \<Rightarrow> {p..<p + n} \<subseteq> free s \<and> free s1 = free s - {p..<p + n} \<and>
                     used s1 = used s \<union> {p..<p + n}"
      using alloc_law [OF Cons.prems(1), of n] Cons.prems(3) Alloc by auto
    show ?thesis
    proof (cases r)
      case None
      then show ?thesis
        using 1 Alloc Cons.IH [OF Cons.prems(1,2)] Cons.prems(3) by auto
    next
      case (Some p)
      have own: "owned \<union> {p..<p + n} \<subseteq> used s1" "{p..<p + n} \<inter> owned = {}"
        using 1(3) Some Cons.prems(2) disjoint [OF Cons.prems(1)] by auto
      have "owned \<union> {p..<p + n} \<union> free s1 = owned \<union> free s"
        using 1(3) Some by auto
      moreover obtain s' owned' where "frame_run alloc release s1 (owned \<union> {p..<p + n}) ops = Some (s', owned')"
        "invar s'" "owned' \<subseteq> used s'" "owned' \<inter> free s' = {}" "owned' \<union> free s' = owned \<union> {p..<p + n} \<union> free s1"
        using Cons.IH [OF 1(2) own(1)] Cons.prems(3) by auto
      ultimately show ?thesis
        using own(2) 1(1) Some Alloc by simp
    qed
  next
    case (Release p)
    show ?thesis
    proof (cases "p \<in> owned")
      case True
      obtain s1 where 1: "release p s = Some s1" "invar s1" "free s1 = insert p (free s)" "used s1 = used s - {p}"
        using release_law [OF Cons.prems(1)] True Cons.prems(2) by blast
      have own: "owned - {p} \<subseteq> used s1" "owned - {p} \<union> free s1 = owned \<union> free s"
        using 1(3,4) Cons.prems(2) True by auto
      moreover obtain s' owned' where "frame_run alloc release s1 (owned - {p}) ops = Some (s', owned')"
        "invar s'" "owned' \<subseteq> used s'" "owned' \<inter> free s' = {}" "owned' \<union> free s' = owned - {p} \<union> free s1"
        using Cons.IH [OF 1(2) own(1)] Cons.prems(3) by auto
      ultimately show ?thesis
        using 1(1) True Release by simp
    next
      case False
      then show ?thesis
        using Release Cons.IH [OF Cons.prems(1,2)] Cons.prems(3) by auto
    qed
  qed
qed

end

interpretation pmm_alloc: frame_allocator pmm_wf free_frames used_frames
  "\<lambda>n. pmm_allocate_frames n PMM_ALLOC_NORMAL" "\<lambda>p. pmm_free_frames p 1"
proof
  fix s assume "pmm_wf s"
  then show "used_frames s \<inter> free_frames s = {}"
    using used_free_disjoint [OF pmm_wf_inv] by (simp add: free_frames_def)
next
  fix s and n :: nat
  assume wf: "pmm_wf s" and n: "0 < n"
  show "\<exists>s' r. pmm_allocate_frames n PMM_ALLOC_NORMAL s = Some (s', r) \<and> pmm_wf s' \<and>
      (case r of None \<Rightarrow> s' = s
       | Some p \<Rightarrow> {p..<p + n} \<subseteq> free_frames s \<and> free_frames s' = free_frames s - {p..<p + n} \<and>
                   used_frames s' = used_frames s \<union> {p..<p + n})"
    using pmm_allocate_run [OF wf n] wf by (fastforce simp: allocated_def split: if_splits)
next
  fix s p
  assume "pmm_wf s" "p \<in> used_frames s"
  then show "\<exists>s'. pmm_free_frames p 1 s = Some s' \<and> pmm_wf s' \<and> free_frames s' = insert p (free_frames s) \<and>
      used_frames s' = used_frames s - {p}"
    using pmm_free_one by (fastforce simp: released_def)
qed

section \<open>Properties\<close>

text \<open>
  On a zeroed frame array of fewer than \<open>2 ^ 26\<close> frames \<^verbatim>\<open>pmm_init\<close> returns without a fault in
  a well-formed state in which every frame is free and none is allocated.
\<close>

theorem pmm_init_correct:
  assumes "zeroed s" "N < 2 ^ 26" "pmm_allocated_frames s = 0"
  shows "\<exists>s'. pmm_init N s = Some s' \<and> pmm_wf s' \<and> free_frames s' = {0..<N} \<and> used_frames s' = {}"
  using pmm_init_run [OF assms] by blast

definition cleared :: pmm where
  "cleared = \<lparr>pmm_heap = \<lparr>ln_prev = (\<lambda>_. Freelist 0), ln_next = (\<lambda>_. Freelist 0)\<rparr>,
     phyframes = (\<lambda>_. \<lparr>pf_state = PHYFRAME_RESERVED, pf_order = 0, pf_refcount = 0\<rparr>),
     pmm_total_frames = 0, pmm_allocated_frames = 0, pmm_reserved_frames = 0\<rparr>"

lemma cleared_zeroed: "zeroed cleared" "pmm_allocated_frames cleared = 0"
  by (simp_all add: zeroed_def cleared_def)

theorem pmm_init_correct_witness:
  "\<exists>s'. pmm_init 21 cleared = Some s' \<and> pmm_wf s' \<and> free_frames s' = {0..<21} \<and> used_frames s' = {}"
  using pmm_init_correct [OF cleared_zeroed(1) _ cleared_zeroed(2), of 21] by simp

text \<open>
  C22: \<^verbatim>\<open>pmm_allocate_frames\<close> of a positive number of frames never faults on a well-formed state.
  If some free block is at least as large as the number rounded up to a power of two, it returns a
  range of frames that were all free, which are exactly the frames that become allocated, with
  their reference counts at zero; otherwise it returns \<^verbatim>\<open>NULL\<close> and changes nothing.
\<close>

theorem pmm_allocate_frames_correct:
  assumes "pmm_wf s" "0 < n"
  shows "if \<exists>p k. (p, k) \<in> free_blocks s \<and> log2_ceil n \<le> k
     then \<exists>s' pfn. pmm_allocate_frames n PMM_ALLOC_NORMAL s = Some (s', Some pfn) \<and> pmm_wf s' \<and>
            {pfn..<pfn + n} \<subseteq> free_frames s \<and> free_frames s' = free_frames s - {pfn..<pfn + n} \<and>
            used_frames s' = used_frames s \<union> {pfn..<pfn + n} \<and>
            (\<forall>b\<in>{pfn..<pfn + n}. pf_refcount (phyframes s' b) = 0)
     else pmm_allocate_frames n PMM_ALLOC_NORMAL s = Some (s, None)"
proof (cases "\<exists>p k. (p, k) \<in> free_blocks s \<and> log2_ceil n \<le> k")
  case True
  then obtain s' pfn where "pmm_allocate_frames n PMM_ALLOC_NORMAL s = Some (s', Some pfn)" "pmm_wf s'"
    "allocated s pfn n s'"
    using pmm_allocate_run [OF assms] by auto
  then show ?thesis
    using True by (auto simp: allocated_def)
qed (use pmm_allocate_run [OF assms] in auto)

lemma init_state:
  "\<exists>s. pmm_init 21 cleared = Some s \<and> pmm_wf s \<and> free_frames s = {0..<21} \<and> used_frames s = {} \<and>
     pmm_total_frames s = 21"
  using pmm_init_run [OF cleared_zeroed(1) _ cleared_zeroed(2), of 21] by auto

theorem pmm_allocate_frames_correct_witness:
  "\<exists>s s' r. pmm_init 21 cleared = Some s \<and> pmm_allocate_frames 3 PMM_ALLOC_NORMAL s = Some (s', r) \<and> pmm_wf s'"
proof -
  obtain s where s: "pmm_init 21 cleared = Some s" "pmm_wf s"
    using init_state by blast
  from pmm_allocate_frames_correct [OF s(2), of 3] have
    "\<exists>s' r. pmm_allocate_frames 3 PMM_ALLOC_NORMAL s = Some (s', r) \<and> pmm_wf s'"
    using s(2) by (auto split: if_splits)
  with s(1) show ?thesis by blast
qed

text \<open>
  C23: \<^verbatim>\<open>pmm_free_frames\<close> of a range of allocated frames never faults: merging with free buddies of
  any order, it makes exactly the frames of the range free and keeps the state well-formed.
\<close>

theorem pmm_free_frames_correct:
  assumes "pmm_wf s" "{pfn..<pfn + n} \<subseteq> used_frames s"
  shows "\<exists>s'. pmm_free_frames pfn n s = Some s' \<and> pmm_wf s' \<and>
     free_frames s' = free_frames s \<union> {pfn..<pfn + n} \<and> used_frames s' = used_frames s - {pfn..<pfn + n}"
  using pmm_free_run [OF assms] by (auto simp: released_def)

lemma alloc_state:
  "\<exists>s pfn. pmm_wf s \<and> used_frames s = {pfn..<pfn + 1} \<and> free_frames s = {0..<21} - {pfn..<pfn + 1} \<and>
    pmm_total_frames s = 21 \<and> pf_refcount (phyframes s pfn) = 0"
proof -
  obtain s0 where s0: "pmm_wf s0" "free_frames s0 = {0..<21}" "used_frames s0 = {}" "pmm_total_frames s0 = 21"
    using init_state by blast
  have "0 \<in> cover (free_blocks s0)"
    using s0(2) unfolding free_frames_def by simp
  then have "\<exists>p k. (p, k) \<in> free_blocks s0 \<and> log2_ceil 1 \<le> k"
    by (auto simp: in_cover log2_ceil_def log2.simps)
  then obtain s pfn where "pmm_wf s" "allocated s0 pfn 1 s"
    using pmm_allocate_run [OF s0(1), of 1] by auto
  then show ?thesis
    using s0 by (intro exI [of _ s] exI [of _ pfn]) (auto simp: allocated_def)
qed

theorem pmm_free_frames_correct_witness:
  "\<exists>s pfn s'. used_frames s = {pfn..<pfn + 1} \<and> pmm_free_frames pfn 1 s = Some s' \<and> free_frames s' = {0..<21}"
proof -
  obtain s pfn where s: "pmm_wf s" "used_frames s = {pfn..<pfn + 1}" "free_frames s = {0..<21} - {pfn..<pfn + 1}"
    "pmm_total_frames s = 21"
    using alloc_state by blast
  have "pfn \<in> used_frames s"
    using s(2) by simp
  then have "pfn < 21"
    using s(4) by (simp add: used_frames_def)
  then have "{0..<21} - {pfn..<pfn + 1} \<union> {pfn..<pfn + 1} = {0..<21}"
    by auto
  moreover obtain s' where "pmm_free_frames pfn 1 s = Some s'" "free_frames s' = free_frames s \<union> {pfn..<pfn + 1}"
    using pmm_free_frames_correct [OF s(1), of pfn 1] s(2) by blast
  ultimately show ?thesis
    using s(2,3) by metis
qed

text \<open>
  C24: \<^verbatim>\<open>pmm_reserve_frames\<close> of a range of free frames never faults, takes exactly these frames out
  of the free lists and leaves the allocated frames and their number alone: the note in \<^verbatim>\<open>pmm.h\<close> that
  the memory moves to the allocated list does not hold.
\<close>

theorem pmm_reserve_frames_correct:
  assumes "pmm_wf s" "{pfn..<pfn + n} \<subseteq> free_frames s" "pfn + n \<le> pmm_total_frames s"
  shows "\<exists>s'. pmm_reserve_frames pfn n s = Some (s', pfn) \<and> pmm_wf s' \<and>
     free_frames s' = free_frames s - {pfn..<pfn + n} \<and> used_frames s' = used_frames s \<and>
     pmm_allocated_frames s' = pmm_allocated_frames s"
proof -
  note inv = pmm_wf_inv [OF assms(1)]
  obtain s1 B where 1: "buddy_reserve_n pfn n s = Some s1" "buddy_inv s1 B"
    "cover B = free_frames s - {pfn..<pfn + n}" "step_ok (free_frames s) s s1"
    "\<forall>b\<in>{pfn..<pfn + n}. pf_state (phyframes s1 b) \<noteq> PHYFRAME_ALLOCATED"
    using buddy_reserve_core [OF inv, of pfn n] assms(2) by (auto simp: free_frames_def)
  define s' where "s' = s1\<lparr>pmm_reserved_frames := pmm_reserved_frames s1 + of_nat n\<rparr>"
  have sa: "same_alloc s1 s'"
    by (simp add: same_alloc_def s'_def)
  have "b \<in> used_frames s1 \<longleftrightarrow> b \<in> used_frames s" for b
  proof (cases "b \<in> free_frames s")
    case True
    then have "b \<notin> used_frames s1"
      using used_free_disjoint [OF 1(2)] 1(3,5) by (auto simp: used_frames_def)
    then show ?thesis
      using True used_free_disjoint [OF inv] by (auto simp: free_frames_def)
  next
    case False
    then show ?thesis
      using 1(4) by (simp add: used_frames_def step_ok_def)
  qed
  then have "used_frames s' = used_frames s"
    using same_alloc_views [OF sa] by blast
  moreover have fb: "free_blocks s' = B"
    using same_alloc_views [OF sa] buddy_inv_free(1) [OF 1(2)] by simp
  ultimately have wf: "pmm_wf s'"
    using assms(1) 1 same_alloc_inv [OF sa] by (simp add: pmm_wf_def step_ok_def s'_def)
  then have "pmm_allocated_frames s' = pmm_allocated_frames s"
    using assms(1) \<open>used_frames s' = used_frames s\<close> by (simp add: pmm_wf_def)
  with wf show ?thesis
    using fb 1(1,3) assms(3) \<open>used_frames s' = used_frames s\<close>
    by (simp add: pmm_reserve_frames_def free_frames_def s'_def)
qed

theorem pmm_reserve_frames_correct_witness:
  "\<exists>s s'. pmm_init 21 cleared = Some s \<and> pmm_reserve_frames 3 6 s = Some (s', 3) \<and>
     free_frames s' = {0..<21} - {3..<9}"
proof -
  obtain s where s: "pmm_init 21 cleared = Some s" "pmm_wf s" "free_frames s = {0..<21}" "pmm_total_frames s = 21"
    using init_state by blast
  with pmm_reserve_frames_correct [OF s(2), of 3 6] show ?thesis
    by auto
qed

text \<open>
  C25: \<^verbatim>\<open>_pmm_unref_phyframes\<close> on allocated frames with references never faults: every reference
  count drops by one, and exactly the frames whose last reference it was become free.
\<close>

theorem pmm_unref_correct:
  assumes "pmm_wf s" "{pfn..<pfn + n} \<subseteq> used_frames s" "pfn + n \<le> pmm_total_frames s"
    "\<forall>b\<in>{pfn..<pfn + n}. pf_refcount (phyframes s b) > 0"
  shows "\<exists>s'. pmm_unref_phyframes pfn n s = Some s' \<and> pmm_wf s' \<and>
     free_frames s' = free_frames s \<union> {b \<in> {pfn..<pfn + n}. pf_refcount (phyframes s b) = 1} \<and>
     used_frames s' = used_frames s - {b \<in> {pfn..<pfn + n}. pf_refcount (phyframes s b) = 1} \<and>
     (\<forall>b\<in>{pfn..<pfn + n}. pf_refcount (phyframes s' b) = pf_refcount (phyframes s b) - 1)"
  using unref_run [OF assms(1,2,4)] assms(3)
  by (auto simp: pmm_unref_phyframes_def unreferenced_def Let_def)

theorem pmm_unref_correct_witness:
  "\<exists>s pfn s1 s'. pmm_wf s \<and> used_frames s = {pfn} \<and> pmm_ref_phyframes pfn 1 s = Some s1 \<and>
     pmm_unref_phyframes pfn 1 s1 = Some s' \<and> used_frames s' = {} \<and> pfn \<in> free_frames s'"
proof -
  obtain s pfn where s: "pmm_wf s" "used_frames s = {pfn..<pfn + 1}" "pf_refcount (phyframes s pfn) = 0"
    using alloc_state by blast
  have "pfn \<in> used_frames s"
    using s(2) by simp
  then have pN: "pfn + 1 \<le> pmm_total_frames s"
    by (simp add: used_frames_def)
  obtain s1 where 1: "ref_loop pfn 1 s = Some s1" "same_alloc s s1" "pmm_allocated_frames s1 = pmm_allocated_frames s"
    "pf_refcount (phyframes s1 pfn) = 1"
    using ref_loop_run [OF pN] s(3) by auto
  have "pmm_wf s1" "used_frames s1 = {pfn..<pfn + 1}" "pmm_total_frames s1 = pmm_total_frames s"
    using same_alloc_wf [OF s(1) 1(2,3)] same_alloc_views [OF 1(2)] s(2) 1(2) by (simp_all add: same_alloc_def)
  with pmm_unref_correct [of s1 pfn 1] 1(4) pN obtain s' where
    "pmm_unref_phyframes pfn 1 s1 = Some s'" "used_frames s' = {}" "pfn \<in> free_frames s'"
    by auto
  with s 1(1) pN show ?thesis
    by (auto simp: pmm_ref_phyframes_def)
qed

text \<open>
  C1: From the initial state on, every sequence of allocations and of releases of frames the
  client owns runs without a panic or a fault, never hands out a frame that is still owned, and
  loses no frame: the owned and the free frames are always disjoint and together all frames.
\<close>

theorem pmm_frames_exclusive:
  assumes "pmm_init N cleared = Some s" "N < 2 ^ 26" "\<forall>op \<in> set ops. frame_op_ok op"
  shows "\<exists>s' owned. frame_run (\<lambda>n. pmm_allocate_frames n PMM_ALLOC_NORMAL) (\<lambda>p. pmm_free_frames p 1) s {} ops
       = Some (s', owned) \<and> pmm_wf s' \<and> owned \<inter> free_frames s' = {} \<and> owned \<union> free_frames s' = {0..<N}"
proof -
  have s: "pmm_wf s" "free_frames s = {0..<N}"
    using pmm_init_run [OF cleared_zeroed(1) assms(2) cleared_zeroed(2)] assms(1) by auto
  show ?thesis
    using pmm_alloc.run_exclusive [OF s(1) empty_subsetI assms(3)] s(2) by auto
qed

theorem pmm_frames_exclusive_witness:
  "\<exists>s s' owned. pmm_init 21 cleared = Some s \<and>
     frame_run (\<lambda>n. pmm_allocate_frames n PMM_ALLOC_NORMAL) (\<lambda>p. pmm_free_frames p 1) s {}
       [Alloc 3, Release 17, Alloc 1] = Some (s', owned) \<and> owned \<union> free_frames s' = {0..<21}"
proof -
  obtain s where s: "pmm_init 21 cleared = Some s"
    using init_state by blast
  with pmm_frames_exclusive [OF s, of "[Alloc 3, Release 17, Alloc 1]"] show ?thesis
    by auto
qed

text \<open>
  C33: A merge at the largest order is an access beyond the array of free lists: when the buddy of
  a block of order 25 is a free block of order 25 too, \<^verbatim>\<open>try_merge\<close> puts the result on the free list
  of order 26, which does not exist.
\<close>

theorem try_merge_max_order_faults:
  assumes "b = get_buddy_pfn p max_order" "p < pmm_total_frames s" "b < pmm_total_frames s"
    "pf_state (phyframes s b) = PHYFRAME_FREE" "pf_order (phyframes s b) = max_order"
  shows "try_merge p max_order s = None"
  using assms
  by (subst try_merge.simps)
    (simp add: guards Let_def try_merge.simps [of _ "Suc max_order"] add_to_freelist_too_large)

theorem try_merge_max_order_faults_witness:
  "\<exists>s. pmm_total_frames s = 2 ^ 26 \<and> try_merge 0 max_order s = None"
  using try_merge_max_order_faults [of "2 ^ 25" 0 "cleared\<lparr>pmm_total_frames := 2 ^ 26,
      phyframes := (\<lambda>_. \<lparr>pf_state = PHYFRAME_FREE, pf_order = max_order, pf_refcount = 0\<rparr>)\<rparr>"]
  by (intro exI [of _ "cleared\<lparr>pmm_total_frames := 2 ^ 26,
      phyframes := (\<lambda>_. \<lparr>pf_state = PHYFRAME_FREE, pf_order = max_order, pf_refcount = 0\<rparr>)\<rparr>"])
    (simp add: get_buddy_pfn_def max_order_def)

end
