(* ===== verification/HashMap.thy ===== *)
theory HashMap
  imports MOS_Prelude
begin

text \<open>
  The chained hash map of \<^verbatim>\<open>kernel/lib/structures/hashmap.c\<close>, with the hash and comparison functions
  of \<^verbatim>\<open>hashmap_common.c\<close>.  A chain is owned by its map alone and is the list of its entries; values
  are pointers, and the null pointer is 0.  The lock is a flag: taking a lock that is held would
  spin forever, which is \<^const>\<open>None\<close>.  \<open>kernel_map\<close> is the contract that the tables of the
  kernel rely on.
\<close>

section \<open>Definitions\<close>

type_synonym hm_entry = "uintn \<times> ptr_t"

record hashmap =
  hm_magic :: u32
  hm_entries :: "hm_entry list list"
  hm_capacity :: size_t
  hm_size :: size_t
  hm_hash_func :: "uintn \<Rightarrow> size_t"
  hm_key_compare_func :: "uintn \<Rightarrow> uintn \<Rightarrow> bool"
  hm_lock :: bool

text \<open>\<^verbatim>\<open>MOS_FOURCC('H', 'M', 'a', 'p')\<close>\<close>

definition HASHMAP_MAGIC :: u32 where
  "HASHMAP_MAGIC = 0x48 + 0x4D * 2 ^ 8 + 0x61 * 2 ^ 16 + 0x70 * 2 ^ 24"

definition hm_acquire :: "hashmap \<Rightarrow> hashmap option" where
  "hm_acquire m = (if hm_lock m then None else Some (m\<lparr>hm_lock := True\<rparr>))"

definition hm_release :: "hashmap \<Rightarrow> hashmap" where
  "hm_release m = m\<lparr>hm_lock := False\<rparr>"

text \<open>
  The argument \<open>calloc_ok\<close> is the answer of \<^verbatim>\<open>kcalloc\<close>.  Without the bucket array every later access
  to a bucket faults, as it does with the empty array.
\<close>

definition hashmap_init ::
  "hashmap \<Rightarrow> size_t \<Rightarrow> (uintn \<Rightarrow> size_t) \<Rightarrow> (uintn \<Rightarrow> uintn \<Rightarrow> bool) \<Rightarrow> bool \<Rightarrow> hashmap option" where
  "hashmap_init m capacity hash_func compare_func calloc_ok =
     (if hm_magic m = HASHMAP_MAGIC then None
      else Some \<lparr>hm_magic = HASHMAP_MAGIC,
                 hm_entries = (if calloc_ok then replicate (unat capacity) [] else []),
                 hm_capacity = capacity, hm_size = 0,
                 hm_hash_func = hash_func, hm_key_compare_func = compare_func, hm_lock = False\<rparr>)"

text \<open>After \<^verbatim>\<open>hashmap_deinit\<close> the bucket array is gone.\<close>

definition hashmap_deinit :: "hashmap \<Rightarrow> hashmap option" where
  "hashmap_deinit m = do {
     mos_assert (hm_magic m = HASHMAP_MAGIC);
     m \<leftarrow> hm_acquire m;
     mos_assert (length (hm_entries m) = unat (hm_capacity m));
     Some (hm_release (m\<lparr>hm_entries := []\<rparr>)) }"

text \<open>The loop of \<^verbatim>\<open>hashmap_put\<close>: the chain with the value replaced and the old value.\<close>

fun chain_replace ::
  "(uintn \<Rightarrow> uintn \<Rightarrow> bool) \<Rightarrow> uintn \<Rightarrow> ptr_t \<Rightarrow> hm_entry list \<Rightarrow> (hm_entry list \<times> ptr_t) option" where
  "chain_replace cmp key v [] = None"
| "chain_replace cmp key v ((k, x) # es) =
     (if cmp k key then Some ((k, v) # es, x)
      else case chain_replace cmp key v es of
             None \<Rightarrow> None
           | Some (es', old) \<Rightarrow> Some ((k, x) # es', old))"

definition hashmap_put :: "hashmap \<Rightarrow> uintn \<Rightarrow> ptr_t \<Rightarrow> bool \<Rightarrow> (hashmap \<times> ptr_t) option" where
  "hashmap_put m key v kmalloc_ok = do {
     mos_assert (hm_magic m = HASHMAP_MAGIC);
     m \<leftarrow> hm_acquire m;
     index \<leftarrow> mod_chk (hm_hash_func m key) (hm_capacity m);
     entry \<leftarrow> arr_get (hm_entries m) (unat index);
     case chain_replace (hm_key_compare_func m) key v entry of
       Some (es, old_value) \<Rightarrow>
         Some (hm_release (m\<lparr>hm_entries := (hm_entries m)[unat index := es]\<rparr>), old_value)
     | None \<Rightarrow> do {
         mos_assert kmalloc_ok;
         let m = m\<lparr>hm_entries := (hm_entries m)[unat index := (key, v) # entry]\<rparr>;
         let m = m\<lparr>hm_size := hm_size m + 1\<rparr>;
         Some (hm_release m, 0) } }"

fun chain_get :: "(uintn \<Rightarrow> uintn \<Rightarrow> bool) \<Rightarrow> uintn \<Rightarrow> hm_entry list \<Rightarrow> ptr_t option" where
  "chain_get cmp key [] = None"
| "chain_get cmp key ((k, x) # es) = (if cmp k key then Some x else chain_get cmp key es)"

definition hashmap_get :: "hashmap \<Rightarrow> uintn \<Rightarrow> (hashmap \<times> ptr_t) option" where
  "hashmap_get m key = do {
     mos_assert (hm_magic m = HASHMAP_MAGIC);
     m \<leftarrow> hm_acquire m;
     index \<leftarrow> mod_chk (hm_hash_func m key) (hm_capacity m);
     entry \<leftarrow> arr_get (hm_entries m) (unat index);
     Some (hm_release m, (case chain_get (hm_key_compare_func m) key entry of None \<Rightarrow> 0 | Some x \<Rightarrow> x)) }"

fun chain_remove ::
  "(uintn \<Rightarrow> uintn \<Rightarrow> bool) \<Rightarrow> uintn \<Rightarrow> hm_entry list \<Rightarrow> (hm_entry list \<times> ptr_t) option" where
  "chain_remove cmp key [] = None"
| "chain_remove cmp key ((k, x) # es) =
     (if cmp k key then Some (es, x)
      else case chain_remove cmp key es of
             None \<Rightarrow> None
           | Some (es', old) \<Rightarrow> Some ((k, x) # es', old))"

definition hashmap_remove :: "hashmap \<Rightarrow> uintn \<Rightarrow> (hashmap \<times> ptr_t) option" where
  "hashmap_remove m key = do {
     mos_assert (hm_magic m = HASHMAP_MAGIC);
     m \<leftarrow> hm_acquire m;
     index \<leftarrow> mod_chk (hm_hash_func m key) (hm_capacity m);
     entry \<leftarrow> arr_get (hm_entries m) (unat index);
     case chain_remove (hm_key_compare_func m) key entry of
       Some (es, old_value) \<Rightarrow> do {
         let m = m\<lparr>hm_entries := (hm_entries m)[unat index := es]\<rparr>;
         let m = m\<lparr>hm_size := hm_size m - 1\<rparr>;
         Some (hm_release m, old_value) }
     | None \<Rightarrow> Some (hm_release m, 0) }"

text \<open>
  \<^verbatim>\<open>hashmap_foreach\<close> with a callback that carries its data along and says whether to go on; the
  result is the data and whether the loop ran to its end.
\<close>

fun foreach_chain ::
  "(uintn \<Rightarrow> ptr_t \<Rightarrow> 'd \<Rightarrow> 'd \<times> bool) \<Rightarrow> hm_entry list \<Rightarrow> 'd \<Rightarrow> 'd \<times> bool" where
  "foreach_chain func [] d = (d, True)"
| "foreach_chain func ((k, x) # es) d =
     (case func k x d of (d, go) \<Rightarrow> if go then foreach_chain func es d else (d, False))"

fun foreach_buckets ::
  "(uintn \<Rightarrow> ptr_t \<Rightarrow> 'd \<Rightarrow> 'd \<times> bool) \<Rightarrow> hm_entry list list \<Rightarrow> 'd \<Rightarrow> 'd \<times> bool" where
  "foreach_buckets func [] d = (d, True)"
| "foreach_buckets func (b # bs) d =
     (case foreach_chain func b d of (d, go) \<Rightarrow> if go then foreach_buckets func bs d else (d, False))"

definition hashmap_foreach ::
  "hashmap \<Rightarrow> (uintn \<Rightarrow> ptr_t \<Rightarrow> 'd \<Rightarrow> 'd \<times> bool) \<Rightarrow> 'd \<Rightarrow> 'd option" where
  "hashmap_foreach m func d = do {
     mos_assert (hm_magic m = HASHMAP_MAGIC);
     mos_assert (length (hm_entries m) = unat (hm_capacity m));
     Some (fst (foreach_buckets func (hm_entries m) d)) }"

text \<open>
  \<^verbatim>\<open>hashmap_common.c\<close>.  A \<^verbatim>\<open>char\<close> is signed and a \<^verbatim>\<open>hash_t\<close> unsigned: a character below the
  backquote contributes a negative number that wraps around before the reduction.
\<close>

fun string_hash_loop :: "size_t \<Rightarrow> int \<Rightarrow> u8 list \<Rightarrow> size_t" where
  "string_hash_loop h p_pow [] = h"
| "string_hash_loop h p_pow (c # s) =
     string_hash_loop ((h + word_of_int ((sint c - 97 + 1) * p_pow)) mod 1000000007)
       ((p_pow * 31) mod 1000000007) s"

definition string_hash :: "u8 list \<Rightarrow> size_t" where
  "string_hash s = string_hash_loop 0 1 s"

text \<open>The string that a key points to is a function of the key, for memory that does not change.\<close>

definition hashmap_hash_string :: "(uintn \<Rightarrow> u8 list) \<Rightarrow> uintn \<Rightarrow> size_t" where
  "hashmap_hash_string str_at key = string_hash (str_at key)"

definition hashmap_compare_string :: "(uintn \<Rightarrow> u8 list) \<Rightarrow> uintn \<Rightarrow> uintn \<Rightarrow> bool" where
  "hashmap_compare_string str_at key1 key2 = (str_at key1 = str_at key2)"

definition hashmap_simple_key_compare :: "uintn \<Rightarrow> uintn \<Rightarrow> bool" where
  "hashmap_simple_key_compare key1 key2 = (key1 = key2)"

definition hashmap_identity_hash :: "uintn \<Rightarrow> size_t" where
  "hashmap_identity_hash key = key"

text \<open>
  Keys compare by an equivalence that the hash respects; a well-formed map has its capacity of
  buckets, every entry in the bucket of its hash, no two entries with equal keys, and its size is
  the number of entries.
\<close>

definition key_laws :: "(uintn \<Rightarrow> size_t) \<Rightarrow> (uintn \<Rightarrow> uintn \<Rightarrow> bool) \<Rightarrow> bool" where
  "key_laws hash cmp \<longleftrightarrow> (\<forall>k. cmp k k) \<and> (\<forall>k l. cmp k l \<longrightarrow> cmp l k \<and> hash k = hash l) \<and>
     (\<forall>k l j. cmp k l \<longrightarrow> cmp l j \<longrightarrow> cmp k j)"

definition bucket_of :: "hashmap \<Rightarrow> uintn \<Rightarrow> nat" where
  "bucket_of m key = unat (hm_hash_func m key) mod unat (hm_capacity m)"

definition chain_ok :: "hashmap \<Rightarrow> nat \<Rightarrow> hm_entry list \<Rightarrow> bool" where
  "chain_ok m i es \<longleftrightarrow> (\<forall>(k, x) \<in> set es. bucket_of m k = i) \<and>
     sorted_wrt (\<lambda>e f. \<not> hm_key_compare_func m (fst e) (fst f)) es"

definition hm_wf :: "hashmap \<Rightarrow> bool" where
  "hm_wf m \<longleftrightarrow> hm_magic m = HASHMAP_MAGIC \<and> \<not> hm_lock m \<and> 0 < unat (hm_capacity m) \<and>
     length (hm_entries m) = unat (hm_capacity m) \<and> key_laws (hm_hash_func m) (hm_key_compare_func m) \<and>
     (\<forall>i < length (hm_entries m). chain_ok m i (hm_entries m ! i)) \<and>
     hm_size m = of_nat (length (concat (hm_entries m)))"

text \<open>The value of a map: what is stored for a key.\<close>

definition hm_lookup :: "hashmap \<Rightarrow> uintn \<Rightarrow> ptr_t option" where
  "hm_lookup m key = chain_get (hm_key_compare_func m) key (hm_entries m ! bucket_of m key)"

section \<open>Chains\<close>

lemma key_lawsD:
  assumes "key_laws hash cmp"
  shows "cmp k k" "cmp k l \<Longrightarrow> cmp l k" "cmp k l \<Longrightarrow> hash k = hash l" "cmp k l \<Longrightarrow> cmp l j \<Longrightarrow> cmp k j"
  using assms unfolding key_laws_def by blast+

lemma key_cong:
  assumes "key_laws hash cmp" "cmp a key"
  shows "cmp a k \<longleftrightarrow> cmp key k"
  using key_lawsD [OF assms(1)] assms(2) by blast

lemma chain_replace_Some:
  assumes K: "key_laws hash cmp" and "chain_replace cmp key v es = Some (es', old)"
  shows "map fst es' = map fst es \<and> chain_get cmp key es = Some old \<and>
    (\<forall>k. chain_get cmp k es' = (if cmp key k then Some v else chain_get cmp k es))"
  using assms(2)
proof (induction es arbitrary: es')
  case (Cons e es)
  obtain a x where e: "e = (a, x)" by (cases e)
  show ?case
  proof (cases "cmp a key")
    case True
    have "cmp a k \<longleftrightarrow> cmp key k" for k
      by (rule key_cong [OF K True])
    with True show ?thesis
      using Cons.prems by (clarsimp simp: e)
  next
    case False
    then obtain es1 where es1: "chain_replace cmp key v es = Some (es1, old)" "es' = (a, x) # es1"
      using Cons.prems by (auto simp: e split: option.splits)
    have "\<not> cmp a k" if "cmp key k" for k
      using False that key_lawsD [OF K] by blast
    then show ?thesis
      using Cons.IH [OF es1(1)] es1(2) False by (auto simp: e)
  qed
qed simp

lemma chain_replace_None:
  assumes "chain_replace cmp key v es = None"
  shows "chain_get cmp key es = None" "\<forall>e \<in> set es. \<not> cmp (fst e) key"
  using assms
  by (induction cmp key v es rule: chain_replace.induct) (auto split: if_splits option.splits)

lemma chain_get_None: "\<forall>e \<in> set es. \<not> cmp (fst e) key \<Longrightarrow> chain_get cmp key es = None"
  by (induction cmp key es rule: chain_get.induct) auto

lemma chain_remove_None: "chain_remove cmp key es = None \<Longrightarrow> chain_get cmp key es = None"
  by (induction cmp key es rule: chain_remove.induct) (auto split: if_splits option.splits)

lemma chain_remove_Some:
  assumes K: "key_laws hash cmp" and "chain_remove cmp key es = Some (es', old)"
    and "sorted_wrt (\<lambda>e f. \<not> cmp (fst e) (fst f)) es"
  shows "chain_get cmp key es = Some old \<and> set es' \<subseteq> set es \<and> length es = Suc (length es') \<and>
    sorted_wrt (\<lambda>e f. \<not> cmp (fst e) (fst f)) es' \<and>
    (\<forall>k. chain_get cmp k es' = (if cmp key k then None else chain_get cmp k es))"
  using assms(2,3)
proof (induction es arbitrary: es')
  case (Cons e es)
  obtain a x where e: "e = (a, x)" by (cases e)
  show ?case
  proof (cases "cmp a key")
    case True
    have "chain_get cmp k es = None" if "cmp key k" for k
    proof (rule chain_get_None, intro ballI notI)
      fix f assume "f \<in> set es" "cmp (fst f) k"
      have "cmp a (fst f)"
        by (rule key_lawsD(4) [OF K key_lawsD(4) [OF K True that] key_lawsD(2) [OF K \<open>cmp (fst f) k\<close>]])
      then show False
        using Cons.prems(2) \<open>f \<in> set es\<close> by (simp add: e)
    qed
    then show ?thesis
      using Cons.prems True key_cong [OF K True] by (auto simp: e)
  next
    case False
    then obtain es1 where es1: "chain_remove cmp key es = Some (es1, old)" "es' = (a, x) # es1"
      using Cons.prems by (auto simp: e split: option.splits)
    have "\<not> cmp a k" if "cmp key k" for k
      using False that key_lawsD [OF K] by blast
    then show ?thesis
      using Cons.IH [OF es1(1)] es1(2) False Cons.prems(2) by (auto simp: e)
  qed
qed simp

section \<open>The operations\<close>

lemma hm_wfD:
  assumes "hm_wf m"
  shows "hm_magic m = HASHMAP_MAGIC" "\<not> hm_lock m" "hm_capacity m \<noteq> 0" "0 < unat (hm_capacity m)"
    "length (hm_entries m) = unat (hm_capacity m)" "key_laws (hm_hash_func m) (hm_key_compare_func m)"
    "\<And>i. i < length (hm_entries m) \<Longrightarrow> chain_ok m i (hm_entries m ! i)"
    "hm_size m = of_nat (length (concat (hm_entries m)))" "\<And>k. bucket_of m k < length (hm_entries m)"
  using assms by (auto simp: hm_wf_def bucket_of_def)

lemma chain_ok_keys:
  "chain_ok m i es \<longleftrightarrow> (\<forall>k \<in> set (map fst es). bucket_of m k = i) \<and>
     sorted_wrt (\<lambda>k l. \<not> hm_key_compare_func m k l) (map fst es)"
  by (auto simp: chain_ok_def sorted_wrt_map)

lemma bucket_index: "unat (hm_hash_func m key mod hm_capacity m) = bucket_of m key"
  by (simp add: bucket_of_def unat_mod_distrib)

lemma bucket_cong:
  assumes "hm_wf m" "hm_key_compare_func m key k"
  shows "bucket_of m k = bucket_of m key"
  using key_lawsD(3) [OF hm_wfD(6) [OF assms(1)] assms(2)] by (simp add: bucket_of_def)

text \<open>Replacing one chain of a map, with a new size.\<close>

definition put_chain :: "hashmap \<Rightarrow> nat \<Rightarrow> hm_entry list \<Rightarrow> size_t \<Rightarrow> hashmap" where
  "put_chain m i es sz = m\<lparr>hm_entries := (hm_entries m)[i := es], hm_size := sz, hm_lock := False\<rparr>"

lemma length_concat_update:
  "i < length xss \<Longrightarrow> length (concat (xss[i := es])) + length (xss ! i) = length (concat xss) + length es"
proof (induction xss arbitrary: i)
  case (Cons xs xss)
  then show ?case by (cases i) auto
qed simp

lemma put_chain_wf:
  assumes wf: "hm_wf m" and i: "i < length (hm_entries m)" and ok: "chain_ok m i es"
    and sz: "sz + of_nat (length (hm_entries m ! i)) = hm_size m + of_nat (length es)"
  shows "hm_wf (put_chain m i es sz)"
proof -
  note D = hm_wfD [OF wf]
  have cong: "chain_ok (put_chain m i es sz) j fs = chain_ok m j fs" for j fs
    by (simp add: chain_ok_def bucket_of_def put_chain_def)
  have "sz + of_nat (length (hm_entries m ! i)) =
      of_nat (length (concat ((hm_entries m)[i := es]))) + of_nat (length (hm_entries m ! i))"
    unfolding sz D(8) of_nat_add [symmetric] length_concat_update [OF i] ..
  then have "sz = of_nat (length (concat ((hm_entries m)[i := es])))"
    by simp
  moreover have "chain_ok m j ((hm_entries m)[i := es] ! j)" if "j < length (hm_entries m)" for j
    using D(7) [OF that] ok that by (cases "i = j") auto
  ultimately show ?thesis
    using D cong unfolding hm_wf_def by (simp add: put_chain_def)
qed

lemma put_chain_lookup:
  assumes "hm_wf m" "i < length (hm_entries m)"
  shows "hm_lookup (put_chain m i es sz) k =
     (if bucket_of m k = i then chain_get (hm_key_compare_func m) k es else hm_lookup m k)"
  using assms by (auto simp: hm_lookup_def put_chain_def bucket_of_def)

text \<open>What all operations keep of a map.\<close>

abbreviation same_keys :: "hashmap \<Rightarrow> hashmap \<Rightarrow> bool" where
  "same_keys m m' \<equiv> hm_hash_func m' = hm_hash_func m \<and> hm_key_compare_func m' = hm_key_compare_func m \<and>
     hm_capacity m' = hm_capacity m"

definition null_default :: "ptr_t option \<Rightarrow> ptr_t" where
  "null_default r = (case r of None \<Rightarrow> 0 | Some x \<Rightarrow> x)"

lemma open_map:
  assumes "hm_wf m"
  shows "hm_acquire m = Some (m\<lparr>hm_lock := True\<rparr>)"
    "\<And>key. mod_chk (hm_hash_func m key) (hm_capacity m) = Some (hm_hash_func m key mod hm_capacity m)"
    "\<And>key. arr_get (hm_entries m) (bucket_of m key) = Some (hm_entries m ! bucket_of m key)"
  using hm_wfD [OF assms] by (simp_all add: hm_acquire_def guards)

lemma hashmap_put_run:
  assumes wf: "hm_wf m"
  shows "\<exists>m'. hashmap_put m key v True = Some (m', null_default (hm_lookup m key)) \<and> hm_wf m' \<and>
     same_keys m m' \<and>
     (\<forall>k. hm_lookup m' k = (if hm_key_compare_func m key k then Some v else hm_lookup m k)) \<and>
     hm_size m' = hm_size m + (if hm_lookup m key = None then 1 else 0)"
proof -
  note D = hm_wfD [OF wf]
  let ?i = "bucket_of m key" and ?cmp = "hm_key_compare_func m"
  define c where "c = hm_entries m ! ?i"
  have ok: "chain_ok m ?i c"
    using D(7) [OF D(9)] by (simp add: c_def)
  show ?thesis
  proof (cases "chain_replace ?cmp key v c")
    case None
    let ?m = "put_chain m ?i ((key, v) # c) (hm_size m + 1)"
    note n = chain_replace_None [OF None]
    have run: "hashmap_put m key v True = Some (?m, 0)"
      using None D(1) open_map [OF wf]
      by (simp add: hashmap_put_def bucket_index c_def hm_release_def put_chain_def)
    have "chain_ok m ?i ((key, v) # c)"
      using ok n(2) key_lawsD(2) [OF D(6)] by (auto simp: chain_ok_def)
    then have "hm_wf ?m"
      by (rule put_chain_wf [OF wf D(9)]) (simp add: c_def)
    moreover have "hm_lookup ?m k = (if ?cmp key k then Some v else hm_lookup m k)" for k
      unfolding put_chain_lookup [OF wf D(9)] using bucket_cong [OF wf, of key k]
      by (auto simp: hm_lookup_def c_def)
    moreover have "hm_lookup m key = None"
      using n(1) by (simp add: hm_lookup_def c_def)
    ultimately show ?thesis
      using run by (simp add: null_default_def put_chain_def)
  next
    case (Some r)
    then obtain es old where r: "chain_replace ?cmp key v c = Some (es, old)"
      by (cases r) auto
    let ?m = "put_chain m ?i es (hm_size m)"
    note n = chain_replace_Some [OF D(6) r]
    have run: "hashmap_put m key v True = Some (?m, old)"
      using r D(1,2) open_map [OF wf]
      by (simp add: hashmap_put_def bucket_index c_def hm_release_def put_chain_def)
    have "length es = length c"
      using n by (metis length_map)
    have "chain_ok m ?i es"
      using ok unfolding chain_ok_keys conjunct1 [OF n] .
    then have "hm_wf ?m"
      using \<open>length es = length c\<close> by (intro put_chain_wf [OF wf D(9)]) (simp_all add: c_def)
    moreover have "hm_lookup ?m k = (if ?cmp key k then Some v else hm_lookup m k)" for k
      unfolding put_chain_lookup [OF wf D(9)] using bucket_cong [OF wf, of key k] n
      by (auto simp: hm_lookup_def c_def)
    moreover have "hm_lookup m key = Some old"
      using n by (simp add: hm_lookup_def c_def)
    ultimately show ?thesis
      using run by (simp add: null_default_def put_chain_def)
  qed
qed

lemma hashmap_get_run:
  assumes wf: "hm_wf m"
  shows "hashmap_get m key = Some (m, null_default (hm_lookup m key))"
  using hm_wfD(1,2) [OF wf] open_map [OF wf]
  by (simp add: hashmap_get_def bucket_index hm_release_def hm_lookup_def null_default_def)

lemma chain_get_cong: "key_laws hash cmp \<Longrightarrow> cmp key k \<Longrightarrow> chain_get cmp k es = chain_get cmp key es"
proof (induction es)
  case (Cons e es)
  have "cmp (fst e) k \<longleftrightarrow> cmp (fst e) key"
    using key_lawsD [OF Cons.prems(1)] Cons.prems(2) by metis
  with Cons show ?case by (cases e) simp
qed simp

lemma hm_lookup_cong:
  assumes "hm_wf m" "hm_key_compare_func m key k"
  shows "hm_lookup m k = hm_lookup m key"
  using chain_get_cong [OF hm_wfD(6) [OF assms(1)] assms(2)] bucket_cong [OF assms]
  by (simp add: hm_lookup_def)

lemma hashmap_remove_run:
  assumes wf: "hm_wf m"
  shows "\<exists>m'. hashmap_remove m key = Some (m', null_default (hm_lookup m key)) \<and> hm_wf m' \<and>
     same_keys m m' \<and>
     (\<forall>k. hm_lookup m' k = (if hm_key_compare_func m key k then None else hm_lookup m k)) \<and>
     hm_size m' = hm_size m - (if hm_lookup m key = None then 0 else 1)"
proof -
  note D = hm_wfD [OF wf]
  let ?i = "bucket_of m key" and ?cmp = "hm_key_compare_func m"
  define c where "c = hm_entries m ! ?i"
  have ok: "chain_ok m ?i c"
    using D(7) [OF D(9)] by (simp add: c_def)
  show ?thesis
  proof (cases "chain_remove ?cmp key c")
    case None
    have "hashmap_remove m key = Some (m, 0)"
      using None D(1,2) open_map [OF wf]
      by (simp add: hashmap_remove_def bucket_index c_def hm_release_def)
    moreover have none: "hm_lookup m key = None"
      using chain_remove_None [OF None] by (simp add: hm_lookup_def c_def)
    moreover have "hm_lookup m k = None" if "?cmp key k" for k
      using none hm_lookup_cong [OF wf that] by simp
    ultimately show ?thesis
      using wf by (auto simp: null_default_def)
  next
    case (Some r)
    then obtain es old where r: "chain_remove ?cmp key c = Some (es, old)"
      by (cases r) auto
    let ?m = "put_chain m ?i es (hm_size m - 1)"
    have n: "chain_get ?cmp key c = Some old" "set es \<subseteq> set c" "length c = Suc (length es)"
      "sorted_wrt (\<lambda>e f. \<not> ?cmp (fst e) (fst f)) es"
      "\<And>k. chain_get ?cmp k es = (if ?cmp key k then None else chain_get ?cmp k c)"
      using chain_remove_Some [OF D(6) r] ok by (auto simp: chain_ok_def)
    have run: "hashmap_remove m key = Some (?m, old)"
      using r D(1,2) open_map [OF wf]
      by (simp add: hashmap_remove_def bucket_index c_def hm_release_def put_chain_def)
    have "chain_ok m ?i es"
      using ok n(2,4) by (auto simp: chain_ok_def)
    then have "hm_wf ?m"
      using n(3) by (intro put_chain_wf [OF wf D(9)]) (simp_all add: c_def)
    moreover have "hm_lookup ?m k = (if ?cmp key k then None else hm_lookup m k)" for k
      unfolding put_chain_lookup [OF wf D(9)] using bucket_cong [OF wf, of key k] n(5)
      by (auto simp: hm_lookup_def c_def)
    moreover have "hm_lookup m key = Some old"
      using n by (simp add: hm_lookup_def c_def)
    ultimately show ?thesis
      using run by (simp add: null_default_def put_chain_def)
  qed
qed

lemma hashmap_init_run:
  assumes "hm_magic m \<noteq> HASHMAP_MAGIC" "capacity \<noteq> 0" "key_laws hash cmp"
  shows "\<exists>m'. hashmap_init m capacity hash cmp True = Some m' \<and> hm_wf m' \<and> hm_lookup m' = (\<lambda>_. None) \<and>
     hm_size m' = 0 \<and> hm_hash_func m' = hash \<and> hm_key_compare_func m' = cmp"
  using assms
  by (auto simp: hashmap_init_def hm_wf_def unat_gt_0 chain_ok_def hm_lookup_def bucket_of_def fun_eq_iff)

section \<open>The contract of the kernel tables\<close>

datatype map_op = Put uintn ptr_t | Get uintn | Remove uintn

text \<open>A sequence of operations and the pointers that they return, on an implementation and on a map.\<close>

fun map_run ::
  "('m \<Rightarrow> uintn \<Rightarrow> ptr_t \<Rightarrow> ('m \<times> ptr_t) option) \<Rightarrow> ('m \<Rightarrow> uintn \<Rightarrow> ('m \<times> ptr_t) option) \<Rightarrow>
   ('m \<Rightarrow> uintn \<Rightarrow> ('m \<times> ptr_t) option) \<Rightarrow> 'm \<Rightarrow> map_op list \<Rightarrow> ('m \<times> ptr_t list) option" where
  "map_run put get remove m [] = Some (m, [])"
| "map_run put get remove m (op # ops) = do {
     (m, r) \<leftarrow> (case op of Put k v \<Rightarrow> put m k v | Get k \<Rightarrow> get m k | Remove k \<Rightarrow> remove m k);
     (m, rs) \<leftarrow> map_run put get remove m ops;
     Some (m, r # rs) }"

fun spec_run :: "(uintn \<rightharpoonup> ptr_t) \<Rightarrow> map_op list \<Rightarrow> (uintn \<rightharpoonup> ptr_t) \<times> ptr_t list" where
  "spec_run f [] = (f, [])"
| "spec_run f (Put k v # ops) = (case spec_run (f(k \<mapsto> v)) ops of (g, rs) \<Rightarrow> (g, null_default (f k) # rs))"
| "spec_run f (Get k # ops) = (case spec_run f ops of (g, rs) \<Rightarrow> (g, null_default (f k) # rs))"
| "spec_run f (Remove k # ops) = (case spec_run (f(k := None)) ops of (g, rs) \<Rightarrow> (g, null_default (f k) # rs))"

locale kernel_map =
  fixes invar :: "'m \<Rightarrow> bool"
    and lookup :: "'m \<Rightarrow> uintn \<Rightarrow> ptr_t option"
    and put :: "'m \<Rightarrow> uintn \<Rightarrow> ptr_t \<Rightarrow> ('m \<times> ptr_t) option"
    and get remove :: "'m \<Rightarrow> uintn \<Rightarrow> ('m \<times> ptr_t) option"
  assumes put_law: "invar m \<Longrightarrow> \<exists>m'. put m k v = Some (m', null_default (lookup m k)) \<and> invar m' \<and>
      lookup m' = (lookup m)(k \<mapsto> v)"
    and get_law: "invar m \<Longrightarrow> get m k = Some (m, null_default (lookup m k))"
    and remove_law: "invar m \<Longrightarrow> \<exists>m'. remove m k = Some (m', null_default (lookup m k)) \<and> invar m' \<and>
      lookup m' = (lookup m)(k := None)"
begin

lemma run_refines:
  assumes "invar m"
  shows "\<exists>m'. map_run put get remove m ops = Some (m', snd (spec_run (lookup m) ops)) \<and> invar m' \<and>
     lookup m' = fst (spec_run (lookup m) ops)"
  using assms
proof (induction ops arbitrary: m)
  case Nil
  then show ?case by simp
next
  case (Cons op ops)
  show ?case
  proof (cases op)
    case (Put k v)
    obtain m1 where "put m k v = Some (m1, null_default (lookup m k))" "invar m1" "lookup m1 = (lookup m)(k \<mapsto> v)"
      using put_law [OF Cons.prems] by blast
    with Cons.IH [of m1] Put show ?thesis by (auto simp del: fun_upd_apply split: prod.splits)
  next
    case (Get k)
    with Cons.IH [OF Cons.prems] get_law [OF Cons.prems] show ?thesis by (auto split: prod.splits)
  next
    case (Remove k)
    obtain m1 where "remove m k = Some (m1, null_default (lookup m k))" "invar m1" "lookup m1 = (lookup m)(k := None)"
      using remove_law [OF Cons.prems] by blast
    with Cons.IH [of m1] Remove show ?thesis by (auto simp del: fun_upd_apply split: prod.splits)
  qed
qed

end

text \<open>The tables of the kernel with numbers or addresses as keys: identity hash, simple comparison.\<close>

definition id_table :: "hashmap \<Rightarrow> bool" where
  "id_table m \<longleftrightarrow> hm_wf m \<and> hm_hash_func m = hashmap_identity_hash \<and>
     hm_key_compare_func m = hashmap_simple_key_compare"

lemma id_key_laws: "key_laws hashmap_identity_hash hashmap_simple_key_compare"
  by (simp add: key_laws_def hashmap_simple_key_compare_def)

lemma string_key_laws: "key_laws (hashmap_hash_string str_at) (hashmap_compare_string str_at)"
  by (simp add: key_laws_def hashmap_compare_string_def hashmap_hash_string_def)

interpretation hm: kernel_map id_table hm_lookup "\<lambda>m k v. hashmap_put m k v True" hashmap_get hashmap_remove
proof
  fix m k v
  assume "id_table m"
  then show "\<exists>m'. hashmap_put m k v True = Some (m', null_default (hm_lookup m k)) \<and> id_table m' \<and>
      hm_lookup m' = (hm_lookup m)(k \<mapsto> v)"
    using hashmap_put_run [of m k v] by (force simp: id_table_def hashmap_simple_key_compare_def fun_eq_iff)
next
  fix m k
  assume "id_table m"
  then show "hashmap_get m k = Some (m, null_default (hm_lookup m k))"
    by (simp add: id_table_def hashmap_get_run)
  show "\<exists>m'. hashmap_remove m k = Some (m', null_default (hm_lookup m k)) \<and> id_table m' \<and>
      hm_lookup m' = (hm_lookup m)(k := None)" if "id_table m"
    using that hashmap_remove_run [of m k] by (force simp: id_table_def hashmap_simple_key_compare_def fun_eq_iff)
qed

section \<open>Properties\<close>

text \<open>
  For keys compared by an equivalence that the hash respects, \<^verbatim>\<open>hashmap_put\<close> on a well-formed
  map never faults and releases the lock: it stores the value for all keys equal to the given one
  and for no other, returns the value stored before or \<^verbatim>\<open>NULL\<close>, and counts the entry if it is new.
\<close>

theorem hashmap_put_correct:
  assumes "hm_wf m"
  shows "\<exists>m' old. hashmap_put m key v True = Some (m', old) \<and> hm_wf m' \<and> \<not> hm_lock m' \<and>
     old = (case hm_lookup m key of None \<Rightarrow> 0 | Some x \<Rightarrow> x) \<and>
     (\<forall>k. hm_lookup m' k = (if hm_key_compare_func m key k then Some v else hm_lookup m k)) \<and>
     hm_size m' = hm_size m + (if hm_lookup m key = None then 1 else 0)"
  using hashmap_put_run [OF assms, of key v] hm_wfD(2) by (fastforce simp: null_default_def)

definition blank_map :: hashmap where
  "blank_map = \<lparr>hm_magic = 0, hm_entries = [], hm_capacity = 0, hm_size = 0,
     hm_hash_func = (\<lambda>_. 0), hm_key_compare_func = (\<lambda>_ _. False), hm_lock = False\<rparr>"

definition small_map :: hashmap where
  "small_map = the (hashmap_init blank_map 4 hashmap_identity_hash hashmap_simple_key_compare True)"

lemma small_map_ok: "id_table small_map" "hm_wf small_map" "hm_lookup small_map = (\<lambda>_. None)"
  using hashmap_init_run [of blank_map 4, OF _ _ id_key_laws]
  by (auto simp: small_map_def id_table_def blank_map_def HASHMAP_MAGIC_def)

theorem hashmap_put_correct_witness:
  "hm_wf small_map \<and> (\<exists>m'. hashmap_put small_map 5 77 True = Some (m', 0) \<and> hm_lookup m' 5 = Some 77 \<and>
     hm_lookup m' 9 = None)"
  using hashmap_put_correct [OF small_map_ok(2), of 5 77] small_map_ok
  by (auto simp: id_table_def hashmap_simple_key_compare_def)

text \<open>
  \<^verbatim>\<open>hashmap_remove\<close> on a well-formed map never faults and releases the lock: it removes the
  entry of the equal key and no other, returns its value or \<^verbatim>\<open>NULL\<close>, and keeps the size exact.
\<close>

theorem hashmap_remove_correct:
  assumes "hm_wf m"
  shows "\<exists>m' old. hashmap_remove m key = Some (m', old) \<and> hm_wf m' \<and> \<not> hm_lock m' \<and>
     old = (case hm_lookup m key of None \<Rightarrow> 0 | Some x \<Rightarrow> x) \<and>
     (\<forall>k. hm_lookup m' k = (if hm_key_compare_func m key k then None else hm_lookup m k)) \<and>
     hm_size m' = hm_size m - (if hm_lookup m key = None then 0 else 1)"
  using hashmap_remove_run [OF assms, of key] hm_wfD(2) by (fastforce simp: null_default_def)

theorem hashmap_remove_correct_witness:
  "hm_wf small_map \<and> (\<exists>m'. hashmap_remove small_map 5 = Some (m', 0) \<and> hm_lookup m' 9 = None)"
  using hashmap_remove_correct [OF small_map_ok(2), of 5] small_map_ok by auto

text \<open>
  C14: A kernel table (identity hash, simple comparison) behaves as a finite map: every sequence of
  puts, gets and removes on a freshly initialised table runs without a fault and returns what the
  same sequence returns on a map.
\<close>

theorem hashmap_refines_map:
  assumes "hashmap_init m0 capacity hashmap_identity_hash hashmap_simple_key_compare True = Some m"
    "capacity \<noteq> 0"
  shows "\<exists>m'. map_run (\<lambda>m k v. hashmap_put m k v True) hashmap_get hashmap_remove m ops
     = Some (m', snd (spec_run Map.empty ops)) \<and> hm_lookup m' = fst (spec_run Map.empty ops)"
proof -
  have "hm_magic m0 \<noteq> HASHMAP_MAGIC"
    using assms(1) by (auto simp: hashmap_init_def)
  from hashmap_init_run [OF this assms(2) id_key_laws] assms(1)
  have "id_table m" "hm_lookup m = Map.empty"
    by (auto simp: id_table_def)
  then show ?thesis
    using hm.run_refines [of m ops] by auto
qed

theorem hashmap_refines_map_witness:
  "\<exists>m'. map_run (\<lambda>m k v. hashmap_put m k v True) hashmap_get hashmap_remove small_map
     [Put 1 10, Put 5 50, Get 1, Remove 1, Get 1, Put 5 51] = Some (m', [0, 0, 10, 10, 0, 50])"
proof -
  have "hashmap_init blank_map 4 hashmap_identity_hash hashmap_simple_key_compare True = Some small_map"
    by (simp add: small_map_def hashmap_init_def blank_map_def HASHMAP_MAGIC_def)
  from hashmap_refines_map [OF this, of "[Put 1 10, Put 5 50, Get 1, Remove 1, Get 1, Put 5 51]"]
  show ?thesis
    by (auto simp: null_default_def)
qed

end
