(* ===== verification/Strings.thy ===== *)
theory Strings
  imports MOS_Prelude
begin

text \<open>
  The string and memory functions of \<^verbatim>\<open>libs/stdlib/mos_string.c\<close>.  Memory maps addresses to bytes;
  an access to an address that is not mapped faults.  Addresses and \<^verbatim>\<open>size_t\<close> counts are natural
  numbers: the loops only count towards the end of a mapped object.  A pointer result that may be
  \<^verbatim>\<open>NULL\<close> is an option inside of the result.  A \<^verbatim>\<open>char\<close> is signed, so its value in an
  expression is \<^const>\<open>sint\<close> of the byte.
\<close>

type_synonym memory = "nat \<rightharpoonup> u8"

section \<open>Definitions\<close>

definition mwrite :: "memory \<Rightarrow> nat \<Rightarrow> u8 \<Rightarrow> memory option" where
  "mwrite m a v = (if m a = None then None else Some (m(a \<mapsto> v)))"

text \<open>Loads and stores of several bytes, as of a \<^verbatim>\<open>long\<close>.\<close>

fun mload :: "memory \<Rightarrow> nat \<Rightarrow> nat \<Rightarrow> u8 list option" where
  "mload m a 0 = Some []"
| "mload m a (Suc n) = do { b \<leftarrow> m a; bs \<leftarrow> mload m (Suc a) n; Some (b # bs) }"

fun mstore :: "memory \<Rightarrow> nat \<Rightarrow> u8 list \<Rightarrow> memory option" where
  "mstore m a [] = Some m"
| "mstore m a (b # bs) = do { m \<leftarrow> mwrite m a b; mstore m (Suc a) bs }"

subsection \<open>Lengths and comparisons\<close>

partial_function (option) strlen_loop :: "memory \<Rightarrow> nat \<Rightarrow> nat \<Rightarrow> nat option" where
  "strlen_loop m str len = do {
     c \<leftarrow> m (str + len);
     if c \<noteq> 0 then strlen_loop m str (Suc len) else Some len }"

definition strlen :: "memory \<Rightarrow> nat \<Rightarrow> nat option" where
  "strlen m str = strlen_loop m str 0"

function strnlen_loop :: "memory \<Rightarrow> nat \<Rightarrow> nat \<Rightarrow> nat \<Rightarrow> nat option" where
  "strnlen_loop m str n len =
     (if len < n then do {
        c \<leftarrow> m (str + len);
        if c \<noteq> 0 then strnlen_loop m str n (Suc len) else Some len }
      else Some len)"
  by pat_completeness auto
termination
  by (relation "measure (\<lambda>(_, _, n, len). n - len)") auto

definition strnlen :: "memory \<Rightarrow> nat \<Rightarrow> nat \<Rightarrow> nat option" where
  "strnlen m str n = strnlen_loop m str n 0"

partial_function (option) strcmp_loop :: "memory \<Rightarrow> nat \<Rightarrow> nat \<Rightarrow> nat \<Rightarrow> int option" where
  "strcmp_loop m s1 s2 i = do {
     a \<leftarrow> m (s1 + i);
     b \<leftarrow> m (s2 + i);
     if a \<noteq> 0 \<and> b \<noteq> 0 \<and> a = b then strcmp_loop m s1 s2 (Suc i) else Some (sint a - sint b) }"

definition strcmp :: "memory \<Rightarrow> nat \<Rightarrow> nat \<Rightarrow> int option" where
  "strcmp m s1 s2 = strcmp_loop m s1 s2 0"

fun strncmp :: "memory \<Rightarrow> nat \<Rightarrow> nat \<Rightarrow> nat \<Rightarrow> int option" where
  "strncmp m str1 str2 0 = Some 0"
| "strncmp m str1 str2 (Suc n) = do {
     c1 \<leftarrow> m str1;
     c2 \<leftarrow> m str2;
     if c1 \<noteq> c2 then Some (uint c1 - uint c2)
     else if c1 = 0 then Some 0
     else strncmp m (Suc str1) (Suc str2) n }"

text \<open>\<^verbatim>\<open>tolower\<close> of \<^verbatim>\<open>libs/stdlib/mos_stdlib.c\<close>.\<close>

definition tolower :: "u8 \<Rightarrow> u8" where
  "tolower c = (if 65 \<le> c \<and> c \<le> 90 then c - 65 + 97 else c)"

fun strncasecmp :: "memory \<Rightarrow> nat \<Rightarrow> nat \<Rightarrow> nat \<Rightarrow> int option" where
  "strncasecmp m a b 0 = Some 0"
| "strncasecmp m a b (Suc n) = do {
     x \<leftarrow> m a;
     y \<leftarrow> m b;
     let a_byte = tolower x;
     let b_byte = tolower y;
     if a_byte = 0 \<and> b_byte = 0 then Some 0
     else if a_byte < b_byte then Some (-1)
     else if b_byte < a_byte then Some 1
     else strncasecmp m (Suc a) (Suc b) n }"

subsection \<open>Blocks of memory\<close>

text \<open>The loop \<^verbatim>\<open>while (n--) *dst++ = *src++\<close>.\<close>

fun copy_bytes :: "memory \<Rightarrow> nat \<Rightarrow> nat \<Rightarrow> nat \<Rightarrow> memory option" where
  "copy_bytes m dst src 0 = Some m"
| "copy_bytes m dst src (Suc n) = do {
     b \<leftarrow> m src;
     m \<leftarrow> mwrite m dst b;
     copy_bytes m (Suc dst) (Suc src) n }"

text \<open>One \<^verbatim>\<open>*aligned_dst++ = *aligned_src++\<close> with \<^verbatim>\<open>long\<close> of 8 bytes.\<close>

definition copy_long :: "memory \<Rightarrow> nat \<Rightarrow> nat \<Rightarrow> memory option" where
  "copy_long m dst src = do { bs \<leftarrow> mload m src 8; mstore m dst bs }"

text \<open>The loops by big blocks and by single words; they return the pointers and the count left.\<close>

function copy_big :: "memory \<Rightarrow> nat \<Rightarrow> nat \<Rightarrow> nat \<Rightarrow> (memory \<times> nat \<times> nat \<times> nat) option" where
  "copy_big m d s n =
     (if 32 \<le> n then do {
        m \<leftarrow> copy_long m d s;
        m \<leftarrow> copy_long m (d + 8) (s + 8);
        m \<leftarrow> copy_long m (d + 16) (s + 16);
        m \<leftarrow> copy_long m (d + 24) (s + 24);
        copy_big m (d + 32) (s + 32) (n - 32) }
      else Some (m, d, s, n))"
  by pat_completeness auto
termination
  by (relation "measure (\<lambda>(_, _, _, n). n)") auto

function copy_little :: "memory \<Rightarrow> nat \<Rightarrow> nat \<Rightarrow> nat \<Rightarrow> (memory \<times> nat \<times> nat \<times> nat) option" where
  "copy_little m d s n =
     (if 8 \<le> n then do {
        m \<leftarrow> copy_long m d s;
        copy_little m (d + 8) (s + 8) (n - 8) }
      else Some (m, d, s, n))"
  by pat_completeness auto
termination
  by (relation "measure (\<lambda>(_, _, _, n). n)") auto

definition memcpy :: "memory \<Rightarrow> nat \<Rightarrow> nat \<Rightarrow> nat \<Rightarrow> memory option" where
  "memcpy m dst src n =
     (if \<not> n < 32 \<and> src mod 8 = 0 \<and> dst mod 8 = 0 then do {
        (m, d, s, n) \<leftarrow> copy_big m dst src n;
        (m, d, s, n) \<leftarrow> copy_little m d s n;
        copy_bytes m d s n }
      else copy_bytes m dst src n)"

text \<open>The loop \<^verbatim>\<open>while (length--) *--dst = *--src\<close>.\<close>

fun copy_back :: "memory \<Rightarrow> nat \<Rightarrow> nat \<Rightarrow> nat \<Rightarrow> memory option" where
  "copy_back m dst src 0 = Some m"
| "copy_back m dst src (Suc n) = do {
     b \<leftarrow> m (src - 1);
     m \<leftarrow> mwrite m (dst - 1) b;
     copy_back m (dst - 1) (src - 1) n }"

definition memmove :: "memory \<Rightarrow> nat \<Rightarrow> nat \<Rightarrow> nat \<Rightarrow> memory option" where
  "memmove m dst src n =
     (if src < dst \<and> dst < src + n then copy_back m (dst + n) (src + n) n
      else copy_bytes m dst src n)"

text \<open>The value stored by \<^verbatim>\<open>memset\<close> is the low byte of the \<^verbatim>\<open>int\<close> argument.\<close>

fun set_bytes :: "memory \<Rightarrow> nat \<Rightarrow> u8 \<Rightarrow> nat \<Rightarrow> memory option" where
  "set_bytes m d v 0 = Some m"
| "set_bytes m d v (Suc n) = do { m \<leftarrow> mwrite m d v; set_bytes m (Suc d) v n }"

definition memset :: "memory \<Rightarrow> nat \<Rightarrow> int \<Rightarrow> nat \<Rightarrow> memory option" where
  "memset m s c n = set_bytes m s (word_of_int c) n"

fun memcmp :: "memory \<Rightarrow> nat \<Rightarrow> nat \<Rightarrow> nat \<Rightarrow> int option" where
  "memcmp m p1 p2 0 = Some 0"
| "memcmp m p1 p2 (Suc n) = do {
     a \<leftarrow> m p1;
     b \<leftarrow> m p2;
     if a \<noteq> b then Some (uint a - uint b) else memcmp m (Suc p1) (Suc p2) n }"

function zero_words :: "memory \<Rightarrow> nat \<Rightarrow> nat \<Rightarrow> (memory \<times> nat \<times> nat) option" where
  "zero_words m s n =
     (if 8 \<le> n then do {
        m \<leftarrow> mstore m s (replicate 8 0);
        zero_words m (s + 8) (n - 8) }
      else Some (m, s, n))"
  by pat_completeness auto
termination
  by (relation "measure (\<lambda>(_, _, n). n)") auto

definition memzero :: "memory \<Rightarrow> nat \<Rightarrow> nat \<Rightarrow> memory option" where
  "memzero m s n = do { (m, s, n) \<leftarrow> zero_words m s n; set_bytes m s 0 n }"

fun memchr :: "memory \<Rightarrow> nat \<Rightarrow> int \<Rightarrow> nat \<Rightarrow> nat option option" where
  "memchr m s c 0 = Some None"
| "memchr m s c (Suc n) = do { b \<leftarrow> m s; if uint b = c then Some (Some s) else memchr m (Suc s) c n }"

subsection \<open>Copying strings\<close>

text \<open>\<^verbatim>\<open>strcpy\<close> returns the address of the terminator that it wrote.\<close>

partial_function (option) strcpy :: "memory \<Rightarrow> nat \<Rightarrow> nat \<Rightarrow> (memory \<times> nat) option" where
  "strcpy m dest src = do {
     c \<leftarrow> m src;
     if c \<noteq> 0 then do { m \<leftarrow> mwrite m dest c; strcpy m (Suc dest) (Suc src) }
     else do { m \<leftarrow> mwrite m dest 0; Some (m, dest) } }"

partial_function (option) skip_to_end :: "memory \<Rightarrow> nat \<Rightarrow> nat option" where
  "skip_to_end m dest = do { c \<leftarrow> m dest; if c \<noteq> 0 then skip_to_end m (Suc dest) else Some dest }"

definition strcat :: "memory \<Rightarrow> nat \<Rightarrow> nat \<Rightarrow> (memory \<times> nat) option" where
  "strcat m dest src = do { d \<leftarrow> skip_to_end m dest; strcpy m d src }"

fun strncpy_copy :: "memory \<Rightarrow> nat \<Rightarrow> nat \<Rightarrow> nat \<Rightarrow> (memory \<times> nat \<times> nat) option" where
  "strncpy_copy m dest src 0 = Some (m, dest, 0)"
| "strncpy_copy m dest src (Suc n) = do {
     c \<leftarrow> m src;
     if c \<noteq> 0 then do { m \<leftarrow> mwrite m dest c; strncpy_copy m (Suc dest) (Suc src) n }
     else Some (m, dest, Suc n) }"

definition strncpy :: "memory \<Rightarrow> nat \<Rightarrow> nat \<Rightarrow> nat \<Rightarrow> memory option" where
  "strncpy m dest src n = do { (m, d, n) \<leftarrow> strncpy_copy m dest src n; set_bytes m d 0 n }"

text \<open>
  The allocator is an argument: it maps memory and the size of a block to the memory with the block
  mapped and to its address, or fails; the copy into the null pointer then faults.
\<close>

definition strdup ::
  "(memory \<Rightarrow> nat \<Rightarrow> (memory \<times> nat) option) \<Rightarrow> memory \<Rightarrow> nat \<Rightarrow> (memory \<times> nat) option" where
  "strdup malloc m src = do {
     n \<leftarrow> strlen m src;
     (m, dst) \<leftarrow> malloc m (n + 1);
     (m, _) \<leftarrow> strcpy m dst src;
     Some (m, dst) }"

definition strndup ::
  "(memory \<Rightarrow> nat \<Rightarrow> (memory \<times> nat) option) \<Rightarrow> memory \<Rightarrow> nat \<Rightarrow> nat \<Rightarrow> (memory \<times> nat) option" where
  "strndup malloc m src len = do {
     (m, dst) \<leftarrow> malloc m (len + 1);
     m \<leftarrow> strncpy m dst src len;
     m \<leftarrow> mwrite m (dst + len) 0;
     Some (m, dst) }"

subsection \<open>Searching and splitting strings\<close>

partial_function (option) strchr :: "memory \<Rightarrow> nat \<Rightarrow> int \<Rightarrow> nat option option" where
  "strchr m s c = do {
     b \<leftarrow> m s;
     if b = 0 then Some None
     else if sint b = c then Some (Some s)
     else strchr m (Suc s) c }"

partial_function (option) strrchr_loop :: "memory \<Rightarrow> nat \<Rightarrow> int \<Rightarrow> nat option \<Rightarrow> nat option option" where
  "strrchr_loop m s c l = do {
     b \<leftarrow> m s;
     let l = (if sint b = c then Some s else l);
     if b \<noteq> 0 then strrchr_loop m (Suc s) c l else Some l }"

definition strrchr :: "memory \<Rightarrow> nat \<Rightarrow> int \<Rightarrow> nat option option" where
  "strrchr m s c = strrchr_loop m s c None"

partial_function (option) strspn_loop :: "memory \<Rightarrow> nat \<Rightarrow> nat \<Rightarrow> nat \<Rightarrow> nat option" where
  "strspn_loop m s accept i = do {
     b \<leftarrow> m (s + i);
     if b \<noteq> 0 then do {
       r \<leftarrow> strchr m accept (sint b);
       if r = None then Some i else strspn_loop m s accept (Suc i) }
     else Some i }"

definition strspn :: "memory \<Rightarrow> nat \<Rightarrow> nat \<Rightarrow> nat option" where
  "strspn m s accept = strspn_loop m s accept 0"

partial_function (option) strpbrk :: "memory \<Rightarrow> nat \<Rightarrow> nat \<Rightarrow> nat option option" where
  "strpbrk m s accept = do {
     b \<leftarrow> m s;
     if b \<noteq> 0 then do {
       r \<leftarrow> strchr m accept (sint b);
       if r \<noteq> None then Some (Some s) else strpbrk m (Suc s) accept }
     else Some None }"

text \<open>The result of \<^verbatim>\<open>strtok_r\<close>: the memory, \<^verbatim>\<open>*saveptr\<close> and the token.\<close>

definition strtok_r ::
  "memory \<Rightarrow> nat option \<Rightarrow> nat \<Rightarrow> nat option \<Rightarrow> (memory \<times> nat option \<times> nat option) option" where
  "strtok_r m str delim saveptr =
     (case (case str of None \<Rightarrow> saveptr | Some p \<Rightarrow> Some p) of
        None \<Rightarrow> Some (m, saveptr, None)
      | Some str \<Rightarrow> do {
          k \<leftarrow> strspn m str delim;
          let str = str + k;
          b \<leftarrow> m str;
          if b = 0 then Some (m, None, None)
          else do {
            let token = str;
            r \<leftarrow> strpbrk m token delim;
            case r of
              None \<Rightarrow> Some (m, None, Some token)
            | Some str \<Rightarrow> do {
                m \<leftarrow> mwrite m str 0;
                Some (m, Some (str + 1), Some token) } } })"

text \<open>\<^verbatim>\<open>strtok\<close> keeps its position in a static variable, which is passed in and returned here.\<close>

definition strtok ::
  "nat option \<Rightarrow> memory \<Rightarrow> nat option \<Rightarrow> nat \<Rightarrow> (nat option \<times> memory \<times> nat option) option" where
  "strtok l m str delim = (
     let str = (case str of None \<Rightarrow> l | Some p \<Rightarrow> Some p)
     in case str of
          None \<Rightarrow> Some (l, m, None)
        | Some str \<Rightarrow> do {
            k \<leftarrow> strspn m str delim;
            let str = str + k;
            b \<leftarrow> m str;
            if b = 0 then Some (None, m, None)
            else do {
              let token = str;
              r \<leftarrow> strpbrk m token delim;
              case r of
                None \<Rightarrow> Some (None, m, Some token)
              | Some str \<Rightarrow> do {
                  m \<leftarrow> mwrite m str 0;
                  Some (Some (str + 1), m, Some token) } } })"

text \<open>
  The loop that a client of \<^verbatim>\<open>strtok_r\<close> runs: a first call with the string, then calls with
  \<^verbatim>\<open>NULL\<close> until no token comes; the result is the memory and the addresses of the tokens.
\<close>

partial_function (option) strtok_all ::
  "memory \<Rightarrow> nat option \<Rightarrow> nat \<Rightarrow> nat option \<Rightarrow> (memory \<times> nat list) option" where
  "strtok_all m str delim saveptr = do {
     (m, saveptr, token) \<leftarrow> strtok_r m str delim saveptr;
     case token of
       None \<Rightarrow> Some (m, [])
     | Some t \<Rightarrow> do {
         (m, ts) \<leftarrow> strtok_all m None delim saveptr;
         Some (m, t # ts) } }"

subsection \<open>What memory holds\<close>

text \<open>The string \<open>xs\<close> stands at \<open>p\<close>, with its terminator.\<close>

fun cstr :: "memory \<Rightarrow> nat \<Rightarrow> u8 list \<Rightarrow> bool" where
  "cstr m p [] \<longleftrightarrow> m p = Some 0"
| "cstr m p (x # xs) \<longleftrightarrow> x \<noteq> 0 \<and> m p = Some x \<and> cstr m (Suc p) xs"

definition mapped :: "memory \<Rightarrow> nat \<Rightarrow> nat \<Rightarrow> bool" where
  "mapped m a n \<longleftrightarrow> (\<forall>i. a \<le> i \<and> i < a + n \<longrightarrow> m i \<noteq> None)"

text \<open>The memory in which \<open>n\<close> bytes at \<open>d\<close> are those that stood at \<open>s\<close>.\<close>

definition mcopy :: "memory \<Rightarrow> nat \<Rightarrow> nat \<Rightarrow> nat \<Rightarrow> memory" where
  "mcopy m d s n = (\<lambda>a. if d \<le> a \<and> a < d + n then m (s + (a - d)) else m a)"

definition mfill :: "memory \<Rightarrow> nat \<Rightarrow> u8 \<Rightarrow> nat \<Rightarrow> memory" where
  "mfill m d v n = (\<lambda>a. if d \<le> a \<and> a < d + n then Some v else m a)"

text \<open>The maximal parts of a string without delimiters.\<close>

function tokens :: "(u8 \<Rightarrow> bool) \<Rightarrow> u8 list \<Rightarrow> u8 list list" where
  "tokens D xs =
     (case dropWhile D xs of
        [] \<Rightarrow> []
      | y # ys \<Rightarrow> takeWhile (\<lambda>c. \<not> D c) (y # ys) # tokens D (dropWhile (\<lambda>c. \<not> D c) ys))"
  by pat_completeness auto
termination
proof (relation "measure (\<lambda>(_, xs). length xs)")
  fix D :: "u8 \<Rightarrow> bool" and xs y ys
  assume "dropWhile D xs = y # ys"
  then show "((D, dropWhile (\<lambda>c. \<not> D c) ys), D, xs) \<in> measure (\<lambda>(_, xs). length xs)"
    using length_dropWhile_le [of D xs] length_dropWhile_le [of "\<lambda>c. \<not> D c" ys] by simp
qed simp

declare strlen_loop.simps [code] strcmp_loop.simps [code] strcpy.simps [code] skip_to_end.simps [code]
  strchr.simps [code] strrchr_loop.simps [code] strspn_loop.simps [code] strpbrk.simps [code] strtok_all.simps [code]

declare strnlen_loop.simps [simp del] copy_big.simps [simp del] copy_little.simps [simp del]
  zero_words.simps [simp del] tokens.simps [simp del]

section \<open>Copying and filling\<close>

lemma mwrite_Some: "m a \<noteq> None \<Longrightarrow> mwrite m a v = Some (m(a \<mapsto> v))"
  by (simp add: mwrite_def)

lemma mapped_Suc: "mapped m a (Suc n) \<longleftrightarrow> m a \<noteq> None \<and> mapped m (Suc a) n"
  unfolding mapped_def by (metis add_Suc add_Suc_right le_antisym less_add_Suc1 not_less_eq_eq Suc_leD le_refl)

lemma mapped_mono: "mapped m a n \<Longrightarrow> a \<le> b \<Longrightarrow> b + k \<le> a + n \<Longrightarrow> mapped m b k"
  by (simp add: mapped_def)

lemma mapped_upd: "mapped m a n \<Longrightarrow> mapped (m(b \<mapsto> v)) a n"
  by (simp add: mapped_def)

lemma mapped_mcopy: "mapped m s n \<Longrightarrow> mapped m a k \<Longrightarrow> mapped (mcopy m d s n) a k"
  unfolding mapped_def mcopy_def by (metis add_less_cancel_left le_add1 less_diff_conv2 add.commute)

lemma mapped_mfill: "mapped m a k \<Longrightarrow> mapped (mfill m d v n) a k"
  by (auto simp: mapped_def mfill_def)

lemma mcopy_0 [simp]: "mcopy m d s 0 = m"
  by (rule ext) (auto simp: mcopy_def)

lemma copy_bytes_mcopy:
  assumes "mapped m d n" "mapped m s n" "d \<le> s \<or> s + n \<le> d"
  shows "copy_bytes m d s n = Some (mcopy m d s n)"
  using assms
proof (induction n arbitrary: m d s)
  case (Suc n)
  obtain b where b: "m s = Some b"
    using Suc.prems(2) by (auto simp: mapped_Suc)
  have "copy_bytes (m(d \<mapsto> b)) (Suc d) (Suc s) n = Some (mcopy (m(d \<mapsto> b)) (Suc d) (Suc s) n)"
    using Suc.prems by (intro Suc.IH mapped_upd) (auto simp: mapped_Suc)
  moreover have "mcopy (m(d \<mapsto> b)) (Suc d) (Suc s) n = mcopy m d s (Suc n)"
  proof
    fix x
    have "Suc s + (x - Suc d) = s + (x - d)" if "Suc d \<le> x"
      using that by simp
    then show "mcopy (m(d \<mapsto> b)) (Suc d) (Suc s) n x = mcopy m d s (Suc n) x"
      using Suc.prems(3) b by (auto simp: mcopy_def)
  qed
  ultimately show ?case
    using Suc.prems b by (simp add: mwrite_Some mapped_Suc)
qed simp

lemma copy_back_mcopy:
  assumes "mapped m d n" "mapped m s n" "s \<le> d"
  shows "copy_back m (d + n) (s + n) n = Some (mcopy m d s n)"
  using assms
proof (induction n arbitrary: m)
  case (Suc n)
  have "m (s + n) \<noteq> None" "m (d + n) \<noteq> None"
    using Suc.prems by (auto simp: mapped_def)
  then obtain b where b: "m (s + n) = Some b" and d: "m (d + n) \<noteq> None"
    by auto
  have "copy_back (m(d + n \<mapsto> b)) (d + n) (s + n) n = Some (mcopy (m(d + n \<mapsto> b)) d s n)"
    using Suc.prems by (intro Suc.IH mapped_upd) (auto elim: mapped_mono)
  moreover have "mcopy (m(d + n \<mapsto> b)) d s n = mcopy m d s (Suc n)"
    using Suc.prems(3) b by (auto simp: mcopy_def fun_eq_iff less_Suc_eq)
  ultimately show ?case
    using b d by (simp add: mwrite_Some)
qed simp

lemma mload_Some: "mapped m a n \<Longrightarrow> mload m a n = Some (map (\<lambda>i. the (m (a + i))) [0..<n])"
proof (induction n arbitrary: a)
  case (Suc n)
  then obtain b where "m a = Some b" by (auto simp: mapped_Suc)
  then show ?case
    using Suc by (simp add: mapped_Suc upt_conv_Cons map_Suc_upt [symmetric] del: upt_Suc map_Suc_upt)
qed simp

lemma mstore_Some:
  "mapped m a (length bs) \<Longrightarrow>
   mstore m a bs = Some (\<lambda>x. if a \<le> x \<and> x < a + length bs then Some (bs ! (x - a)) else m x)"
proof (induction bs arbitrary: m a)
  case (Cons b bs)
  then have a: "m a \<noteq> None" and "mapped (m(a \<mapsto> b)) (Suc a) (length bs)"
    by (auto intro!: mapped_upd simp: mapped_Suc simp del: fun_upd_apply)
  from Cons.IH [OF this(2)] have "mstore m a (b # bs) =
      Some (\<lambda>x. if Suc a \<le> x \<and> x < Suc a + length bs then Some (bs ! (x - Suc a)) else (m(a \<mapsto> b)) x)"
    using a by (simp add: mwrite_Some fun_upd_def)
  then show ?case
    by (auto simp: fun_eq_iff nth_Cons' le_Suc_eq)
qed (auto simp: fun_eq_iff)

lemma copy_long_mcopy:
  assumes "mapped m d 8" "mapped m s 8"
  shows "copy_long m d s = Some (mcopy m d s 8)"
proof -
  have "m (s + (x - d)) \<noteq> None" if "d \<le> x" "x < d + 8" for x
    using assms(2) [unfolded mapped_def, rule_format, of "s + (x - d)"] that by linarith
  then show ?thesis
    using assms by (auto simp: copy_long_def mload_Some mstore_Some mcopy_def fun_eq_iff)
qed

lemma mcopy_mcopy:
  "d \<le> s \<or> s + (j + k) \<le> d \<Longrightarrow> mcopy (mcopy m d s j) (d + j) (s + j) k = mcopy m d s (j + k)"
  by (auto simp: mcopy_def fun_eq_iff)

lemma copy_long_next:
  assumes "mapped m d (j + 8)" "mapped m s (j + 8)" "d \<le> s \<or> s + (j + 8) \<le> d"
  shows "copy_long (mcopy m d s j) (d + j) (s + j) = Some (mcopy m d s (j + 8))"
  using assms mcopy_mcopy [of d s j 8 m]
  by (subst copy_long_mcopy) (auto intro!: mapped_mcopy elim: mapped_mono)

text \<open>The blocks copied so far are a multiple of the block size; the loops stop below it.\<close>

lemma copy_big_mcopy:
  assumes "mapped m d n" "mapped m s n" "d \<le> s \<or> s + n \<le> d" "j \<le> n"
  shows "\<exists>k\<ge>j. k \<le> n \<and> copy_big (mcopy m d s j) (d + j) (s + j) (n - j) = Some (mcopy m d s k, d + k, s + k, n - k)"
  using assms(4)
proof (induction "n - j" arbitrary: j rule: less_induct)
  case less
  show ?case
  proof (cases "32 \<le> n - j")
    case True
    have step: "copy_long (mcopy m d s i) (d + i) (s + i) = Some (mcopy m d s (i + 8))" if "i + 8 \<le> n" for i
      using assms that by (intro copy_long_next) (auto elim: mapped_mono)
    have "copy_big (mcopy m d s j) (d + j) (s + j) (n - j)
        = copy_big (mcopy m d s (j + 32)) (d + (j + 32)) (s + (j + 32)) (n - (j + 32))"
      using True step [of j] step [of "j + 8"] step [of "j + 16"] step [of "j + 24"]
      by (subst copy_big.simps) (simp add: add.assoc)
    moreover have "n - (j + 32) < n - j" "j + 32 \<le> n"
      using True by auto
    ultimately show ?thesis
      using less.hyps [of "j + 32"] by (metis add_leD1)
  next
    case False
    then show ?thesis
      using less.prems by (subst copy_big.simps) auto
  qed
qed

lemma copy_little_mcopy:
  assumes "mapped m d n" "mapped m s n" "d \<le> s \<or> s + n \<le> d" "j \<le> n"
  shows "\<exists>k\<ge>j. k \<le> n \<and> copy_little (mcopy m d s j) (d + j) (s + j) (n - j) = Some (mcopy m d s k, d + k, s + k, n - k)"
  using assms(4)
proof (induction "n - j" arbitrary: j rule: less_induct)
  case less
  show ?case
  proof (cases "8 \<le> n - j")
    case True
    then have "copy_long (mcopy m d s j) (d + j) (s + j) = Some (mcopy m d s (j + 8))"
      using assms by (intro copy_long_next) (auto elim: mapped_mono)
    then have "copy_little (mcopy m d s j) (d + j) (s + j) (n - j)
        = copy_little (mcopy m d s (j + 8)) (d + (j + 8)) (s + (j + 8)) (n - (j + 8))"
      using True by (subst copy_little.simps) (simp add: add.assoc)
    moreover have "n - (j + 8) < n - j" "j + 8 \<le> n"
      using True by auto
    ultimately show ?thesis
      using less.hyps [of "j + 8"] by (metis add_leD1)
  next
    case False
    then show ?thesis
      using less.prems by (subst copy_little.simps) auto
  qed
qed

lemma memcpy_mcopy:
  assumes "mapped m d n" "mapped m s n" "d \<le> s \<or> s + n \<le> d"
  shows "memcpy m d s n = Some (mcopy m d s n)"
proof (cases "\<not> n < 32 \<and> s mod 8 = 0 \<and> d mod 8 = 0")
  case True
  obtain j where j: "j \<le> n" "copy_big m d s n = Some (mcopy m d s j, d + j, s + j, n - j)"
    using copy_big_mcopy [OF assms, of 0] by auto
  obtain k where k: "k \<le> n" "copy_little (mcopy m d s j) (d + j) (s + j) (n - j) = Some (mcopy m d s k, d + k, s + k, n - k)"
    using copy_little_mcopy [OF assms j(1)] by auto
  have "copy_bytes (mcopy m d s k) (d + k) (s + k) (n - k) = Some (mcopy (mcopy m d s k) (d + k) (s + k) (n - k))"
    using assms k(1) by (intro copy_bytes_mcopy mapped_mcopy) (auto elim: mapped_mono)
  then show ?thesis
    using True j k mcopy_mcopy [of d s k "n - k" m] assms(3) by (simp add: memcpy_def)
next
  case False
  then show ?thesis
    using copy_bytes_mcopy [OF assms] by (auto simp: memcpy_def)
qed

lemma mfill_0 [simp]: "mfill m d v 0 = m"
  by (rule ext) (auto simp: mfill_def)

lemma set_bytes_mfill: "mapped m d n \<Longrightarrow> set_bytes m d v n = Some (mfill m d v n)"
proof (induction n arbitrary: m d)
  case 0
  show ?case by simp
next
  case (Suc n)
  then have "m d \<noteq> None" "set_bytes (m(d \<mapsto> v)) (Suc d) v n = Some (mfill (m(d \<mapsto> v)) (Suc d) v n)"
    by (auto simp: mapped_Suc intro!: Suc.IH mapped_upd)
  then show ?case
    by (auto simp: mwrite_Some mfill_def fun_eq_iff)
qed

lemma zero_words_mfill:
  assumes "mapped m d n" "j \<le> n"
  shows "\<exists>k\<ge>j. k \<le> n \<and> zero_words (mfill m d 0 j) (d + j) (n - j) = Some (mfill m d 0 k, d + k, n - k)"
  using assms(2)
proof (induction "n - j" arbitrary: j rule: less_induct)
  case less
  show ?case
  proof (cases "8 \<le> n - j")
    case True
    have "mapped (mfill m d 0 j) (d + j) (length (replicate 8 (0 :: u8)))"
      using assms(1) True by (intro mapped_mfill) (auto elim: mapped_mono)
    from mstore_Some [OF this] have "mstore (mfill m d 0 j) (d + j) (replicate 8 0) = Some (mfill m d 0 (j + 8))"
      by (auto simp: mfill_def fun_eq_iff)
    then have "zero_words (mfill m d 0 j) (d + j) (n - j) = zero_words (mfill m d 0 (j + 8)) (d + (j + 8)) (n - (j + 8))"
      using True by (subst zero_words.simps) (simp add: add.assoc)
    moreover have "n - (j + 8) < n - j" "j + 8 \<le> n"
      using True by auto
    ultimately show ?thesis
      using less.hyps [of "j + 8"] by (metis add_leD1)
  next
    case False
    then show ?thesis
      using less.prems by (subst zero_words.simps) auto
  qed
qed

lemma memzero_mfill: 
  assumes "mapped m d n"
  shows "memzero m d n = Some (mfill m d 0 n)"
proof -
  obtain k where k: "k \<le> n" "zero_words m d n = Some (mfill m d 0 k, d + k, n - k)"
    using zero_words_mfill [OF assms, of 0] by auto
  have "set_bytes (mfill m d 0 k) (d + k) 0 (n - k) = Some (mfill (mfill m d 0 k) (d + k) 0 (n - k))"
    using assms k(1) by (intro set_bytes_mfill mapped_mfill) (auto elim: mapped_mono)
  moreover have "mfill (mfill m d 0 k) (d + k) 0 (n - k) = mfill m d 0 n"
    using k(1) by (auto simp: mfill_def fun_eq_iff)
  ultimately show ?thesis
    using k by (simp add: memzero_def)
qed

lemma memset_mfill: "mapped m d n \<Longrightarrow> memset m d c n = Some (mfill m d (word_of_int c) n)"
  by (simp add: memset_def set_bytes_mfill)

section \<open>Strings\<close>

lemma cstr_nth:
  "cstr m p xs \<longleftrightarrow> (\<forall>i < length xs. m (p + i) = Some (xs ! i) \<and> xs ! i \<noteq> 0) \<and> m (p + length xs) = Some 0"
proof (induction xs arbitrary: p)
  case (Cons x xs)
  show ?case
    unfolding cstr.simps Cons.IH by (auto simp: All_less_Suc2)
qed simp

lemma cstr_no_zero: "cstr m p xs \<Longrightarrow> 0 \<notin> set xs"
  by (induction xs arbitrary: p) auto

lemma cstr_cong:
  "cstr m p xs \<Longrightarrow> (\<And>a. p \<le> a \<Longrightarrow> a \<le> p + length xs \<Longrightarrow> m' a = m a) \<Longrightarrow> cstr m' p xs"
  by (simp add: cstr_nth)

lemma cstr_drop: "cstr m p xs \<Longrightarrow> k \<le> length xs \<Longrightarrow> cstr m (p + k) (drop k xs)"
  by (simp add: cstr_nth add.assoc)

lemma cstr_cut: "cstr m p xs \<Longrightarrow> k \<le> length xs \<Longrightarrow> cstr (m(p + k \<mapsto> 0)) p (take k xs)"
  by (auto simp: cstr_nth)

lemma strlen_loop_cstr: "cstr m (p + k) xs \<Longrightarrow> strlen_loop m p k = Some (k + length xs)"
  by (induction xs arbitrary: k) (subst strlen_loop.simps, simp)+

lemma strlen_cstr: "cstr m p xs \<Longrightarrow> strlen m p = Some (length xs)"
  using strlen_loop_cstr [of m p 0 xs] by (simp add: strlen_def)

lemma dropWhile_as_drop: "dropWhile P xs = drop (length xs - length (dropWhile P xs)) xs"
  by (induction xs) (auto simp: Suc_diff_le length_dropWhile_le)

lemma strchr_cstr:
  "cstr m p ds \<Longrightarrow> \<exists>r. strchr m p (sint b) = Some r \<and> (r = None \<longleftrightarrow> b \<notin> set ds)"
proof (induction ds arbitrary: p)
  case Nil
  then show ?case by (subst strchr.simps) simp
next
  case (Cons d ds)
  have "sint d = sint b \<longleftrightarrow> d = b"
    by (auto intro: signed_word_eqI)
  with Cons show ?case by (subst strchr.simps) auto
qed

lemma strspn_loop_cstr:
  "cstr m (p + k) xs \<Longrightarrow> cstr m q ds \<Longrightarrow>
   strspn_loop m p q k = Some (k + length (takeWhile (\<lambda>c. c \<in> set ds) xs))"
proof (induction xs arbitrary: k)
  case Nil
  then show ?case by (subst strspn_loop.simps) simp
next
  case (Cons x xs)
  then show ?case
    using strchr_cstr [of m q ds x] by (subst strspn_loop.simps) auto
qed

lemma strspn_cstr:
  "cstr m p xs \<Longrightarrow> cstr m q ds \<Longrightarrow> strspn m p q = Some (length (takeWhile (\<lambda>c. c \<in> set ds) xs))"
  using strspn_loop_cstr [of m p 0 xs q ds] by (simp add: strspn_def)

lemma strpbrk_cstr:
  "cstr m p xs \<Longrightarrow> cstr m q ds \<Longrightarrow>
   strpbrk m p q = Some (let k = length (takeWhile (\<lambda>c. c \<notin> set ds) xs)
                         in if k < length xs then Some (p + k) else None)"
proof (induction xs arbitrary: p)
  case Nil
  then show ?case by (subst strpbrk.simps) simp
next
  case (Cons x xs)
  then show ?case
    using strchr_cstr [of m q ds x] by (subst strpbrk.simps) (auto simp: Let_def)
qed

text \<open>One call of \<^verbatim>\<open>strtok_r\<close> on a string.\<close>

lemma strtok_r_cstr:
  fixes xs ds :: "u8 list"
  defines "ys \<equiv> dropWhile (\<lambda>c. c \<in> set ds) xs"
  defines "t \<equiv> length xs - length ys"
  defines "k \<equiv> length (takeWhile (\<lambda>c. c \<notin> set ds) ys)"
  assumes "cstr m p xs" "cstr m q ds" and str: "(case str of None \<Rightarrow> save | Some a \<Rightarrow> Some a) = Some p"
  shows "strtok_r m str q save =
     Some (if ys = [] then (m, None, None)
           else if k < length ys then (m(p + t + k \<mapsto> 0), Some (p + t + k + 1), Some (p + t))
           else (m, None, Some (p + t)))"
proof -
  have len: "length xs = length (takeWhile (\<lambda>c. c \<in> set ds) xs) + length ys"
    unfolding ys_def by (metis length_append takeWhile_dropWhile_id)
  then have t: "t = length (takeWhile (\<lambda>c. c \<in> set ds) xs)"
    by (simp add: t_def)
  have ys: "ys = drop t xs"
    unfolding t_def ys_def by (rule dropWhile_as_drop)
  have sp: "strspn m p q = Some t"
    using strspn_cstr assms(4,5) by (simp add: t)
  have c: "cstr m (p + t) ys"
    using cstr_drop [OF assms(4), of t] len unfolding ys [symmetric] by (simp add: t)
  show ?thesis
  proof (cases ys)
    case Nil
    then show ?thesis
      using str sp c by (simp add: strtok_r_def)
  next
    case (Cons y zs)
    then have "m (p + t + k) \<noteq> None" if "k < length ys"
      using c that by (simp add: cstr_nth)
    then show ?thesis
      using str sp c Cons strpbrk_cstr [OF c assms(5)]
      by (auto simp: strtok_r_def Let_def k_def mwrite_Some)
  qed
qed

section \<open>Tokens\<close>

lemma tokens_dropWhile: "tokens D (dropWhile D xs) = tokens D xs"
  by (subst (1 2) tokens.simps) simp

lemma tokens_Nil: "dropWhile D xs = [] \<Longrightarrow> tokens D xs = []"
  by (subst tokens.simps) (simp del: dropWhile_eq_Nil_conv)

lemma tokens_Cons:
  assumes "dropWhile D xs = ys" "ys \<noteq> []"
  shows "tokens D xs = takeWhile (\<lambda>c. \<not> D c) ys # tokens D (drop (length (takeWhile (\<lambda>c. \<not> D c) ys) + 1) ys)"
proof -
  obtain z zs where z: "ys = z # zs" "\<not> D z"
    using assms hd_dropWhile [of D xs] by (cases ys) auto
  let ?zs = "dropWhile (\<lambda>c. \<not> D c) zs"
  have "drop (length (takeWhile (\<lambda>c. \<not> D c) zs)) zs = ?zs"
    by (simp add: dropWhile_eq_drop)
  then have "drop (Suc (length (takeWhile (\<lambda>c. \<not> D c) zs))) zs = tl ?zs"
    by (metis drop_Suc tl_drop)
  moreover have "tokens D (tl ?zs) = tokens D ?zs"
  proof (cases ?zs)
    case (Cons u us)
    then have "D u"
      using hd_dropWhile [of "\<lambda>c. \<not> D c" zs] by auto
    then show ?thesis
      using Cons tokens_dropWhile [of D ?zs] tokens_dropWhile [of D us] by simp
  qed (simp del: dropWhile_eq_Nil_conv)
  ultimately show ?thesis
    using assms z by (subst tokens.simps) simp
qed

text \<open>
  The whole loop.  The delimiters stand outside of the string, so that cutting the string does not
  change them.
\<close>

lemma strtok_all_cstr:
  assumes "cstr m p xs" "cstr m q ds" "q + length ds < p \<or> p + length xs < q"
    "(case str of None \<Rightarrow> save | Some a \<Rightarrow> Some a) = Some p"
  shows "\<exists>m' ts. strtok_all m str q save = Some (m', ts) \<and>
     list_all2 (cstr m') ts (tokens (\<lambda>c. c \<in> set ds) xs) \<and>
     (\<forall>a. a < p \<or> p + length xs < a \<longrightarrow> m' a = m a)"
  using assms
proof (induction "length xs" arbitrary: m p xs str save rule: less_induct)
  case less
  let ?D = "\<lambda>c. c \<in> set ds"
  define ys where "ys = dropWhile ?D xs"
  define t where "t = length xs - length ys"
  define k where "k = length (takeWhile (\<lambda>c. c \<notin> set ds) ys)"
  note step = strtok_r_cstr [OF less.prems(1,2,4), folded ys_def, folded t_def k_def]
  have ly: "length ys \<le> length xs" and ys: "ys = drop t xs"
    unfolding t_def ys_def by (simp add: length_dropWhile_le) (rule dropWhile_as_drop)
  have c: "cstr m (p + t) ys"
    using cstr_drop [OF less.prems(1), of t] unfolding ys [symmetric] by (simp add: t_def)
  consider "ys = []" | "ys \<noteq> []" "\<not> k < length ys" | "ys \<noteq> []" "k < length ys" by blast
  then show ?case
  proof cases
    case 1
    then show ?thesis
      using step by (subst strtok_all.simps) (auto simp: tokens_Nil ys_def)
  next
    case 2
    moreover have "takeWhile (\<lambda>c. c \<notin> set ds) ys = ys" and "drop (k + 1) ys = []"
      using 2(2) by (metis k_def not_le takeWhile_eq_take take_all, simp)
    moreover have "strtok_all m None q None = Some (m, [])"
      by (subst strtok_all.simps) (simp add: strtok_r_def)
    ultimately show ?thesis
      using step c tokens_Cons [OF ys_def [symmetric], folded k_def]
      by (subst strtok_all.simps) (auto simp: tokens_Nil simp del: takeWhile_eq_all_conv)
  next
    case 3
    let ?m = "m(p + t + k \<mapsto> 0)" and ?zs = "drop (k + 1) ys"
    have in_range: "p + t + k < p + length xs" and lz: "length ?zs < length xs"
      using 3 ly by (auto simp: t_def)
    have dis: "q + length ds < p + t + k + 1 \<or> p + t + k + 1 + length ?zs < q"
      using less.prems(3) in_range ly 3 by (auto simp: t_def)
    have q: "cstr ?m q ds"
      using less.prems(2,3) in_range by (intro cstr_cong [OF less.prems(2)]) auto
    have z: "cstr ?m (p + t + k + 1) ?zs"
      by (rule cstr_cong [of m]) (use cstr_drop [OF c, of "k + 1"] 3 in \<open>auto simp: add.assoc\<close>)
    obtain m' ts where rest: "strtok_all ?m None q (Some (p + t + k + 1)) = Some (m', ts)"
      "list_all2 (cstr m') ts (tokens ?D ?zs)"
      "\<forall>a. a < p + t + k + 1 \<or> p + t + k + 1 + length ?zs < a \<longrightarrow> m' a = ?m a"
      using less.hyps [OF lz z q, where str = None and save = "Some (p + t + k + 1)"] less.prems(3) dis by auto
    have "cstr m' (p + t) (take k ys)"
      by (rule cstr_cong [of ?m]) (use cstr_cut [OF c, of k] 3 rest(3) in auto)
    moreover have "take k ys = takeWhile (\<lambda>c. c \<notin> set ds) ys"
      unfolding k_def by (rule takeWhile_eq_take [symmetric])
    moreover have "\<forall>a. a < p \<or> p + length xs < a \<longrightarrow> m' a = m a"
      using rest(3) in_range ly 3 by (auto simp: t_def)
    ultimately show ?thesis
      using step 3 rest(1,2) tokens_Cons [OF ys_def [symmetric] 3(1), folded k_def]
      by (subst strtok_all.simps) auto
  qed
qed

section \<open>Properties\<close>

text \<open>
  C19: \<^verbatim>\<open>memmove\<close> moves a block of mapped memory correctly for every overlap of source and
  destination: afterwards the destination holds what the source held before the call, and no other
  byte has changed.
\<close>

theorem memmove_correct:
  assumes "mapped m dst n" "mapped m src n"
  shows "\<exists>m'. memmove m dst src n = Some m' \<and> (\<forall>i < n. m' (dst + i) = m (src + i)) \<and>
     (\<forall>a. a < dst \<or> dst + n \<le> a \<longrightarrow> m' a = m a)"
proof -
  have "memmove m dst src n = Some (mcopy m dst src n)"
    using copy_back_mcopy [OF assms] copy_bytes_mcopy [OF assms] by (auto simp: memmove_def not_less)
  then show ?thesis
    by (auto simp: mcopy_def)
qed

definition line_of :: "u8 list \<Rightarrow> memory" where
  "line_of xs = (\<lambda>a. if a < length xs then Some (xs ! a) else None)"

lemma line_of_mapped: "a + n \<le> length xs \<Longrightarrow> mapped (line_of xs) a n"
  by (auto simp: mapped_def line_of_def)

theorem memmove_correct_witness:
  "\<exists>m'. memmove (line_of [10, 11, 12, 13, 14]) 1 0 4 = Some m' \<and>
     m' 1 = Some 10 \<and> m' 2 = Some 11 \<and> m' 3 = Some 12 \<and> m' 4 = Some 13 \<and> m' 0 = Some 10"
proof -
  have "mapped (line_of [10, 11, 12, 13, 14]) 1 4" "mapped (line_of [10, 11, 12, 13, 14]) 0 4"
    by (simp_all add: line_of_mapped)
  from memmove_correct [OF this]
  obtain m' where "memmove (line_of [10, 11, 12, 13, 14]) 1 0 4 = Some m'"
    and "\<forall>i < 4. m' (1 + i) = line_of [10, 11, 12, 13, 14] i" "m' 0 = line_of [10, 11, 12, 13, 14] 0"
    by auto
  then show ?thesis
    by (simp add: line_of_def All_less_Suc2 numeral_eq_Suc)
qed

text \<open>
  C26: The word-wise \<^verbatim>\<open>memcpy\<close> is equivalent to the byte-wise copy for every alignment and every
  length, when the blocks are mapped and do not overlap; it agrees with \<^verbatim>\<open>memmove\<close>.
\<close>

theorem memcpy_equivalent:
  assumes "mapped m dst n" "mapped m src n" "src + n \<le> dst \<or> dst + n \<le> src"
  shows "memcpy m dst src n = copy_bytes m dst src n \<and> memcpy m dst src n = memmove m dst src n \<and>
     memcpy m dst src n \<noteq> None"
proof -
  have "dst \<le> src \<or> src + n \<le> dst"
    using assms(3) by auto
  then show ?thesis
    using memcpy_mcopy [OF assms(1,2)] copy_bytes_mcopy [OF assms(1,2)] assms(3) by (auto simp: memmove_def)
qed

theorem memcpy_equivalent_witness:
  "memcpy (line_of (replicate 128 7)) 64 8 43 = copy_bytes (line_of (replicate 128 7)) 64 8 43 \<and>
   memcpy (line_of (replicate 128 7)) 64 8 43 \<noteq> None"
proof -
  have "mapped (line_of (replicate 128 7)) 64 43" "mapped (line_of (replicate 128 7)) 8 43"
    by (simp_all add: line_of_mapped)
  moreover have "(8 :: nat) + 43 \<le> 64 \<or> (64 :: nat) + 43 \<le> 8"
    by simp
  ultimately show ?thesis
    using memcpy_equivalent by blast
qed

text \<open>
  C28: Splitting a string with \<^verbatim>\<open>strtok_r\<close> terminates and yields exactly its tokens: the calls
  return, in order, the addresses of strings that are the maximal parts without delimiters, and
  write only inside of the string.
\<close>

theorem strtok_r_tokens:
  assumes "cstr m p xs" "cstr m delim ds" "delim + length ds < p \<or> p + length xs < delim"
  shows "\<exists>m' ts. strtok_all m (Some p) delim saveptr = Some (m', ts) \<and>
     list_all2 (cstr m') ts (tokens (\<lambda>c. c \<in> set ds) xs) \<and>
     (\<forall>a. a < p \<or> p + length xs < a \<longrightarrow> m' a = m a)"
  using strtok_all_cstr [OF assms] by simp

theorem strtok_r_tokens_witness:
  "\<exists>m' t u. strtok_all (line_of [32, 0, 32, 97, 98, 32, 32, 99, 0]) (Some 2) 0 None = Some (m', [t, u]) \<and>
     cstr m' t [97, 98] \<and> cstr m' u [99]"
proof -
  have "tokens (\<lambda>c. c \<in> set [32]) [32, 97, 98, 32, 32, 99] = [[97, 98], [99 :: u8]]"
    by (simp add: tokens.simps)
  then show ?thesis
    using strtok_r_tokens [of "line_of [32, 0, 32, 97, 98, 32, 32, 99, 0]" 2 "[32, 97, 98, 32, 32, 99]" 0 "[32]" None]
    by (auto simp: line_of_def list_all2_Cons2)
qed

end
