(* ===== verification/Stdlib.thy ===== *)
theory Stdlib
  imports Strings
begin

text \<open>
  The number and string helpers of \<^verbatim>\<open>libs/stdlib/mos_stdlib.c\<close>, on the memory of
  \<^verbatim>\<open>Strings\<close>.  Signed integers are integers; a signed operation whose result does not fit its type
  is undefined in C and is \<^const>\<open>None\<close> here.
\<close>

section \<open>Definitions\<close>

definition s32_chk :: "int \<Rightarrow> int option" where
  "s32_chk x = (if - (2 ^ 31) \<le> x \<and> x < 2 ^ 31 then Some x else None)"

definition s64_chk :: "int \<Rightarrow> int option" where
  "s64_chk x = (if - (2 ^ 63) \<le> x \<and> x < 2 ^ 63 then Some x else None)"

definition isspace :: "int \<Rightarrow> bool" where
  "isspace c \<longleftrightarrow> (c > 8 \<and> c < 14) \<or> c = 32"

definition c_abs :: "int \<Rightarrow> int option" where
  "c_abs x = (if x < 0 then s32_chk (- x) else Some x)"

definition labs :: "int \<Rightarrow> int option" where
  "labs x = (if x < 0 then s64_chk (- x) else Some x)"

definition llabs :: "int \<Rightarrow> int option" where
  "llabs x = (if x < 0 then s64_chk (- x) else Some x)"

partial_function (option) atoi_spaces :: "memory \<Rightarrow> nat \<Rightarrow> nat option" where
  "atoi_spaces m nptr = do {
     c \<leftarrow> m nptr;
     if isspace (sint c) then atoi_spaces m (Suc nptr) else Some nptr }"

partial_function (option) atoi_digits :: "memory \<Rightarrow> nat \<Rightarrow> int \<Rightarrow> int option" where
  "atoi_digits m nptr val = do {
     c \<leftarrow> m nptr;
     if sint c \<ge> 48 \<and> sint c \<le> 57 then do {
       v \<leftarrow> s32_chk (val * 10);
       v \<leftarrow> s32_chk (v + (sint c - 48));
       atoi_digits m (Suc nptr) v }
     else Some val }"

definition atoi :: "memory \<Rightarrow> nat \<Rightarrow> int option" where
  "atoi m nptr = do {
     nptr \<leftarrow> atoi_spaces m nptr;
     c \<leftarrow> m nptr;
     let neg = (c = 45);
     let nptr = (if c = 45 \<or> c = 43 then nptr + 1 else nptr);
     val \<leftarrow> atoi_digits m nptr 0;
     if neg then s32_chk (- val) else Some val }"

text \<open>The digit or letter \<^verbatim>\<open>c\<close> as a number; the base does not restrict the digits.\<close>

definition digit_value :: "u8 \<Rightarrow> int option" where
  "digit_value c =
     (if c \<ge> 48 \<and> c \<le> 57 then Some (uint c - 48)
      else if c \<ge> 97 \<and> c \<le> 122 then Some (uint c - 97 + 10)
      else if c \<ge> 65 \<and> c \<le> 90 then Some (uint c - 65 + 10)
      else None)"

text \<open>The loop of \<^verbatim>\<open>strntoll\<close>, which returns the number and the address where it stopped.\<close>

function strntoll_loop :: "memory \<Rightarrow> int \<Rightarrow> nat \<Rightarrow> nat \<Rightarrow> nat \<Rightarrow> int \<Rightarrow> (int \<times> nat) option" where
  "strntoll_loop m base n i str result =
     (if i < n then do {
        c \<leftarrow> m str;
        if c = 0 then Some (result, str)
        else case digit_value c of
               None \<Rightarrow> Some (result, str)
             | Some d \<Rightarrow> do {
                 r \<leftarrow> s64_chk (result * base);
                 r \<leftarrow> s64_chk (r + d);
                 strntoll_loop m base n (Suc i) (Suc str) r } }
      else Some (result, str))"
  by pat_completeness auto
termination
  by (relation "measure (\<lambda>(_, _, n, i, _). n - i)") auto

text \<open>The result and the address stored to \<^verbatim>\<open>*endptr\<close>.\<close>

definition strntoll :: "memory \<Rightarrow> nat \<Rightarrow> int \<Rightarrow> nat \<Rightarrow> (int \<times> nat) option" where
  "strntoll m str base n = do {
     c \<leftarrow> m str;
     let negative = (c = 45);
     let (str, i) = (if c = 45 \<or> c = 43 then (str + 1, 1) else (str, 0));
     (result, endptr) \<leftarrow> strntoll_loop m base n i str 0;
     r \<leftarrow> (if negative then s64_chk (- result) else Some result);
     Some (r, endptr) }"

definition strtoll :: "memory \<Rightarrow> nat \<Rightarrow> int \<Rightarrow> (int \<times> nat) option" where
  "strtoll m str base = do { n \<leftarrow> strlen m str; strntoll m str base n }"

definition strtoul :: "memory \<Rightarrow> nat \<Rightarrow> int \<Rightarrow> (u64 \<times> nat) option" where
  "strtoul m nptr base = do { (r, e) \<leftarrow> strtoll m nptr base; Some (word_of_int r, e) }"

partial_function (option) skip_blanks :: "memory \<Rightarrow> nat \<Rightarrow> nat option" where
  "skip_blanks m p = do { c \<leftarrow> m p; if c = 32 then skip_blanks m (Suc p) else Some p }"

text \<open>The loop \<^verbatim>\<open>while (end > in && *end == ' ') end--\<close>.\<close>

fun trim_end :: "memory \<Rightarrow> nat \<Rightarrow> nat \<Rightarrow> nat option" where
  "trim_end m start 0 = Some 0"
| "trim_end m start (Suc e) =
     (if Suc e > start then do { c \<leftarrow> m (Suc e); if c = 32 then trim_end m start e else Some (Suc e) }
      else Some (Suc e))"

definition string_trim :: "memory \<Rightarrow> nat option \<Rightarrow> (memory \<times> nat option) option" where
  "string_trim m p =
     (case p of
        None \<Rightarrow> Some (m, None)
      | Some p \<Rightarrow> do {
          p \<leftarrow> skip_blanks m p;
          c \<leftarrow> m p;
          if c = 0 then Some (m, Some p)
          else do {
            n \<leftarrow> strlen m p;
            e \<leftarrow> trim_end m p (p + n - 1);
            m \<leftarrow> mwrite m (e + 1) 0;
            Some (m, Some p) } })"

declare atoi_spaces.simps [code] atoi_digits.simps [code] skip_blanks.simps [code]

declare strntoll_loop.simps [simp del]

section \<open>Reading numbers\<close>

text \<open>The number that a list of digits denotes, the most significant digit first.\<close>

fun digits_value :: "nat \<Rightarrow> nat \<Rightarrow> nat list \<Rightarrow> nat" where
  "digits_value b acc [] = acc"
| "digits_value b acc (d # ds) = digits_value b (acc * b + d) ds"

text \<open>The character of a digit, in lower case.\<close>

definition digit_char :: "nat \<Rightarrow> u8" where
  "digit_char d = (if d < 10 then of_nat (48 + d) else of_nat (97 + (d - 10)))"

lemma digits_value_ge: "b > 0 \<Longrightarrow> acc \<le> digits_value b acc ds"
proof (induction ds arbitrary: acc)
  case (Cons d ds)
  have "acc \<le> acc * b + d"
    using Cons.prems by (simp add: trans_le_add1)
  then show ?case
    using Cons.IH [OF Cons.prems, of "acc * b + d"] by simp
qed simp

lemma uint_of_nat_u8: "k < 256 \<Longrightarrow> uint (of_nat k :: u8) = int k"
  by (simp add: unsigned_of_nat take_bit_nat_eq_self)

lemma digit_char_uint: "d < 36 \<Longrightarrow> uint (digit_char d) = (if d < 10 then 48 + int d else 87 + int d)"
  unfolding digit_char_def using uint_of_nat_u8 [of "48 + d"] uint_of_nat_u8 [of "97 + (d - 10)"]
  by (auto simp: of_nat_diff)

lemma digit_char_value: "d < 36 \<Longrightarrow> digit_value (digit_char d) = Some (int d) \<and> digit_char d \<noteq> 0"
  using digit_char_uint [of d]
  by (auto simp: digit_value_def word_le_def split: if_splits)

lemma s64_chk_Some: "s64_chk x = Some y \<longleftrightarrow> y = x \<and> - (2 ^ 63) \<le> x \<and> x < 2 ^ 63"
  by (auto simp: s64_chk_def)

lemma strntoll_loop_digits:
  assumes "cstr m p (map digit_char ds)" "\<forall>d \<in> set ds. d < 36" "b > 0"
    "digits_value b acc ds < 2 ^ 63" "n = i + length ds"
  shows "strntoll_loop m (int b) n i p (int acc) = Some (int (digits_value b acc ds), p + length ds)"
  using assms
proof (induction ds arbitrary: p acc i)
  case Nil
  then show ?case by (subst strntoll_loop.simps) simp
next
  case (Cons d ds)
  let ?acc = "acc * b + d"
  have "?acc < 2 ^ 63"
    using Cons.prems(4) digits_value_ge [OF Cons.prems(3), of ?acc ds] by simp
  moreover have "acc * b \<le> ?acc"
    by simp
  ultimately have "s64_chk (int acc * int b) = Some (int (acc * b))" "s64_chk (int (acc * b) + int d) = Some (int ?acc)"
    by (auto simp: s64_chk_def simp flip: of_nat_mult of_nat_add)
  moreover have "strntoll_loop m (int b) n (Suc i) (Suc p) (int ?acc)
      = Some (int (digits_value b ?acc ds), Suc p + length ds)"
    using Cons.prems by (intro Cons.IH) auto
  ultimately show ?case
    using Cons.prems digit_char_value [of d] by (subst strntoll_loop.simps) simp
qed

text \<open>A string of digits with an optional minus sign reads back as the number.\<close>

lemma strtoll_digits:
  assumes "cstr m p ((if neg then [45] else []) @ map digit_char ds)" "\<forall>d \<in> set ds. d < 36" "b > 0"
    "digits_value b 0 ds < 2 ^ 63" "ds \<noteq> []"
  shows "strtoll m p (int b) = Some ((if neg then - int (digits_value b 0 ds) else int (digits_value b 0 ds)),
           p + length ds + (if neg then 1 else 0))"
proof -
  obtain d where d: "ds = d # tl ds" "d < 36"
    using assms(2,5) by (cases ds) auto
  have ne: "digit_char d \<noteq> 45" "digit_char d \<noteq> 43"
    using digit_char_uint [OF d(2)] by (auto split: if_splits)
  have len: "strlen m p = Some (length ds + (if neg then 1 else 0))"
    using strlen_cstr [OF assms(1)] by simp
  show ?thesis
  proof (cases neg)
    case True
    then have "strntoll_loop m (int b) (length ds + 1) 1 (Suc p) (int 0) = Some (int (digits_value b 0 ds), Suc p + length ds)"
      using assms by (intro strntoll_loop_digits) auto
    then show ?thesis
      using True assms(1,4) len by (simp add: strtoll_def strntoll_def s64_chk_def)
  next
    case False
    then have "strntoll_loop m (int b) (length ds) 0 p (int 0) = Some (int (digits_value b 0 ds), p + length ds)"
      using assms by (intro strntoll_loop_digits) auto
    moreover have "m p = Some (digit_char d)"
      using assms(1) False by (subst (asm) d(1)) simp
    ultimately show ?thesis
      using False ne len by (simp add: strtoll_def strntoll_def)
  qed
qed

end
