(* ===== verification/Printf.thy ===== *)
theory Printf
  imports Stdlib
begin

text \<open>
  The formatted printing of \<^verbatim>\<open>libs/stdlib/mos_stdio_impl.c\<close> and \<^verbatim>\<open>mos_stdio.c\<close>, with the kernel's
  \<^verbatim>\<open>%p\<close> extension of \<^verbatim>\<open>stdio_kernel_ext.c\<close>.

  The output buffer is an object of its own: its bytes, the position of the pointer \<^verbatim>\<open>buf\<close> in it
  and the \<^verbatim>\<open>size_left\<close>; a write outside of the object is \<^const>\<open>None\<close>.  A format string is the list
  of its characters without the terminator, so that the character at its end is 0.  A \<^verbatim>\<open>va_list\<close>
  is the list of its 64-bit argument slots; fetching an argument that was not passed is \<^const>\<open>None\<close>.
  Warnings are not modelled.
\<close>

section \<open>Definitions\<close>

subsection \<open>The output buffer\<close>

record outbuf =
  o_buf :: "u8 list"
  o_pos :: nat
  o_left :: nat

definition buf_putchar :: "outbuf \<Rightarrow> u8 \<Rightarrow> outbuf option" where
  "buf_putchar o' c =
     (if o_left o' > 0 then do {
        b \<leftarrow> arr_set (o_buf o') (o_pos o') c;
        Some (o'\<lparr>o_buf := b, o_left := o_left o' - 1\<rparr>) }
      else Some o')"

text \<open>\<^verbatim>\<open>wrap_printed(buf_putchar(...))\<close>: the pointer advances also when nothing was written.\<close>

definition wrap_putchar :: "outbuf \<Rightarrow> u8 \<Rightarrow> outbuf option" where
  "wrap_putchar o' c = do { p \<leftarrow> buf_putchar o' c; Some (p\<lparr>o_pos := o_pos p + 1\<rparr>) }"

text \<open>The loops that print one character after the other.\<close>

fun put_all :: "outbuf \<Rightarrow> u8 list \<Rightarrow> outbuf option" where
  "put_all o' [] = Some o'"
| "put_all o' (c # cs) = do { p \<leftarrow> wrap_putchar o' c; put_all p cs }"

text \<open>\<^verbatim>\<open>while (n-- > 0)\<close> with the character \<open>c\<close>.\<close>

definition put_repeat :: "outbuf \<Rightarrow> int \<Rightarrow> u8 \<Rightarrow> outbuf option" where
  "put_repeat o' n c = put_all o' (replicate (nat n) c)"

subsection \<open>Flags\<close>

datatype length_modifier = LM_none | LM_hh | LM_h | LM_l | LM_ll | LM_L | LM_j | LM_z | LM_t

record printf_flags =
  left_aligned :: bool
  show_sign :: bool
  space_if_positive :: bool
  pad_with_zero :: bool
  hash :: bool
  minimum_width :: int
  has_explicit_precision :: bool
  precision :: int
  length_mod :: length_modifier

definition no_flags :: printf_flags where
  "no_flags = \<lparr>left_aligned = False, show_sign = False, space_if_positive = False, pad_with_zero = False,
     hash = False, minimum_width = 0, has_explicit_precision = False, precision = 0, length_mod = LM_none\<rparr>"

definition current :: "u8 list \<Rightarrow> u8" where
  "current format = (case format of [] \<Rightarrow> 0 | c # _ \<Rightarrow> c)"

type_synonym va_list = "u64 list"

definition va_s32 :: "va_list \<Rightarrow> (int \<times> va_list) option" where
  "va_s32 args = (case args of [] \<Rightarrow> None | a # as \<Rightarrow> Some (sint (ucast a :: 32 word), as))"

definition va_u64 :: "va_list \<Rightarrow> (u64 \<times> va_list) option" where
  "va_u64 args = (case args of [] \<Rightarrow> None | a # as \<Rightarrow> Some (a, as))"

fun parse_flag_chars :: "u8 list \<Rightarrow> printf_flags \<Rightarrow> u8 list \<times> printf_flags" where
  "parse_flag_chars [] pflags = ([], pflags)"
| "parse_flag_chars (c # cs) pflags =
     (if c = 45 then parse_flag_chars cs (pflags\<lparr>left_aligned := True\<rparr>)
      else if c = 43 then parse_flag_chars cs (pflags\<lparr>show_sign := True\<rparr>)
      else if c = 32 then parse_flag_chars cs (pflags\<lparr>space_if_positive := True\<rparr>)
      else if c = 35 then parse_flag_chars cs (pflags\<lparr>hash := True\<rparr>)
      else if c = 48 then parse_flag_chars cs (pflags\<lparr>pad_with_zero := True\<rparr>)
      else (c # cs, pflags))"

text \<open>The loops over decimal digits; the sum is a signed 32-bit number.\<close>

fun parse_number :: "u8 list \<Rightarrow> int \<Rightarrow> (u8 list \<times> int) option" where
  "parse_number [] n = Some ([], n)"
| "parse_number (c # cs) n =
     (if 48 \<le> c \<and> c \<le> 57 then do {
        k \<leftarrow> s32_chk (n * 10);
        k \<leftarrow> s32_chk (k + (uint c - 48));
        parse_number cs k }
      else Some (c # cs, n))"

definition parse_width :: "u8 list \<Rightarrow> printf_flags \<Rightarrow> va_list \<Rightarrow> (u8 list \<times> printf_flags \<times> va_list) option" where
  "parse_width format pflags args =
     (if current format = 42 then do {
        (w, args) \<leftarrow> va_s32 args;
        if w < 0 then do {
          v \<leftarrow> s32_chk (- w);
          Some (tl format, pflags\<lparr>left_aligned := True, minimum_width := v\<rparr>, args) }
        else Some (tl format, pflags\<lparr>minimum_width := w\<rparr>, args) }
      else do {
        (format, w) \<leftarrow> parse_number format 0;
        Some (format, pflags\<lparr>minimum_width := w\<rparr>, args) })"

definition parse_precision :: "u8 list \<Rightarrow> printf_flags \<Rightarrow> va_list \<Rightarrow> (u8 list \<times> printf_flags \<times> va_list) option" where
  "parse_precision format pflags args = (
     let pflags = pflags\<lparr>precision := 0\<rparr>
     in if current format = 46 then do {
          let pflags = pflags\<lparr>has_explicit_precision := True\<rparr>;
          let format = tl format;
          if current format = 42 then do {
            (p, args) \<leftarrow> va_s32 args;
            if p < 0 then Some (tl format, pflags\<lparr>precision := 0, has_explicit_precision := False\<rparr>, args)
            else Some (tl format, pflags\<lparr>precision := p\<rparr>, args) }
          else do {
            (format, p) \<leftarrow> parse_number format 0;
            Some (format, pflags\<lparr>precision := p\<rparr>, args) } }
        else Some (format, pflags, args))"

definition parse_length :: "u8 list \<Rightarrow> printf_flags \<Rightarrow> u8 list \<times> printf_flags" where
  "parse_length format pflags =
     (if current format = 104 then
        (if current (tl format) = 104 then (tl (tl format), pflags\<lparr>length_mod := LM_hh\<rparr>)
         else (tl format, pflags\<lparr>length_mod := LM_h\<rparr>))
      else if current format = 108 then
        (if current (tl format) = 108 then (tl (tl format), pflags\<lparr>length_mod := LM_ll\<rparr>)
         else (tl format, pflags\<lparr>length_mod := LM_ll\<rparr>))
      else if current format = 76 then (tl format, pflags\<lparr>length_mod := LM_L\<rparr>)
      else if current format = 106 then (tl format, pflags\<lparr>length_mod := LM_j\<rparr>)
      else if current format = 122 then (tl format, pflags\<lparr>length_mod := LM_z\<rparr>)
      else if current format = 116 then (tl format, pflags\<lparr>length_mod := LM_t\<rparr>)
      else (format, pflags))"

text \<open>The number of characters that were read, the flags and the remaining arguments.\<close>

definition parse_printf_flags :: "u8 list \<Rightarrow> printf_flags \<Rightarrow> va_list \<Rightarrow> (nat \<times> printf_flags \<times> va_list) option" where
  "parse_printf_flags start pflags args = do {
     let (format, pflags) = parse_flag_chars start pflags;
     (format, pflags, args) \<leftarrow> parse_width format pflags args;
     (format, pflags, args) \<leftarrow> parse_precision format pflags args;
     let (format, pflags) = parse_length format pflags;
     let pflags = (if left_aligned pflags \<and> pad_with_zero pflags then pflags\<lparr>pad_with_zero := False\<rparr> else pflags);
     let pflags = (if show_sign pflags \<and> space_if_positive pflags
                   then pflags\<lparr>space_if_positive := False\<rparr> else pflags);
     Some (length start - length format, pflags, args) }"

subsection \<open>Numbers\<close>

definition lower_hex_digits :: "u8 list" where
  "lower_hex_digits = [48, 49, 50, 51, 52, 53, 54, 55, 56, 57, 97, 98, 99, 100, 101, 102]"

definition upper_hex_digits :: "u8 list" where
  "upper_hex_digits = [48, 49, 50, 51, 52, 53, 54, 55, 56, 57, 65, 66, 67, 68, 69, 70]"

datatype base = BASE_8 | BASE_10 | BASE_16

fun base_value :: "base \<Rightarrow> nat" where
  "base_value BASE_8 = 8"
| "base_value BASE_10 = 10"
| "base_value BASE_16 = 16"

text \<open>The conversions, by their characters \<^verbatim>\<open>d i o u x X\<close>.\<close>

datatype int_conv = CONV_d | CONV_i | CONV_o | CONV_u | CONV_x | CONV_X

definition is_unsigned_ouxX :: "int_conv \<Rightarrow> bool" where
  "is_unsigned_ouxX conv \<longleftrightarrow> conv \<in> {CONV_o, CONV_u, CONV_x, CONV_X}"

definition conv_base :: "int_conv \<Rightarrow> base" where
  "conv_base conv =
     (if is_unsigned_ouxX conv
      then (if conv = CONV_o then BASE_8 else if conv = CONV_u then BASE_10 else BASE_16) else BASE_10)"

text \<open>The adjustments of the flags before anything is printed.\<close>

definition adjust_flags :: "printf_flags \<Rightarrow> int_conv \<Rightarrow> printf_flags" where
  "adjust_flags f conv = (
     let f = (if conv \<in> {CONV_d, CONV_i, CONV_u} \<and> hash f then f\<lparr>hash := False\<rparr> else f);
         f = (if is_unsigned_ouxX conv then f\<lparr>show_sign := False, space_if_positive := False\<rparr> else f);
         f = (if has_explicit_precision f \<and> pad_with_zero f then f\<lparr>pad_with_zero := False\<rparr> else f)
     in if \<not> has_explicit_precision f then f\<lparr>precision := 1\<rparr> else f)"

definition cut_number :: "length_modifier \<Rightarrow> u64 \<Rightarrow> u64 option" where
  "cut_number len number =
     (case len of
        LM_hh \<Rightarrow> Some (ucast (ucast number :: u8))
      | LM_h \<Rightarrow> Some (ucast (ucast number :: u16))
      | LM_none \<Rightarrow> Some (ucast (ucast number :: u32))
      | LM_l \<Rightarrow> Some (ucast (ucast number :: u32))
      | LM_ll \<Rightarrow> Some number
      | LM_z \<Rightarrow> Some number
      | LM_t \<Rightarrow> Some number
      | LM_L \<Rightarrow> Some number
      | LM_j \<Rightarrow> None)"

text \<open>
  The prefix and the number that is printed after it; negating the smallest 64-bit number is
  undefined.
\<close>

definition num_prefix :: "printf_flags \<Rightarrow> int_conv \<Rightarrow> u64 \<Rightarrow> (u8 list \<times> u64) option" where
  "num_prefix f conv number =
     (if \<not> is_unsigned_ouxX conv then
        (if sint number < 0 then do { n \<leftarrow> s64_chk (- sint number); Some ([45], word_of_int n) }
         else if show_sign f then Some ([43], number)
         else if space_if_positive f then Some ([32], number)
         else Some ([], number))
      else if conv_base conv = BASE_16 \<and> hash f then
        Some (if number \<noteq> 0 then [48, if conv = CONV_X then 88 else 120] else [], number)
      else Some ([], number))"

text \<open>The digits go to \<^verbatim>\<open>num_content_buf\<close>, the least significant one first.\<close>

definition digit_of :: "int_conv \<Rightarrow> nat \<Rightarrow> u8 option" where
  "digit_of conv d =
     (case conv_base conv of
        BASE_16 \<Rightarrow> arr_get (if conv = CONV_X then upper_hex_digits else lower_hex_digits) d
      | _ \<Rightarrow> Some (48 + of_nat d))"

function put_digits :: "outbuf \<Rightarrow> int_conv \<Rightarrow> nat \<Rightarrow> outbuf option" where
  "put_digits p conv number =
     (if number > 0 then do {
        c \<leftarrow> digit_of conv (number mod base_value (conv_base conv));
        p \<leftarrow> wrap_putchar p c;
        put_digits p conv (number div base_value (conv_base conv)) }
      else Some p)"
  by pat_completeness auto
termination
  by (relation "measure (\<lambda>(_, _, n). n)") (simp_all add: conv_base_def)

definition num_content :: "printf_flags \<Rightarrow> int_conv \<Rightarrow> u64 \<Rightarrow> u8 list option" where
  "num_content f conv number = (
     let num_content_buf = replicate 32 0
     in if number = 0 then
          (if precision f \<noteq> 0 then arr_set num_content_buf 0 48 else Some num_content_buf)
        else do {
          p \<leftarrow> put_digits \<lparr>o_buf = num_content_buf, o_pos = 0, o_left = 32\<rparr> conv (unat number);
          Some (o_buf p) })"

text \<open>\<^verbatim>\<open>strlen\<close> of an array, which must hold a terminator.\<close>

definition arr_strlen :: "u8 list \<Rightarrow> nat option" where
  "arr_strlen b = (if 0 \<in> set b then Some (length (takeWhile (\<lambda>c. c \<noteq> 0) b)) else None)"

text \<open>\<^verbatim>\<open>width_to_pad\<close> is computed with unsigned 64-bit numbers and cut to a signed 32-bit one.\<close>

definition width_to_pad :: "printf_flags \<Rightarrow> nat \<Rightarrow> int \<Rightarrow> nat \<Rightarrow> int" where
  "width_to_pad f prefix_len precision_padding n_digits =
     (let w = word_of_int (minimum_width f) - of_nat prefix_len - word_of_int precision_padding - of_nat n_digits :: u64
      in sint (ucast (max w 0) :: 32 word))"

definition printf_diouxX :: "outbuf \<Rightarrow> u64 \<Rightarrow> printf_flags \<Rightarrow> int_conv \<Rightarrow> outbuf option" where
  "printf_diouxX p number f conv = do {
     mos_assert (precision f \<ge> 0);
     mos_assert (minimum_width f \<ge> 0);
     number \<leftarrow> (if is_unsigned_ouxX conv then cut_number (length_mod f) number else Some number);
     let f = adjust_flags f conv;
     (prefix, number) \<leftarrow> num_prefix f conv number;
     content \<leftarrow> num_content f conv number;
     n_digits \<leftarrow> arr_strlen content;
     let prefix = (if conv_base conv = BASE_8 \<and> hash f \<and> precision f - int n_digits \<le> 0 \<and> content ! 0 \<noteq> 48
                   then [48] else prefix);
     let precision_padding = max (precision f - int n_digits) 0;
     let width = width_to_pad f (length prefix) precision_padding n_digits;
     let digits = rev (take n_digits content);
     if left_aligned f then do {
       p \<leftarrow> put_all p prefix;
       p \<leftarrow> put_repeat p precision_padding 48;
       p \<leftarrow> put_all p digits;
       put_repeat p width 32 }
     else do {
       p \<leftarrow> (if pad_with_zero f then do { p \<leftarrow> put_all p prefix; put_repeat p width 48 }
            else do { p \<leftarrow> put_repeat p width 32; put_all p prefix });
       p \<leftarrow> put_repeat p precision_padding 48;
       put_all p digits } }"

subsection \<open>Strings and characters\<close>

text \<open>
  \<^verbatim>\<open>printf_cs\<close>: the data is the string for \<^verbatim>\<open>%s\<close> and the one character for \<^verbatim>\<open>%c\<close>; its length
  is kept in a signed 32-bit number.
\<close>

definition printf_cs :: "outbuf \<Rightarrow> u8 list \<Rightarrow> printf_flags \<Rightarrow> bool \<Rightarrow> outbuf option" where
  "printf_cs p data f is_c = do {
     mos_assert (precision f \<ge> 0);
     mos_assert (minimum_width f \<ge> 0);
     let f = (if is_c \<and> has_explicit_precision f then f\<lparr>has_explicit_precision := False, precision := 0\<rparr> else f);
     let printed_len = (if is_c then 1 else sint (of_nat (length data) :: 32 word));
     let printed_len = (if has_explicit_precision f then min printed_len (precision f) else printed_len);
     width \<leftarrow> s32_chk (minimum_width f - printed_len);
     let width = max width 0;
     let data = take (nat printed_len) data;
     if left_aligned f then do { p \<leftarrow> put_all p data; put_repeat p width 32 }
     else do { p \<leftarrow> put_repeat p width 32; put_all p data } }"

text \<open>The characters of a string argument; \<^verbatim>\<open>NULL\<close> prints as \<^verbatim>\<open>(null)\<close>.\<close>

definition string_arg :: "memory \<Rightarrow> u64 \<Rightarrow> u8 list option" where
  "string_arg m s =
     (if s = 0 then Some [40, 110, 117, 108, 108, 41]
      else do { n \<leftarrow> strlen m (unat s); mload m (unat s) n })"

subsection \<open>The format loop\<close>

text \<open>
  The kernel's hook for \<^verbatim>\<open>%p\<close>: from the buffer, the format at the \<^verbatim>\<open>p\<close> and the pointer it gives the
  buffer, how many characters of the format it consumed, and how many it printed.
\<close>

type_synonym ptr_hook = "outbuf \<Rightarrow> u8 list \<Rightarrow> u64 \<Rightarrow> (outbuf \<times> nat \<times> nat) option"

text \<open>The build for user space has no hook.\<close>

definition no_hook :: ptr_hook where
  "no_hook p format ptr = Some (p, 0, 0)"

definition int_conv_of :: "u8 \<Rightarrow> int_conv option" where
  "int_conv_of c =
     (if c = 100 then Some CONV_d else if c = 105 then Some CONV_i else if c = 111 then Some CONV_o
      else if c = 117 then Some CONV_u else if c = 120 then Some CONV_x else if c = 88 then Some CONV_X else None)"

definition int_arg :: "length_modifier \<Rightarrow> va_list \<Rightarrow> (u64 \<times> va_list) option" where
  "int_arg len args =
     (case len of
        LM_hh \<Rightarrow> do { (a, args) \<leftarrow> va_s32 args; Some (scast (word_of_int a :: 8 word), args) }
      | LM_h \<Rightarrow> do { (a, args) \<leftarrow> va_s32 args; Some (scast (word_of_int a :: 16 word), args) }
      | LM_none \<Rightarrow> do { (a, args) \<leftarrow> va_s32 args; Some (word_of_int a, args) }
      | LM_l \<Rightarrow> do { (a, args) \<leftarrow> va_s32 args; Some (word_of_int a, args) }
      | LM_ll \<Rightarrow> va_u64 args
      | LM_z \<Rightarrow> va_u64 args
      | LM_t \<Rightarrow> va_u64 args
      | LM_L \<Rightarrow> va_u64 args
      | LM_j \<Rightarrow> None)"

text \<open>The number printed by a conversion is an \<^verbatim>\<open>int\<close>.\<close>

definition printed_int :: "outbuf \<Rightarrow> outbuf \<Rightarrow> outbuf option" where
  "printed_int p p' = (if o_pos p' - o_pos p < 2 ^ 31 then Some p' else None)"

text \<open>
  The \<^verbatim>\<open>switch\<close> of \<^verbatim>\<open>vsnprintf\<close>, at the conversion character that heads \<open>format\<close>: the buffer, the
  characters consumed after it, and the arguments left.  The floating point conversions, \<^verbatim>\<open>%a\<close> and
  \<^verbatim>\<open>%n\<close> end in a panic.
\<close>

definition print_conversion ::
  "ptr_hook \<Rightarrow> memory \<Rightarrow> printf_flags \<Rightarrow> u8 list \<Rightarrow> va_list \<Rightarrow> outbuf \<Rightarrow> (outbuf \<times> nat \<times> va_list) option" where
  "print_conversion hook m flags format args p = (
     let c = current format
     in case int_conv_of c of
          Some conv \<Rightarrow> do {
            (value, args) \<leftarrow> int_arg (length_mod flags) args;
            p' \<leftarrow> printf_diouxX p value flags conv;
            p' \<leftarrow> printed_int p p';
            Some (p', 0, args) }
        | None \<Rightarrow>
            if c \<in> {102, 70, 101, 69, 103, 71, 97, 65, 110} then None
            else if c = 115 then do {
              (s, args) \<leftarrow> va_u64 args;
              data \<leftarrow> string_arg m s;
              p' \<leftarrow> printf_cs p data flags False;
              p' \<leftarrow> printed_int p p';
              Some (p', 0, args) }
            else if c = 99 then do {
              (v, args) \<leftarrow> va_s32 args;
              p' \<leftarrow> printf_cs p [word_of_int v] flags True;
              p' \<leftarrow> printed_int p p';
              Some (p', 0, args) }
            else if c = 112 then do {
              (value, args) \<leftarrow> va_u64 args;
              (p, k, s) \<leftarrow> hook p format value;
              if s \<noteq> 0 then Some (p, k, args)
              else do {
                p \<leftarrow> wrap_putchar p 48;
                p \<leftarrow> wrap_putchar p 120;
                p' \<leftarrow> printf_diouxX p value (flags\<lparr>length_mod := LM_ll\<rparr>) CONV_x;
                p' \<leftarrow> printed_int p p';
                Some (p', k, args) } }
            else if c = 37 then do { p \<leftarrow> wrap_putchar p 37; Some (p, 0, args) }
            else do {
              p \<leftarrow> wrap_putchar p 37;
              p \<leftarrow> wrap_putchar p c;
              Some (p, 0, args) })"

function vsnprintf_loop :: "ptr_hook \<Rightarrow> memory \<Rightarrow> u8 list \<Rightarrow> va_list \<Rightarrow> outbuf \<Rightarrow> outbuf option" where
  "vsnprintf_loop hook m [] args p = Some p"
| "vsnprintf_loop hook m (c # format) args p =
     (if c \<noteq> 37 then do { p \<leftarrow> wrap_putchar p c; vsnprintf_loop hook m format args p }
      else do {
        (n, flags, args) \<leftarrow> parse_printf_flags format no_flags args;
        let format = drop n format;
        if format = [] then Some p
        else do {
          (p, k, args) \<leftarrow> print_conversion hook m flags format args p;
          vsnprintf_loop hook m (drop (k + 1) format) args p } })"
  by pat_completeness auto
termination
  by (relation "measure (\<lambda>(_, _, format, _). length format)") auto

text \<open>
  \<^verbatim>\<open>vsnprintf(buf, size, ...)\<close> at the position of the buffer \<open>p\<close>, with \<open>o_left p\<close> as the size: the
  bytes of the buffer and the number returned.
\<close>

definition vsnprintf :: "ptr_hook \<Rightarrow> memory \<Rightarrow> outbuf \<Rightarrow> u8 list \<Rightarrow> va_list \<Rightarrow> (u8 list \<times> nat) option" where
  "vsnprintf hook m p format args =
     (if o_left p = 0 then Some (o_buf p, 0)
      else do {
        p' \<leftarrow> vsnprintf_loop hook m format args p;
        let ret = o_pos p' - o_pos p;
        p' \<leftarrow> buf_putchar p' 0;
        Some (o_buf p', ret) })"

definition snprintf :: "ptr_hook \<Rightarrow> memory \<Rightarrow> u8 list \<Rightarrow> nat \<Rightarrow> u8 list \<Rightarrow> va_list \<Rightarrow> (u8 list \<times> nat) option" where
  "snprintf hook m buf size' format args =
     vsnprintf hook m \<lparr>o_buf = buf, o_pos = 0, o_left = size'\<rparr> format args"

definition sprintf :: "ptr_hook \<Rightarrow> memory \<Rightarrow> u8 list \<Rightarrow> u8 list \<Rightarrow> va_list \<Rightarrow> (u8 list \<times> nat) option" where
  "sprintf hook m buf format args =
     vsnprintf hook m \<lparr>o_buf = buf, o_pos = 0, o_left = 2 ^ 31 - 1\<rparr> format args"

subsection \<open>Format sizes\<close>

definition ascii :: "string \<Rightarrow> u8 list" where
  "ascii s = map of_char s"

text \<open>\<^verbatim>\<open>format_size\<close> of \<^verbatim>\<open>mos_stdlib.c\<close>; \<open>units\<close> are the addresses of the unit names.\<close>

function size_unit :: "u64 \<Rightarrow> nat \<Rightarrow> u64 \<Rightarrow> u64 \<times> nat \<times> u64" where
  "size_unit sz i diff =
     (if sz \<ge> 1024 \<and> i < 8 then size_unit (sz div 1024) (i + 1) (sz mod 1024) else (sz, i, diff))"
  by pat_completeness auto
termination
  by (relation "measure (\<lambda>(_, i, _). 8 - i)") auto

definition format_size ::
  "ptr_hook \<Rightarrow> memory \<Rightarrow> u64 list \<Rightarrow> u8 list \<Rightarrow> nat \<Rightarrow> u64 \<Rightarrow> (u8 list \<times> nat) option" where
  "format_size hook m units buf buf_size sz = do {
     let (sz, i, diff) = size_unit sz 0 0;
     unit \<leftarrow> arr_get units i;
     if diff = 0 \<or> i = 0 then snprintf hook m buf buf_size (ascii ''%llu %s'') [sz, unit]
     else do {
       prev \<leftarrow> arr_get units (i - 1);
       snprintf hook m buf buf_size (ascii ''%llu %s + %zu %s'') [sz, unit, diff, prev] } }"

subsection \<open>The kernel's pointer extension\<close>

text \<open>
  What the extension reads of the kernel: the symbol table (a generated file), threads and processes
  by their addresses (number and address of the name), and virtual memory areas.
\<close>

record kvmap =
  kv_vaddr :: u64
  kv_npages :: u64
  kv_flags :: u32
  kv_on_fault :: u64
  kv_io :: "(u64 \<times> u64) option"

record kobjects =
  ko_symbols :: "(u64 \<times> u64) list"
  ko_thread :: "u64 \<Rightarrow> (u32 \<times> u64) option"
  ko_process :: "u64 \<Rightarrow> (u32 \<times> u64) option"
  ko_flags :: "u64 \<Rightarrow> u32 option"
  ko_vmap :: "u64 \<Rightarrow> kvmap option"

text \<open>\<^verbatim>\<open>kallsyms_get_symbol\<close> of \<^verbatim>\<open>kernel/kallsyms.c\<close>, over the sorted table.\<close>

fun kallsyms_scan :: "(u64 \<times> u64) option \<Rightarrow> (u64 \<times> u64) list \<Rightarrow> u64 \<Rightarrow> (u64 \<times> u64) option" where
  "kallsyms_scan result [] addr = result"
| "kallsyms_scan result (ks # kss) addr = (if fst ks > addr then result else kallsyms_scan (Some ks) kss addr)"

definition kallsyms_get_symbol :: "(u64 \<times> u64) list \<Rightarrow> u64 \<Rightarrow> (u64 \<times> u64) option" where
  "kallsyms_get_symbol table addr = kallsyms_scan None table addr"

text \<open>
  \<^verbatim>\<open>wrap_print(...)\<close>: the text goes to the current position with \<^verbatim>\<open>*size\<close> as its size, and the
  pointer advances; \<^verbatim>\<open>*size\<close> itself stays as it is.
\<close>

definition wrap_print :: "ptr_hook \<Rightarrow> memory \<Rightarrow> outbuf \<Rightarrow> u8 list \<Rightarrow> va_list \<Rightarrow> outbuf option" where
  "wrap_print hook m p format args = do {
     (b, ret) \<leftarrow> vsnprintf hook m p format args;
     Some (p\<lparr>o_buf := b, o_pos := o_pos p + ret\<rparr>) }"

definition print_vmflags :: "memory \<Rightarrow> outbuf \<Rightarrow> u32 \<Rightarrow> outbuf option" where
  "print_vmflags m p flags =
     wrap_print no_hook m p (ascii ''%c%c%c'')
       [if bit flags 0 then 114 else 45, if bit flags 1 then 119 else 45, if bit flags 2 then 120 else 45]"

text \<open>The result of the hook: characters of the format consumed, and characters printed.\<close>

definition hook_done :: "outbuf \<Rightarrow> nat \<Rightarrow> outbuf \<Rightarrow> (outbuf \<times> nat \<times> nat) option" where
  "hook_done p k p' = Some (p', k, o_pos p' - o_pos p)"

definition print_symbol :: "kobjects \<Rightarrow> memory \<Rightarrow> outbuf \<Rightarrow> u64 \<Rightarrow> (outbuf \<times> nat \<times> nat) option" where
  "print_symbol ko m p ptr =
     (case kallsyms_get_symbol (ko_symbols ko) ptr of
        None \<Rightarrow> do { p' \<leftarrow> wrap_print no_hook m p (ascii ''(unknown)'') []; hook_done p 1 p' }
      | Some (address, name) \<Rightarrow> do {
          let off = ptr - address;
          p' \<leftarrow> (if off \<noteq> 0 then wrap_print no_hook m p (ascii ''%s (+0x%zx)'') [name, off]
                 else wrap_print no_hook m p (ascii ''%s'') [name]);
          hook_done p 1 p' })"

text \<open>The hook as the nested calls see it: their formats use \<^verbatim>\<open>%ps\<close> only.\<close>

definition symbol_hook :: "kobjects \<Rightarrow> memory \<Rightarrow> ptr_hook" where
  "symbol_hook ko m p format ptr = (if current (tl format) = 115 then print_symbol ko m p ptr else no_hook p format ptr)"

definition print_task ::
  "memory \<Rightarrow> outbuf \<Rightarrow> u8 list \<Rightarrow> u64 \<Rightarrow> u64 \<Rightarrow> (u32 \<times> u64) option \<Rightarrow> (outbuf \<times> nat \<times> nat) option" where
  "print_task m p format no_name ptr task =
     (if ptr = 0 then do { p' \<leftarrow> wrap_print no_hook m p (ascii ''(null)'') []; hook_done p 1 p' }
      else do {
        (tid, name) \<leftarrow> task;
        p' \<leftarrow> wrap_print no_hook m p format [ucast tid, if name \<noteq> 0 then name else no_name];
        hook_done p 1 p' })"

definition print_vmap :: "kobjects \<Rightarrow> memory \<Rightarrow> outbuf \<Rightarrow> u64 \<Rightarrow> (outbuf \<times> nat \<times> nat) option" where
  "print_vmap ko m p ptr =
     (if ptr = 0 then do { p' \<leftarrow> wrap_print no_hook m p (ascii ''(null)'') []; hook_done p 2 p' }
      else do {
        v \<leftarrow> ko_vmap ko ptr;
        q \<leftarrow> wrap_print no_hook m p (ascii ''{ [0x%lx - 0x%lx], '') [kv_vaddr v, kv_vaddr v + kv_npages v * 4096 - 1];
        q \<leftarrow> print_vmflags m q (kv_flags v);
        q \<leftarrow> wrap_print (symbol_hook ko m) m q (ascii '', fault: %ps'') [kv_on_fault v];
        q \<leftarrow> (case kv_io v of
               None \<Rightarrow> Some q
             | Some (filepath, offset) \<Rightarrow>
                 wrap_print no_hook m q (ascii '', io: '' @ [39] @ ascii ''%s'' @ [39] @ ascii '', offset: 0x%zx'') [filepath, offset]);
        q \<leftarrow> wrap_print no_hook m q (ascii '' }'') [];
        hook_done p 2 q })"

text \<open>
  \<^verbatim>\<open>vsnprintf_do_pointer_kernel\<close>; \<open>no_name\<close> is the address of the text for a task without a name.
  The format stands at the \<^verbatim>\<open>p\<close>; an unknown character after \<^verbatim>\<open>pv\<close> leaves the \<^verbatim>\<open>v\<close> consumed.
\<close>

definition vsnprintf_do_pointer_kernel :: "kobjects \<Rightarrow> u64 \<Rightarrow> memory \<Rightarrow> ptr_hook" where
  "vsnprintf_do_pointer_kernel ko no_name m p format ptr =
     (if current format \<noteq> 112 then Some (p, 0, 0)
      else if current (tl format) = 115 then print_symbol ko m p ptr
      else if current (tl format) = 116 then print_task m p (ascii ''[t%d:%s]'') no_name ptr (ko_thread ko ptr)
      else if current (tl format) = 112 then print_task m p (ascii ''[p%d:%s]'') no_name ptr (ko_process ko ptr)
      else if current (tl format) = 118 then
        (if current (tl (tl format)) = 102 then do {
           flags \<leftarrow> ko_flags ko ptr;
           p' \<leftarrow> print_vmflags m p flags;
           hook_done p 2 p' }
         else if current (tl (tl format)) = 109 then print_vmap ko m p ptr
         else Some (p, 1, 0))
      else Some (p, 0, 0))"

declare put_digits.simps [simp del] size_unit.simps [simp del]

section \<open>What is printed does not depend on the buffer\<close>

text \<open>\<open>prints F t\<close>: the operation \<open>F\<close> on a buffer prints the text \<open>t\<close>, or fails for every buffer.\<close>

definition prints :: "(outbuf \<Rightarrow> outbuf option) \<Rightarrow> u8 list option \<Rightarrow> bool" where
  "prints F t \<longleftrightarrow> (\<forall>p. F p = do { x \<leftarrow> t; put_all p x })"

named_theorems prints_intros \<open>the texts of the printing operations\<close>

lemma put_all_append: "put_all p (xs @ ys) = do { q \<leftarrow> put_all p xs; put_all q ys }"
  by (induction xs arbitrary: p) (auto split: bind_splits)

lemma put_all_pos: "put_all p xs = Some q \<Longrightarrow> o_pos q = o_pos p + length xs"
  by (induction xs arbitrary: p)
    (auto simp: wrap_putchar_def buf_putchar_def split: bind_splits if_splits)


lemma prints_put_repeat [prints_intros]: "prints (\<lambda>p. put_repeat p n c) (Some (replicate (nat n) c))"
  by (simp add: prints_def put_repeat_def)


lemma prints_fail [prints_intros]: "prints (\<lambda>p. None) None"
  by (simp add: prints_def)

lemma prints_Some [prints_intros]: "prints Some (Some [])"
  by (simp add: prints_def)


lemma prints_if [prints_intros]:
  "prints F t \<Longrightarrow> prints G u \<Longrightarrow> prints (\<lambda>p. if b then F p else G p) (if b then t else u)"
  by simp

text \<open>A pure computation before the printing.\<close>

lemma prints_bind:
  assumes "\<And>a. r = Some a \<Longrightarrow> \<exists>t. prints (F a) t"
  shows "\<exists>t. prints (\<lambda>p. do { a \<leftarrow> r; F a p }) t"
  using assms by (cases r) (auto intro: prints_fail)

lemma prints_printed_int:
  assumes "prints F t"
  shows "prints (\<lambda>p. do { q \<leftarrow> F p; printed_int p q })
           (do { xs \<leftarrow> t; if length xs < 2 ^ 31 then Some xs else None })"
  using assms by (auto simp: prints_def printed_int_def put_all_pos split: bind_splits)

text \<open>The text of an integer conversion, once the digits are known.\<close>

definition layout :: "printf_flags \<Rightarrow> u8 list \<Rightarrow> int \<Rightarrow> int \<Rightarrow> u8 list \<Rightarrow> u8 list" where
  "layout f prefix zeros width digits =
     (if left_aligned f then prefix @ replicate (nat zeros) 48 @ digits @ replicate (nat width) 32
      else (if pad_with_zero f then prefix @ replicate (nat width) 48 else replicate (nat width) 32 @ prefix) @
           replicate (nat zeros) 48 @ digits)"

definition diouxX_text :: "u64 \<Rightarrow> printf_flags \<Rightarrow> int_conv \<Rightarrow> u8 list option" where
  "diouxX_text number f conv = do {
     mos_assert (precision f \<ge> 0);
     mos_assert (minimum_width f \<ge> 0);
     number \<leftarrow> (if is_unsigned_ouxX conv then cut_number (length_mod f) number else Some number);
     (prefix, number) \<leftarrow> num_prefix (adjust_flags f conv) conv number;
     content \<leftarrow> num_content (adjust_flags f conv) conv number;
     n \<leftarrow> arr_strlen content;
     let f = adjust_flags f conv;
     let prefix = (if conv_base conv = BASE_8 \<and> hash f \<and> precision f - int n \<le> 0 \<and> content ! 0 \<noteq> 48
                   then [48] else prefix);
     let zeros = max (precision f - int n) 0;
     Some (layout f prefix zeros (width_to_pad f (length prefix) zeros n) (rev (take n content))) }"

lemma prints_diouxX: "prints (\<lambda>p. printf_diouxX p number f conv) (diouxX_text number f conv)"
  unfolding prints_def printf_diouxX_def diouxX_text_def Let_def layout_def put_repeat_def
  by (auto simp: put_all_append split: bind_splits)

definition cs_text :: "u8 list \<Rightarrow> printf_flags \<Rightarrow> bool \<Rightarrow> u8 list option" where
  "cs_text data f is_c = do {
     mos_assert (precision f \<ge> 0);
     mos_assert (minimum_width f \<ge> 0);
     let f = (if is_c \<and> has_explicit_precision f then f\<lparr>has_explicit_precision := False, precision := 0\<rparr> else f);
     let n = (if is_c then 1 else sint (of_nat (length data) :: 32 word));
     let n = (if has_explicit_precision f then min n (precision f) else n);
     width \<leftarrow> s32_chk (minimum_width f - n);
     let blanks = replicate (nat (max width 0)) 32;
     Some (if left_aligned f then take (nat n) data @ blanks else blanks @ take (nat n) data) }"

lemma prints_cs: "prints (\<lambda>p. printf_cs p data f is_c) (cs_text data f is_c)"
  unfolding prints_def printf_cs_def cs_text_def Let_def put_repeat_def
  by (auto simp: put_all_append split: bind_splits)








section \<open>Formats without pointer extensions\<close>


















section \<open>Writing into a buffer of a given size\<close>

text \<open>The bytes that fit are written, the terminator only if it fits too.\<close>

definition written :: "u8 list \<Rightarrow> nat \<Rightarrow> nat \<Rightarrow> u8 list \<Rightarrow> u8 list" where
  "written buf pos n text = take pos buf @ take n text @ drop (pos + min n (length text)) buf"

lemma put_all_full: "o_left p = 0 \<Longrightarrow> put_all p xs = Some (p\<lparr>o_pos := o_pos p + length xs\<rparr>)"
  by (induction xs arbitrary: p) (simp_all add: wrap_putchar_def buf_putchar_def)

lemma put_all_fits:
  assumes "o_pos p + o_left p \<le> length (o_buf p)"
  shows "put_all p xs = Some \<lparr>o_buf = written (o_buf p) (o_pos p) (o_left p) xs, o_pos = o_pos p + length xs,
           o_left = o_left p - length xs\<rparr>"
  using assms
proof (induction xs arbitrary: p)
  case Nil
  then show ?case by (simp add: written_def)
next
  case (Cons x xs)
  show ?case
  proof (cases "o_left p = 0")
    case True
    then show ?thesis
      using put_all_full [OF True, of "x # xs"] by (simp add: written_def)
  next
    case False
    let ?q = "\<lparr>o_buf = (o_buf p)[o_pos p := x], o_pos = o_pos p + 1, o_left = o_left p - 1\<rparr>"
    have "wrap_putchar p x = Some ?q"
      using False Cons.prems by (simp add: wrap_putchar_def buf_putchar_def arr_set_def)
    moreover have "written ((o_buf p)[o_pos p := x]) (o_pos p + 1) (o_left p - 1) xs
        = written (o_buf p) (o_pos p) (o_left p) (x # xs)"
      using False Cons.prems by (cases "o_left p") (auto simp: written_def take_Suc_conv_app_nth drop_update_cancel)
    ultimately show ?thesis
      using Cons.IH [of ?q] Cons.prems False by simp
  qed
qed

lemma vsnprintf_fits:
  assumes "prints (vsnprintf_loop hook m format args) t" "o_pos p + o_left p \<le> length (o_buf p)" "o_left p > 0"
  shows "vsnprintf hook m p format args =
    (case t of None \<Rightarrow> None
     | Some out \<Rightarrow> Some (written (o_buf p) (o_pos p) (o_left p) (out @ [0]), length out))"
proof (cases t)
  case None
  then show ?thesis
    using assms by (simp add: vsnprintf_def prints_def)
next
  case (Some out)
  let ?q = "\<lparr>o_buf = written (o_buf p) (o_pos p) (o_left p) out, o_pos = o_pos p + length out,
      o_left = o_left p - length out\<rparr>"
  have q: "put_all p out = Some ?q"
    by (rule put_all_fits [OF assms(2)])
  have "put_all p (out @ [0]) = Some \<lparr>o_buf = written (o_buf p) (o_pos p) (o_left p) (out @ [0]),
      o_pos = o_pos p + length (out @ [0]), o_left = o_left p - length (out @ [0])\<rparr>"
    by (rule put_all_fits [OF assms(2)])
  then obtain r where r: "buf_putchar ?q 0 = Some r"
    "r\<lparr>o_pos := Suc (o_pos r)\<rparr> = \<lparr>o_buf = written (o_buf p) (o_pos p) (o_left p) (out @ [0]),
      o_pos = Suc (o_pos p + length out), o_left = o_left p - Suc (length out)\<rparr>"
    using q by (auto simp: put_all_append wrap_putchar_def split: bind_splits)
  have "o_buf r = written (o_buf p) (o_pos p) (o_left p) (out @ [0])"
    using arg_cong [OF r(2), of o_buf] by simp
  then show ?thesis
    using assms q Some r(1) by (simp add: vsnprintf_def prints_def)
qed

section \<open>Numbers\<close>

text \<open>The digits of a number, the least significant one first.\<close>

fun rev_digits :: "nat \<Rightarrow> nat \<Rightarrow> nat list" where
  "rev_digits b n = (if n = 0 \<or> b < 2 then [] else n mod b # rev_digits b (n div b))"

declare rev_digits.simps [simp del]

lemma rev_digits_0 [simp]: "rev_digits b 0 = []"
  by (simp add: rev_digits.simps)

lemma rev_digits_less: "b > 1 \<Longrightarrow> d \<in> set (rev_digits b n) \<Longrightarrow> d < b"
  by (induction b n rule: rev_digits.induct) (subst (asm) (2) rev_digits.simps, auto split: if_splits)

lemma digits_value_append: "digits_value b a (xs @ [x]) = digits_value b a xs * b + x"
  by (induction xs arbitrary: a) auto

lemma rev_digits_value: "b > 1 \<Longrightarrow> digits_value b 0 (rev (rev_digits b n)) = n"
  by (induction b n rule: rev_digits.induct) (subst rev_digits.simps, auto simp: digits_value_append)

lemma rev_digits_Nil: "b > 1 \<Longrightarrow> rev_digits b n = [] \<longleftrightarrow> n = 0"
  by (subst rev_digits.simps) auto

lemma rev_digits_length: "b > 1 \<Longrightarrow> n < b ^ k \<Longrightarrow> length (rev_digits b n) \<le> k"
proof (induction k arbitrary: n)
  case 0
  then show ?case by simp
next
  case (Suc k)
  have "n div b < b ^ k"
    using Suc.prems by (simp add: less_mult_imp_div_less mult.commute)
  then show ?case
    using Suc by (subst rev_digits.simps) auto
qed

text \<open>Upper and lower case digits read as the same number.\<close>

definition conv_char :: "int_conv \<Rightarrow> nat \<Rightarrow> u8" where
  "conv_char conv d = (if conv = CONV_X \<and> 10 \<le> d then of_nat (65 + (d - 10)) else digit_char d)"

lemma digit_of_char: "d < base_value (conv_base conv) \<Longrightarrow> digit_of conv d = Some (conv_char conv d)"
proof -
  assume d: "d < base_value (conv_base conv)"
  have "\<forall>i < 16. lower_hex_digits ! i = digit_char i"
    by (simp add: lower_hex_digits_def digit_char_def All_less_Suc2 numeral_eq_Suc)
  moreover have "\<forall>i < 16. upper_hex_digits ! i = conv_char CONV_X i"
    by (simp add: upper_hex_digits_def conv_char_def digit_char_def All_less_Suc2 numeral_eq_Suc)
  ultimately show ?thesis
    using d by (cases conv)
     (auto simp: digit_of_def conv_base_def is_unsigned_ouxX_def conv_char_def digit_char_def arr_get_def
        lower_hex_digits_def upper_hex_digits_def)
qed

lemma put_digits_put_all:
  "put_digits p conv n = put_all p (map (conv_char conv) (rev_digits (base_value (conv_base conv)) n))"
proof (induction n arbitrary: p rule: less_induct)
  case (less n)
  let ?b = "base_value (conv_base conv)"
  have b: "?b > 1"
    by (cases "conv_base conv") auto
  show ?case
  proof (cases "n = 0")
    case True
    then show ?thesis by (simp add: put_digits.simps)
  next
    case False
    then have "n div ?b < n" "n mod ?b < ?b"
      using b by auto
    then show ?thesis
      using False b less.IH [of "n div ?b"] digit_of_char [of "n mod ?b" conv]
      by (subst put_digits.simps, subst rev_digits.simps) (auto split: bind_splits)
  qed
qed

lemma conv_char_value:
  "d < 36 \<Longrightarrow> digit_value (conv_char conv d) = Some (int d) \<and> conv_char conv d \<noteq> 0"
proof (cases "conv = CONV_X \<and> 10 \<le> d")
  case True
  assume "d < 36"
  then have "uint (conv_char conv d) = 55 + int d"
    using True uint_of_nat_u8 [of "65 + (d - 10)"] by (simp add: conv_char_def of_nat_diff)
  then show ?thesis
    using True \<open>d < 36\<close> by (auto simp: digit_value_def word_le_def)
next
  case False
  assume "d < 36"
  then show ?thesis
    using False digit_char_value [of d] by (auto simp: conv_char_def)
qed

lemma base_16: "base_value (conv_base conv) > 1" "base_value (conv_base conv) \<le> 16" "base_value (conv_base conv) \<ge> 8"
  by (cases "conv_base conv"; simp)+

text \<open>A 64-bit number has at most 22 digits, so that \<^verbatim>\<open>num_content_buf\<close> keeps a terminator.\<close>

lemma rev_digits_22: "length (rev_digits (base_value (conv_base conv)) (unat (n :: u64))) \<le> 22"
proof (rule rev_digits_length [OF base_16(1)])
  have "unat n < 2 ^ 64"
    using unat_less_2p [of n] by simp
  also have "(2 ^ 64 :: nat) \<le> 8 ^ 22"
    by simp
  also have "(8 ^ 22 :: nat) \<le> base_value (conv_base conv) ^ 22"
    by (rule power_mono) (simp_all add: base_16(3))
  finally show "unat n < base_value (conv_base conv) ^ 22" .
qed

lemma num_content_digits:
  fixes n :: u64 and conv :: int_conv
  defines "ds \<equiv> map (conv_char conv) (rev_digits (base_value (conv_base conv)) (unat n))"
  assumes "n \<noteq> 0"
  shows "num_content f conv n = Some (ds @ replicate (32 - length ds) 0)"
    "arr_strlen (ds @ replicate (32 - length ds) 0) = Some (length ds)"
    "\<forall>c \<in> set ds. c \<noteq> 0" "ds \<noteq> []" "length ds \<le> 22"
proof -
  show len: "length ds \<le> 22"
    by (simp add: ds_def rev_digits_22)
  then show "num_content f conv n = Some (ds @ replicate (32 - length ds) 0)"
    using assms(2) by (simp add: num_content_def Let_def put_digits_put_all put_all_fits written_def flip: ds_def)
  have "d < 36" if "d \<in> set (rev_digits (base_value (conv_base conv)) (unat n))" for d
    using rev_digits_less [OF base_16(1) that] base_16(2) [of conv] by linarith
  then show nz: "\<forall>c \<in> set ds. c \<noteq> 0"
    using conv_char_value by (auto simp: ds_def)
  then show "arr_strlen (ds @ replicate (32 - length ds) 0) = Some (length ds)"
    using len by (simp add: arr_strlen_def takeWhile_append2 takeWhile_replicate)
  show "ds \<noteq> []"
    using assms(2) rev_digits_Nil [OF base_16(1)] by (simp add: ds_def unat_eq_zero)
qed

lemma sint_cut_32:
  assumes "- (2 ^ 31) \<le> k" "k < 2 ^ 31"
  shows "sint (ucast (word_of_int k :: u64) :: 32 word) = k"
proof -
  have "(ucast (word_of_int k :: u64) :: 32 word) = word_of_int k"
    by transfer (simp add: take_bit_take_bit)
  then show ?thesis
    using assms by (simp add: signed_of_int signed_take_bit_int_eq_self)
qed

lemma width_to_pad_eq:
  assumes "- (2 ^ 31) \<le> minimum_width f - int pl - z - int n" "minimum_width f - int pl - z - int n < 2 ^ 31"
  shows "width_to_pad f pl z n = minimum_width f - int pl - z - int n"
proof -
  have "word_of_int (minimum_width f) - of_nat pl - word_of_int z - of_nat n
      = (word_of_int (minimum_width f - int pl - z - int n) :: u64)"
    by (simp add: of_int_diff)
  then show ?thesis
    using sint_cut_32 [OF assms] by (simp add: width_to_pad_def)
qed

text \<open>The text of the plain conversions of 64-bit numbers.\<close>

lemma plain_number_text:
  assumes "f = no_flags\<lparr>length_mod := LM_ll\<rparr>" "num_prefix (adjust_flags f conv) conv x = Some (prefix, n)"
    "length prefix \<le> 2"
  shows "diouxX_text x f conv = Some (prefix @ (if n = 0 then [48]
           else rev (map (conv_char conv) (rev_digits (base_value (conv_base conv)) (unat n)))))"
proof -
  let ?g = "adjust_flags f conv"
  have g: "precision ?g = 1" "\<not> left_aligned ?g" "\<not> pad_with_zero ?g" "\<not> hash ?g" "minimum_width ?g = 0"
    and f: "precision f = 0" "minimum_width f = 0" "length_mod f = LM_ll"
    using assms(1) by (simp_all add: adjust_flags_def no_flags_def Let_def)
  show ?thesis
  proof (cases "n = 0")
    case True
    have "arr_strlen (48 # replicate 31 0) = Some 1"
      by (simp add: arr_strlen_def)
    moreover have "num_content ?g conv 0 = Some (48 # replicate 31 0)"
      using g by (simp add: num_content_def arr_set_def numeral_eq_Suc)
    moreover have "width_to_pad ?g (length prefix) 0 1 < 0"
      using g assms(3) by (subst width_to_pad_eq) simp_all
    ultimately show ?thesis
      using True assms(2) g f by (simp add: diouxX_text_def cut_number_def layout_def)
  next
    case False
    let ?ds = "map (conv_char conv) (rev_digits (base_value (conv_base conv)) (unat n))"
    note c = num_content_digits [where conv = conv, OF False]
    have l: "length ?ds \<ge> 1"
      using c(4) by (simp add: Suc_le_eq)
    then have "width_to_pad ?g (length prefix) 0 (length ?ds) < 0"
      using g assms(3) c(5) by (subst width_to_pad_eq) simp_all
    moreover have "max (1 - int (length ?ds)) 0 = 0"
      using l by linarith
    ultimately show ?thesis
      using False assms(2) g f c(1,2) by (simp add: diouxX_text_def cut_number_def layout_def)
  qed
qed

text \<open>The formats \<^verbatim>\<open>%lld\<close> and \<^verbatim>\<open>%llx\<close>.\<close>

lemma loop_lld:
  assumes "int_conv_of c = Some conv" "c \<noteq> 0"
    "diouxX_text x (no_flags\<lparr>length_mod := LM_ll\<rparr>) conv = Some out" "length out < 2 ^ 31"
  shows "prints (vsnprintf_loop no_hook m [37, 108, 108, c] [x]) (Some out)"
proof -
  have c: "c \<noteq> 104" "c \<noteq> 76"
    using assms(1) by (auto simp: int_conv_of_def)
  have "parse_printf_flags [108, 108, c] no_flags [x] = Some (2, no_flags\<lparr>length_mod := LM_ll\<rparr>, [x])"
    by (simp add: parse_printf_flags_def parse_width_def parse_precision_def parse_length_def current_def no_flags_def)
  moreover have "print_conversion no_hook m (no_flags\<lparr>length_mod := LM_ll\<rparr>) [c] [x] p
      = do { q \<leftarrow> put_all p out; Some (q, 0, []) }" for p
    using prints_printed_int [OF prints_diouxX [of x "no_flags\<lparr>length_mod := LM_ll\<rparr>" conv]] assms
    by (auto simp: print_conversion_def current_def int_arg_def va_u64_def no_flags_def prints_def
        simp flip: bind_assoc)
  ultimately show ?thesis
    unfolding prints_def by (simp add: numeral_2_eq_2)
qed

lemma ascii_formats:
  "ascii ''%lld'' = [37, 108, 108, 100]" "ascii ''%#o'' = [37, 35, 111]" "ascii ''%s'' = [37, 115]"
  "ascii ''%ps.'' = [37, 112, 115, 46]"
  by (simp_all add: ascii_def)

lemma cstr_of_list:
  "\<forall>c \<in> set xs. c \<noteq> 0 \<Longrightarrow> \<forall>i \<le> length xs. m (a + i) = Some ((xs @ [0]) ! i) \<Longrightarrow> cstr m a xs"
  by (auto simp: cstr_nth nth_append)

lemma mload_cstr: "cstr m p cs \<Longrightarrow> mload m p (length cs) = Some cs"
  by (induction cs arbitrary: p) auto

lemma loop_s:
  assumes "name \<noteq> 0" "cstr m (unat name) cs" "length cs < 2 ^ 31"
  shows "prints (vsnprintf_loop no_hook m [37, 115] [name]) (Some cs)"
proof -
  have "sint (word_of_nat (length cs) :: 32 word) = int (length cs)"
    using assms(3) by (simp add: signed_of_nat signed_take_bit_int_eq_self)
  then have "cs_text cs no_flags False = Some cs"
    using assms(3) by (simp add: cs_text_def no_flags_def s32_chk_def)
  then have "print_conversion no_hook m no_flags [115] [name] p = do { q \<leftarrow> put_all p cs; Some (q, 0, []) }" for p
    using prints_printed_int [OF prints_cs [of cs no_flags False]] assms mload_cstr [OF assms(2)] strlen_cstr [OF assms(2)]
    by (auto simp: print_conversion_def current_def int_conv_of_def va_u64_def string_arg_def prints_def
        simp flip: bind_assoc)
  moreover have "parse_printf_flags [115] no_flags [name] = Some (0, no_flags, [name])"
    by (simp add: parse_printf_flags_def parse_width_def parse_precision_def parse_length_def current_def no_flags_def)
  ultimately show ?thesis
    by (simp add: prints_def)
qed

lemma conv_char_d: "conv_char CONV_d = digit_char"
  by (simp add: conv_char_def fun_eq_iff)

lemma digit_char_0: "digit_char 0 = 48"
  by (simp add: digit_char_def)

text \<open>The text of \<^verbatim>\<open>%lld\<close>: a sign for negative numbers and the decimal digits.\<close>

lemma lld_text:
  assumes "x \<noteq> 2 ^ 63"
  defines "n \<equiv> nat \<bar>sint x\<bar>"
  defines "ds \<equiv> (if n = 0 then [0] else rev (rev_digits 10 n))"
  shows "diouxX_text x (no_flags\<lparr>length_mod := LM_ll\<rparr>) CONV_d
      = Some ((if sint x < 0 then [45] else []) @ map digit_char ds)"
    "n < 2 ^ 63" "digits_value 10 0 ds = n" "\<forall>d \<in> set ds. d < 10" "ds \<noteq> []" "length ds \<le> 19"
proof -
  have "sint x \<noteq> - (2 ^ 63)"
  proof
    assume "sint x = - (2 ^ 63)"
    then have "sint x = sint (2 ^ 63 :: u64)" by simp
    with assms(1) show False by (metis signed_word_eqI)
  qed
  then have range: "- (2 ^ 63) < sint x" "sint x < 2 ^ 63"
    using sint_range_size [of x] sint_lt [of x] sint_ge [of x] by auto
  then show n: "n < 2 ^ 63"
    by (auto simp: n_def)
  show "digits_value 10 0 ds = n"
    using rev_digits_value [of 10 n] by (simp add: ds_def)
  show "\<forall>d \<in> set ds. d < 10"
    using rev_digits_less [of 10] by (auto simp: ds_def)
  show "ds \<noteq> []"
    by (simp add: ds_def rev_digits_Nil)
  show "length ds \<le> 19"
    using rev_digits_length [of 10 n 19] n by (simp add: ds_def)
  let ?f = "no_flags\<lparr>length_mod := LM_ll\<rparr>"
  have u: "unat (word_of_nat n :: u64) = n"
    using n by (simp add: unsigned_of_nat take_bit_nat_eq_self)
  have "num_prefix (adjust_flags ?f CONV_d) CONV_d x = Some (if sint x < 0 then [45] else [], of_nat n)"
    using range by (auto simp: num_prefix_def is_unsigned_ouxX_def adjust_flags_def no_flags_def s64_chk_def n_def
        signed_of_int)
  from plain_number_text [OF refl this] u
  show "diouxX_text x ?f CONV_d = Some ((if sint x < 0 then [45] else []) @ map digit_char ds)"
    by (auto simp: ds_def conv_base_def is_unsigned_ouxX_def conv_char_d digit_char_0 rev_map unat_eq_zero [symmetric])
qed

section \<open>Properties\<close>


definition sym_objects :: kobjects where
  "sym_objects = \<lparr>ko_symbols = [(4096, 8)], ko_thread = Map.empty, ko_process = Map.empty,
     ko_flags = Map.empty, ko_vmap = Map.empty\<rparr>"


text \<open>
  C27: Printing a signed 64-bit number with \<^verbatim>\<open>%lld\<close> and reading it back with \<^verbatim>\<open>strtoll\<close> gives the
  number again and stops at the end of the text, for every number but the smallest one; a buffer of
  21 bytes is enough.
\<close>

theorem printf_strtoll_roundtrip:
  assumes "x \<noteq> 2 ^ 63" "21 \<le> length buf"
  shows "\<exists>b n. snprintf no_hook m buf (length buf) (ascii ''%lld'') [x] = Some (b, n) \<and> n \<le> 20 \<and>
     (\<forall>m' a. (\<forall>i \<le> n. m' (a + i) = Some (b ! i)) \<longrightarrow> strtoll m' a 10 = Some (sint x, a + n))"
proof -
  note t = lld_text [OF assms(1)]
  define n where "n = nat \<bar>sint x\<bar>"
  define ds where "ds = (if n = 0 then [0] else rev (rev_digits 10 n))"
  let ?neg = "sint x < 0"
  let ?out = "(if ?neg then [45] else []) @ map digit_char ds"
  note t = lld_text [OF assms(1), folded n_def, folded ds_def]
  have len: "length ?out \<le> 20"
    using t(6) by simp
  then have p: "prints (vsnprintf_loop no_hook m [37, 108, 108, 100] [x]) (Some ?out)"
    using t(1) by (intro loop_lld) (simp_all add: int_conv_of_def)
  have "buf \<noteq> []"
    using assms(2) by auto
  then have run: "snprintf no_hook m buf (length buf) (ascii ''%lld'') [x] =
      Some (written buf 0 (length buf) (?out @ [0]), length ?out)"
    using vsnprintf_fits [OF p, of "\<lparr>o_buf = buf, o_pos = 0, o_left = length buf\<rparr>"]
    by (simp add: snprintf_def ascii_formats)
  have b: "written buf 0 (length buf) (?out @ [0]) ! i = (?out @ [0]) ! i" if "i \<le> length ?out" for i
    using that len assms(2) by (simp add: written_def nth_append)
  have "strtoll m' a 10 = Some (sint x, a + length ?out)"
    if m': "\<forall>i \<le> length ?out. m' (a + i) = Some (written buf 0 (length buf) (?out @ [0]) ! i)" for m' a
  proof -
    have "digit_char d \<noteq> 0" if "d \<in> set ds" for d
      using t(4) that digit_char_value [of d] by auto
    then have "\<forall>c \<in> set ?out. c \<noteq> 0"
      by auto
    then have "cstr m' a ?out"
      using m' b by (intro cstr_of_list) auto
    moreover have "\<forall>d \<in> set ds. d < 36"
      using t(4) by auto
    ultimately show ?thesis
      using strtoll_digits [of m' a ?neg ds 10] t(2,3,5) by (auto simp: n_def)
  qed
  with run len show ?thesis
    by blast
qed

theorem printf_strtoll_roundtrip_witness:
  "\<exists>b n. snprintf no_hook Map.empty (replicate 21 0) 21 (ascii ''%lld'') [- 7] = Some (b, n) \<and>
     (\<forall>m' a. (\<forall>i \<le> n. m' (a + i) = Some (b ! i)) \<longrightarrow> strtoll m' a 10 = Some (- 7, a + n))"
  using printf_strtoll_roundtrip [of "- 7" "replicate 21 0" Map.empty] by auto

text \<open>
  The kernel's \<^verbatim>\<open>%ps\<close> breaks the bound of the buffer: it does not subtract what it printed from
  the size that is left.  Printing a symbol whose name has at least \<open>sz\<close> characters, followed by
  another character, writes that character behind the \<open>sz\<close> bytes that the caller gave.
\<close>

theorem kernel_symbol_overflows:
  assumes "kallsyms_get_symbol (ko_symbols ko) ptr = Some (ptr, name)" "name \<noteq> 0" "cstr m (unat name) cs"
    "length cs < 2 ^ 31" "0 < sz" "sz \<le> length cs" "length cs + 2 \<le> length buf"
  shows "\<exists>b. snprintf (vsnprintf_do_pointer_kernel ko no_name m) m buf sz (ascii ''%ps.'') [ptr] = Some (b, length cs + 1) \<and>
     b ! length cs = 46"
proof -
  let ?hook = "vsnprintf_do_pointer_kernel ko no_name m"
  let ?p = "\<lparr>o_buf = buf, o_pos = 0, o_left = sz\<rparr>"
  let ?b = "written buf 0 sz (cs @ [0])"
  let ?q = "\<lparr>o_buf = ?b, o_pos = length cs, o_left = sz\<rparr>"
  have len: "length ?b = length buf"
    using assms(6,7) by (simp add: written_def)
  have "vsnprintf no_hook m ?p [37, 115] [name] = Some (?b, length cs)"
    using vsnprintf_fits [OF loop_s [OF assms(2-4)], of ?p] assms(5-7) by simp
  then have "?hook ?p [112, 115, 46] ptr = Some (?q, 1, length cs)"
    using assms(1) by (simp add: vsnprintf_do_pointer_kernel_def current_def print_symbol_def wrap_print_def
      hook_done_def ascii_formats)
  moreover have "length cs \<noteq> 0"
    using assms(5,6) by auto
  ultimately have "print_conversion ?hook m no_flags [112, 115, 46] [ptr] ?p = Some (?q, 1, [])"
    by (simp add: print_conversion_def current_def int_conv_of_def va_u64_def)
  moreover have "parse_printf_flags [112, 115, 46] no_flags [ptr] = Some (0, no_flags, [ptr])"
    by (simp add: parse_printf_flags_def parse_width_def parse_precision_def parse_length_def current_def no_flags_def)
  moreover have "wrap_putchar ?q 46 = Some \<lparr>o_buf = ?b[length cs := 46], o_pos = length cs + 1, o_left = sz - 1\<rparr>"
    using assms(5,7) len by (simp add: wrap_putchar_def buf_putchar_def arr_set_def)
  ultimately have "vsnprintf_loop ?hook m (ascii ''%ps.'') [ptr] ?p
      = Some \<lparr>o_buf = ?b[length cs := 46], o_pos = length cs + 1, o_left = sz - 1\<rparr>"
    by (simp add: ascii_formats)
  then show ?thesis
    using assms(5,7) len by (simp add: snprintf_def vsnprintf_def buf_putchar_def arr_set_def)
qed

definition sym_mem :: memory where
  "sym_mem = (\<lambda>a. if a = 8 then Some 97 else if a = 9 then Some 98 else if a = 10 then Some 0 else None)"

theorem kernel_symbol_overflows_witness:
  "\<exists>b. snprintf (vsnprintf_do_pointer_kernel sym_objects 0 sym_mem) sym_mem (replicate 4 0) 2 (ascii ''%ps.'') [4096]
     = Some (b, 3) \<and> b ! 2 = 46"
proof -
  have k: "kallsyms_get_symbol (ko_symbols sym_objects) 4096 = Some (4096, 8)"
    by (simp add: sym_objects_def kallsyms_get_symbol_def)
  have c: "cstr sym_mem (unat (8 :: u64)) [97, 98]"
    by (simp add: sym_mem_def)
  have len: "length [97 :: u8, 98] = 2" and "(8 :: u64) \<noteq> 0"
    by simp_all
  from kernel_symbol_overflows [OF k this(2) c, unfolded len, of 2 "replicate 4 0" 0] show ?thesis
    by simp
qed

text \<open>
  \<^verbatim>\<open>%#o\<close> does not print the leading zero of a number whose last octal digit is 0: the check for an
  existing zero looks at the least significant digit.
\<close>

theorem printf_octal_prefix_lost:
  "snprintf no_hook m (replicate 4 0) 4 (ascii ''%#o'') [8] = Some ([49, 48, 0, 0], 2)"
proof -
  let ?f = "no_flags\<lparr>hash := True\<rparr>"
  have "rev_digits 8 8 = [0, 1]"
    by (simp add: rev_digits.simps)
  then have ds: "map (conv_char CONV_o) (rev_digits (base_value (conv_base CONV_o)) (unat (8 :: u64))) = [48, 49]"
    by (simp add: conv_base_def is_unsigned_ouxX_def conv_char_def digit_char_def)
  have "num_content g CONV_o 8 = Some ([48, 49] @ replicate 30 0)" "arr_strlen ([48, 49] @ replicate 30 0) = Some 2" for g
    using num_content_digits(1) [where n = 8 and conv = CONV_o and f = g] num_content_digits(2) [where n = 8 and conv = CONV_o]
    unfolding ds by simp_all
  moreover have "width_to_pad (adjust_flags ?f CONV_o) 0 0 2 < 0"
    by (subst width_to_pad_eq) (simp_all add: adjust_flags_def no_flags_def Let_def)
  ultimately have "diouxX_text 8 ?f CONV_o = Some [49, 48]"
    by (simp add: diouxX_text_def cut_number_def num_prefix_def layout_def adjust_flags_def no_flags_def
      is_unsigned_ouxX_def conv_base_def Let_def)
  then have "print_conversion no_hook m ?f [111] [8] p = do { q \<leftarrow> put_all p [49, 48]; Some (q, 0, []) }" for p
    using prints_printed_int [OF prints_diouxX [of 8 ?f CONV_o]]
    by (auto simp: print_conversion_def current_def int_conv_of_def int_arg_def va_s32_def no_flags_def prints_def
        simp flip: bind_assoc)
  moreover have "parse_printf_flags [35, 111] no_flags [8] = Some (1, ?f, [8])"
    by (simp add: parse_printf_flags_def parse_width_def parse_precision_def parse_length_def current_def no_flags_def)
  ultimately have "prints (vsnprintf_loop no_hook m (ascii ''%#o'') [8]) (Some [49, 48])"
    by (simp add: prints_def ascii_formats)
  from vsnprintf_fits [OF this, of "\<lparr>o_buf = replicate 4 0, o_pos = 0, o_left = 4\<rparr>"] show ?thesis
    by (simp add: snprintf_def written_def numeral_eq_Suc)
qed

end
