(* ===== verification/Bitmap.thy ===== *)
theory Bitmap
  imports MOS_Prelude
begin

unbundle bit_operations_syntax

text \<open>
  The bitmaps of \<^verbatim>\<open>kernel/lib/structures/bitmap.c\<close>: an array of 32-bit lines.  Indices and the number
  of lines are natural numbers; the widths of the shifts are computed with \<^verbatim>\<open>size_t\<close> numbers, and
  a shift of a line by 32 or more is undefined, which is \<^const>\<open>None\<close>.
\<close>

section \<open>Definitions\<close>

type_synonym bitmap_line = u32

definition BITMAP_LINE_COUNT :: "size_t \<Rightarrow> size_t" where
  "BITMAP_LINE_COUNT sz = ((sz + 31) AND NOT 31) div 32"

text \<open>The argument \<open>block\<close> is what \<^verbatim>\<open>kmalloc\<close> returned, with arbitrary contents.\<close>

definition bitmap_zero :: "bitmap_line list \<Rightarrow> nat \<Rightarrow> bitmap_line list option" where
  "bitmap_zero bitmap nlines =
     (if nlines \<le> length bitmap then Some (replicate nlines 0 @ drop nlines bitmap) else None)"

definition bitmap_create :: "size_t \<Rightarrow> bitmap_line list option \<Rightarrow> bitmap_line list option" where
  "bitmap_create sz block = do {
     let nlines = BITMAP_LINE_COUNT sz;
     bitmap \<leftarrow> block;
     bitmap_zero bitmap (unat nlines) }"

definition bitmap_get :: "bitmap_line list \<Rightarrow> nat \<Rightarrow> nat \<Rightarrow> bool option" where
  "bitmap_get bitmap nlines index = (
     let line = index div 32; b = index mod 32
     in if line \<ge> nlines then Some False
        else do { l \<leftarrow> arr_get bitmap line; Some (l AND push_bit b 1 \<noteq> 0) })"

definition bitmap_set :: "bitmap_line list \<Rightarrow> nat \<Rightarrow> nat \<Rightarrow> (bitmap_line list \<times> bool) option" where
  "bitmap_set bitmap nlines index = (
     let line = index div 32; b = index mod 32
     in if line \<ge> nlines then Some (bitmap, False)
        else do {
          original \<leftarrow> bitmap_get bitmap nlines index;
          l \<leftarrow> arr_get bitmap line;
          bitmap \<leftarrow> arr_set bitmap line (l OR push_bit b 1);
          Some (bitmap, original = False) })"

definition bitmap_clear :: "bitmap_line list \<Rightarrow> nat \<Rightarrow> nat \<Rightarrow> (bitmap_line list \<times> bool) option" where
  "bitmap_clear bitmap nlines index = (
     let line = index div 32; b = index mod 32
     in if line \<ge> nlines then Some (bitmap, False)
        else do {
          original \<leftarrow> bitmap_get bitmap nlines index;
          l \<leftarrow> arr_get bitmap line;
          bitmap \<leftarrow> arr_set bitmap line (l AND NOT (push_bit b 1));
          Some (bitmap, original = True) })"

text \<open>
  The state of the search: the line and the bit where the current run of free bits starts, and its
  length.  The loop over the bits of one line ends early when the run is long enough.
\<close>

type_synonym run = "nat \<times> nat \<times> nat"

function scan_line :: "bitmap_line \<Rightarrow> nat \<Rightarrow> nat \<Rightarrow> nat \<Rightarrow> nat \<Rightarrow> run \<Rightarrow> run option" where
  "scan_line line nlines line_i n_bits b (start_line, start_bit, free_bits) =
     (if b < 32 \<and> \<not> free_bits \<ge> n_bits then do {
        used \<leftarrow> bitmap_get [line] nlines b;
        scan_line line nlines line_i n_bits (b + 1)
          (if \<not> used then (start_line, start_bit, free_bits + 1) else (line_i, b + 1, 0)) }
      else Some (start_line, start_bit, free_bits))"
  by pat_completeness auto
termination
  by (relation "measure (\<lambda>(_, _, _, _, b, _). 32 - b)") auto

text \<open>\<^verbatim>\<open>(size_t) -1\<close>\<close>

definition NOT_FOUND :: nat where
  "NOT_FOUND = 2 ^ 64 - 1"

function scan_lines :: "bitmap_line list \<Rightarrow> nat \<Rightarrow> nat \<Rightarrow> nat \<Rightarrow> run \<Rightarrow> nat option" where
  "scan_lines bitmap nlines n_bits line_i (start_line, start_bit, free_bits) =
     (if free_bits < n_bits then
        (if line_i \<ge> nlines then Some NOT_FOUND
         else do {
           line \<leftarrow> arr_get bitmap line_i;
           if line = 0 then scan_lines bitmap nlines n_bits (line_i + 1) (start_line, start_bit, free_bits + 32)
           else if line = NOT 0 then scan_lines bitmap nlines n_bits (line_i + 1) (line_i + 1, 0, 0)
           else do {
             r \<leftarrow> scan_line line nlines line_i n_bits 0 (start_line, start_bit, free_bits);
             scan_lines bitmap nlines n_bits (line_i + 1) r } })
      else Some (start_line * 32 + start_bit))"
  by pat_completeness auto
termination
  by (relation "measure (\<lambda>(_, nlines, _, line_i, _). nlines - line_i)") auto

definition bitmap_find_first_free_n :: "bitmap_line list \<Rightarrow> nat \<Rightarrow> nat \<Rightarrow> nat \<Rightarrow> nat option" where
  "bitmap_find_first_free_n bitmap nlines begin_bit n_bits =
     scan_lines bitmap nlines n_bits (begin_bit div 32) (begin_bit div 32, begin_bit mod 32, 0)"

text \<open>\<^verbatim>\<open>((bitmap_line_t) 1 << k) - 1\<close>\<close>

definition low_mask :: "size_t \<Rightarrow> bitmap_line option" where
  "low_mask k = (if k < 32 then Some (push_bit (unat k) 1 - 1) else None)"

definition apply_mask :: "bool \<Rightarrow> bitmap_line \<Rightarrow> bitmap_line \<Rightarrow> bitmap_line" where
  "apply_mask value line msk = (if value then line OR msk else line AND NOT msk)"

function fill_lines :: "bitmap_line list \<Rightarrow> nat \<Rightarrow> nat \<Rightarrow> bool \<Rightarrow> bitmap_line list option" where
  "fill_lines bitmap i end_line value =
     (if i < end_line then do {
        bitmap \<leftarrow> arr_set bitmap i (if value then NOT 0 else 0);
        fill_lines bitmap (i + 1) end_line value }
      else Some bitmap)"
  by pat_completeness auto
termination
  by (relation "measure (\<lambda>(_, i, e, _). e - i)") auto

definition bitmap_set_range :: "bitmap_line list \<Rightarrow> nat \<Rightarrow> nat \<Rightarrow> nat \<Rightarrow> bool \<Rightarrow> bitmap_line list option" where
  "bitmap_set_range bitmap nlines start_bit end_bit value = (
     let start_line = start_bit div 32; start_bit_in_line = start_bit mod 32;
         end_line = end_bit div 32; end_bit_in_line = end_bit mod 32
     in if start_line \<ge> nlines \<or> end_line \<ge> nlines then Some bitmap
        else if start_line = end_line then do {
          line \<leftarrow> arr_get bitmap start_line;
          m \<leftarrow> low_mask (of_nat end_bit_in_line - of_nat start_bit_in_line + 1);
          arr_set bitmap start_line (apply_mask value line (push_bit start_bit_in_line m)) }
        else do {
          line \<leftarrow> arr_get bitmap start_line;
          m \<leftarrow> low_mask (32 - of_nat start_bit_in_line);
          bitmap \<leftarrow> arr_set bitmap start_line (apply_mask value line (push_bit start_bit_in_line m));
          bitmap \<leftarrow> fill_lines bitmap (start_line + 1) end_line value;
          line \<leftarrow> arr_get bitmap end_line;
          m \<leftarrow> low_mask (of_nat end_bit_in_line + 1);
          arr_set bitmap end_line (apply_mask value line m) })"

declare scan_line.simps [simp del] scan_lines.simps [simp del] fill_lines.simps [simp del]

text \<open>The bits of a bitmap as a function of the index.\<close>

definition bits_of :: "bitmap_line list \<Rightarrow> nat \<Rightarrow> bool" where
  "bits_of bitmap i = bit (bitmap ! (i div 32)) (i mod 32)"

definition free_run :: "bitmap_line list \<Rightarrow> nat \<Rightarrow> nat \<Rightarrow> bool" where
  "free_run bitmap s n \<longleftrightarrow> s + n \<le> 32 * length bitmap \<and> (\<forall>i. s \<le> i \<and> i < s + n \<longrightarrow> \<not> bits_of bitmap i)"

section \<open>Single bits\<close>

lemma bitmap_get_bits: "i < 32 * length bm \<Longrightarrow> bitmap_get bm (length bm) i = Some (bits_of bm i)"
  by (auto simp: bitmap_get_def arr_get_def bits_of_def bit_iff_and_push_bit_not_eq_0 Let_def
    dest: less_mult_imp_div_less [of i "length bm" 32, unfolded mult.commute [of "length bm"]])

lemma index_parts: "i div 32 * 32 + b = i \<longleftrightarrow> b = i mod 32" for i b :: nat
  by (metis add_left_cancel div_mult_mod_eq)

lemma bit_single: "b < 32 \<Longrightarrow> bit (push_bit k 1 :: bitmap_line) b \<longleftrightarrow> b = k"
  by (auto simp: bit_exp_iff)

lemma bits_of_update:
  assumes "l < length bm" "\<And>b. b < 32 \<Longrightarrow> bit w b = P (l * 32 + b)"
  shows "bits_of (bm[l := w]) i = (if i div 32 = l then P i else bits_of bm i)"
  using assms(1) assms(2) [of "i mod 32"] by (auto simp: bits_of_def nth_list_update)

lemma bitmap_set_bits:
  assumes "i < 32 * length bm"
  shows "\<exists>bm'. bitmap_set bm (length bm) i = Some (bm', \<not> bits_of bm i) \<and> length bm' = length bm \<and>
     (\<forall>j. bits_of bm' j = (j = i \<or> bits_of bm j))"
proof -
  let ?l = "i div 32" and ?w = "bm ! (i div 32) OR push_bit (i mod 32) 1"
  have l: "?l < length bm"
    using assms by (simp add: less_mult_imp_div_less mult.commute)
  have "bits_of (bm[?l := ?w]) j = (if j div 32 = ?l then j = i \<or> bits_of bm j else bits_of bm j)" for j
    using l
    by (rule bits_of_update) (auto simp: bit_or_iff bit_single index_parts bits_of_def simp del: push_bit_of_1)
  then have "bits_of (bm[?l := ?w]) j = (j = i \<or> bits_of bm j)" for j
    by auto
  then show ?thesis
    using l bitmap_get_bits [OF assms] by (simp add: bitmap_set_def arr_get_def arr_set_def Let_def not_le)
qed

lemma bitmap_clear_bits:
  assumes "i < 32 * length bm"
  shows "\<exists>bm'. bitmap_clear bm (length bm) i = Some (bm', bits_of bm i) \<and> length bm' = length bm \<and>
     (\<forall>j. bits_of bm' j = (j \<noteq> i \<and> bits_of bm j))"
proof -
  let ?l = "i div 32" and ?w = "bm ! (i div 32) AND NOT (push_bit (i mod 32) 1)"
  have l: "?l < length bm"
    using assms by (simp add: less_mult_imp_div_less mult.commute)
  have "bits_of (bm[?l := ?w]) j = (if j div 32 = ?l then j \<noteq> i \<and> bits_of bm j else bits_of bm j)" for j
    using l
    by (rule bits_of_update) (auto simp: bit_and_iff bit_not_iff bit_single index_parts bits_of_def simp del: push_bit_of_1)
  then have "bits_of (bm[?l := ?w]) j = (j \<noteq> i \<and> bits_of bm j)" for j
    by auto
  then show ?thesis
    using l bitmap_get_bits [OF assms] by (simp add: bitmap_clear_def arr_get_def arr_set_def Let_def not_le)
qed

section \<open>Searching\<close>

text \<open>
  The state of the search when all bits below \<open>pos\<close> are seen: the run reaches from its start to
  \<open>pos\<close>, it cannot be extended to the left, and no long run ends before its start.
\<close>

definition search_inv :: "bitmap_line list \<Rightarrow> nat \<Rightarrow> nat \<Rightarrow> nat \<Rightarrow> run \<Rightarrow> bool" where
  "search_inv bm first n pos r \<longleftrightarrow> (case r of (sl, sb, free) \<Rightarrow>
     let s = sl * 32 + sb in
       first \<le> s \<and> s + free = pos \<and> (\<forall>i. s \<le> i \<and> i < pos \<longrightarrow> \<not> bits_of bm i) \<and>
       (s = first \<or> bits_of bm (s - 1)) \<and>
       (\<forall>t. first \<le> t \<and> t + n \<le> s \<longrightarrow> \<not> free_run bm t n))"

lemma search_inv_free:
  "search_inv bm first n pos (sl, sb, free) \<Longrightarrow> \<not> bits_of bm pos \<Longrightarrow> search_inv bm first n (pos + 1) (sl, sb, free + 1)"
  by (auto simp: search_inv_def Let_def less_Suc_eq)

lemma search_inv_used:
  assumes "search_inv bm first n pos (sl, sb, free)" "bits_of bm pos" "free < n" "sl' * 32 + sb' = pos + 1"
  shows "search_inv bm first n (pos + 1) (sl', sb', 0)"
proof -
  let ?s = "sl * 32 + sb"
  note inv = assms(1) [unfolded search_inv_def Let_def prod.case]
  have "\<not> free_run bm t n" if t: "first \<le> t" "t + n \<le> pos + 1" for t
  proof
    assume run: "free_run bm t n"
    consider "t + n \<le> ?s" | "t < ?s" "?s < t + n" | "?s \<le> t" by linarith
    then show False
    proof cases
      case 1
      then show ?thesis using inv t run by blast
    next
      case 2
      then have "bits_of bm (?s - 1)" "t \<le> ?s - 1" "?s - 1 < t + n"
        using inv t by auto
      with run show ?thesis by (auto simp: free_run_def)
    next
      case 3
      then have "t + n = pos + 1"
        using inv t assms(3) by linarith
      with run assms(2,3) show ?thesis by (auto simp: free_run_def)
    qed
  qed
  with assms(2,4) inv show ?thesis
    by (auto simp: search_inv_def Let_def)
qed

lemma bits_of_line: "b < 32 \<Longrightarrow> bits_of bm (l * 32 + b) = bit (bm ! l) b"
  by (simp add: bits_of_def)

lemma scan_line_inv:
  assumes "search_inv bm first n (l * 32 + b) r" "b \<le> 32" "l < length bm" "nlines > 0"
  shows "\<exists>sl sb free. scan_line (bm ! l) nlines l n b r = Some (sl, sb, free) \<and>
     (free \<ge> n \<and> (\<exists>pos \<le> l * 32 + 32. search_inv bm first n pos (sl, sb, free)) \<or>
      search_inv bm first n (l * 32 + 32) (sl, sb, free))"
  using assms(1,2)
proof (induction "32 - b" arbitrary: b r rule: less_induct)
  case less
  obtain sl sb free where r: "r = (sl, sb, free)" by (cases r)
  show ?case
  proof (cases "b < 32 \<and> \<not> free \<ge> n")
    case True
    have get: "bitmap_get [bm ! l] nlines b = Some (bits_of bm (l * 32 + b))"
      using True assms(4) by (simp add: bitmap_get_def arr_get_def bits_of_line bit_iff_and_push_bit_not_eq_0)
    let ?r = "if \<not> bits_of bm (l * 32 + b) then (sl, sb, free + 1) else (l, b + 1, 0)"
    have "search_inv bm first n (l * 32 + (b + 1)) ?r"
      using less.prems(1) True search_inv_free search_inv_used [of bm first n "l * 32 + b" sl sb free l "b + 1"]
      by (auto simp: r)
    moreover have "scan_line (bm ! l) nlines l n b r = scan_line (bm ! l) nlines l n (b + 1) ?r"
      using True get unfolding r by (subst scan_line.simps) simp
    ultimately show ?thesis
      using less.hyps [of "b + 1" ?r] True by auto
  next
    case False
    then have "scan_line (bm ! l) nlines l n b r = Some (sl, sb, free)"
      unfolding r by (subst scan_line.simps) auto
    moreover have "b = 32 \<or> free \<ge> n"
      using False less.prems(2) by auto
    ultimately show ?thesis
      using less.prems by (auto simp: r intro!: exI [of _ "l * 32 + b"])
  qed
qed

lemma search_inv_empty:
  assumes "search_inv bm first n (l * 32) (sl, sb, free)" "bm ! l = 0"
  shows "search_inv bm first n ((l + 1) * 32) (sl, sb, free + 32)"
proof -
  have "\<not> bits_of bm i" if "l * 32 \<le> i" "i < (l + 1) * 32" for i
    using that assms(2) div_nat_eqI [of 32 l i] by (simp add: bits_of_def mult.commute)
  then have "\<not> bits_of bm i" if "sl * 32 + sb \<le> i" "i < (l + 1) * 32" for i
    using that assms(1) by (cases "i < l * 32") (auto simp: search_inv_def Let_def)
  then show ?thesis
    using assms(1) by (auto simp: search_inv_def Let_def)
qed

lemma search_inv_full:
  assumes "search_inv bm first n (l * 32) (sl, sb, free)" "bm ! l = NOT 0" "free < n"
  shows "search_inv bm first n ((l + 1) * 32) (l + 1, 0, 0)"
proof -
  have used: "bits_of bm (l * 32 + b)" if "b < 32" for b
    using that assms(2) by (simp add: bits_of_line)
  have "search_inv bm first n (l * 32 + b + 1) (l, b + 1, 0)" if "b < 32" for b
    using that
  proof (induction b)
    case 0
    then show ?case
      using search_inv_used [OF assms(1) _ assms(3), of l 1] used [of 0] by simp
  next
    case (Suc b)
    then show ?case
      using search_inv_used [of bm first n "l * 32 + b + 1" l "b + 1" 0 l "b + 2"] used [of "Suc b"] assms(3) by simp
  qed
  from this [of 31] show ?thesis
    by (simp add: search_inv_def Let_def add.commute)
qed

definition search_ok :: "bitmap_line list \<Rightarrow> nat \<Rightarrow> nat \<Rightarrow> nat \<Rightarrow> bool" where
  "search_ok bm first n res \<longleftrightarrow>
     (res = NOT_FOUND \<and> (\<forall>t \<ge> first. \<not> free_run bm t n)) \<or>
     (first \<le> res \<and> free_run bm res n \<and> (\<forall>t. first \<le> t \<and> t < res \<longrightarrow> \<not> free_run bm t n))"

lemma search_found:
  assumes "search_inv bm first n pos (sl, sb, free)" "free \<ge> n" "pos \<le> 32 * length bm" "n > 0"
  shows "search_ok bm first n (sl * 32 + sb)"
proof -
  let ?s = "sl * 32 + sb"
  note inv = assms(1) [unfolded search_inv_def Let_def prod.case]
  have "free_run bm ?s n"
    using inv assms(2,3) by (auto simp: free_run_def)
  moreover have "\<not> free_run bm t n" if "first \<le> t" "t < ?s" for t
  proof (cases "t + n \<le> ?s")
    case True
    then show ?thesis using inv that by blast
  next
    case False
    then have "bits_of bm (?s - 1)" "t \<le> ?s - 1" "?s - 1 < t + n"
      using inv that by auto
    then show ?thesis by (auto simp: free_run_def)
  qed
  ultimately show ?thesis
    using inv by (auto simp: search_ok_def)
qed

lemma search_exhausted:
  assumes "search_inv bm first n (32 * length bm) (sl, sb, free)" "free < n"
  shows "search_ok bm first n NOT_FOUND"
proof -
  note inv = assms(1) [unfolded search_inv_def Let_def prod.case]
  have "\<not> free_run bm t n" if "first \<le> t" for t
  proof
    assume run: "free_run bm t n"
    then have "t + n \<le> 32 * length bm"
      by (simp add: free_run_def)
    show False
    proof (cases "t + n \<le> sl * 32 + sb")
      case True
      then show ?thesis using inv that run by blast
    next
      case False
      then have "t < sl * 32 + sb"
        using inv assms(2) \<open>t + n \<le> 32 * length bm\<close> by linarith
      then have "bits_of bm (sl * 32 + sb - 1)" "t \<le> sl * 32 + sb - 1" "sl * 32 + sb - 1 < t + n"
        using inv that False by auto
      with run show ?thesis by (auto simp: free_run_def)
    qed
  qed
  then show ?thesis
    by (simp add: search_ok_def)
qed

lemma scan_lines_ok:
  assumes "search_inv bm first n (l * 32) r" "l \<le> length bm" "n > 0"
  shows "\<exists>res. scan_lines bm (length bm) n l r = Some res \<and> search_ok bm first n res"
  using assms(1,2)
proof (induction "length bm - l" arbitrary: l r rule: less_induct)
  case less
  obtain sl sb free where r: "r = (sl, sb, free)" by (cases r)
  note inv = less.prems(1) [unfolded r]
  consider (found) "free \<ge> n" | (ended) "free < n" "l = length bm" | (go) "free < n" "l < length bm"
    using less.prems(2) by linarith
  then show ?case
  proof cases
    case found
    then show ?thesis
      using search_found [OF inv] less.prems(2) assms(3) unfolding r by (subst scan_lines.simps) auto
  next
    case ended
    then show ?thesis
      using search_exhausted [of bm first n sl sb free] inv unfolding r by (subst scan_lines.simps) (simp add: mult.commute)
  next
    case go
    note IH = less.hyps [of "l + 1"]
    have step: "scan_lines bm (length bm) n l r =
        (if bm ! l = 0 then scan_lines bm (length bm) n (l + 1) (sl, sb, free + 32)
         else if bm ! l = NOT 0 then scan_lines bm (length bm) n (l + 1) (l + 1, 0, 0)
         else do { r \<leftarrow> scan_line (bm ! l) (length bm) l n 0 r; scan_lines bm (length bm) n (l + 1) r })"
      using go unfolding r by (subst scan_lines.simps) (simp add: arr_get_def)
    consider (empty) "bm ! l = 0" | (full) "bm ! l = NOT 0" | (mixed) "bm ! l \<noteq> 0" "bm ! l \<noteq> NOT 0" by blast
    then show ?thesis
    proof cases
      case empty
      then show ?thesis
        using step IH [OF _ search_inv_empty [OF inv empty]] go by auto
    next
      case full
      moreover from full have "bm ! l \<noteq> 0"
        by simp
      ultimately show ?thesis
        using step IH [OF _ search_inv_full [OF inv full go(1)]] go by auto
    next
      case mixed
      obtain sl' sb' free' where s: "scan_line (bm ! l) (length bm) l n 0 r = Some (sl', sb', free')"
        and cases: "free' \<ge> n \<and> (\<exists>pos \<le> l * 32 + 32. search_inv bm first n pos (sl', sb', free')) \<or>
          search_inv bm first n (l * 32 + 32) (sl', sb', free')"
        using scan_line_inv [of bm first n l 0 r "length bm"] less.prems(1) go by (cases bm) auto
      from cases show ?thesis
      proof
        assume "free' \<ge> n \<and> (\<exists>pos \<le> l * 32 + 32. search_inv bm first n pos (sl', sb', free'))"
        then obtain pos where p: "free' \<ge> n" "pos \<le> l * 32 + 32" "search_inv bm first n pos (sl', sb', free')"
          by blast
        then have "pos \<le> 32 * length bm"
          using go by linarith
        from search_found [OF p(3,1) this assms(3)] have "search_ok bm first n (sl' * 32 + sb')" .
        moreover have "scan_lines bm (length bm) n (l + 1) (sl', sb', free') = Some (sl' * 32 + sb')"
          using p(1) by (subst scan_lines.simps) simp
        ultimately show ?thesis
          using step mixed s by simp
      next
        assume "search_inv bm first n (l * 32 + 32) (sl', sb', free')"
        then show ?thesis
          using step mixed s IH [of "(sl', sb', free')"] go by (simp add: add.commute)
      qed
    qed
  qed
qed

section \<open>Ranges\<close>

lemma low_mask_Some: "k < 32 \<Longrightarrow> low_mask (of_nat k) = Some (push_bit k 1 - 1)"
  by (simp add: low_mask_def word_less_nat_alt unsigned_of_nat take_bit_nat_eq_self)

lemma low_mask_bit: "b < 32 \<Longrightarrow> bit (push_bit k 1 - 1 :: bitmap_line) b \<longleftrightarrow> b < k"
  by (simp add: bit_mask_iff flip: mask_eq_exp_minus_1)

lemma apply_mask_bit: "bit (apply_mask v line m) b \<longleftrightarrow> (if bit m b then v else bit line b)" if "b < 32"
  using that by (auto simp: apply_mask_def bit_or_iff bit_and_iff bit_not_iff)

lemma fill_lines_run:
  assumes "e \<le> length bm" "i \<le> e"
  shows "\<exists>bm'. fill_lines bm i e v = Some bm' \<and> length bm' = length bm \<and>
     (\<forall>j. bm' ! j = (if i \<le> j \<and> j < e then (if v then NOT 0 else 0) else bm ! j))"
  using assms
proof (induction "e - i" arbitrary: bm i rule: less_induct)
  case less
  show ?case
  proof (cases "i < e")
    case True
    let ?bm = "bm[i := if v then NOT 0 else 0]"
    have "fill_lines bm i e v = fill_lines ?bm (i + 1) e v"
      using True less.prems by (subst fill_lines.simps) (simp add: arr_set_def)
    moreover obtain bm' where "fill_lines ?bm (i + 1) e v = Some bm'" "length bm' = length bm"
      "\<forall>j. bm' ! j = (if i + 1 \<le> j \<and> j < e then (if v then NOT 0 else 0) else ?bm ! j)"
      using less.hyps [OF diff_less_mono2 [OF _ True], of "i + 1" ?bm] True less.prems by auto
    ultimately show ?thesis
      using True less.prems by (auto simp: nth_list_update le_Suc_eq)
  next
    case False
    then show ?thesis
      using less.prems by (subst fill_lines.simps) auto
  qed
qed

text \<open>The shift widths of the three cases.\<close>

lemma one_line_width:
  "s \<le> e \<Longrightarrow> e < 32 \<Longrightarrow> (of_nat e - of_nat s + 1 :: size_t) = of_nat (e - s + 1)"
  by (simp add: of_nat_diff)

lemma low_mask_None: "32 \<le> k \<Longrightarrow> k < 64 \<Longrightarrow> low_mask (of_nat k) = None"
  by (simp add: low_mask_def word_less_nat_alt unsigned_of_nat take_bit_nat_eq_self)

definition range_defined :: "nat \<Rightarrow> nat \<Rightarrow> bool" where
  "range_defined s e \<longleftrightarrow>
     (if s div 32 = e div 32 then e - s + 1 < 32 else s mod 32 \<noteq> 0 \<and> e mod 32 \<noteq> 31)"

lemma set_range_one_line:
  assumes "s \<le> e" "e < 32 * length bm" "s div 32 = e div 32"
  shows "bitmap_set_range bm (length bm) s e v =
    (if e - s + 1 < 32
     then Some (bm[s div 32 := apply_mask v (bm ! (s div 32)) (push_bit (s mod 32) (push_bit (e - s + 1) 1 - 1))])
     else None)"
proof -
  have l: "e div 32 < length bm"
    using assms(2) by (simp add: less_mult_imp_div_less mult.commute)
  have m: "s mod 32 \<le> e mod 32" "e mod 32 - s mod 32 = e - s"
    using assms(1,3) by (metis div_mult_mod_eq nat_add_left_cancel_le, metis assms(3) diff_cancel2 diff_add_inverse div_mult_mod_eq add_diff_cancel_left)
  have "e - s < 32"
    using m(2) mod_less_divisor [of 32 e] by linarith
  then have mask: "low_mask (of_nat (e - s + 1)) = (if e - s + 1 < 32 then Some (push_bit (e - s + 1) 1 - 1) else None)"
    using low_mask_Some [of "e - s + 1"] low_mask_None [of "e - s + 1"] by (cases "e - s + 1 < 32") simp_all
  have width: "of_nat (e mod 32) - of_nat (s mod 32) + 1 = (of_nat (e - s + 1) :: size_t)"
    using one_line_width [OF m(1)] m(2) by simp
  show ?thesis
    unfolding bitmap_set_range_def Let_def width mask using l assms(3)
    by (simp add: arr_get_def arr_set_def)
qed

lemma set_range_lines:
  assumes "s \<le> e" "e < 32 * length bm" "s div 32 \<noteq> e div 32" "s mod 32 \<noteq> 0" "e mod 32 \<noteq> 31"
  shows "\<exists>bm'. bitmap_set_range bm (length bm) s e v = Some bm' \<and> length bm' = length bm \<and>
    (\<forall>j. bm' ! j =
      (if j = s div 32 then apply_mask v (bm ! j) (push_bit (s mod 32) (push_bit (32 - s mod 32) 1 - 1))
       else if j = e div 32 then apply_mask v (bm ! j) (push_bit (e mod 32 + 1) 1 - 1)
       else if s div 32 < j \<and> j < e div 32 then (if v then NOT 0 else 0) else bm ! j))"
proof -
  have l: "e div 32 < length bm" "s div 32 < e div 32"
    using assms(1-3) by (auto simp: less_mult_imp_div_less mult.commute div_le_mono le_neq_implies_less)
  have "(32 - of_nat (s mod 32) :: size_t) = of_nat (32 - s mod 32)"
    by (simp add: of_nat_diff)
  then have w1: "low_mask (32 - of_nat (s mod 32)) = Some (push_bit (32 - s mod 32) 1 - 1)"
    using low_mask_Some [of "32 - s mod 32"] assms(4) by simp
  have "e mod 32 + 1 < 32"
    using assms(5) mod_less_divisor [of 32 e] by linarith
  from low_mask_Some [OF this]
  have w2: "low_mask (of_nat (e mod 32) + 1) = Some (push_bit (e mod 32 + 1) 1 - 1)"
    by (simp add: add.commute)
  let ?a = "apply_mask v (bm ! (s div 32)) (push_bit (s mod 32) (push_bit (32 - s mod 32) 1 - 1))"
  obtain bm2 where bm2: "fill_lines (bm[s div 32 := ?a]) (s div 32 + 1) (e div 32) v = Some bm2"
    "length bm2 = length bm"
    "\<forall>j. bm2 ! j = (if s div 32 + 1 \<le> j \<and> j < e div 32 then (if v then NOT 0 else 0) else bm[s div 32 := ?a] ! j)"
    using fill_lines_run [of "e div 32" "bm[s div 32 := ?a]" "s div 32 + 1" v] l by auto
  have "bitmap_set_range bm (length bm) s e v
      = Some (bm2[e div 32 := apply_mask v (bm2 ! (e div 32)) (push_bit (e mod 32 + 1) 1 - 1)])"
    unfolding bitmap_set_range_def Let_def w1 w2 using l bm2 assms(3) by (simp add: arr_get_def arr_set_def)
  then show ?thesis
    using l bm2 by (auto simp: nth_list_update)
qed

lemma set_range_undefined:
  assumes "s \<le> e" "e < 32 * length bm" "s div 32 \<noteq> e div 32" "s mod 32 = 0 \<or> e mod 32 = 31"
  shows "bitmap_set_range bm (length bm) s e v = None"
proof -
  have l: "e div 32 < length bm" "s div 32 < e div 32"
    using assms(1-3) by (auto simp: less_mult_imp_div_less mult.commute div_le_mono le_neq_implies_less)
  have w: "low_mask 32 = None" "low_mask (31 + 1) = None"
    using low_mask_None [of 32] by simp_all
  have "fill_lines bm' (s div 32 + 1) (e div 32) v \<noteq> None" if "length bm' = length bm" for bm'
    using fill_lines_run [of "e div 32" bm' "s div 32 + 1" v] l that by auto
  then show ?thesis
    using assms(3,4) l w
    by (auto simp: bitmap_set_range_def Let_def arr_get_def arr_set_def split: bind_splits)
qed

lemma index_range:
  "s \<le> i \<and> i \<le> e \<longleftrightarrow>
     (s div 32 < i div 32 \<or> s div 32 = i div 32 \<and> s mod 32 \<le> i mod 32) \<and>
     (i div 32 < e div 32 \<or> i div 32 = e div 32 \<and> i mod 32 \<le> e mod 32)" for s i e :: nat
proof -
  have "a \<le> b \<longleftrightarrow> a div 32 < b div 32 \<or> a div 32 = b div 32 \<and> a mod 32 \<le> b mod 32" for a b :: nat
  proof -
    have "a = 32 * (a div 32) + a mod 32" "b = 32 * (b div 32) + b mod 32" "a mod 32 < 32" "b mod 32 < 32"
      by simp_all
    then show ?thesis by linarith
  qed
  then show ?thesis by blast
qed

lemma low_run_bit:
  "b < 32 \<Longrightarrow> bit (push_bit s (push_bit k 1 - 1) :: bitmap_line) b \<longleftrightarrow> s \<le> b \<and> b < s + k"
  using low_mask_bit [of "b - s" k] by (auto simp: bit_push_bit_iff simp del: push_bit_of_1)

section \<open>Properties\<close>

text \<open>
  C20: Searching from the start of a line, \<^verbatim>\<open>bitmap_find_first_free_n\<close> returns the first run of
  \<open>n\<close> free bits at or after the given bit, entirely inside of the bitmap, and \<^verbatim>\<open>-1\<close> only if there is
  none; it never reads outside of the bitmap.
\<close>

theorem bitmap_find_first_free_n_correct:
  assumes "begin_bit mod 32 = 0" "begin_bit \<le> 32 * length bitmap" "0 < n_bits"
  shows "\<exists>r. bitmap_find_first_free_n bitmap (length bitmap) begin_bit n_bits = Some r \<and>
     (r = NOT_FOUND \<and> (\<forall>t \<ge> begin_bit. \<not> free_run bitmap t n_bits) \<or>
      begin_bit \<le> r \<and> free_run bitmap r n_bits \<and> (\<forall>t. begin_bit \<le> t \<and> t < r \<longrightarrow> \<not> free_run bitmap t n_bits))"
proof -
  have l: "begin_bit div 32 * 32 = begin_bit"
    using assms(1) by (metis add.right_neutral div_mult_mod_eq)
  have "search_inv bitmap begin_bit n_bits (begin_bit div 32 * 32) (begin_bit div 32, begin_bit mod 32, 0)"
    unfolding l using assms(1,3) l by (auto simp: search_inv_def Let_def)
  moreover have "begin_bit div 32 \<le> length bitmap"
    using assms(2) l by linarith
  ultimately show ?thesis
    using scan_lines_ok assms(3) by (fastforce simp: bitmap_find_first_free_n_def search_ok_def)
qed

theorem bitmap_find_first_free_n_correct_witness:
  "\<exists>r. bitmap_find_first_free_n [0xFFFFFFFF, 0xF0, 0] 3 32 8 = Some r \<and> 32 \<le> r \<and> free_run [0xFFFFFFFF, 0xF0, 0] r 8"
proof -
  have "\<forall>i \<in> set [40..<48]. \<not> bits_of [0xFFFFFFFF, 0xF0, 0] i"
    by (simp add: bits_of_def upt_rec)
  then have "free_run [0xFFFFFFFF, 0xF0, 0] 40 8"
    unfolding set_upt Ball_def atLeastLessThan_iff by (simp add: free_run_def)
  moreover have "(40 :: nat) \<ge> 32" by simp
  ultimately show ?thesis
    using bitmap_find_first_free_n_correct [of 32 "[0xFFFFFFFF, 0xF0, 0]" 8] by (auto simp: numeral_3_eq_3)
qed

text \<open>
  \<^verbatim>\<open>bitmap_set_range\<close> on a range inside of the bitmap sets exactly the bits of the range to the
  given value, unless it shifts a line by its whole width: that happens when the range is one whole
  line, or spans several lines and begins at the first or ends at the last bit of a line.
\<close>

theorem bitmap_set_range_correct:
  assumes "start_bit \<le> end_bit" "end_bit < 32 * length bitmap"
  shows "if range_defined start_bit end_bit
     then \<exists>bm. bitmap_set_range bitmap (length bitmap) start_bit end_bit value = Some bm \<and> length bm = length bitmap \<and>
       (\<forall>i < 32 * length bitmap. bits_of bm i =
          (if start_bit \<le> i \<and> i \<le> end_bit then value else bits_of bitmap i))
     else bitmap_set_range bitmap (length bitmap) start_bit end_bit value = None"
proof (cases "start_bit div 32 = end_bit div 32")
  case True
  let ?l = "start_bit div 32"
  have d: "range_defined start_bit end_bit \<longleftrightarrow> end_bit - start_bit + 1 < 32"
    by (simp add: range_defined_def True)
  have e: "end_bit mod 32 = start_bit mod 32 + (end_bit - start_bit)"
    using assms(1) True by (metis add.assoc add_left_cancel div_mult_mod_eq le_add_diff_inverse)
  have "bits_of (bitmap[?l := apply_mask value (bitmap ! ?l) (push_bit (start_bit mod 32) (push_bit k 1 - 1))]) i
      = (if start_bit \<le> i \<and> i \<le> end_bit then value else bits_of bitmap i)"
    if "i < 32 * length bitmap" "k = end_bit - start_bit + 1" for i k
  proof -
    have "i div 32 < length bitmap"
      using that(1) by (simp add: less_mult_imp_div_less mult.commute)
    moreover have "i mod 32 < start_bit mod 32 + k \<longleftrightarrow> i mod 32 \<le> end_bit mod 32"
      unfolding e that(2) by auto
    ultimately show ?thesis
      unfolding index_range [of start_bit i end_bit] True [symmetric]
      by (cases "i div 32 = ?l") (auto simp add: bits_of_def apply_mask_bit low_run_bit simp del: push_bit_of_1)
  qed
  then show ?thesis
    unfolding d set_range_one_line [OF assms True] by (simp del: push_bit_Suc push_bit_of_1)
next
  case False
  show ?thesis
  proof (cases "start_bit mod 32 \<noteq> 0 \<and> end_bit mod 32 \<noteq> 31")
    case True
    obtain bm where bm: "bitmap_set_range bitmap (length bitmap) start_bit end_bit value = Some bm" "length bm = length bitmap"
      "\<forall>j. bm ! j =
      (if j = start_bit div 32 then apply_mask value (bitmap ! j) (push_bit (start_bit mod 32) (push_bit (32 - start_bit mod 32) 1 - 1))
       else if j = end_bit div 32 then apply_mask value (bitmap ! j) (push_bit (end_bit mod 32 + 1) 1 - 1)
       else if start_bit div 32 < j \<and> j < end_bit div 32 then (if value then NOT 0 else 0) else bitmap ! j)"
      using set_range_lines [OF assms False] True by blast
    have "bits_of bm i = (if start_bit \<le> i \<and> i \<le> end_bit then value else bits_of bitmap i)" for i
      unfolding index_range [of start_bit i end_bit] bits_of_def bm(3) [rule_format]
      using False assms(1) div_le_mono [OF assms(1), of 32]
      by (auto simp: apply_mask_bit low_run_bit low_mask_bit simp del: push_bit_of_1 push_bit_Suc)
    with bm(1,2) show ?thesis
      using True False by (simp add: range_defined_def)
  next
    case undef: False
    then show ?thesis
      using set_range_undefined [OF assms False] False by (auto simp: range_defined_def)
  qed
qed

theorem bitmap_set_range_correct_witness:
  "(\<exists>bm. bitmap_set_range [0, 0, 0] 3 5 70 True = Some bm \<and> bits_of bm 33) \<and>
   bitmap_set_range [0, 0, 0] 3 32 70 True = None"
proof -
  have "range_defined 5 70" "\<not> range_defined 32 70"
    by (simp_all add: range_defined_def)
  then show ?thesis
    using bitmap_set_range_correct [of 5 70 "[0, 0, 0]" True] bitmap_set_range_correct [of 32 70 "[0, 0, 0]" True]
    by (auto simp: numeral_3_eq_3)
qed

end
