(* ===== verification/Tasks.thy ===== *)
theory Tasks
  imports MOS_Prelude
begin

text \<open>
  Threads, wait lists and the scheduler: \<^verbatim>\<open>kernel/tasks/wait.c\<close>, \<^verbatim>\<open>schedule.c\<close> and the parts of
  \<^verbatim>\<open>thread.c\<close> that end and join threads.  The thread table maps thread numbers to threads.  A lock is
  a flag; acquiring a lock that is held spins forever, which is \<^const>\<open>None\<close>.  A wait list is the
  list of its waiters in order of arrival.  Wait conditions are values that a function verifies.
  A context switch is the end of the operation that causes it.
\<close>

section \<open>Definitions\<close>

type_synonym tid = int

datatype thread_state =
  THREAD_STATE_CREATED | THREAD_STATE_READY | THREAD_STATE_RUNNING | THREAD_STATE_BLOCKED |
  THREAD_STATE_NONINTERRUPTIBLE | THREAD_STATE_DEAD

datatype thread_mode = THREAD_MODE_KERNEL | THREAD_MODE_USER

datatype switch_flags = SWITCH_REGULAR | SWITCH_TO_NEW_USER_THREAD | SWITCH_TO_NEW_KERNEL_THREAD

record waitlist =
  wl_closed :: bool
  wl_lock :: bool
  wl_list :: "tid list"

record 'c thread =
  t_owner :: int
  t_mode :: thread_mode
  t_state_lock :: bool
  t_state :: thread_state
  t_waiting :: "'c option"
  t_waiters :: waitlist

type_synonym 'c threads = "tid \<rightharpoonup> 'c thread"

definition state_acquire :: "'c thread \<Rightarrow> 'c thread option" where
  "state_acquire t = (if t_state_lock t then None else Some (t\<lparr>t_state_lock := True\<rparr>))"

definition state_release :: "'c thread \<Rightarrow> 'c thread" where
  "state_release t = t\<lparr>t_state_lock := False\<rparr>"

definition wl_acquire :: "waitlist \<Rightarrow> waitlist option" where
  "wl_acquire l = (if wl_lock l then None else Some (l\<lparr>wl_lock := True\<rparr>))"

definition wl_release :: "waitlist \<Rightarrow> waitlist" where
  "wl_release l = l\<lparr>wl_lock := False\<rparr>"

subsection \<open>Wait lists\<close>

definition wc_condition_verify :: "('c \<Rightarrow> bool) option \<Rightarrow> 'c \<Rightarrow> bool option" where
  "wc_condition_verify verify c = do { v \<leftarrow> verify; Some (v c) }"

definition waitlist_init :: waitlist where
  "waitlist_init = \<lparr>wl_closed = False, wl_lock = False, wl_list = []\<rparr>"

text \<open>The argument \<open>kmalloc_ok\<close> is the answer of the allocator of list entries.\<close>

definition waitlist_append :: "waitlist \<Rightarrow> tid \<Rightarrow> bool \<Rightarrow> (waitlist \<times> bool) option" where
  "waitlist_append l current kmalloc_ok = do {
     l \<leftarrow> wl_acquire l;
     if wl_closed l then Some (wl_release l, False)
     else do {
       mos_assert kmalloc_ok;
       let l = l\<lparr>wl_list := wl_list l @ [current]\<rparr>;
       Some (wl_release l, True) } }"

fun wake_loop :: "'c threads \<Rightarrow> tid list \<Rightarrow> nat \<Rightarrow> nat \<Rightarrow> ('c threads \<times> tid list \<times> nat) option" where
  "wake_loop ts [] wakeups max_wakeups = Some (ts, [], wakeups)"
| "wake_loop ts (waiter # l) wakeups max_wakeups =
     (if wakeups < max_wakeups then do {
        t \<leftarrow> ts waiter;
        t \<leftarrow> state_acquire t;
        mos_assert (t_state t = THREAD_STATE_BLOCKED \<or> t_state t = THREAD_STATE_READY);
        let t = state_release (t\<lparr>t_state := THREAD_STATE_READY\<rparr>);
        wake_loop (ts(waiter \<mapsto> t)) l (wakeups + 1) max_wakeups }
      else Some (ts, waiter # l, wakeups))"

definition waitlist_wake :: "'c threads \<Rightarrow> waitlist \<Rightarrow> nat \<Rightarrow> ('c threads \<times> waitlist \<times> nat) option" where
  "waitlist_wake ts l max_wakeups = do {
     l \<leftarrow> wl_acquire l;
     if wl_list l = [] then Some (ts, wl_release l, 0)
     else do {
       (ts, rest, wakeups) \<leftarrow> wake_loop ts (wl_list l) 0 max_wakeups;
       Some (ts, wl_release (l\<lparr>wl_list := rest\<rparr>), wakeups) } }"

definition waitlist_close :: "waitlist \<Rightarrow> waitlist option" where
  "waitlist_close l = do { l \<leftarrow> wl_acquire l; Some (wl_release (l\<lparr>wl_closed := True\<rparr>)) }"

definition waitlist_remove_me :: "waitlist \<Rightarrow> tid \<Rightarrow> waitlist option" where
  "waitlist_remove_me l current = do {
     l \<leftarrow> wl_acquire l;
     Some (wl_release (l\<lparr>wl_list := remove1 current (wl_list l)\<rparr>)) }"

subsection \<open>The scheduler\<close>

text \<open>Whether to run a thread; a wait condition that is met is dropped.\<close>

definition should_schedule_to_thread :: "('c \<Rightarrow> bool) option \<Rightarrow> 'c thread \<Rightarrow> ('c thread \<times> bool) option" where
  "should_schedule_to_thread verify t =
     (case t_state t of
        THREAD_STATE_READY \<Rightarrow> Some (t, True)
      | THREAD_STATE_CREATED \<Rightarrow> Some (t, True)
      | THREAD_STATE_BLOCKED \<Rightarrow>
          (case t_waiting t of
             None \<Rightarrow> Some (t, False)
           | Some c \<Rightarrow> do {
               ok \<leftarrow> wc_condition_verify verify c;
               if \<not> ok then Some (t, False) else Some (t\<lparr>t_waiting := None\<rparr>, True) })
      | THREAD_STATE_NONINTERRUPTIBLE \<Rightarrow> Some (t, False)
      | THREAD_STATE_DEAD \<Rightarrow> Some (t, False)
      | THREAD_STATE_RUNNING \<Rightarrow> Some (t, False))"

text \<open>The thread after the visit, and how the processor switches to it, if it does.\<close>

definition schedule_to_thread ::
  "('c \<Rightarrow> bool) option \<Rightarrow> 'c thread \<Rightarrow> ('c thread \<times> switch_flags option) option" where
  "schedule_to_thread verify t = do {
     t \<leftarrow> state_acquire t;
     (t, go) \<leftarrow> should_schedule_to_thread verify t;
     if \<not> go then Some (state_release t, None)
     else do {
       let flags = (if t_state t = THREAD_STATE_CREATED
                    then (if t_mode t = THREAD_MODE_KERNEL then SWITCH_TO_NEW_KERNEL_THREAD else SWITCH_TO_NEW_USER_THREAD)
                    else SWITCH_REGULAR);
       Some (state_release (t\<lparr>t_state := THREAD_STATE_RUNNING\<rparr>), Some flags) } }"

definition reschedule_for_wait_condition :: "'c thread \<Rightarrow> 'c \<Rightarrow> 'c thread option" where
  "reschedule_for_wait_condition t c = do {
     mos_assert (t_state t \<noteq> THREAD_STATE_BLOCKED);
     mos_assert (t_waiting t = None);
     t \<leftarrow> state_acquire t;
     let t = state_release (t\<lparr>t_state := THREAD_STATE_BLOCKED\<rparr>);
     Some (t\<lparr>t_waiting := Some c\<rparr>) }"

text \<open>
  \<^verbatim>\<open>reschedule_for_waitlist\<close> in its two steps: joining the list, and, unless the list is closed,
  marking the thread as blocked.  The second step releases the state lock without holding it.
\<close>

definition join_waitlist :: "'c thread \<Rightarrow> tid \<Rightarrow> waitlist \<Rightarrow> bool \<Rightarrow> (waitlist \<times> bool) option" where
  "join_waitlist t tid l kmalloc_ok = do {
     mos_assert (t_state t \<noteq> THREAD_STATE_BLOCKED);
     mos_assert (t_waiting t = None);
     waitlist_append l tid kmalloc_ok }"

definition block_for_waitlist :: "'c thread \<Rightarrow> 'c thread" where
  "block_for_waitlist t = state_release ((state_release t)\<lparr>t_state := THREAD_STATE_BLOCKED\<rparr>)"

definition reschedule_for_waitlist ::
  "'c threads \<Rightarrow> tid \<Rightarrow> waitlist \<Rightarrow> bool \<Rightarrow> ('c threads \<times> waitlist \<times> bool) option" where
  "reschedule_for_waitlist ts current l kmalloc_ok = do {
     t \<leftarrow> ts current;
     (l, ok) \<leftarrow> join_waitlist t current l kmalloc_ok;
     if \<not> ok then Some (ts, l, False)
     else Some (ts(current \<mapsto> block_for_waitlist t), l, True) }"

definition reschedule :: "'c thread \<Rightarrow> 'c thread option" where
  "reschedule t = do {
     t \<leftarrow> state_acquire t;
     mos_assert (t_state t \<noteq> THREAD_STATE_READY);
     let t = (if t_state t = THREAD_STATE_RUNNING then t\<lparr>t_state := THREAD_STATE_READY\<rparr> else t);
     Some (state_release t) }"

definition blocked_reschedule :: "'c thread \<Rightarrow> 'c thread option" where
  "blocked_reschedule t = do {
     t \<leftarrow> state_acquire t;
     Some (state_release (t\<lparr>t_state := THREAD_STATE_BLOCKED\<rparr>)) }"

subsection \<open>Joining and ending threads\<close>

text \<open>The result tells whether the thread number was accepted.\<close>

definition thread_wait_for_tid :: "'c threads \<Rightarrow> tid \<Rightarrow> tid \<Rightarrow> bool \<Rightarrow> ('c threads \<times> bool) option" where
  "thread_wait_for_tid ts current tid kmalloc_ok =
     (case ts tid of
        None \<Rightarrow> Some (ts, False)
      | Some target \<Rightarrow> do {
          me \<leftarrow> ts current;
          if t_owner target \<noteq> t_owner me then Some (ts, False)
          else do {
            (ts, l, _) \<leftarrow> reschedule_for_waitlist ts current (t_waiters target) kmalloc_ok;
            target \<leftarrow> ts tid;
            Some (ts(tid \<mapsto> target\<lparr>t_waiters := l\<rparr>), True) } })"

definition thread_handle_exit :: "'c threads \<Rightarrow> tid \<Rightarrow> 'c threads option" where
  "thread_handle_exit ts tid = do {
     t \<leftarrow> ts tid;
     t \<leftarrow> state_acquire t;
     let t = state_release (t\<lparr>t_state := THREAD_STATE_DEAD\<rparr>);
     l \<leftarrow> waitlist_close (t_waiters t);
     let ts = ts(tid \<mapsto> t\<lparr>t_waiters := l\<rparr>);
     (ts, l, _) \<leftarrow> waitlist_wake ts l (2 ^ 31 - 1);
     t \<leftarrow> ts tid;
     let t = t\<lparr>t_waiters := l\<rparr>;
     t \<leftarrow> reschedule t;
     Some (ts(tid \<mapsto> t)) }"

subsection \<open>Who may be on a wait list\<close>

text \<open>The waiters exist, are blocked or have been made ready, and nobody holds their locks.\<close>

definition waiters_ok :: "'c threads \<Rightarrow> waitlist \<Rightarrow> bool" where
  "waiters_ok ts l \<longleftrightarrow> \<not> wl_lock l \<and>
     (\<forall>w \<in> set (wl_list l). \<exists>t. ts w = Some t \<and> \<not> t_state_lock t \<and>
        t_state t \<in> {THREAD_STATE_BLOCKED, THREAD_STATE_READY})"

text \<open>Making a set of threads ready.\<close>

definition make_ready :: "'c threads \<Rightarrow> tid set \<Rightarrow> 'c threads" where
  "make_ready ts W = (\<lambda>w. if w \<in> W then map_option (\<lambda>t. t\<lparr>t_state := THREAD_STATE_READY\<rparr>) (ts w) else ts w)"

section \<open>Waking\<close>

lemma wake_loop_run:
  assumes "\<forall>w \<in> set l. \<exists>t. ts w = Some t \<and> \<not> t_state_lock t \<and> t_state t \<in> {THREAD_STATE_BLOCKED, THREAD_STATE_READY}"
    "n \<le> m"
  shows "wake_loop ts l n m = Some (make_ready ts (set (take (m - n) l)), drop (m - n) l, n + min (m - n) (length l))"
  using assms
proof (induction l arbitrary: ts n)
  case Nil
  then show ?case by (simp add: make_ready_def)
next
  case (Cons w l)
  show ?case
  proof (cases "n < m")
    case True
    obtain t where t: "ts w = Some t" "\<not> t_state_lock t" "t_state t \<in> {THREAD_STATE_BLOCKED, THREAD_STATE_READY}"
      using Cons.prems by auto
    define u where "u = t\<lparr>t_state := THREAD_STATE_READY\<rparr>"
    have u: "state_release (t\<lparr>t_state_lock := True, t_state := THREAD_STATE_READY\<rparr>) = u"
      using t(2) by (simp add: u_def state_release_def)
    let ?ts = "ts(w \<mapsto> u)"
    have "\<exists>t. ?ts v = Some t \<and> \<not> t_state_lock t \<and> t_state t \<in> {THREAD_STATE_BLOCKED, THREAD_STATE_READY}"
      if "v \<in> set l" for v
      using that Cons.prems(1) t by (auto simp: u_def)
    then have "wake_loop ?ts l (n + 1) m = Some (make_ready ?ts (set (take (m - (n + 1)) l)), drop (m - (n + 1)) l,
        n + 1 + min (m - (n + 1)) (length l))"
      using True by (intro Cons.IH) auto
    moreover have "make_ready ?ts (set (take k l)) = make_ready ts (set (take (Suc k) (w # l)))" for k
      using t(1) by (auto simp: make_ready_def fun_eq_iff u_def)
    moreover have "m - n = Suc (m - (n + 1))"
      using True by simp
    ultimately show ?thesis
      using True t u by (auto simp: state_acquire_def)
  next
    case False
    then show ?thesis
      using Cons.prems by (simp add: make_ready_def)
  qed
qed

section \<open>Properties\<close>

text \<open>
  \<^verbatim>\<open>waitlist_wake\<close> serves the waiters in the order of their arrival: it makes exactly the first
  \<open>max_wakeups\<close> of them ready, takes exactly them off the list, returns their number, and changes no
  other thread.
\<close>

theorem waitlist_wake_fifo:
  assumes "waiters_ok ts l"
  shows "\<exists>l'. waitlist_wake ts l n = Some (make_ready ts (set (take n (wl_list l))), l', min n (length (wl_list l))) \<and>
     wl_list l' = drop n (wl_list l) \<and> \<not> wl_lock l' \<and> wl_closed l' = wl_closed l"
  using assms wake_loop_run [of "wl_list l" ts 0 n]
  by (auto simp: waitlist_wake_def wl_acquire_def wl_release_def waiters_ok_def make_ready_def)

definition two_waiters :: "unit threads" where
  "two_waiters = [1 \<mapsto> \<lparr>t_owner = 1, t_mode = THREAD_MODE_USER, t_state_lock = False, t_state = THREAD_STATE_BLOCKED,
       t_waiting = None, t_waiters = waitlist_init\<rparr>,
     2 \<mapsto> \<lparr>t_owner = 1, t_mode = THREAD_MODE_USER, t_state_lock = False, t_state = THREAD_STATE_BLOCKED,
       t_waiting = None, t_waiters = waitlist_init\<rparr>]"

theorem waitlist_wake_fifo_witness:
  "\<exists>ts l. waitlist_wake two_waiters \<lparr>wl_closed = False, wl_lock = False, wl_list = [2, 1]\<rparr> 1 = Some (ts, l, 1) \<and>
     wl_list l = [1] \<and> map_option t_state (ts 2) = Some THREAD_STATE_READY \<and> map_option t_state (ts 1) = Some THREAD_STATE_BLOCKED"
  using waitlist_wake_fifo [of two_waiters "\<lparr>wl_closed = False, wl_lock = False, wl_list = [2, 1]\<rparr>" 1]
  by (auto simp: waiters_ok_def two_waiters_def make_ready_def)

text \<open>
  C32: A thread that sleeps on a wait list can be woken too early: once it has joined the list and
  before it marks itself as blocked, a \<^verbatim>\<open>waitlist_wake\<close> on another processor that reaches it fails its
  assertion and panics.
\<close>

theorem waitlist_wake_race_panics:
  assumes "ts me = Some t" "t_state t = THREAD_STATE_RUNNING" "t_waiting t = None"
    "\<not> wl_lock l" "\<not> wl_closed l" "wl_list l = []" "0 < n"
  shows "\<exists>l'. join_waitlist t me l True = Some (l', True) \<and> waitlist_wake ts l' n = None"
  using assms
  by (auto simp: join_waitlist_def waitlist_append_def waitlist_wake_def wl_acquire_def wl_release_def state_acquire_def)

theorem waitlist_wake_race_panics_witness:
  "\<exists>l'. join_waitlist ((the (two_waiters 1))\<lparr>t_state := THREAD_STATE_RUNNING\<rparr>) 1 waitlist_init True = Some (l', True) \<and>
     waitlist_wake (two_waiters(1 \<mapsto> (the (two_waiters 1))\<lparr>t_state := THREAD_STATE_RUNNING\<rparr>)) l' 1 = None"
  by (rule waitlist_wake_race_panics) (simp_all add: two_waiters_def waitlist_init_def)

text \<open>
  C18: No join waits forever: when a thread exits, every thread that waits for it becomes ready, the
  exited thread is dead with an empty, closed list of waiters, and whoever joins it afterwards returns at
  once without blocking.
\<close>

theorem thread_exit_wakes_joiners:
  assumes "ts tid = Some t" "t_state t = THREAD_STATE_RUNNING" "\<not> t_state_lock t" "waiters_ok ts (t_waiters t)"
    "length (wl_list (t_waiters t)) < 2 ^ 31"
  shows "\<exists>ts' d. thread_handle_exit ts tid = Some ts' \<and> ts' tid = Some d \<and> t_state d = THREAD_STATE_DEAD \<and>
     (\<forall>w \<in> set (wl_list (t_waiters t)). \<exists>u. ts' w = Some u \<and> t_state u = THREAD_STATE_READY) \<and>
     wl_list (t_waiters d) = [] \<and>
     (\<forall>j u. ts' j = Some u \<and> t_state u = THREAD_STATE_RUNNING \<and> t_waiting u = None \<and> t_owner u = t_owner d \<longrightarrow>
        thread_wait_for_tid ts' j tid True = Some (ts', True))"
proof -
  let ?W = "wl_list (t_waiters t)"
  define l where "l = (t_waiters t)\<lparr>wl_closed := True\<rparr>"
  define t1 where "t1 = t\<lparr>t_state := THREAD_STATE_DEAD, t_waiters := l\<rparr>"
  have unlocked: "\<not> wl_lock (t_waiters t)"
    using assms(4) by (simp add: waiters_ok_def)
  have me: "tid \<notin> set ?W"
    using assms(1,2,4) by (auto simp: waiters_ok_def)
  have "waiters_ok (ts(tid \<mapsto> t1)) l"
    using assms(4) me by (auto simp: waiters_ok_def l_def)
  from wake_loop_run [of ?W "ts(tid \<mapsto> t1)" 0 "2 ^ 31 - 1"] this
  have wake: "waitlist_wake (ts(tid \<mapsto> t1)) l (2 ^ 31 - 1)
      = Some (make_ready (ts(tid \<mapsto> t1)) (set ?W), l\<lparr>wl_list := []\<rparr>, length ?W)"
    using assms(5) unlocked
    by (auto simp: waitlist_wake_def wl_acquire_def wl_release_def waiters_ok_def make_ready_def l_def)
  define d where "d = t1\<lparr>t_waiters := l\<lparr>wl_list := []\<rparr>\<rparr>"
  define ts' where "ts' = (make_ready (ts(tid \<mapsto> t1)) (set ?W))(tid \<mapsto> d)"
  have r: "state_acquire t = Some (t\<lparr>t_state_lock := True\<rparr>)" "waitlist_close (t_waiters t) = Some l"
    "state_release (t\<lparr>t_state_lock := True, t_state := THREAD_STATE_DEAD\<rparr>) = t\<lparr>t_state := THREAD_STATE_DEAD\<rparr>"
    "reschedule d = Some d"
    using assms(3) unlocked
    by (simp_all add: state_acquire_def state_release_def waitlist_close_def wl_acquire_def wl_release_def l_def
      reschedule_def d_def t1_def)
  have run: "thread_handle_exit ts tid = Some ts'"
    using assms(1) r wake me by (simp add: thread_handle_exit_def ts'_def make_ready_def flip: t1_def d_def)
  have d: "t_state d = THREAD_STATE_DEAD" "wl_list (t_waiters d) = []" "ts' tid = Some d"
    "wl_closed (t_waiters d)" "\<not> wl_lock (t_waiters d)"
    using unlocked by (simp_all add: d_def t1_def l_def ts'_def)
  have "\<exists>u. ts' w = Some u \<and> t_state u = THREAD_STATE_READY" if w: "w \<in> set ?W" for w
  proof -
    obtain u where "ts w = Some u"
      using assms(4) w by (auto simp: waiters_ok_def)
    then show ?thesis
      using w me by (auto simp: ts'_def make_ready_def)
  qed
  moreover have "thread_wait_for_tid ts' j tid True = Some (ts', True)"
    if "ts' j = Some u" "t_state u = THREAD_STATE_RUNNING" "t_waiting u = None" "t_owner u = t_owner d" for j u
    using that d by (auto simp: thread_wait_for_tid_def reschedule_for_waitlist_def join_waitlist_def
      waitlist_append_def wl_acquire_def wl_release_def fun_upd_idem)
  ultimately show ?thesis
    using run d by blast
qed

definition joined_thread :: "unit threads" where
  "joined_thread = two_waiters(3 \<mapsto> \<lparr>t_owner = 1, t_mode = THREAD_MODE_USER, t_state_lock = False,
     t_state = THREAD_STATE_RUNNING, t_waiting = None,
     t_waiters = \<lparr>wl_closed = False, wl_lock = False, wl_list = [1, 2]\<rparr>\<rparr>)"

theorem thread_exit_wakes_joiners_witness:
  "\<exists>ts' u. thread_handle_exit joined_thread 3 = Some ts' \<and> ts' 2 = Some u \<and> t_state u = THREAD_STATE_READY"
  using thread_exit_wakes_joiners [of joined_thread 3 "the (joined_thread 3)"]
  by (auto simp: joined_thread_def two_waiters_def waiters_ok_def)

end
