(* ===== verification/Signals.thy ===== *)
theory Signals
  imports Tasks
begin

text \<open>
  Sending and delivering signals, \<^verbatim>\<open>kernel/tasks/signal.c\<close>, over the thread states of \<^verbatim>\<open>Tasks\<close>.  The
  signals are those that the code names; any other number is \<open>SIG_other\<close>, and no signal (the number
  0) is \<^const>\<open>None\<close>.  What happens on the way to user mode is a value: the process or the thread ends,
  a handler runs, or nothing.
\<close>

section \<open>Definitions\<close>

datatype signal =
  SIGILL | SIGTRAP | SIGABRT | SIGKILL | SIGSEGV | SIGINT | SIGTERM | SIGCHLD | SIGPIPE | SIG_other nat

datatype sig_handler = SIG_DFL | SIG_IGN | SA_HANDLER u64

record sigaction =
  sa_handler :: sig_handler
  sa_restart :: bool

datatype sig_error = EINVAL

record sig_thread =
  sg_tid :: tid
  sg_mode :: thread_mode
  sg_state :: thread_state
  sg_state_lock :: bool
  sg_lock :: bool
  sg_pending :: "signal list"
  sg_masks :: "signal \<Rightarrow> bool"

record sig_process =
  sp_pid :: int
  sp_main :: tid
  sp_handlers :: "signal \<Rightarrow> sigaction"

record sigreturn_data =
  sr_signal :: signal
  sr_was_masked :: bool

text \<open>What the way to user mode does.\<close>

datatype sig_outcome =
  To_User | Ignored signal | Exit_Process signal | Exit_Thread signal | Run_Handler signal u64 sigreturn_data

definition sig_acquire :: "sig_thread \<Rightarrow> sig_thread option" where
  "sig_acquire t = (if sg_lock t then None else Some (t\<lparr>sg_lock := True\<rparr>))"

definition sig_release :: "sig_thread \<Rightarrow> sig_thread" where
  "sig_release t = t\<lparr>sg_lock := False\<rparr>"

fun is_fatal_signal :: "signal \<Rightarrow> bool option" where
  "is_fatal_signal SIGILL = Some True"
| "is_fatal_signal SIGTRAP = Some True"
| "is_fatal_signal SIGABRT = Some True"
| "is_fatal_signal SIGKILL = Some True"
| "is_fatal_signal SIGSEGV = Some True"
| "is_fatal_signal SIGINT = Some False"
| "is_fatal_signal SIGTERM = Some False"
| "is_fatal_signal SIGCHLD = Some False"
| "is_fatal_signal SIGPIPE = Some False"
| "is_fatal_signal (SIG_other n) = None"

text \<open>The argument \<open>kmalloc_ok\<close> is the answer of the allocator of pending signals.\<close>

definition signal_send_to_thread :: "sig_thread \<Rightarrow> signal \<Rightarrow> bool \<Rightarrow> (sig_thread \<times> (sig_error + unit)) option" where
  "signal_send_to_thread target sig kmalloc_ok = do {
     refuse \<leftarrow> (if sg_mode target = THREAD_MODE_KERNEL
               then do { fatal \<leftarrow> is_fatal_signal sig; Some (\<not> fatal) } else Some False);
     if refuse then Some (target, Inl EINVAL)
     else do {
       target \<leftarrow> sig_acquire target;
       let has_pending = sig \<in> set (sg_pending target);
       target \<leftarrow> (if \<not> has_pending then do {
           mos_assert kmalloc_ok;
           Some (target\<lparr>sg_pending := sg_pending target @ [sig]\<rparr>) }
         else Some target);
       Some (sig_release target, Inr ()) } }"

text \<open>The position of the thread that receives a signal for a process.\<close>

fun find_thread :: "(sig_thread \<Rightarrow> bool) \<Rightarrow> sig_thread list \<Rightarrow> nat option" where
  "find_thread P [] = None"
| "find_thread P (t # ts) = (if P t then Some 0 else map_option Suc (find_thread P ts))"

definition signal_target :: "sig_thread list \<Rightarrow> nat option" where
  "signal_target ts =
     (case find_thread (\<lambda>t. sg_state t \<in> {THREAD_STATE_RUNNING, THREAD_STATE_READY, THREAD_STATE_CREATED}) ts of
        Some i \<Rightarrow> Some i
      | None \<Rightarrow> find_thread (\<lambda>t. sg_state t = THREAD_STATE_BLOCKED) ts)"

definition signal_send_to_process ::
  "int \<Rightarrow> sig_thread list \<Rightarrow> tid \<Rightarrow> signal \<Rightarrow> bool \<Rightarrow> (sig_thread list \<times> (sig_error + unit)) option" where
  "signal_send_to_process pid ts current sig kmalloc_ok =
     (if pid = 1 \<and> sig = SIGKILL then Some (ts, Inl EINVAL)
      else if pid = 2 then Some (ts, Inl EINVAL)
      else case signal_target ts of
             None \<Rightarrow> Some (ts, Inl EINVAL)
           | Some i \<Rightarrow> do {
               (t, _) \<leftarrow> signal_send_to_thread (ts ! i) sig kmalloc_ok;
               t \<leftarrow> (if sg_tid t \<noteq> current then
                      (if sg_state_lock t then None
                       else Some (if sg_state t = THREAD_STATE_BLOCKED then t\<lparr>sg_state := THREAD_STATE_READY\<rparr> else t))
                    else Some t);
               Some (ts[i := t], Inr ()) })"

text \<open>
  Takes the first pending signal that is not masked off the list.  The number 0 stands for no signal,
  also when it was sent.
\<close>

fun take_unmasked :: "(signal \<Rightarrow> bool) \<Rightarrow> signal list \<Rightarrow> signal list \<times> signal option" where
  "take_unmasked masks [] = ([], None)"
| "take_unmasked masks (s # ss) =
     (if masks s then (case take_unmasked masks ss of (rest, r) \<Rightarrow> (s # rest, r)) else (ss, Some s))"

definition signal_get_next_pending :: "sig_thread \<Rightarrow> (sig_thread \<times> signal option) option" where
  "signal_get_next_pending t = do {
     mos_assert (sg_lock t);
     let (rest, r) = take_unmasked (sg_masks t) (sg_pending t);
     Some (t\<lparr>sg_pending := rest\<rparr>, if r = Some (SIG_other 0) then None else r) }"

definition end_task :: "sig_process \<Rightarrow> sig_thread \<Rightarrow> signal \<Rightarrow> sig_outcome" where
  "end_task p t s = (if sg_tid t = sp_main p then Exit_Process s else Exit_Thread s)"

definition default_action :: "sig_process \<Rightarrow> sig_thread \<Rightarrow> signal \<Rightarrow> sig_outcome option" where
  "default_action p t s = do {
     skip \<leftarrow> (if sp_pid p = 1 then do { fatal \<leftarrow> is_fatal_signal s; Some (\<not> fatal) } else Some False);
     if skip then Some (Ignored s)
     else case s of
            SIGCHLD \<Rightarrow> Some (Ignored s)
          | SIG_other n \<Rightarrow> None
          | _ \<Rightarrow> Some (end_task p t s) }"

definition do_signal_exit_to_user_prepare ::
  "sig_process \<Rightarrow> sig_thread \<Rightarrow> signal \<Rightarrow> sigaction \<Rightarrow> (sig_thread \<times> sig_outcome) option" where
  "do_signal_exit_to_user_prepare p t s action =
     (case sa_handler action of
        SIG_DFL \<Rightarrow> do { r \<leftarrow> default_action p t s; Some (t, r) }
      | SIG_IGN \<Rightarrow> Some (t, Ignored s)
      | SA_HANDLER h \<Rightarrow> (
          let was_masked = sg_masks t s;
              t = (if \<not> was_masked then t\<lparr>sg_masks := (sg_masks t)(s := True)\<rparr> else t)
          in Some (t, Run_Handler s h \<lparr>sr_signal = s, sr_was_masked = was_masked\<rparr>)))"

definition signal_exit_to_user_prepare :: "sig_process \<Rightarrow> sig_thread \<Rightarrow> (sig_thread \<times> sig_outcome) option" where
  "signal_exit_to_user_prepare p t = do {
     t \<leftarrow> sig_acquire t;
     (t, next) \<leftarrow> signal_get_next_pending t;
     let t = sig_release t;
     case next of
       None \<Rightarrow> Some (t, To_User)
     | Some s \<Rightarrow> do_signal_exit_to_user_prepare p t s (sp_handlers p s) }"

text \<open>The value that a system call leaves: its own, an interruption, or a restart of the call.\<close>

datatype syscall_ret = Ret u64 | Ret_EINTR | Restart

definition ERESTARTSYS :: u64 where
  "ERESTARTSYS = 512"

definition signal_exit_to_user_prepare_syscall ::
  "sig_process \<Rightarrow> sig_thread \<Rightarrow> u64 \<Rightarrow> (sig_thread \<times> syscall_ret \<times> sig_outcome) option" where
  "signal_exit_to_user_prepare_syscall p t syscall_ret = do {
     t \<leftarrow> sig_acquire t;
     (t, next) \<leftarrow> signal_get_next_pending t;
     let t = sig_release t;
     ret \<leftarrow> (if syscall_ret = - ERESTARTSYS then do {
         s \<leftarrow> next;
         Some (if sa_restart (sp_handlers p s) then Restart else Ret_EINTR) }
       else Some (Ret syscall_ret));
     case next of
       None \<Rightarrow> Some (t, ret, To_User)
     | Some s \<Rightarrow> do {
         (t, r) \<leftarrow> do_signal_exit_to_user_prepare p t s (sp_handlers p s);
         Some (t, ret, r) } }"

definition signal_on_returned :: "sig_thread \<Rightarrow> sigreturn_data \<Rightarrow> sig_thread" where
  "signal_on_returned t d =
     (if \<not> sr_was_masked d then t\<lparr>sg_masks := (sg_masks t)(sr_signal d := False)\<rparr> else t)"

definition signal_has_pending :: "sig_thread \<Rightarrow> (sig_thread \<times> bool) option" where
  "signal_has_pending t = do {
     t \<leftarrow> sig_acquire t;
     let has_pending = sg_pending t \<noteq> [];
     Some (sig_release t, has_pending) }"

text \<open>Several returns to user mode, until the thread ends.\<close>

fun ends :: "sig_outcome \<Rightarrow> bool" where
  "ends (Exit_Process s) = True"
| "ends (Exit_Thread s) = True"
| "ends _ = False"

fun delivers :: "signal \<Rightarrow> sig_outcome \<Rightarrow> bool" where
  "delivers s To_User = False"
| "delivers s (Ignored r) = (r = s)"
| "delivers s (Exit_Process r) = (r = s)"
| "delivers s (Exit_Thread r) = (r = s)"
| "delivers s (Run_Handler r h d) = (r = s)"

fun user_returns :: "sig_process \<Rightarrow> nat \<Rightarrow> sig_thread \<Rightarrow> (sig_thread \<times> sig_outcome list) option" where
  "user_returns p 0 t = Some (t, [])"
| "user_returns p (Suc n) t = do {
     (t, r) \<leftarrow> signal_exit_to_user_prepare p t;
     if ends r then Some (t, [r])
     else do { (t, rs) \<leftarrow> user_returns p n t; Some (t, r # rs) } }"

section \<open>Delivery\<close>

lemma take_unmasked_find:
  "take_unmasked M ss = (case dropWhile M ss of [] \<Rightarrow> (ss, None) | s # r \<Rightarrow> (takeWhile M ss @ r, Some s))"
  by (induction ss) (auto split: list.split simp del: dropWhile_eq_Nil_conv takeWhile_eq_all_conv)

text \<open>The signals for which the default action is defined.\<close>

definition known :: "signal \<Rightarrow> bool" where
  "known s \<longleftrightarrow> is_fatal_signal s \<noteq> None"

lemma do_signal_runs:
  assumes "known s"
  shows "\<exists>t' r. do_signal_exit_to_user_prepare p t s a = Some (t', r) \<and> delivers s r \<and> sg_lock t' = sg_lock t \<and>
     sg_pending t' = sg_pending t \<and> (\<forall>x. x \<noteq> s \<longrightarrow> sg_masks t' x = sg_masks t x)"
proof -
  obtain f where "is_fatal_signal s = Some f"
    using assms by (auto simp: known_def)
  then show ?thesis
    by (auto simp: do_signal_exit_to_user_prepare_def default_action_def end_task_def Let_def
      split: sig_handler.split signal.split)
qed

text \<open>One return to user mode: it consumes the first signal that is not masked.\<close>

lemma exit_prepare_runs:
  assumes "\<not> sg_lock t" "\<forall>s \<in> set (sg_pending t). known s" "dropWhile (sg_masks t) (sg_pending t) = s # r"
  shows "\<exists>t' out. signal_exit_to_user_prepare p t = Some (t', out) \<and> delivers s out \<and> \<not> sg_lock t' \<and>
     sg_pending t' = takeWhile (sg_masks t) (sg_pending t) @ r \<and> (\<forall>x. x \<noteq> s \<longrightarrow> sg_masks t' x = sg_masks t x)"
proof -
  have "s \<in> set (sg_pending t)"
    using assms(3) by (metis list.set_intros(1) set_dropWhileD)
  then have "known s"
    using assms(2) by blast
  define u where "u = t\<lparr>sg_pending := takeWhile (sg_masks t) (sg_pending t) @ r\<rparr>"
  have u: "sig_release (t\<lparr>sg_lock := True, sg_pending := takeWhile (sg_masks t) (sg_pending t) @ r\<rparr>) = u"
    using assms(1) by (simp add: sig_release_def u_def)
  obtain t' out where "do_signal_exit_to_user_prepare p u s (sp_handlers p s) = Some (t', out)" "delivers s out"
    "sg_lock t' = sg_lock u" "sg_pending t' = sg_pending u" "\<forall>x. x \<noteq> s \<longrightarrow> sg_masks t' x = sg_masks u x"
    using do_signal_runs [OF \<open>known s\<close>] by blast
  moreover have "s \<noteq> SIG_other 0"
    using \<open>known s\<close> by (auto simp: known_def)
  ultimately show ?thesis
    using assms(1,3) u
    by (auto simp: signal_exit_to_user_prepare_def signal_get_next_pending_def sig_acquire_def take_unmasked_find u_def)
qed

lemma exit_prepare_idle:
  assumes "\<not> sg_lock t" "dropWhile (sg_masks t) (sg_pending t) = []"
  shows "signal_exit_to_user_prepare p t = Some (t, To_User)"
  using assms
  by (simp add: signal_exit_to_user_prepare_def signal_get_next_pending_def sig_acquire_def sig_release_def
      take_unmasked_find del: dropWhile_eq_Nil_conv)

lemma returns_total:
  assumes "\<not> sg_lock t" "\<forall>s \<in> set (sg_pending t). known s"
  shows "\<exists>t' rs. user_returns p n t = Some (t', rs)"
  using assms
proof (induction n arbitrary: t)
  case (Suc n)
  show ?case
  proof (cases "dropWhile (sg_masks t) (sg_pending t)")
    case Nil
    then show ?thesis
      using Suc.IH [OF Suc.prems] exit_prepare_idle [OF Suc.prems(1) Nil] by auto
  next
    case (Cons s r)
    obtain t' out where t': "signal_exit_to_user_prepare p t = Some (t', out)" "\<not> sg_lock t'"
      "sg_pending t' = takeWhile (sg_masks t) (sg_pending t) @ r"
      using exit_prepare_runs [OF Suc.prems Cons] by blast
    have "\<forall>s \<in> set (sg_pending t'). known s"
      using Suc.prems(2) Cons unfolding t'(3)
      by (metis Un_iff list.set_intros(2) set_append set_dropWhileD set_takeWhileD)
    then show ?thesis
      using Suc.IH [OF t'(2)] t'(1) by auto
  qed
qed simp

text \<open>
  A signal that is pending and not masked is delivered after at most as many returns as there are
  signals pending up to it.
\<close>

lemma delivered_after:
  assumes "\<not> sg_lock t" "\<forall>s \<in> set (sg_pending t). known s" "distinct (sg_pending t)"
    "s \<in> set (sg_pending t)" "\<not> sg_masks t s" "length (sg_pending t) \<le> n"
  shows "\<exists>t' rs. user_returns p n t = Some (t', rs) \<and> (\<exists>r \<in> set rs. delivers s r \<or> ends r)"
  using assms
proof (induction n arbitrary: t)
  case 0
  then show ?case by simp
next
  case (Suc n)
  let ?M = "sg_masks t" and ?P = "sg_pending t"
  obtain x r where x: "dropWhile ?M ?P = x # r"
    using Suc.prems(4,5) by (metis dropWhile_eq_Nil_conv list.exhaust)
  obtain t' out where t': "signal_exit_to_user_prepare p t = Some (t', out)" "delivers x out" "\<not> sg_lock t'"
    "sg_pending t' = takeWhile ?M ?P @ r" "\<forall>y. y \<noteq> x \<longrightarrow> sg_masks t' y = ?M y"
    using exit_prepare_runs [OF Suc.prems(1,2) x] by blast
  have P: "?P = takeWhile ?M ?P @ x # r"
    using x by (metis takeWhile_dropWhile_id)
  show ?case
  proof (cases "ends out \<or> x = s")
    case True
    show ?thesis
    proof (cases "ends out")
      case True
      then show ?thesis using t' by simp
    next
      case False
      \<comment> \<open>the run goes on, but the signal has been delivered\<close>
      have "\<forall>y \<in> set (sg_pending t'). known y"
        using Suc.prems(2) unfolding t'(4) by (subst (asm) P) auto
      then have "\<exists>t'' rs. user_returns p n t' = Some (t'', rs)"
        using returns_total [OF t'(3)] by blast
      then show ?thesis
        using True False t' by auto
    qed
  next
    case False
    have "length (sg_pending t') \<le> n"
      using Suc.prems(6) by (subst (asm) P) (simp add: t'(4))
    moreover have "set ?P = insert x (set (sg_pending t'))"
      using arg_cong [OF P, of set] by (simp add: t'(4))
    then have "s \<in> set (sg_pending t')" "\<forall>y \<in> set (sg_pending t'). known y"
      using Suc.prems(2,4) False by auto
    moreover have "distinct (sg_pending t')"
      using arg_cong [OF P, of distinct] Suc.prems(3) by (simp add: t'(4))
    moreover have "\<not> sg_masks t' s"
      using t'(5) False Suc.prems(5) by auto
    ultimately have "\<exists>t'' rs. user_returns p n t' = Some (t'', rs) \<and> (\<exists>r \<in> set rs. delivers s r \<or> ends r)"
      by (intro Suc.IH t'(3))
    then show ?thesis
      using t' False by auto
  qed
qed

section \<open>Properties\<close>

text \<open>
  C17: A signal that is pending and not masked reaches the thread: after at most as many returns to
  user mode as there are pending signals it has been delivered (ignored, handled, or the cause of an
  exit), unless another signal has ended the thread or the process before.  None of these returns
  blocks or panics, as long as the pending signals are the ones that the code names.
\<close>

theorem pending_signal_delivered:
  assumes "\<not> sg_lock t" "\<forall>s \<in> set (sg_pending t). known s" "distinct (sg_pending t)"
    "s \<in> set (sg_pending t)" "\<not> sg_masks t s"
  shows "\<exists>t' rs. user_returns p (length (sg_pending t)) t = Some (t', rs) \<and> (\<exists>r \<in> set rs. delivers s r \<or> ends r)"
  using delivered_after [OF assms] by blast

definition sig_example :: sig_thread where
  "sig_example = \<lparr>sg_tid = 7, sg_mode = THREAD_MODE_USER, sg_state = THREAD_STATE_RUNNING, sg_state_lock = False,
     sg_lock = False, sg_pending = [SIGCHLD, SIGINT, SIGTERM], sg_masks = (\<lambda>s. s = SIGINT)\<rparr>"

definition sig_process_example :: sig_process where
  "sig_process_example = \<lparr>sp_pid = 5, sp_main = 7,
     sp_handlers = (\<lambda>s. \<lparr>sa_handler = (if s = SIGCHLD then SA_HANDLER 4096 else SIG_DFL), sa_restart = False\<rparr>)\<rparr>"

theorem pending_signal_delivered_witness:
  "(\<exists>t' rs. user_returns sig_process_example 3 sig_example = Some (t', rs) \<and>
      (\<exists>r \<in> set rs. delivers SIGTERM r \<or> ends r)) \<and>
   map_option snd (user_returns sig_process_example 3 sig_example) =
     Some [Run_Handler SIGCHLD 4096 \<lparr>sr_signal = SIGCHLD, sr_was_masked = False\<rparr>, Exit_Process SIGTERM]"
proof
  have len: "length (sg_pending sig_example) = 3"
    by (simp add: sig_example_def)
  have "\<forall>s \<in> set (sg_pending sig_example). known s"
    by (auto simp: sig_example_def known_def)
  moreover have "\<not> sg_lock sig_example" "distinct (sg_pending sig_example)" "SIGTERM \<in> set (sg_pending sig_example)"
    "\<not> sg_masks sig_example SIGTERM"
    by (simp_all add: sig_example_def)
  ultimately show "\<exists>t' rs. user_returns sig_process_example 3 sig_example = Some (t', rs) \<and>
      (\<exists>r \<in> set rs. delivers SIGTERM r \<or> ends r)"
    unfolding len [symmetric] by (intro pending_signal_delivered)
  show "map_option snd (user_returns sig_process_example 3 sig_example) =
     Some [Run_Handler SIGCHLD 4096 \<lparr>sr_signal = SIGCHLD, sr_was_masked = False\<rparr>, Exit_Process SIGTERM]"
    by code_simp
qed

text \<open>
  C31: A system call that \<^verbatim>\<open>signal_has_pending\<close> has told to give up panics the kernel when every pending
  signal is masked: the test does not look at the masks, the call returns \<^verbatim>\<open>-ERESTARTSYS\<close>, and on the
  way to user mode no signal is found.
\<close>

theorem masked_restart_panics:
  assumes "\<not> sg_lock t" "sg_pending t \<noteq> []" "\<forall>s \<in> set (sg_pending t). sg_masks t s"
  shows "signal_has_pending t = Some (t, True) \<and> signal_exit_to_user_prepare_syscall p t (- ERESTARTSYS) = None"
proof -
  have "take_unmasked (sg_masks t) (sg_pending t) = (sg_pending t, None)"
    using assms(3) unfolding take_unmasked_find by (subst dropWhile_eq_Nil_conv [THEN iffD2]) auto
  then show ?thesis
    using assms(1,2)
    by (simp add: signal_has_pending_def signal_exit_to_user_prepare_syscall_def signal_get_next_pending_def
        sig_acquire_def sig_release_def)
qed

theorem masked_restart_panics_witness:
  "signal_has_pending (sig_example\<lparr>sg_pending := [SIGINT]\<rparr>) = Some (sig_example\<lparr>sg_pending := [SIGINT]\<rparr>, True) \<and>
   signal_exit_to_user_prepare_syscall sig_process_example (sig_example\<lparr>sg_pending := [SIGINT]\<rparr>) (- ERESTARTSYS) = None"
  by (rule masked_restart_panics) (simp_all add: sig_example_def)

end
