(* ===== verification/Mutex.thy ===== *)
theory Mutex
  imports Tasks
begin

text \<open>
  Futexes and the mutex built on them: \<^verbatim>\<open>kernel/lib/locks/futex.c\<close> and \<^verbatim>\<open>mutex.c\<close>.  A futex word is found
  by its key, the physical address; the translation \<open>phys\<close> of the page tables is an argument.  The
  entries of the futex list are never removed, so that a pointer to one is its position.

  Threads run the mutex operations concurrently.  The relation \<open>mutex_step\<close> has one rule for each atomic
  action: a compare and exchange, a load, and every section under a lock.  A panic is a state that has
  no such step.
\<close>

section \<open>Definitions\<close>

type_synonym futex_word = u32
type_synonym futex_key = ptr_t

record futex_private =
  fu_key :: futex_key
  fu_waiters :: waitlist

record futex_state =
  fs_words :: "futex_key \<Rightarrow> futex_word"
  fs_list :: "futex_private list"
  fs_lock :: bool
  fs_threads :: "unit threads"

definition futex_list_acquire :: "'a futex_state_scheme \<Rightarrow> 'a futex_state_scheme option" where
  "futex_list_acquire s = (if fs_lock s then None else Some (s\<lparr>fs_lock := True\<rparr>))"

definition futex_list_release :: "'a futex_state_scheme \<Rightarrow> 'a futex_state_scheme" where
  "futex_list_release s = s\<lparr>fs_lock := False\<rparr>"

definition futex_get_key :: "(ptr_t \<Rightarrow> ptr_t) \<Rightarrow> ptr_t \<Rightarrow> futex_key" where
  "futex_get_key phys futex = phys futex"

fun futex_find :: "futex_key \<Rightarrow> futex_private list \<Rightarrow> nat option" where
  "futex_find key [] = None"
| "futex_find key (f # fs) = (if fu_key f = key then Some 0 else map_option Suc (futex_find key fs))"

text \<open>The entry of a key, which \<^verbatim>\<open>futex_wait\<close> creates when it is missing.\<close>

definition futex_get :: "futex_key \<Rightarrow> bool \<Rightarrow> 'a futex_state_scheme \<Rightarrow> ('a futex_state_scheme \<times> nat) option" where
  "futex_get key kmalloc_ok s = do {
     s \<leftarrow> futex_list_acquire s;
     (s, i) \<leftarrow> (case futex_find key (fs_list s) of
         Some i \<Rightarrow> Some (s, i)
       | None \<Rightarrow> do {
           mos_assert kmalloc_ok;
           let fu = \<lparr>fu_key = key, fu_waiters = waitlist_init\<rparr>;
           Some (s\<lparr>fs_list := fs_list s @ [fu]\<rparr>, length (fs_list s)) });
     Some (futex_list_release s, i) }"

definition set_waiters :: "nat \<Rightarrow> waitlist \<Rightarrow> 'a futex_state_scheme \<Rightarrow> 'a futex_state_scheme" where
  "set_waiters i l s = s\<lparr>fs_list := (fs_list s)[i := (fs_list s ! i)\<lparr>fu_waiters := l\<rparr>]\<rparr>"

text \<open>\<^verbatim>\<open>futex_wait\<close> up to the point where the thread has given up the processor.\<close>

definition futex_wait ::
  "(ptr_t \<Rightarrow> ptr_t) \<Rightarrow> 'a futex_state_scheme \<Rightarrow> tid \<Rightarrow> ptr_t \<Rightarrow> futex_word \<Rightarrow> bool \<Rightarrow> ('a futex_state_scheme \<times> bool) option" where
  "futex_wait phys s current futex expected kmalloc_ok = (
     let current_value = fs_words s (phys futex)
     in if current_value \<noteq> expected then Some (s, False)
        else do {
          let key = futex_get_key phys futex;
          (s, fu) \<leftarrow> futex_get key kmalloc_ok s;
          (ts, l, ok) \<leftarrow> reschedule_for_waitlist (fs_threads s) current (fu_waiters (fs_list s ! fu)) kmalloc_ok;
          mos_assert ok;
          Some ((set_waiters fu l s)\<lparr>fs_threads := ts\<rparr>, True) })"

definition futex_wake ::
  "(ptr_t \<Rightarrow> ptr_t) \<Rightarrow> 'a futex_state_scheme \<Rightarrow> ptr_t \<Rightarrow> nat \<Rightarrow> ('a futex_state_scheme \<times> bool) option" where
  "futex_wake phys s futex num_to_wake = do {
     mos_assert (num_to_wake \<noteq> 0);
     let key = futex_get_key phys futex;
     s \<leftarrow> futex_list_acquire s;
     let fu = futex_find key (fs_list s);
     let s = futex_list_release s;
     case fu of
       None \<Rightarrow> Some (s, True)
     | Some fu \<Rightarrow> do {
         (ts, l, _) \<leftarrow> waitlist_wake (fs_threads s) (fu_waiters (fs_list s ! fu)) num_to_wake;
         Some ((set_waiters fu l s)\<lparr>fs_threads := ts\<rparr>, True) } }"

definition compare_exchange ::
  "'a futex_state_scheme \<Rightarrow> futex_key \<Rightarrow> futex_word \<Rightarrow> futex_word \<Rightarrow> 'a futex_state_scheme \<times> bool" where
  "compare_exchange s key expected desired =
     (if fs_words s key = expected then (s\<lparr>fs_words := (fs_words s)(key := desired)\<rparr>, True) else (s, False))"

definition mutex_release :: "(ptr_t \<Rightarrow> ptr_t) \<Rightarrow> 'a futex_state_scheme \<Rightarrow> ptr_t \<Rightarrow> 'a futex_state_scheme option" where
  "mutex_release phys s m =
     (case compare_exchange s (phys m) 1 0 of
        (s, True) \<Rightarrow> do { (s, _) \<leftarrow> futex_wake phys s m 1; Some s }
      | (s, False) \<Rightarrow> Some s)"

text \<open>One round of the loop of \<^verbatim>\<open>mutex_acquire\<close>: the mutex is taken, or the thread waits for it.\<close>

definition mutex_acquire_round ::
  "(ptr_t \<Rightarrow> ptr_t) \<Rightarrow> 'a futex_state_scheme \<Rightarrow> tid \<Rightarrow> ptr_t \<Rightarrow> bool \<Rightarrow> ('a futex_state_scheme \<times> bool) option" where
  "mutex_acquire_round phys s current m kmalloc_ok =
     (case compare_exchange s (phys m) 0 1 of
        (s, True) \<Rightarrow> Some (s, True)
      | (s, False) \<Rightarrow> do { (s, _) \<leftarrow> futex_wait phys s current m 1 kmalloc_ok; Some (s, False) })"

subsection \<open>Threads that share mutexes\<close>

text \<open>Where a thread is in the operations on a mutex.\<close>

datatype mutex_pc =
  Idle | Try ptr_t | Load ptr_t | Find ptr_t | Join ptr_t nat | Block ptr_t | Asleep ptr_t |
  Critical ptr_t | Unlocked ptr_t | Waking ptr_t nat

record mutex_system = futex_state +
  ms_pc :: "tid \<Rightarrow> mutex_pc"

definition goto :: "tid \<Rightarrow> mutex_pc \<Rightarrow> mutex_system \<Rightarrow> mutex_system" where
  "goto t pc s = s\<lparr>ms_pc := (ms_pc s)(t := pc)\<rparr>"

inductive mutex_step :: "(ptr_t \<Rightarrow> ptr_t) \<Rightarrow> mutex_system \<Rightarrow> mutex_system \<Rightarrow> bool" for phys where
  acquire: "ms_pc s t = Idle \<Longrightarrow> fs_threads s t = Some th \<Longrightarrow> mutex_step phys s (goto t (Try m) s)"
| taken: "ms_pc s t = Try m \<Longrightarrow> compare_exchange s (phys m) 0 1 = (s', True) \<Longrightarrow> mutex_step phys s (goto t (Critical m) s')"
| busy: "ms_pc s t = Try m \<Longrightarrow> compare_exchange s (phys m) 0 1 = (s', False) \<Longrightarrow> mutex_step phys s (goto t (Load m) s')"
| changed: "ms_pc s t = Load m \<Longrightarrow> fs_words s (phys m) \<noteq> 1 \<Longrightarrow> mutex_step phys s (goto t (Try m) s)"
| unchanged: "ms_pc s t = Load m \<Longrightarrow> fs_words s (phys m) = 1 \<Longrightarrow> mutex_step phys s (goto t (Find m) s)"
| find: "ms_pc s t = Find m \<Longrightarrow> futex_get (futex_get_key phys m) ok s = Some (s', i) \<Longrightarrow>
    mutex_step phys s (goto t (Join m i) s')"
| join: "ms_pc s t = Join m i \<Longrightarrow> fs_threads s t = Some th \<Longrightarrow>
    join_waitlist th t (fu_waiters (fs_list s ! i)) ok = Some (l, True) \<Longrightarrow>
    mutex_step phys s (goto t (Block m) (set_waiters i l s))"
| block: "ms_pc s t = Block m \<Longrightarrow> fs_threads s t = Some th \<Longrightarrow>
    mutex_step phys s (goto t (Asleep m) (s\<lparr>fs_threads := (fs_threads s)(t \<mapsto> block_for_waitlist th)\<rparr>))"
| resume: "ms_pc s t = Asleep m \<Longrightarrow> fs_threads s t = Some th \<Longrightarrow> schedule_to_thread None th = Some (th', Some flags) \<Longrightarrow>
    mutex_step phys s (goto t (Try m) (s\<lparr>fs_threads := (fs_threads s)(t \<mapsto> th')\<rparr>))"
| release: "ms_pc s t = Critical m \<Longrightarrow> compare_exchange s (phys m) 1 0 = (s', True) \<Longrightarrow>
    mutex_step phys s (goto t (Unlocked m) s')"
| not_held: "ms_pc s t = Critical m \<Longrightarrow> compare_exchange s (phys m) 1 0 = (s', False) \<Longrightarrow>
    mutex_step phys s (goto t Idle s')"
| nobody: "ms_pc s t = Unlocked m \<Longrightarrow> \<not> fs_lock s \<Longrightarrow> futex_find (futex_get_key phys m) (fs_list s) = None \<Longrightarrow>
    mutex_step phys s (goto t Idle s)"
| found: "ms_pc s t = Unlocked m \<Longrightarrow> \<not> fs_lock s \<Longrightarrow> futex_find (futex_get_key phys m) (fs_list s) = Some i \<Longrightarrow>
    mutex_step phys s (goto t (Waking m i) s)"
| wake: "ms_pc s t = Waking m i \<Longrightarrow> waitlist_wake (fs_threads s) (fu_waiters (fs_list s ! i)) 1 = Some (ts, l, n) \<Longrightarrow>
    mutex_step phys s (goto t Idle ((set_waiters i l s)\<lparr>fs_threads := ts\<rparr>))"

text \<open>All threads run and none of them uses a mutex; every mutex is \<^verbatim>\<open>MUTEX_INIT\<close>.\<close>

definition running_thread :: "unit thread" where
  "running_thread = \<lparr>t_owner = 1, t_mode = THREAD_MODE_USER, t_state_lock = False, t_state = THREAD_STATE_RUNNING,
     t_waiting = None, t_waiters = waitlist_init\<rparr>"

definition mutex_start :: "tid set \<Rightarrow> mutex_system" where
  "mutex_start T = \<lparr>fs_words = (\<lambda>_. 0), fs_list = [], fs_lock = False,
     fs_threads = (\<lambda>t. if t \<in> T then Some running_thread else None), ms_pc = (\<lambda>_. Idle)\<rparr>"

definition mutex_reachable :: "(ptr_t \<Rightarrow> ptr_t) \<Rightarrow> tid set \<Rightarrow> mutex_system \<Rightarrow> bool" where
  "mutex_reachable phys T s \<longleftrightarrow> (mutex_step phys)\<^sup>*\<^sup>* (mutex_start T) s"

text \<open>The threads that hold the mutex with a key.\<close>

definition holders :: "(ptr_t \<Rightarrow> ptr_t) \<Rightarrow> mutex_system \<Rightarrow> futex_key \<Rightarrow> tid set" where
  "holders phys s key = {t. \<exists>m. ms_pc s t = Critical m \<and> phys m = key}"

section \<open>Mutual exclusion\<close>

text \<open>A mutex is 0 or 1; it is 1 exactly when one thread holds it.\<close>

definition mutex_ok :: "(ptr_t \<Rightarrow> ptr_t) \<Rightarrow> mutex_system \<Rightarrow> bool" where
  "mutex_ok phys s \<longleftrightarrow> (\<forall>key. fs_words s key = 0 \<and> holders phys s key = {} \<or>
     fs_words s key = 1 \<and> (\<exists>t. holders phys s key = {t}))"

lemma goto_sel [simp]:
  "fs_words (goto t pc s) = fs_words s" "fs_list (goto t pc s) = fs_list s" "fs_lock (goto t pc s) = fs_lock s"
  "fs_threads (goto t pc s) = fs_threads s" "ms_pc (goto t pc s) = (ms_pc s)(t := pc)"
  by (simp_all add: goto_def)

lemma set_waiters_sel [simp]:
  "fs_words (set_waiters i l s) = fs_words s" "ms_pc (set_waiters i l u) = ms_pc u"
  by (simp_all add: set_waiters_def)

lemma compare_exchange_sel:
  "compare_exchange s key a b = (s', ok) \<Longrightarrow> ms_pc s' = ms_pc s \<and> ok = (fs_words s key = a) \<and>
     fs_words s' = (if ok then (fs_words s)(key := b) else fs_words s)"
  by (auto simp: compare_exchange_def split: if_splits)

lemma futex_get_sel:
  "futex_get key ok s = Some (s', i) \<Longrightarrow> fs_words s' = fs_words s \<and> ms_pc s' = ms_pc s"
  by (auto simp: futex_get_def futex_list_acquire_def futex_list_release_def Let_def
      split: option.splits if_splits bind_splits)

text \<open>A thread moves between two places that are not the critical section.\<close>

lemma holders_same:
  assumes "\<forall>m. pc \<noteq> Critical m" "\<forall>m. ms_pc s t \<noteq> Critical m" "ms_pc s' = (ms_pc s)(t := pc)"
  shows "holders phys s' = holders phys s"
  using assms by (auto simp: holders_def fun_eq_iff split: if_splits)

lemma mutex_ok_same:
  assumes "mutex_ok phys s" "\<forall>m. pc \<noteq> Critical m" "\<forall>m. ms_pc s t \<noteq> Critical m"
    "ms_pc s' = ms_pc s" "fs_words s' = fs_words s"
  shows "mutex_ok phys (goto t pc s')"
  using assms(1) holders_same [OF assms(2,3), of "goto t pc s'" phys] assms(4,5) by (simp add: mutex_ok_def)

lemma mutex_ok_taken:
  assumes "mutex_ok phys s" "ms_pc s t = Try m" "compare_exchange s (phys m) 0 1 = (s', True)"
  shows "mutex_ok phys (goto t (Critical m) s')"
proof -
  have s': "ms_pc s' = ms_pc s" "fs_words s (phys m) = 0" "fs_words s' = (fs_words s)(phys m := 1)"
    using compare_exchange_sel [OF assms(3)] by auto
  have h: "holders phys (goto t (Critical m) s') key = (if key = phys m then {t} \<union> holders phys s key else holders phys s key)" for key
    using assms(2) s'(1) by (auto simp: holders_def)
  show ?thesis
    using assms(1) s' by (auto simp: mutex_ok_def h)
qed

lemma mutex_ok_release:
  assumes "mutex_ok phys s" "ms_pc s t = Critical m" "compare_exchange s (phys m) 1 0 = (s', True)"
  shows "mutex_ok phys (goto t (Unlocked m) s')"
proof -
  have s': "ms_pc s' = ms_pc s" "fs_words s (phys m) = 1" "fs_words s' = (fs_words s)(phys m := 0)"
    using compare_exchange_sel [OF assms(3)] by auto
  have h: "holders phys (goto t (Unlocked m) s') key = holders phys s key - {t}" for key
    using s'(1) by (auto simp: holders_def)
  have t: "t \<in> holders phys s key \<longleftrightarrow> key = phys m" for key
    using assms(2) by (auto simp: holders_def)
  have "holders phys s (phys m) = {t}"
    using assms(1) s'(2) t [of "phys m"] by (auto simp: mutex_ok_def)
  then show ?thesis
    using assms(1) s' t by (auto simp: mutex_ok_def h)
qed

text \<open>The holder of a mutex always releases it.\<close>

lemma held_is_1:
  assumes "mutex_ok phys s" "ms_pc s t = Critical m"
  shows "fs_words s (phys m) = 1"
  using assms by (auto simp: mutex_ok_def holders_def)

lemma mutex_step_ok:
  assumes "mutex_step phys s s'" "mutex_ok phys s"
  shows "mutex_ok phys s'"
  using assms
proof (induction rule: mutex_step.induct)
  case (busy s t m s')
  then show ?case
    using compare_exchange_sel [OF busy(2)] by (auto intro: mutex_ok_same)
next
  case (not_held s t m s')
  then show ?case
    using held_is_1 compare_exchange_sel by blast
qed (auto intro: mutex_ok_taken mutex_ok_release mutex_ok_same dest: compare_exchange_sel futex_get_sel)

lemma mutex_reachable_ok:
  assumes "mutex_reachable phys T s"
  shows "mutex_ok phys s"
proof -
  have "mutex_ok phys (mutex_start T)"
    by (simp add: mutex_ok_def mutex_start_def holders_def)
  with assms show ?thesis
    unfolding mutex_reachable_def by (induction rule: rtranclp_induct) (auto intro: mutex_step_ok)
qed

section \<open>The operations as runs of the relation\<close>

text \<open>
  The sequential functions are the runs in which no other thread interferes.
\<close>

lemma goto_goto [simp]: "goto t a (goto t b s) = goto t a s"
  by (simp add: goto_def)

lemma goto_upd:
  "(goto t pc s)\<lparr>fs_threads := ts\<rparr> = goto t pc (s\<lparr>fs_threads := ts\<rparr>)"
  "set_waiters i l (goto t pc s) = goto t pc (set_waiters i l s)"
  by (simp_all add: goto_def set_waiters_def)

lemma futex_get_goto:
  "futex_get key ok (goto t pc s) = map_option (\<lambda>(s', i). (goto t pc s', i)) (futex_get key ok s)"
  by (cases ok) (auto simp: futex_get_def futex_list_acquire_def futex_list_release_def goto_def Let_def mos_assert_def
      split: option.split)

lemma compare_exchange_goto:
  "compare_exchange (goto t pc s) key a b = (goto t pc (fst (compare_exchange s key a b)), snd (compare_exchange s key a b))"
  by (simp add: compare_exchange_def goto_def)

lemma steps_trans: "mutex_step phys s s' \<Longrightarrow> (mutex_step phys)\<^sup>*\<^sup>* s' s'' \<Longrightarrow> (mutex_step phys)\<^sup>*\<^sup>* s s''"
  by (rule converse_rtranclp_into_rtranclp)

lemma futex_wait_runs:
  assumes "ms_pc s t = Load m" "futex_wait phys s t m 1 ok = Some (s', slept)"
  shows "(mutex_step phys)\<^sup>*\<^sup>* s (goto t (if slept then Asleep m else Try m) s')"
proof (cases "fs_words s (phys m) = 1")
  case False
  then show ?thesis
    using assms by (auto simp: futex_wait_def intro: mutex_step.changed)
next
  case True
  obtain s1 i ts l where w: "futex_get (futex_get_key phys m) ok s = Some (s1, i)"
    "reschedule_for_waitlist (fs_threads s1) t (fu_waiters (fs_list s1 ! i)) ok = Some (ts, l, True)"
    "s' = (set_waiters i l s1)\<lparr>fs_threads := ts\<rparr>" "slept"
    using assms(2) True by (auto simp: futex_wait_def split: bind_splits)
  obtain th where th: "fs_threads s1 t = Some th"
    "join_waitlist th t (fu_waiters (fs_list s1 ! i)) ok = Some (l, True)" "ts = (fs_threads s1)(t \<mapsto> block_for_waitlist th)"
    using w(2) by (auto simp: reschedule_for_waitlist_def split: bind_splits if_splits)
  let ?s2 = "goto t (Find m) s" and ?s3 = "goto t (Join m i) s1" and ?s4 = "goto t (Block m) (set_waiters i l s1)"
  have "mutex_step phys s ?s2"
    using assms(1) True by (rule mutex_step.unchanged)
  moreover have "mutex_step phys ?s2 ?s3"
    using mutex_step.find [of ?s2 t m phys ok "goto t (Find m) s1" i] w(1) by (simp add: futex_get_goto)
  moreover have "mutex_step phys ?s3 ?s4"
    using mutex_step.join [of ?s3 t m i th ok l] th by (simp add: goto_upd)
  moreover have "mutex_step phys ?s4 (goto t (Asleep m) s')"
    using mutex_step.block [of ?s4 t m th] th(1,3) w(3) by (simp add: goto_upd set_waiters_def)
  ultimately show ?thesis
    using w(4) by (auto intro: steps_trans)
qed

lemma mutex_acquire_round_runs:
  assumes "ms_pc s t = Try m" "mutex_acquire_round phys s t m ok = Some (s', held)"
  shows "\<exists>pc. (mutex_step phys)\<^sup>*\<^sup>* s (goto t pc s') \<and> (if held then pc = Critical m else pc \<in> {Try m, Asleep m})"
proof (cases "compare_exchange s (phys m) 0 1")
  case (Pair s1 ok1)
  show ?thesis
  proof (cases ok1)
    case True
    then show ?thesis
      using assms Pair mutex_step.taken [OF assms(1), of phys s1] by (auto simp: mutex_acquire_round_def)
  next
    case False
    then have s1: "s1 = s"
      using Pair by (auto simp: compare_exchange_def split: if_splits)
    obtain slept where w: "futex_wait phys s t m 1 ok = Some (s', slept)" "\<not> held"
      using assms(2) False Pair s1 by (auto simp: mutex_acquire_round_def split: bind_splits)
    have "mutex_step phys s (goto t (Load m) s)"
      using mutex_step.busy [OF assms(1), of phys s1] Pair False s1 by simp
    moreover have "futex_wait phys (goto t (Load m) s) t m 1 ok = Some (goto t (Load m) s', slept)"
      using w(1) by (auto simp: futex_wait_def futex_get_goto goto_upd split: bind_splits if_splits)
    from futex_wait_runs [OF _ this]
    have "(mutex_step phys)\<^sup>*\<^sup>* (goto t (Load m) s) (goto t (if slept then Asleep m else Try m) s')"
      by simp
    ultimately have "(mutex_step phys)\<^sup>*\<^sup>* s (goto t (if slept then Asleep m else Try m) s')"
      by (rule steps_trans)
    then show ?thesis
      using w(2) by (intro exI [of _ "if slept then Asleep m else Try m"]) simp
  qed
qed

lemma mutex_release_runs:
  assumes "ms_pc s t = Critical m" "mutex_release phys s m = Some s'"
  shows "(mutex_step phys)\<^sup>*\<^sup>* s (goto t Idle s')"
proof (cases "compare_exchange s (phys m) 1 0")
  case (Pair s1 ok1)
  show ?thesis
  proof (cases ok1)
    case False
    then show ?thesis
      using assms Pair mutex_step.not_held [OF assms(1), of phys s1] by (auto simp: mutex_release_def)
  next
    case True
    have 1: "mutex_step phys s (goto t (Unlocked m) s1)"
      using mutex_step.release [OF assms(1), of phys s1] Pair True by simp
    have w: "futex_wake phys s1 m 1 = Some (s', True)" and unlocked: "\<not> fs_lock s1"
      using assms(2) Pair True
      by (auto simp: mutex_release_def futex_wake_def futex_list_acquire_def Let_def split: bind_splits option.splits if_splits)
    have rel: "futex_list_release (s1\<lparr>fs_lock := True\<rparr>) = s1"
      using unlocked by (simp add: futex_list_release_def)
    show ?thesis
    proof (cases "futex_find (futex_get_key phys m) (fs_list s1)")
      case None
      then have "s' = s1"
        using w unlocked rel by (simp add: futex_wake_def futex_list_acquire_def)
      then show ?thesis
        using 1 mutex_step.nobody [of "goto t (Unlocked m) s1" t m phys] unlocked None by (auto intro: steps_trans)
    next
      case (Some i)
      obtain ts l n where wl: "waitlist_wake (fs_threads s1) (fu_waiters (fs_list s1 ! i)) 1 = Some (ts, l, n)"
        "s' = (set_waiters i l s1)\<lparr>fs_threads := ts\<rparr>"
        using w Some unlocked rel by (auto simp: futex_wake_def futex_list_acquire_def split: bind_splits)
      have "mutex_step phys (goto t (Unlocked m) s1) (goto t (Waking m i) s1)"
        using mutex_step.found [of "goto t (Unlocked m) s1" t m phys i] unlocked Some by simp
      moreover have "mutex_step phys (goto t (Waking m i) s1) (goto t Idle s')"
        using mutex_step.wake [of "goto t (Waking m i) s1" t m i ts l n phys] wl by (simp add: goto_upd)
      ultimately show ?thesis
        using 1 by (auto intro: steps_trans)
    qed
  qed
qed

section \<open>Properties\<close>

text \<open>
  C12: Mutual exclusion: however the threads interleave, every mutex is 0 while nobody holds it and 1
  while exactly one thread holds it, also when it is reached under different addresses; a thread that
  holds it will pass the comparison of \<^verbatim>\<open>mutex_release\<close>.
\<close>

theorem mutex_exclusion:
  assumes "mutex_reachable phys T s"
  shows "(fs_words s key = 0 \<and> holders phys s key = {}) \<or> (fs_words s key = 1 \<and> (\<exists>t. holders phys s key = {t}))"
  using mutex_reachable_ok [OF assms] unfolding mutex_ok_def by blast

text \<open>Thread 1 takes the mutex.\<close>

definition one_holds :: "ptr_t \<Rightarrow> ptr_t \<Rightarrow> mutex_system" where
  "one_holds m key = goto 1 (Critical m) ((mutex_start {1, 2})\<lparr>fs_words := (\<lambda>_. 0)(key := 1)\<rparr>)"

lemma one_holds_reachable: "mutex_reachable phys {1, 2} (one_holds m (phys m))"
proof -
  have "mutex_step phys (mutex_start {1, 2}) (goto 1 (Try m) (mutex_start {1, 2}))"
    by (rule mutex_step.acquire [where th = running_thread]) (simp_all add: mutex_start_def)
  moreover have "mutex_step phys (goto 1 (Try m) (mutex_start {1, 2})) (one_holds m (phys m))"
    using mutex_step.taken [of "goto 1 (Try m) (mutex_start {1, 2})" 1 m phys
        "goto 1 (Try m) ((mutex_start {1, 2})\<lparr>fs_words := (\<lambda>_. 0)(phys m := 1)\<rparr>)"]
    by (simp add: compare_exchange_def one_holds_def goto_def mutex_start_def)
  ultimately show ?thesis
    unfolding mutex_reachable_def by (auto intro: steps_trans)
qed

theorem mutex_exclusion_witness:
  "mutex_reachable id {1, 2} (one_holds 4096 4096) \<and> fs_words (one_holds 4096 4096) 4096 = 1 \<and>
   holders id (one_holds 4096 4096) 4096 = {1}"
proof -
  have r: "mutex_reachable id {1, 2} (one_holds 4096 4096)"
    using one_holds_reachable [of id 4096] by simp
  have "1 \<in> holders id (one_holds 4096 4096) 4096"
    by (simp add: holders_def one_holds_def)
  then show ?thesis
    using r mutex_exclusion [OF r, of 4096] by auto
qed

text \<open>
  The run that loses a wake-up: thread 2 has seen that thread 1 holds the mutex; thread 1 releases it;
  thread 2 goes to sleep.
\<close>

definition about_to_sleep :: "ptr_t \<Rightarrow> ptr_t \<Rightarrow> mutex_system" where
  "about_to_sleep m key = goto 2 (Find m) (one_holds m key)"

definition released :: "ptr_t \<Rightarrow> mutex_system" where
  "released m = goto 2 (Find m) (mutex_start {1, 2})"

definition sleeps_alone :: "ptr_t \<Rightarrow> ptr_t \<Rightarrow> mutex_system" where
  "sleeps_alone m key = goto 2 (Asleep m) ((mutex_start {1, 2})\<lparr>
     fs_list := [\<lparr>fu_key = key, fu_waiters = waitlist_init\<lparr>wl_list := [2]\<rparr>\<rparr>],
     fs_threads := (fs_threads (mutex_start {1, 2}))(2 \<mapsto> block_for_waitlist running_thread)\<rparr>)"

lemma run_to_about_to_sleep: "(mutex_step phys)\<^sup>*\<^sup>* (one_holds m (phys m)) (about_to_sleep m (phys m))"
proof -
  let ?s = "one_holds m (phys m)"
  have "mutex_step phys ?s (goto 2 (Try m) ?s)"
    by (rule mutex_step.acquire [where th = running_thread]) (simp_all add: one_holds_def mutex_start_def)
  moreover have "mutex_step phys (goto 2 (Try m) ?s) (goto 2 (Load m) ?s)"
    using mutex_step.busy [of "goto 2 (Try m) ?s" 2 m phys "goto 2 (Try m) ?s"]
    by (simp add: compare_exchange_def one_holds_def)
  moreover have "mutex_step phys (goto 2 (Load m) ?s) (about_to_sleep m (phys m))"
    using mutex_step.unchanged [of "goto 2 (Load m) ?s" 2 m phys] by (simp add: about_to_sleep_def one_holds_def)
  ultimately show ?thesis
    by (auto intro: steps_trans)
qed

lemma run_to_released: "(mutex_step phys)\<^sup>*\<^sup>* (about_to_sleep m (phys m)) (released m)"
proof -
  let ?s = "about_to_sleep m (phys m)"
  have "((\<lambda>_. 0)(phys m := 1))(phys m := 0) = (\<lambda>_. 0 :: futex_word)"
    by (rule ext) simp
  then have "mutex_release phys ?s m = Some (?s\<lparr>fs_words := \<lambda>_. 0\<rparr>)"
    by (simp add: mutex_release_def compare_exchange_def futex_wake_def futex_list_acquire_def futex_list_release_def
        about_to_sleep_def one_holds_def mutex_start_def goto_def)
  moreover have "goto 1 Idle (?s\<lparr>fs_words := \<lambda>_. 0\<rparr>) = released m"
    by (auto simp: about_to_sleep_def released_def one_holds_def mutex_start_def goto_def fun_eq_iff)
  ultimately show ?thesis
    using mutex_release_runs [of ?s 1 m phys] by (simp add: about_to_sleep_def one_holds_def)
qed

lemma run_to_sleeps_alone: "(mutex_step phys)\<^sup>*\<^sup>* (released m) (sleeps_alone m (phys m))"
proof -
  let ?S = "mutex_start {1, 2}" and ?fu = "\<lparr>fu_key = phys m, fu_waiters = waitlist_init\<rparr>"
  let ?l = "waitlist_init\<lparr>wl_list := [2]\<rparr>"
  let ?s1 = "goto 2 (Join m 0) (?S\<lparr>fs_list := [?fu]\<rparr>)" and ?s2 = "goto 2 (Block m) (?S\<lparr>fs_list := [?fu\<lparr>fu_waiters := ?l\<rparr>]\<rparr>)"
  have "mutex_step phys (released m) ?s1"
    using mutex_step.find [of "released m" 2 m phys True "goto 2 (Find m) (?S\<lparr>fs_list := [?fu]\<rparr>)" 0]
    by (simp add: released_def futex_get_goto futex_get_def futex_list_acquire_def futex_list_release_def futex_get_key_def
        mutex_start_def)
  moreover have "mutex_step phys ?s1 ?s2"
    using mutex_step.join [of ?s1 2 m 0 running_thread True ?l phys]
    by (simp add: join_waitlist_def waitlist_append_def wl_acquire_def wl_release_def waitlist_init_def running_thread_def
        mutex_start_def set_waiters_def goto_def)
  moreover have "mutex_step phys ?s2 (sleeps_alone m (phys m))"
    using mutex_step.block [of ?s2 2 m running_thread phys]
    by (simp add: sleeps_alone_def goto_upd mutex_start_def goto_def)
  ultimately show ?thesis
    by (auto intro: steps_trans)
qed

lemma sleeps_alone_stays:
  assumes "mutex_step phys (sleeps_alone m key) s'"
  shows "ms_pc s' 2 = Asleep m"
  using assms
proof cases
  case (resume t m' th th' flags)
  then show ?thesis
    by (auto simp: sleeps_alone_def mutex_start_def running_thread_def block_for_waitlist_def state_release_def
        schedule_to_thread_def state_acquire_def should_schedule_to_thread_def split: if_splits)
qed (auto simp: sleeps_alone_def mutex_start_def split: if_splits dest: compare_exchange_sel futex_get_sel)

text \<open>
  C29: A wake-up of \<^verbatim>\<open>mutex_release\<close> can be lost: \<^verbatim>\<open>futex_wait\<close> compares the word before it joins the wait
  list.  When the holder releases the mutex in between, it finds nobody to wake; then the mutex is
  free and nobody is about to release it, but the other thread sleeps and does not move by itself.
\<close>

theorem mutex_lost_wakeup:
  "\<exists>s. mutex_reachable phys {1, 2} s \<and> fs_words s (phys m) = 0 \<and> ms_pc s = (\<lambda>_. Idle)(2 := Asleep m) \<and>
     \<not> (\<exists>s'. mutex_step phys s s' \<and> ms_pc s' 2 \<noteq> Asleep m)"
proof (intro exI conjI)
  show "mutex_reachable phys {1, 2} (sleeps_alone m (phys m))"
    using one_holds_reachable [of phys m] run_to_about_to_sleep run_to_released run_to_sleeps_alone
    unfolding mutex_reachable_def by (meson rtranclp_trans)
  show "\<not> (\<exists>s'. mutex_step phys (sleeps_alone m (phys m)) s' \<and> ms_pc s' 2 \<noteq> Asleep m)"
    using sleeps_alone_stays by blast
qed (simp_all add: sleeps_alone_def mutex_start_def)

end
