(* ===== verification/Io.thy ===== *)
theory Io
  imports MOS_Prelude
begin

text \<open>
  I/O objects with reference counts, \<^verbatim>\<open>kernel/io/io.c\<close>, and the file descriptors of processes that refer to
  them: \<^verbatim>\<open>process.c\<close>, the copy of the table in \<^verbatim>\<open>fork.c\<close> and the descriptor calls of \<^verbatim>\<open>ksyscall.c\<close>.  The
  objects live in a table under their addresses.  The operations of an object are functions on the state
  of its device, \<open>'d\<close>; a null pointer is \<^const>\<open>None\<close>, and calling it faults.  The value -1 and the negated
  error numbers are the constructors of \<open>io_error\<close>.
\<close>

section \<open>Definitions\<close>

unbundle bit_operations_syntax

type_synonym io_id = nat

definition IO_READABLE :: u32 where "IO_READABLE = 1"
definition IO_WRITABLE :: u32 where "IO_WRITABLE = 2"
definition IO_SEEKABLE :: u32 where "IO_SEEKABLE = 8"
definition IO_MMAPABLE :: u32 where "IO_MMAPABLE = 16"
definition VM_WRITE :: u32 where "VM_WRITE = 2"

datatype io_type = IO_NULL | IO_FILE | IO_DIR | IO_IPC | IO_PIPE | IO_CONSOLE

datatype io_seek_whence = IO_SEEK_CURRENT | IO_SEEK_END | IO_SEEK_SET | IO_SEEK_DATA | IO_SEEK_HOLE

datatype vmap_content = VMAP_UNKNOWN | VMAP_HEAP | VMAP_STACK | VMAP_FILE | VMAP_MMAP | VMAP_DMA

datatype vmap_type = VMAP_TYPE_UNSET | VMAP_TYPE_PRIVATE | VMAP_TYPE_SHARED

text \<open>
  Of the fault handler of a mapping only its presence matters here.  The type of a new mapping is the
  zero of its memory, which is neither of the two types.
\<close>

record vmap =
  vm_lock :: bool
  vm_vaddr :: ptr_t
  vm_npages :: size_t
  vm_vmflags :: u32
  vm_io :: "io_id option"
  vm_io_offset :: u64
  vm_content :: vmap_content
  vm_type :: vmap_type
  vm_on_fault :: bool

text \<open>A read returns the bytes that it stores in the buffer along with its result.\<close>

record 'd io_op =
  op_read :: "('d \<Rightarrow> size_t \<Rightarrow> 'd \<times> u8 list \<times> size_t) option"
  op_write :: "('d \<Rightarrow> u8 list \<Rightarrow> size_t \<Rightarrow> 'd \<times> size_t) option"
  op_close :: "('d \<Rightarrow> 'd) option"
  op_seek :: "('d \<Rightarrow> u64 \<Rightarrow> io_seek_whence \<Rightarrow> 'd \<times> u64) option"
  op_mmap :: "('d \<Rightarrow> vmap \<Rightarrow> u64 \<Rightarrow> 'd \<times> vmap \<times> bool) option"
  op_munmap :: "('d \<Rightarrow> vmap \<Rightarrow> 'd \<times> bool \<times> bool) option"

record 'd io =
  io_closed :: bool
  io_refcount :: size_t
  io_flags :: u32
  io_type :: io_type
  io_ops :: "'d io_op"
  io_dev :: 'd

type_synonym 'd ios = "io_id \<rightharpoonup> 'd io"

subsection \<open>Operations on objects\<close>

text \<open>The new object at the address of \<open>io\<close>; missing operations are only warned about.\<close>

definition io_init :: "'d io \<Rightarrow> io_type \<Rightarrow> u32 \<Rightarrow> 'd io_op \<Rightarrow> 'd io" where
  "io_init io type flags ops = io\<lparr>io_flags := flags, io_type := type, io_ops := ops, io_closed := False, io_refcount := 0\<rparr>"

definition io_null_ops :: "'d io_op" where
  "io_null_ops = \<lparr>op_read = Some (\<lambda>d n. (d, [], 0)), op_write = Some (\<lambda>d bs n. (d, 0)), op_close = None, op_seek = None,
     op_mmap = None, op_munmap = None\<rparr>"

definition io_null_impl :: "'d \<Rightarrow> 'd io" where
  "io_null_impl d = \<lparr>io_closed = False, io_refcount = 1, io_flags = IO_READABLE OR IO_WRITABLE, io_type = IO_NULL,
     io_ops = io_null_ops, io_dev = d\<rparr>"

text \<open>The result of \<^verbatim>\<open>io_ref\<close> and \<^verbatim>\<open>io_unref\<close> is the object or null.\<close>

definition io_ref :: "'d ios \<Rightarrow> io_id option \<Rightarrow> ('d ios \<times> io_id option) option" where
  "io_ref h i =
     (case i of
        None \<Rightarrow> Some (h, None)
      | Some i \<Rightarrow> do {
          io \<leftarrow> h i;
          if io_closed io then Some (h, None)
          else Some (h(i \<mapsto> io\<lparr>io_refcount := io_refcount io + 1\<rparr>), Some i) })"

definition io_unref :: "'d ios \<Rightarrow> io_id \<Rightarrow> ('d ios \<times> io_id option) option" where
  "io_unref h i = do {
     io \<leftarrow> h i;
     if io_closed io then Some (h, None)
     else if io_refcount io = 0 then Some (h, None)
     else (
       let io = io\<lparr>io_refcount := io_refcount io - 1\<rparr>
       in if io_refcount io = 0 then
            (case op_close (io_ops io) of
               Some close \<Rightarrow> (
                 let io = io\<lparr>io_closed := True\<rparr>
                 in Some (h(i \<mapsto> io\<lparr>io_dev := close (io_dev io)\<rparr>), None))
             | None \<Rightarrow> Some (h(i \<mapsto> io), None))
          else Some (h(i \<mapsto> io), Some i)) }"

text \<open>
  The test of \<^verbatim>\<open>io->ops\<close> always holds here: an object has a table of operations, not a pointer to one, as
  \<^verbatim>\<open>io_init\<close> is always called with the address of a static table.
\<close>

definition io_valid :: "'d ios \<Rightarrow> io_id option \<Rightarrow> bool option" where
  "io_valid h i =
     (case i of
        None \<Rightarrow> Some False
      | Some i \<Rightarrow> do { io \<leftarrow> h i; Some (\<not> io_closed io \<and> io_refcount io > 0) })"

definition io_read :: "'d io \<Rightarrow> size_t \<Rightarrow> ('d io \<times> u8 list \<times> size_t) option" where
  "io_read io count =
     (if io_closed io then Some (io, [], 0)
      else if io_flags io AND IO_READABLE = 0 then Some (io, [], 0)
      else do {
        read \<leftarrow> op_read (io_ops io);
        let (d, bytes, r) = read (io_dev io) count;
        Some (io\<lparr>io_dev := d\<rparr>, bytes, r) })"

definition io_write :: "'d io \<Rightarrow> u8 list \<Rightarrow> size_t \<Rightarrow> ('d io \<times> size_t) option" where
  "io_write io buf count =
     (if io_closed io then Some (io, 0)
      else if io_flags io AND IO_WRITABLE = 0 then Some (io, 0)
      else do {
        write \<leftarrow> op_write (io_ops io);
        let (d, r) = write (io_dev io) buf count;
        Some (io\<lparr>io_dev := d\<rparr>, r) })"

definition io_seek :: "'d io \<Rightarrow> u64 \<Rightarrow> io_seek_whence \<Rightarrow> ('d io \<times> u64) option" where
  "io_seek io offset whence =
     (if io_closed io then Some (io, 0)
      else if io_flags io AND IO_SEEKABLE = 0 then Some (io, 0)
      else do {
        seek \<leftarrow> op_seek (io_ops io);
        let (d, r) = seek (io_dev io) offset whence;
        Some (io\<lparr>io_dev := d\<rparr>, r) })"

definition io_tell :: "'d io \<Rightarrow> ('d io \<times> u64) option" where
  "io_tell io = io_seek io 0 IO_SEEK_CURRENT"

definition io_pread :: "'d io \<Rightarrow> size_t \<Rightarrow> u64 \<Rightarrow> ('d io \<times> u8 list \<times> size_t) option" where
  "io_pread io count offset =
     (if io_closed io then Some (io, [], 0)
      else if io_flags io AND IO_READABLE = 0 then Some (io, [], 0)
      else if io_flags io AND IO_SEEKABLE = 0 then Some (io, [], 0)
      else do {
        (io, old_offset) \<leftarrow> io_tell io;
        (io, _) \<leftarrow> io_seek io offset IO_SEEK_SET;
        (io, bytes, ret) \<leftarrow> io_read io count;
        (io, _) \<leftarrow> io_seek io old_offset IO_SEEK_SET;
        Some (io, bytes, ret) })"

definition io_mmap_perm_check :: "'d io \<Rightarrow> u32 \<Rightarrow> bool \<Rightarrow> bool" where
  "io_mmap_perm_check io flags private =
     (if io_closed io then False
      else if io_flags io AND IO_MMAPABLE = 0 then False
      else if io_flags io AND IO_READABLE = 0 then False
      else if flags AND VM_WRITE \<noteq> 0 \<and> \<not> (private \<or> io_flags io AND IO_WRITABLE \<noteq> 0) then False
      else True)"

definition io_mmap :: "'d ios \<Rightarrow> io_id \<Rightarrow> vmap \<Rightarrow> u64 \<Rightarrow> ('d ios \<times> vmap \<times> bool) option" where
  "io_mmap h i vmap offset = do {
     io \<leftarrow> h i;
     if \<not> io_mmap_perm_check io (vm_vmflags vmap) (vm_type vmap = VMAP_TYPE_PRIVATE) then Some (h, vmap, False)
     else do {
       let vmap = vmap\<lparr>vm_io := Some i, vm_io_offset := offset\<rparr>;
       mmap \<leftarrow> op_mmap (io_ops io);
       let (d, vmap, ok) = mmap (io_dev io) vmap offset;
       let h = h(i \<mapsto> io\<lparr>io_dev := d\<rparr>);
       if \<not> ok then Some (h, vmap, False)
       else do {
         mos_assert (vm_on_fault vmap);
         (h, _) \<leftarrow> io_ref h (Some i);
         Some (h, vmap, True) } } }"

text \<open>The second result is the value of \<^verbatim>\<open>*unmapped\<close>, when the object sets it.\<close>

definition io_munmap :: "'d ios \<Rightarrow> io_id \<Rightarrow> vmap \<Rightarrow> ('d ios \<times> bool \<times> bool option) option" where
  "io_munmap h i vmap = do {
     io \<leftarrow> h i;
     if io_closed io then Some (h, False, None)
     else if vm_io vmap = None then Some (h, False, None)
     else if vm_io vmap \<noteq> Some i then Some (h, False, None)
     else do {
       (h, ok, unmapped) \<leftarrow> (case op_munmap (io_ops io) of
           Some munmap \<Rightarrow> (
             let (d, ok, unmapped) = munmap (io_dev io) vmap
             in Some (h(i \<mapsto> io\<lparr>io_dev := d\<rparr>), ok, Some unmapped))
         | None \<Rightarrow> Some (h, True, None));
       if \<not> ok then Some (h, False, unmapped)
       else do {
         (h, _) \<leftarrow> io_unref h i;
         Some (h, True, unmapped) } } }"

subsection \<open>File descriptors\<close>

definition MOS_PROCESS_MAX_OPEN_FILES :: nat where
  "MOS_PROCESS_MAX_OPEN_FILES = 64"

record fd_type =
  fd_io :: "io_id option"
  fd_flags :: u32

definition nullfd :: fd_type where
  "nullfd = \<lparr>fd_io = None, fd_flags = 0\<rparr>"

datatype io_error = EBADF | EFAULT | EMFILE | MINUS_ONE

function free_fd :: "fd_type list \<Rightarrow> nat \<Rightarrow> (io_error + nat) option" where
  "free_fd files fd =
     (if fd < length files then
        (if fd_io (files ! fd) = None then Some (Inr fd)
         else if fd + 1 \<ge> MOS_PROCESS_MAX_OPEN_FILES then Some (Inl EMFILE)
         else free_fd files (fd + 1))
      else None)"
  by pat_completeness auto
termination
  by (relation "measure (\<lambda>(files, fd). length files - fd)") auto

definition process_attach_ref_fd ::
  "'d ios \<Rightarrow> fd_type list \<Rightarrow> io_id option \<Rightarrow> u32 \<Rightarrow> ('d ios \<times> fd_type list \<times> (io_error + nat)) option" where
  "process_attach_ref_fd h files file flags = do {
     r \<leftarrow> free_fd files 0;
     case r of
       Inl e \<Rightarrow> Some (h, files, Inl e)
     | Inr fd \<Rightarrow> do {
         (h, io) \<leftarrow> io_ref h file;
         files \<leftarrow> arr_set files fd \<lparr>fd_io = io, fd_flags = flags\<rparr>;
         Some (h, files, Inr fd) } }"

definition process_get_fd :: "fd_type list \<Rightarrow> int \<Rightarrow> io_id option option" where
  "process_get_fd files fd =
     (if fd < 0 \<or> fd \<ge> int MOS_PROCESS_MAX_OPEN_FILES then Some None
      else do { f \<leftarrow> arr_get files (nat fd); Some (fd_io f) })"

definition process_detach_fd :: "'d ios \<Rightarrow> fd_type list \<Rightarrow> int \<Rightarrow> ('d ios \<times> fd_type list \<times> bool) option" where
  "process_detach_fd h files fd =
     (if fd < 0 \<or> fd \<ge> int MOS_PROCESS_MAX_OPEN_FILES then Some (h, files, False)
      else do {
        f \<leftarrow> arr_get files (nat fd);
        valid \<leftarrow> io_valid h (fd_io f);
        if \<not> valid then Some (h, files, False)
        else do {
          i \<leftarrow> fd_io f;
          (h, _) \<leftarrow> io_unref h i;
          files \<leftarrow> arr_set files (nat fd) nullfd;
          Some (h, files, True) } })"

text \<open>The loop of \<^verbatim>\<open>process_do_fork\<close> that copies the descriptors into the table of the child.\<close>

fun fork_files :: "'d ios \<Rightarrow> fd_type list \<Rightarrow> ('d ios \<times> fd_type list) option" where
  "fork_files h [] = Some (h, [])"
| "fork_files h (file # files) = do {
     valid \<leftarrow> io_valid h (fd_io file);
     (h, f) \<leftarrow> (if valid then do {
           (h, io) \<leftarrow> io_ref h (fd_io file);
           Some (h, \<lparr>fd_io = io, fd_flags = fd_flags file\<rparr>) }
         else Some (h, nullfd));
     (h, child) \<leftarrow> fork_files h files;
     Some (h, f # child) }"

text \<open>The loop of \<^verbatim>\<open>process_handle_exit\<close> that drops all descriptors.\<close>

fun exit_files :: "'d ios \<Rightarrow> fd_type list \<Rightarrow> ('d ios \<times> fd_type list) option" where
  "exit_files h [] = Some (h, [])"
| "exit_files h (file # files) = do {
     valid \<leftarrow> io_valid h (fd_io file);
     h \<leftarrow> (if valid then do { i \<leftarrow> fd_io file; (h, _) \<leftarrow> io_unref h i; Some h } else Some h);
     (h, rest) \<leftarrow> exit_files h files;
     Some (h, nullfd # rest) }"

subsection \<open>System calls\<close>

definition sys_io_close :: "'d ios \<Rightarrow> fd_type list \<Rightarrow> int \<Rightarrow> ('d ios \<times> fd_type list \<times> bool) option" where
  "sys_io_close h files fd =
     (if fd < 0 then Some (h, files, False)
      else do { (h, files, _) \<leftarrow> process_detach_fd h files fd; Some (h, files, True) })"

definition sys_io_dup :: "'d ios \<Rightarrow> fd_type list \<Rightarrow> int \<Rightarrow> ('d ios \<times> fd_type list \<times> (io_error + nat)) option" where
  "sys_io_dup h files fd = do {
     io \<leftarrow> process_get_fd files fd;
     if io = None then Some (h, files, Inl EBADF)
     else do {
       (h, io) \<leftarrow> io_ref h io;
       f \<leftarrow> arr_get files (nat fd);
       process_attach_ref_fd h files io (fd_flags f) } }"

text \<open>The new descriptor is not checked: outside of the table the write hits other memory.\<close>

definition sys_io_dup2 :: "'d ios \<Rightarrow> fd_type list \<Rightarrow> int \<Rightarrow> int \<Rightarrow> ('d ios \<times> fd_type list \<times> (io_error + int)) option" where
  "sys_io_dup2 h files oldfd newfd = do {
     io \<leftarrow> process_get_fd files oldfd;
     if io = None then Some (h, files, Inl EBADF)
     else if oldfd = newfd then Some (h, files, Inr newfd)
     else do {
       (h, files, _) \<leftarrow> process_detach_fd h files newfd;
       mos_assert (0 \<le> newfd);
       fdt \<leftarrow> arr_get files (nat newfd);
       (h, io) \<leftarrow> io_ref h io;
       files \<leftarrow> arr_set files (nat newfd) (fdt\<lparr>fd_io := io\<rparr>);
       Some (h, files, Inr newfd) } }"

text \<open>The object behind a descriptor, and an operation on it; \<open>bad\<close> is the error for a bad descriptor.\<close>

definition on_fd :: "'d ios \<Rightarrow> fd_type list \<Rightarrow> int \<Rightarrow> io_error \<Rightarrow> ('d io \<Rightarrow> ('d io \<times> 'r) option) \<Rightarrow> ('d ios \<times> (io_error + 'r)) option" where
  "on_fd h files fd bad f = do {
     i \<leftarrow> process_get_fd files fd;
     case i of
       None \<Rightarrow> Some (h, Inl bad)
     | Some i \<Rightarrow> do { io \<leftarrow> h i; (io, r) \<leftarrow> f io; Some (h(i \<mapsto> io), Inr r) } }"

definition sys_io_read :: "'d ios \<Rightarrow> fd_type list \<Rightarrow> int \<Rightarrow> bool \<Rightarrow> size_t \<Rightarrow> ('d ios \<times> (io_error + u8 list \<times> size_t)) option" where
  "sys_io_read h files fd buf_null count =
     (if fd < 0 then Some (h, Inl EBADF)
      else if buf_null then Some (h, Inl EFAULT)
      else on_fd h files fd EBADF (\<lambda>io. io_read io count))"

definition sys_io_write :: "'d ios \<Rightarrow> fd_type list \<Rightarrow> int \<Rightarrow> u8 list option \<Rightarrow> size_t \<Rightarrow> ('d ios \<times> (io_error + size_t)) option" where
  "sys_io_write h files fd buf count =
     (if fd < 0 \<or> buf = None then Some (h, Inl MINUS_ONE)
      else on_fd h files fd MINUS_ONE (\<lambda>io. io_write io (the buf) count))"

definition sys_io_seek :: "'d ios \<Rightarrow> fd_type list \<Rightarrow> int \<Rightarrow> u64 \<Rightarrow> io_seek_whence \<Rightarrow> ('d ios \<times> (io_error + u64)) option" where
  "sys_io_seek h files fd offset whence = on_fd h files fd MINUS_ONE (\<lambda>io. io_seek io offset whence)"

definition sys_io_tell :: "'d ios \<Rightarrow> fd_type list \<Rightarrow> int \<Rightarrow> ('d ios \<times> (io_error + u64)) option" where
  "sys_io_tell h files fd = on_fd h files fd MINUS_ONE io_tell"

definition sys_io_pread ::
  "'d ios \<Rightarrow> fd_type list \<Rightarrow> int \<Rightarrow> bool \<Rightarrow> size_t \<Rightarrow> u64 \<Rightarrow> ('d ios \<times> (io_error + u8 list \<times> size_t)) option" where
  "sys_io_pread h files fd buf_null count offset =
     (if fd < 0 then Some (h, Inl EBADF)
      else if buf_null then Some (h, Inl EFAULT)
      else on_fd h files fd EBADF (\<lambda>io. io_pread io count offset))"

definition IS_ERR_VALUE :: "u64 \<Rightarrow> bool" where
  "IS_ERR_VALUE x \<longleftrightarrow> x \<ge> - 4095"

text \<open>The loop of \<^verbatim>\<open>io_readv\<close> over the lengths of the buffers.\<close>

fun readv_loop :: "'d io \<Rightarrow> size_t list \<Rightarrow> u8 list list \<Rightarrow> size_t \<Rightarrow> ('d io \<times> u8 list list \<times> size_t) option" where
  "readv_loop io [] bufs bytes_read = Some (io, bufs, bytes_read)"
| "readv_loop io (len # iov) bufs bytes_read = do {
     (io, bytes, ret) \<leftarrow> io_read io len;
     let bufs = bufs @ [bytes];
     if IS_ERR_VALUE ret then Some (io, bufs, ret)
     else if ret \<noteq> len then Some (io, bufs, bytes_read + ret)
     else readv_loop io iov bufs (bytes_read + ret) }"

definition sys_io_readv ::
  "'d ios \<Rightarrow> fd_type list \<Rightarrow> int \<Rightarrow> (bool \<times> size_t) list option \<Rightarrow> ('d ios \<times> (io_error + u8 list list \<times> size_t)) option" where
  "sys_io_readv h files fd iov =
     (if fd < 0 then Some (h, Inl EBADF)
      else case iov of
             None \<Rightarrow> Some (h, Inl EFAULT)
           | Some iov \<Rightarrow> do {
               i \<leftarrow> process_get_fd files fd;
               if i = None then Some (h, Inl EBADF)
               else if \<exists>(base_null, _) \<in> set iov. base_null then Some (h, Inl EFAULT)
               else on_fd h files fd EBADF (\<lambda>io. readv_loop io (map snd iov) [] 0) })"

declare free_fd.simps [simp del]

text \<open>Calls of a process that open, close, duplicate and redirect descriptors.\<close>

datatype fd_call = Open io_id | Close int | Dup int | Dup2 int int

fun run_call :: "fd_call \<Rightarrow> 'd ios \<times> fd_type list \<Rightarrow> ('d ios \<times> fd_type list) option" where
  "run_call (Open i) (h, files) = map_option (\<lambda>(h, files, _). (h, files)) (process_attach_ref_fd h files (Some i) 0)"
| "run_call (Close fd) (h, files) = map_option (\<lambda>(h, files, _). (h, files)) (sys_io_close h files fd)"
| "run_call (Dup fd) (h, files) = map_option (\<lambda>(h, files, _). (h, files)) (sys_io_dup h files fd)"
| "run_call (Dup2 a b) (h, files) = map_option (\<lambda>(h, files, _). (h, files)) (sys_io_dup2 h files a b)"

fun run_calls :: "fd_call list \<Rightarrow> 'd ios \<times> fd_type list \<Rightarrow> ('d ios \<times> fd_type list) option" where
  "run_calls [] s = Some s"
| "run_calls (c # cs) s = do { s \<leftarrow> run_call c s; run_calls cs s }"

text \<open>The calls that name existing objects, and those that redirect a number outside of the table.\<close>

fun call_ok :: "'d ios \<Rightarrow> fd_call \<Rightarrow> bool" where
  "call_ok h (Open i) = (h i \<noteq> None)"
| "call_ok h _ = True"

fun outside_table :: "fd_call \<Rightarrow> bool" where
  "outside_table (Dup2 a b) = (b < 0 \<or> b \<ge> int MOS_PROCESS_MAX_OPEN_FILES)"
| "outside_table _ = False"

text \<open>The references that are taken and never dropped: one for each \<^verbatim>\<open>io_dup\<close> of a descriptor in use.\<close>

fun call_leaks :: "fd_call \<Rightarrow> fd_type list \<Rightarrow> io_id \<Rightarrow> nat" where
  "call_leaks (Dup fd) files i = (if process_get_fd files fd = Some (Some i) then 1 else 0)"
| "call_leaks _ files i = 0"

fun leaked :: "fd_call list \<Rightarrow> 'd ios \<times> fd_type list \<Rightarrow> io_id \<Rightarrow> nat" where
  "leaked [] s i = 0"
| "leaked (c # cs) s i = call_leaks c (snd s) i + (case run_call c s of None \<Rightarrow> 0 | Some s \<Rightarrow> leaked cs s i)"

section \<open>Reference counts\<close>

text \<open>The objects have the counts \<open>c\<close>; closed objects are not referred to.\<close>

definition counted :: "(io_id \<Rightarrow> nat) \<Rightarrow> 'd ios \<Rightarrow> bool" where
  "counted c h \<longleftrightarrow> (\<forall>i io. h i = Some io \<longrightarrow> unat (io_refcount io) = c i \<and> (io_closed io \<longrightarrow> c i = 0))"

lemma counted_D:
  assumes "counted c h" "h i = Some io"
  shows "unat (io_refcount io) = c i" "io_closed io \<Longrightarrow> c i = 0"
  using assms by (auto simp: counted_def)

lemma counted_upd:
  assumes "counted c h" "unat (io_refcount io) = n" "io_closed io \<Longrightarrow> n = 0"
  shows "counted (c(i := n)) (h(i \<mapsto> io))"
  using assms by (auto simp: counted_def)

lemma io_ref_counted:
  assumes "counted c h" "h i = Some io" "\<not> io_closed io" "c i + 1 < 2 ^ 64"
  shows "\<exists>h'. io_ref h (Some i) = Some (h', Some i) \<and> counted (c(i := c i + 1)) h' \<and> dom h' = dom h"
proof -
  have "unat (io_refcount io + 1) = c i + 1"
    using unat_add_fits [of "io_refcount io" 1] counted_D(1) [OF assms(1,2)] assms(4) by simp
  then show ?thesis
    using assms by (auto simp: io_ref_def intro!: counted_upd)
qed

lemma io_ref_closed: "h i = Some io \<Longrightarrow> io_closed io \<Longrightarrow> io_ref h (Some i) = Some (h, None)"
  by (simp add: io_ref_def)

text \<open>Dropping a reference; the last one closes an object that can be closed.\<close>

lemma io_unref_counted:
  assumes "counted c h" "h i = Some io" "0 < c i"
  shows "\<exists>h' r io'. io_unref h i = Some (h', r) \<and> counted (c(i := c i - 1)) h' \<and> h' = h(i \<mapsto> io') \<and>
     io_ops io' = io_ops io \<and> (c i = 1 \<and> op_close (io_ops io) \<noteq> None \<longrightarrow> io_closed io')"
proof -
  have c: "unat (io_refcount io) = c i" "\<not> io_closed io"
    using counted_D [OF assms(1,2)] assms(3) by auto
  then have "io_refcount io \<noteq> 0"
    using assms(3) by auto
  then have n: "unat (io_refcount io - 1) = c i - 1"
    using c(1) by (simp add: unat_minus_one)
  then have z: "io_refcount io - 1 = 0 \<longleftrightarrow> c i = 1"
    using assms(3) by (metis One_nat_def Suc_pred diff_is_0_eq' le_refl unat_0 unat_eq_zero)
  show ?thesis
    using assms c(2) \<open>io_refcount io \<noteq> 0\<close> n z
    by (auto simp: io_unref_def Let_def split: option.split intro!: counted_upd)
qed

lemma io_valid_counted:
  assumes "counted c h" "h i = Some io"
  shows "io_valid h (Some i) = Some (0 < c i)"
proof -
  have "0 < io_refcount io \<longleftrightarrow> 0 < c i"
    using counted_D(1) [OF assms] by (metis unat_gt_0 word_neq_0_conv)
  then show ?thesis
    using assms counted_D(2) [OF assms] by (auto simp: io_valid_def)
qed

section \<open>Descriptor tables\<close>

definition fd_refs :: "fd_type list \<Rightarrow> io_id \<Rightarrow> nat" where
  "fd_refs files i = count_list (map fd_io files) (Some i)"

text \<open>
  The counts are the references from the table and \<open>ext\<close> others (descriptors of other processes,
  mappings, the kernel).
\<close>

definition refs_ok :: "(io_id \<Rightarrow> nat) \<Rightarrow> 'd ios \<Rightarrow> fd_type list \<Rightarrow> bool" where
  "refs_ok ext h files \<longleftrightarrow> counted (\<lambda>i. ext i + fd_refs files i) h \<and> length files = MOS_PROCESS_MAX_OPEN_FILES \<and>
     (\<forall>i. fd_refs files i \<noteq> 0 \<longrightarrow> h i \<noteq> None) \<and> (\<forall>i. ext i + 2 * MOS_PROCESS_MAX_OPEN_FILES < 2 ^ 64)"

lemma count_list_update:
  "k < length xs \<Longrightarrow> count_list (xs[k := y]) a + (if xs ! k = a then 1 else 0) = count_list xs a + (if y = a then 1 else 0)"
proof (induction xs arbitrary: k)
  case (Cons x xs)
  show ?case
  proof (cases k)
    case (Suc j)
    then show ?thesis
      using Cons.IH [of j] Cons.prems by auto
  qed simp
qed simp

lemma fd_refs_update:
  "k < length files \<Longrightarrow> fd_refs (files[k := f]) i + (if fd_io (files ! k) = Some i then 1 else 0)
     = fd_refs files i + (if fd_io f = Some i then 1 else 0)"
  using count_list_update [of k "map fd_io files" "fd_io f" "Some i"] by (simp add: fd_refs_def map_update)

lemma fd_refs_nullify:
  assumes "k < length files" "fd_io (files ! k) = Some i" "fd_io f = None"
  shows "fd_refs (files[k := f]) = (fd_refs files)(i := fd_refs files i - 1)"
  using fd_refs_update [OF assms(1), of f] assms(2,3) by (fastforce simp: fun_eq_iff split: if_splits)

lemma fd_refs_fill:
  assumes "k < length files" "fd_io (files ! k) = None" "fd_io f = Some i"
  shows "fd_refs (files[k := f]) = (fd_refs files)(i := fd_refs files i + 1)"
  using fd_refs_update [OF assms(1), of f] assms(2,3) by (fastforce simp: fun_eq_iff split: if_splits)

lemma fd_refs_same:
  assumes "k < length files" "fd_io f = fd_io (files ! k)"
  shows "fd_refs (files[k := f]) = fd_refs files"
  using fd_refs_update [OF assms(1), of f] assms(2) by (fastforce simp: fun_eq_iff split: if_splits)

lemma fd_refs_pos: "k < length files \<Longrightarrow> fd_io (files ! k) = Some i \<Longrightarrow> 0 < fd_refs files i"
  by (auto simp: fd_refs_def count_list_0_iff intro!: gr0I) (metis imageI nth_mem)

lemma fd_refs_le: "fd_refs files i \<le> length files"
  by (metis count_le_length fd_refs_def length_map)

lemma free_fd_total:
  assumes "length files = MOS_PROCESS_MAX_OPEN_FILES" "k < MOS_PROCESS_MAX_OPEN_FILES"
  shows "free_fd files k = Some (Inl EMFILE) \<and> (\<forall>j. k \<le> j \<and> j < length files \<longrightarrow> fd_io (files ! j) \<noteq> None) \<or>
     (\<exists>fd. free_fd files k = Some (Inr fd) \<and> fd < length files \<and> fd_io (files ! fd) = None)"
  using assms
proof (induction files k rule: free_fd.induct)
  case (1 files k)
  show ?case
    using 1 by (subst (1 2) free_fd.simps) (auto simp: le_less_Suc_eq not_le dest: le_neq_implies_less)
qed

text \<open>The descriptors of a good table refer to open objects.\<close>

lemma refs_ok_fd:
  assumes "refs_ok ext h files" "k < length files" "fd_io (files ! k) = Some i"
  shows "\<exists>io. h i = Some io \<and> \<not> io_closed io \<and> 0 < ext i + fd_refs files i"
proof -
  have pos: "0 < fd_refs files i"
    using fd_refs_pos [OF assms(2,3)] .
  then obtain io where io: "h i = Some io"
    using assms(1) by (auto simp: refs_ok_def)
  then show ?thesis
    using pos assms(1) counted_D(2) [of _ h i io] by (fastforce simp: refs_ok_def)
qed

lemma refs_ok_room:
  assumes "refs_ok ext h files"
  shows "ext i + fd_refs files i + 1 < 2 ^ 64"
proof -
  have "ext i + 2 * MOS_PROCESS_MAX_OPEN_FILES < 2 ^ 64" "fd_refs files i \<le> MOS_PROCESS_MAX_OPEN_FILES"
    using assms fd_refs_le [of files i] unfolding refs_ok_def by auto
  then show ?thesis
    by (simp add: MOS_PROCESS_MAX_OPEN_FILES_def)
qed

lemma attach_ok:
  assumes "refs_ok ext h files" "h i \<noteq> None"
  shows "\<exists>h' files' r. process_attach_ref_fd h files (Some i) flags = Some (h', files', r) \<and> refs_ok ext h' files' \<and> dom h' = dom h"
proof (cases "free_fd files 0")
  case None
  then show ?thesis
    using free_fd_total [of files 0] assms(1) by (auto simp: refs_ok_def MOS_PROCESS_MAX_OPEN_FILES_def)
next
  case (Some r)
  show ?thesis
  proof (cases r)
    case (Inl e)
    then show ?thesis
      using Some assms by (auto simp: process_attach_ref_fd_def)
  next
    case (Inr fd)
    then have fd: "fd < length files" "fd_io (files ! fd) = None"
      using free_fd_total [of files 0] assms(1) Some by (auto simp: refs_ok_def MOS_PROCESS_MAX_OPEN_FILES_def)
    obtain io where io: "h i = Some io"
      using assms(2) by auto
    show ?thesis
    proof (cases "io_closed io")
      case True
      then show ?thesis
        using Some Inr fd assms(1) io_ref_closed [of h i io] io fd_refs_same [OF fd(1), of "\<lparr>fd_io = None, fd_flags = flags\<rparr>"]
        by (auto simp: process_attach_ref_fd_def arr_set_def refs_ok_def)
    next
      case False
      let ?c = "\<lambda>i. ext i + fd_refs files i" and ?f = "\<lparr>fd_io = Some i, fd_flags = flags\<rparr>"
      have "?c i + 1 < 2 ^ 64"
        using refs_ok_room [OF assms(1)] .
      then obtain h' where h': "io_ref h (Some i) = Some (h', Some i)" "counted (?c(i := ?c i + 1)) h'" "dom h' = dom h"
        using io_ref_counted [of ?c h i io] assms(1) io False by (auto simp: refs_ok_def)
      have "fd_refs (files[fd := ?f]) = (fd_refs files)(i := fd_refs files i + 1)"
        by (rule fd_refs_fill [OF fd]) simp
      moreover from this have "(\<lambda>j. ext j + fd_refs (files[fd := ?f]) j) = ?c(i := ?c i + 1)"
        by (auto simp: fun_eq_iff)
      ultimately have "refs_ok ext h' (files[fd := ?f])"
        using assms h' by (auto simp: refs_ok_def dom_def)
      then show ?thesis
        using Some Inr fd h' by (auto simp: process_attach_ref_fd_def arr_set_def)
    qed
  qed
qed

text \<open>Closing a descriptor that refers to an object with enough references.\<close>

lemma detach_counted:
  assumes "counted c h" "length files = MOS_PROCESS_MAX_OPEN_FILES" "0 \<le> fd" "fd < int MOS_PROCESS_MAX_OPEN_FILES"
    "fd_io (files ! nat fd) = Some i" "h i = Some io" "0 < c i"
  shows "\<exists>h' io'. process_detach_fd h files fd = Some (h', files[nat fd := nullfd], True) \<and> counted (c(i := c i - 1)) h' \<and>
     h' = h(i \<mapsto> io') \<and> io_ops io' = io_ops io \<and> (c i = 1 \<and> op_close (io_ops io) \<noteq> None \<longrightarrow> io_closed io')"
proof -
  obtain h' r io' where "io_unref h i = Some (h', r)" "counted (c(i := c i - 1)) h'" "h' = h(i \<mapsto> io')" "io_ops io' = io_ops io"
    "c i = 1 \<and> op_close (io_ops io) \<noteq> None \<longrightarrow> io_closed io'"
    using io_unref_counted [OF assms(1,6,7)] by blast
  then show ?thesis
    using assms io_valid_counted [OF assms(1,6)] by (auto simp: process_detach_fd_def arr_get_def arr_set_def)
qed

lemma detach_ok:
  assumes "refs_ok ext h files"
  shows "\<exists>h' files' r. process_detach_fd h files fd = Some (h', files', r) \<and> refs_ok ext h' files' \<and> dom h' = dom h \<and>
     (0 \<le> fd \<and> fd < int MOS_PROCESS_MAX_OPEN_FILES \<longrightarrow> fd_io (files' ! nat fd) = None) \<and>
     (\<forall>k < length files. k \<noteq> nat fd \<longrightarrow> files' ! k = files ! k)"
proof (cases "0 \<le> fd \<and> fd < int MOS_PROCESS_MAX_OPEN_FILES")
  case False
  then show ?thesis
    using assms by (auto simp: process_detach_fd_def)
next
  case True
  have len: "length files = MOS_PROCESS_MAX_OPEN_FILES"
    using assms by (simp add: refs_ok_def)
  show ?thesis
  proof (cases "fd_io (files ! nat fd)")
    case None
    then show ?thesis
      using True assms len by (auto simp: process_detach_fd_def arr_get_def io_valid_def)
  next
    case (Some i)
    let ?c = "\<lambda>i. ext i + fd_refs files i"
    have k: "nat fd < length files"
      using True len by auto
    obtain io where io: "h i = Some io" "0 < ?c i"
      using refs_ok_fd [OF assms k Some] by auto
    obtain h' io' where h': "process_detach_fd h files fd = Some (h', files[nat fd := nullfd], True)"
      "counted (?c(i := ?c i - 1)) h'" "h' = h(i \<mapsto> io')"
      using detach_counted [of ?c h files fd i io] len Some io True assms by (auto simp: refs_ok_def)
    have "fd_refs (files[nat fd := nullfd]) = (fd_refs files)(i := fd_refs files i - 1)"
      by (rule fd_refs_nullify [OF k Some]) (simp add: nullfd_def)
    moreover from this have "(\<lambda>j. ext j + fd_refs (files[nat fd := nullfd]) j) = ?c(i := ?c i - 1)"
      using fd_refs_pos [OF k Some] by (auto simp: fun_eq_iff)
    ultimately have "refs_ok ext h' (files[nat fd := nullfd])"
      using assms h' by (auto simp: refs_ok_def)
    then show ?thesis
      using h' k io by (auto simp: nullfd_def)
  qed
qed

lemma dup2_ok:
  assumes "refs_ok ext h files" "0 \<le> newfd" "newfd < int MOS_PROCESS_MAX_OPEN_FILES"
  shows "\<exists>h' files' r. sys_io_dup2 h files oldfd newfd = Some (h', files', r) \<and> refs_ok ext h' files' \<and> dom h' = dom h"
proof (cases "0 \<le> oldfd \<and> oldfd < int MOS_PROCESS_MAX_OPEN_FILES \<and> oldfd \<noteq> newfd \<and> fd_io (files ! nat oldfd) \<noteq> None")
  case False
  then show ?thesis
    using assms(1) by (auto simp: sys_io_dup2_def process_get_fd_def arr_get_def refs_ok_def)
next
  case True
  then obtain i where i: "fd_io (files ! nat oldfd) = Some i"
    by auto
  have len: "length files = MOS_PROCESS_MAX_OPEN_FILES"
    using assms(1) by (simp add: refs_ok_def)
  obtain h1 files1 r where d: "process_detach_fd h files newfd = Some (h1, files1, r)" "refs_ok ext h1 files1" "dom h1 = dom h"
    "fd_io (files1 ! nat newfd) = None" "\<forall>k < length files. k \<noteq> nat newfd \<longrightarrow> files1 ! k = files ! k"
    using detach_ok [OF assms(1), of newfd] assms(2,3) by auto
  have len1: "length files1 = MOS_PROCESS_MAX_OPEN_FILES"
    using d(2) by (simp add: refs_ok_def)
  have k: "nat oldfd < length files1" "nat newfd < length files1" "nat oldfd \<noteq> nat newfd"
    using True assms(2,3) len1 by auto
  have "fd_io (files1 ! nat oldfd) = Some i"
    using d(5) k i len len1 by auto
  then obtain io where io: "h1 i = Some io" "\<not> io_closed io"
    using refs_ok_fd [OF d(2) k(1)] by auto
  let ?c = "\<lambda>i. ext i + fd_refs files1 i" and ?f = "(files1 ! nat newfd)\<lparr>fd_io := Some i\<rparr>"
  have "?c i + 1 < 2 ^ 64"
    using refs_ok_room [OF d(2)] .
  then obtain h2 where h2: "io_ref h1 (Some i) = Some (h2, Some i)" "counted (?c(i := ?c i + 1)) h2" "dom h2 = dom h1"
    using io_ref_counted [of ?c h1 i io] d(2) io by (auto simp: refs_ok_def)
  have "fd_refs (files1[nat newfd := ?f]) = (fd_refs files1)(i := fd_refs files1 i + 1)"
    by (rule fd_refs_fill [OF k(2) d(4)]) simp
  moreover from this have "(\<lambda>j. ext j + fd_refs (files1[nat newfd := ?f]) j) = ?c(i := ?c i + 1)"
    by (auto simp: fun_eq_iff)
  ultimately have "refs_ok ext h2 (files1[nat newfd := ?f])"
    using d(2) h2 io by (auto simp: refs_ok_def dom_def)
  then show ?thesis
    using True i d h2 k assms(2) len by (auto simp: sys_io_dup2_def process_get_fd_def arr_get_def arr_set_def)
qed

text \<open>A duplicate takes one reference that no descriptor accounts for, also when the table is full.\<close>

lemma dup_ok:
  assumes "refs_ok ext h files" "\<forall>i. ext i + 1 + 2 * MOS_PROCESS_MAX_OPEN_FILES < 2 ^ 64"
  shows "\<exists>h' files' r. sys_io_dup h files fd = Some (h', files', r) \<and> refs_ok (\<lambda>i. ext i + call_leaks (Dup fd) files i) h' files' \<and> dom h' = dom h"
proof (cases "0 \<le> fd \<and> fd < int MOS_PROCESS_MAX_OPEN_FILES \<and> fd_io (files ! nat fd) \<noteq> None")
  case False
  then show ?thesis
    using assms(1) by (auto simp: sys_io_dup_def process_get_fd_def arr_get_def refs_ok_def)
next
  case True
  then obtain i where i: "fd_io (files ! nat fd) = Some i"
    by auto
  have k: "nat fd < length files"
    using True assms(1) by (auto simp: refs_ok_def)
  obtain io where io: "h i = Some io" "\<not> io_closed io"
    using refs_ok_fd [OF assms(1) k i] by auto
  let ?c = "\<lambda>i. ext i + fd_refs files i" and ?ext = "\<lambda>j. ext j + call_leaks (Dup fd) files j"
  obtain h0 where h0: "io_ref h (Some i) = Some (h0, Some i)" "counted (?c(i := ?c i + 1)) h0" "dom h0 = dom h"
    using io_ref_counted [of ?c h i io] io refs_ok_room [OF assms(1)] assms(1) by (auto simp: refs_ok_def)
  have get: "process_get_fd files fd = Some (Some i)"
    using True i k by (simp add: process_get_fd_def arr_get_def)
  then have "(\<lambda>j. ?ext j + fd_refs files j) = ?c(i := ?c i + 1)"
    by (auto simp: fun_eq_iff)
  moreover have "?ext j + 2 * MOS_PROCESS_MAX_OPEN_FILES < 2 ^ 64" for j
    using assms(2) [rule_format, of j] by simp
  ultimately have "refs_ok ?ext h0 files"
    using assms(1) h0 by (auto simp: refs_ok_def dom_def)
  moreover have "h0 i \<noteq> None"
    using h0(3) io(1) by auto
  ultimately obtain h' files' r where "process_attach_ref_fd h0 files (Some i) (fd_flags (files ! nat fd)) = Some (h', files', r)"
      "refs_ok ?ext h' files'" "dom h' = dom h0"
    using attach_ok by blast
  then show ?thesis
    using h0 get k by (auto simp: sys_io_dup_def arr_get_def)
qed

text \<open>A new descriptor outside of the table corrupts memory.\<close>

lemma dup2_out_of_table:
  assumes "length files = MOS_PROCESS_MAX_OPEN_FILES" "process_get_fd files oldfd = Some (Some i)"
    "newfd < 0 \<or> newfd \<ge> int MOS_PROCESS_MAX_OPEN_FILES" "oldfd \<noteq> newfd"
  shows "sys_io_dup2 h files oldfd newfd = None"
  using assms by (auto simp: sys_io_dup2_def process_detach_fd_def arr_get_def mos_assert_def)

section \<open>Runs, fork and exit\<close>

lemma run_call_ok:
  assumes "refs_ok ext h files" "call_ok h c" "\<not> outside_table c" "\<forall>i. ext i + 1 + 2 * MOS_PROCESS_MAX_OPEN_FILES < 2 ^ 64"
  shows "\<exists>h' files'. run_call c (h, files) = Some (h', files') \<and> refs_ok (\<lambda>i. ext i + call_leaks c files i) h' files' \<and> dom h' = dom h"
proof (cases c)
  case (Open i)
  then show ?thesis
    using attach_ok [of ext h files i 0] assms by auto
next
  case (Close fd)
  then show ?thesis
    using detach_ok [OF assms(1), of fd] assms(1) by (auto simp: sys_io_close_def)
next
  case (Dup fd)
  then show ?thesis
    using dup_ok [OF assms(1,4), of fd] by auto
next
  case (Dup2 a b)
  then show ?thesis
    using dup2_ok [OF assms(1), of b a] assms(3) by auto
qed

lemma run_call_outside:
  assumes "refs_ok ext h files" "outside_table c" "run_call c (h, files) = Some (h', files')"
  shows "h' = h" "files' = files"
proof -
  obtain a b where c: "c = Dup2 a b" "b < 0 \<or> b \<ge> int MOS_PROCESS_MAX_OPEN_FILES"
    using assms(2) by (cases c) auto
  have len: "length files = MOS_PROCESS_MAX_OPEN_FILES"
    using assms(1) by (simp add: refs_ok_def)
  obtain x where x: "process_get_fd files a = Some x"
    using assms(3) c(1) by (auto simp: sys_io_dup2_def Option.bind_eq_Some_conv)
  then have "process_get_fd files a = Some None \<or> a = b"
    using assms(3) c dup2_out_of_table [OF len, of a _ b h] by (cases "a = b"; cases x) auto
  then show "h' = h" "files' = files"
    using assms(3) c(1) by (auto simp: sys_io_dup2_def Option.bind_eq_Some_conv split: if_splits)
qed

lemma call_ok_dom: "dom h' = dom h \<Longrightarrow> call_ok h' c = call_ok h c"
  by (cases c) (auto simp: dom_def)

lemma run_calls_ok:
  assumes "refs_ok ext h files" "\<forall>c \<in> set cs. call_ok h c" "\<forall>i. ext i + length cs + 2 * MOS_PROCESS_MAX_OPEN_FILES < 2 ^ 64"
  shows "case run_calls cs (h, files) of
      None \<Rightarrow> \<exists>c \<in> set cs. outside_table c
    | Some (h', files') \<Rightarrow> refs_ok (\<lambda>i. ext i + leaked cs (h, files) i) h' files'"
  using assms
proof (induction cs arbitrary: ext h files)
  case (Cons c cs)
  show ?case
  proof (cases "run_call c (h, files)")
    case None
    have "ext i + 1 + 2 * MOS_PROCESS_MAX_OPEN_FILES < 2 ^ 64" for i
      using Cons.prems(3) [rule_format, of i] by simp
    then show ?thesis
      using None run_call_ok [OF Cons.prems(1), of c] Cons.prems(2) by auto
  next
    case (Some st)
    obtain h1 files1 where st: "st = (h1, files1)"
      by (cases st)
    let ?ext = "\<lambda>i. ext i + call_leaks c files i"
    have room: "ext i + 1 + 2 * MOS_PROCESS_MAX_OPEN_FILES < 2 ^ 64" "?ext i + length cs + 2 * MOS_PROCESS_MAX_OPEN_FILES < 2 ^ 64" for i
    proof -
      have "call_leaks c files i \<le> 1"
        by (cases c) auto
      then show "ext i + 1 + 2 * MOS_PROCESS_MAX_OPEN_FILES < 2 ^ 64" "?ext i + length cs + 2 * MOS_PROCESS_MAX_OPEN_FILES < 2 ^ 64"
        using Cons.prems(3) [rule_format, of i] by auto
    qed
    have ok1: "refs_ok ?ext h1 files1 \<and> dom h1 = dom h"
    proof (cases "outside_table c")
      case True
      then have "call_leaks c files = (\<lambda>i. 0)"
        by (cases c) auto
      then show ?thesis
        using run_call_outside [OF Cons.prems(1) True] Some st Cons.prems(1) by simp
    next
      case False
      then show ?thesis
        using run_call_ok [OF Cons.prems(1) _ False] room(1) Cons.prems(2) Some st by auto
    qed
    then have "\<forall>c \<in> set cs. call_ok h1 c"
      using Cons.prems(2) call_ok_dom by (metis list.set_intros(2))
    then have "case run_calls cs (h1, files1) of
        None \<Rightarrow> \<exists>c \<in> set cs. outside_table c
      | Some (h', files') \<Rightarrow> refs_ok (\<lambda>i. ?ext i + leaked cs (h1, files1) i) h' files'"
      using Cons.IH [of ?ext h1 files1] ok1 room(2) by blast
    then show ?thesis
      using Some st by (auto simp: add.assoc split: option.splits)
  qed
qed simp

lemma fd_refs_Cons: "fd_refs (f # files) i = (if fd_io f = Some i then 1 else 0) + fd_refs files i"
  by (simp add: fd_refs_def)

text \<open>The descriptors of an exiting process, next to \<open>base\<close> other references.\<close>

lemma exit_files_counted:
  assumes "counted (\<lambda>i. base i + fd_refs files i) h" "\<forall>i. fd_refs files i \<noteq> 0 \<longrightarrow> h i \<noteq> None"
  shows "\<exists>h'. exit_files h files = Some (h', replicate (length files) nullfd) \<and> counted base h' \<and>
     (\<forall>i. fd_refs files i = 0 \<longrightarrow> h' i = h i) \<and>
     (\<forall>i io. h' i = Some io \<and> base i = 0 \<and> fd_refs files i \<noteq> 0 \<and> op_close (io_ops io) \<noteq> None \<longrightarrow> io_closed io)"
  using assms
proof (induction files arbitrary: h)
  case Nil
  then show ?case by (simp add: fd_refs_def)
next
  case (Cons f files)
  show ?case
  proof (cases "fd_io f")
    case None
    then show ?thesis
      using Cons.IH [of h] Cons.prems by (auto simp: fd_refs_Cons io_valid_def)
  next
    case (Some i)
    let ?c = "\<lambda>j. base j + fd_refs (f # files) j" and ?c1 = "\<lambda>j. base j + fd_refs files j"
    obtain io where io: "h i = Some io"
      using Cons.prems(2) Some by (auto simp: fd_refs_Cons dest: spec [of _ i])
    have pos: "0 < ?c i" and c1: "?c(i := ?c i - 1) = ?c1"
      using Some by (auto simp: fd_refs_Cons fun_eq_iff)
    obtain h1 r io1 where h1: "io_unref h i = Some (h1, r)" "counted ?c1 h1" "h1 = h(i \<mapsto> io1)"
      "io_ops io1 = io_ops io" "?c i = 1 \<and> op_close (io_ops io) \<noteq> None \<longrightarrow> io_closed io1"
      using io_unref_counted [OF Cons.prems(1) io pos] unfolding c1 by blast
    have dom1: "\<forall>j. fd_refs files j \<noteq> 0 \<longrightarrow> h1 j \<noteq> None"
      using Cons.prems(2) h1(3) by (auto simp: fd_refs_Cons)
    obtain h' where h': "exit_files h1 files = Some (h', replicate (length files) nullfd)" "counted base h'"
      "\<forall>j. fd_refs files j = 0 \<longrightarrow> h' j = h1 j"
      "\<forall>j jo. h' j = Some jo \<and> base j = 0 \<and> fd_refs files j \<noteq> 0 \<and> op_close (io_ops jo) \<noteq> None \<longrightarrow> io_closed jo"
      using Cons.IH [OF h1(2) dom1] by blast
    have "io_closed jo" if j: "h' j = Some jo" "base j = 0" "fd_refs (f # files) j \<noteq> 0" "op_close (io_ops jo) \<noteq> None" for j jo
    proof (cases "fd_refs files j = 0")
      case True
      then have "j = i" "jo = io1"
        using j Some h'(3) h1(3) by (auto simp: fd_refs_Cons split: if_splits)
      then show ?thesis
        using h1(4,5) j True Some by (simp add: fd_refs_Cons)
    qed (use h'(4) j in blast)
    moreover have "h' j = h j" if "fd_refs (f # files) j = 0" for j
      using that h'(3) h1(3) Some by (auto simp: fd_refs_Cons split: if_splits)
    ultimately show ?thesis
      using h' h1(1) Some io_valid_counted [OF Cons.prems(1) io] pos by auto
  qed
qed

lemma fork_files_counted:
  assumes "counted c h" "\<forall>i. fd_refs files i \<noteq> 0 \<longrightarrow> h i \<noteq> None \<and> 0 < c i" "\<forall>i. c i + length files < 2 ^ 64"
  shows "\<exists>h' child. fork_files h files = Some (h', child) \<and> map fd_io child = map fd_io files \<and>
     counted (\<lambda>i. c i + fd_refs files i) h'"
  using assms
proof (induction files arbitrary: h c)
  case Nil
  then show ?case by (simp add: fd_refs_def)
next
  case (Cons f files)
  show ?case
  proof (cases "fd_io f")
    case None
    have "\<forall>i. c i + length files < 2 ^ 64"
      using Cons.prems(3) by (auto intro: Suc_lessD)
    then show ?thesis
      using None Cons.IH [OF Cons.prems(1)] Cons.prems(2) by (auto simp: fd_refs_Cons io_valid_def nullfd_def)
  next
    case (Some i)
    obtain io where io: "h i = Some io" "0 < c i"
      using Cons.prems(2) Some by (auto simp: fd_refs_Cons dest: spec [of _ i])
    have open_io: "\<not> io_closed io"
      using counted_D(2) [OF Cons.prems(1) io(1)] io(2) by auto
    have "c i + 1 < 2 ^ 64"
      using Cons.prems(3) [rule_format, of i] by simp
    then obtain h1 where h1: "io_ref h (Some i) = Some (h1, Some i)" "counted (c(i := c i + 1)) h1" "dom h1 = dom h"
      using io_ref_counted [OF Cons.prems(1) io(1) open_io] by auto
    have "\<forall>j. (c(i := c i + 1)) j + length files < 2 ^ 64"
      using Cons.prems(3) by (auto intro: Suc_lessD simp: fun_upd_def)
    moreover have "\<forall>j. fd_refs files j \<noteq> 0 \<longrightarrow> h1 j \<noteq> None \<and> 0 < (c(i := c i + 1)) j"
      using Cons.prems(2) h1(3) by (auto simp: fd_refs_Cons dom_def)
    ultimately obtain h' child where h': "fork_files h1 files = Some (h', child)" "map fd_io child = map fd_io files"
      "counted (\<lambda>j. (c(i := c i + 1)) j + fd_refs files j) h'"
      using Cons.IH [OF h1(2)] by blast
    have "(\<lambda>j. (c(i := c i + 1)) j + fd_refs files j) = (\<lambda>j. c j + fd_refs (f # files) j)"
      using Some by (auto simp: fd_refs_Cons fun_eq_iff)
    then show ?thesis
      using h' h1(1) Some io io_valid_counted [OF Cons.prems(1) io(1)] by auto
  qed
qed

section \<open>Properties\<close>

text \<open>
  C13: The reference counts are exact but for what \<^verbatim>\<open>io_dup\<close> leaks: after any calls that open, close, duplicate
  and redirect descriptors (also of closed objects, and with a full table) each object counts the
  descriptors and other holders that refer to it, and one reference more for each \<^verbatim>\<open>io_dup\<close> of it.  A fork
  gives the child the same descriptors and counts them.  When the process exits only the other holders
  and the leaked references are left, and an object without any is closed.  The calls only fail to
  return, by leaving the table, if \<^verbatim>\<open>io_dup2\<close> is asked for a new number outside of it.
\<close>

theorem fd_refcounts_exact:
  assumes "refs_ok ext h files" "\<forall>c \<in> set cs. call_ok h c" "\<forall>i. ext i + length cs + 2 * MOS_PROCESS_MAX_OPEN_FILES < 2 ^ 64"
  defines "ext' \<equiv> \<lambda>i. ext i + leaked cs (h, files) i"
  shows "case run_calls cs (h, files) of
      None \<Rightarrow> \<exists>c \<in> set cs. outside_table c
    | Some (h', files') \<Rightarrow> refs_ok ext' h' files' \<and>
        (\<exists>hf child. fork_files h' files' = Some (hf, child) \<and> map fd_io child = map fd_io files' \<and>
           counted (\<lambda>i. ext' i + fd_refs files' i + fd_refs child i) hf) \<and>
        (\<exists>hx. exit_files h' files' = Some (hx, replicate MOS_PROCESS_MAX_OPEN_FILES nullfd) \<and> counted ext' hx \<and>
           (\<forall>i io. hx i = Some io \<and> ext' i = 0 \<and> fd_refs files' i \<noteq> 0 \<and> op_close (io_ops io) \<noteq> None \<longrightarrow> io_closed io))"
proof (cases "run_calls cs (h, files)")
  case None
  then show ?thesis
    using run_calls_ok [OF assms(1-3)] by simp
next
  case (Some st)
  then obtain h' files' where st: "run_calls cs (h, files) = Some (h', files')"
    by (cases st) simp
  have run: "refs_ok ext' h' files'"
    using run_calls_ok [OF assms(1-3)] st by (simp add: ext'_def)
  let ?c = "\<lambda>i. ext' i + fd_refs files' i"
  have ok: "counted ?c h'" "length files' = MOS_PROCESS_MAX_OPEN_FILES" "\<forall>i. fd_refs files' i \<noteq> 0 \<longrightarrow> h' i \<noteq> None"
    "\<forall>i. ext' i + 2 * MOS_PROCESS_MAX_OPEN_FILES < 2 ^ 64"
    using run by (auto simp: refs_ok_def)
  have "?c i + length files' < 2 ^ 64" for i
    using ok(2) ok(4) [rule_format, of i] fd_refs_le [of files' i] by simp
  then obtain hf child where "fork_files h' files' = Some (hf, child)" "map fd_io child = map fd_io files'"
    "counted (\<lambda>i. ?c i + fd_refs files' i) hf"
    using fork_files_counted [OF ok(1), of files'] ok(3) by auto
  moreover from this(2) have "fd_refs child = fd_refs files'"
    by (simp add: fd_refs_def fun_eq_iff)
  ultimately show ?thesis
    using st run exit_files_counted [OF ok(1,3)] ok(2) by auto
qed

definition io_example :: "nat io" where
  "io_example = \<lparr>io_closed = False, io_refcount = 0, io_flags = 3, io_type = IO_PIPE,
     io_ops = \<lparr>op_read = None, op_write = None, op_close = Some Suc, op_seek = None, op_mmap = None, op_munmap = None\<rparr>,
     io_dev = 0\<rparr>"

definition no_files :: "fd_type list" where
  "no_files = replicate MOS_PROCESS_MAX_OPEN_FILES nullfd"

lemma no_files_refs: "fd_refs no_files i = 0"
  by (simp add: no_files_def fd_refs_def nullfd_def count_list_0_iff)

lemma example_refs_ok: "refs_ok (\<lambda>_. 0) [7 \<mapsto> io_example] no_files"
proof -
  have "length no_files = MOS_PROCESS_MAX_OPEN_FILES"
    by (simp add: no_files_def)
  then show ?thesis
    by (auto simp: refs_ok_def counted_def no_files_refs io_example_def MOS_PROCESS_MAX_OPEN_FILES_def split: if_splits)
qed

lemma free_no_files: "free_fd no_files 0 = Some (Inr 0)"
  by (subst free_fd.simps) (simp add: no_files_def MOS_PROCESS_MAX_OPEN_FILES_def nullfd_def)

lemma example_open:
  "run_call (Open 7) ([7 \<mapsto> io_example], no_files) = Some ([7 \<mapsto> io_example\<lparr>io_refcount := 1\<rparr>], no_files[0 := \<lparr>fd_io = Some 7, fd_flags = 0\<rparr>])"
  by (simp add: process_attach_ref_fd_def free_no_files io_ref_def io_example_def arr_set_def)
    (simp add: no_files_def MOS_PROCESS_MAX_OPEN_FILES_def)

theorem fd_refcounts_exact_witness:
  "\<exists>h' files' hx. run_calls [Open 7, Dup 0, Dup2 0 5, Close 0] ([7 \<mapsto> io_example], no_files) = Some (h', files') \<and>
     refs_ok (\<lambda>i. if i = 7 then 1 else 0) h' files' \<and>
     exit_files h' files' = Some (hx, replicate MOS_PROCESS_MAX_OPEN_FILES nullfd) \<and> counted (\<lambda>i. if i = 7 then 1 else 0) hx"
proof -
  let ?cs = "[Open 7, Dup 0, Dup2 0 5, Close 0]" and ?s = "([7 \<mapsto> io_example], no_files)"
  have "process_get_fd (no_files[0 := \<lparr>fd_io = Some 7, fd_flags = 0\<rparr>]) 0 = Some (Some 7)"
    by (simp add: process_get_fd_def arr_get_def no_files_def MOS_PROCESS_MAX_OPEN_FILES_def)
  then have l: "(\<lambda>i. 0 + leaked ?cs ?s i) = (\<lambda>i. if i = 7 then 1 else 0)"
    by (simp add: fun_eq_iff example_open del: run_call.simps split: option.split)
  show ?thesis
    using fd_refcounts_exact [OF example_refs_ok, of ?cs, unfolded l]
    by (cases "run_calls ?cs ?s") (auto simp: MOS_PROCESS_MAX_OPEN_FILES_def simp del: run_calls.simps)
qed

text \<open>
  C30: \<^verbatim>\<open>io_dup\<close> counts the new descriptor twice: when a process duplicates the only descriptor of an object
  and closes both, the object keeps a reference that nobody holds, and is never closed.
\<close>

theorem io_dup_leaks:
  assumes "refs_ok ext h files" "0 \<le> fd" "fd < int MOS_PROCESS_MAX_OPEN_FILES" "fd_io (files ! nat fd) = Some i"
    "ext i = 0" "fd_refs files i = 1" "free_fd files 0 = Some (Inr new)"
  shows "\<exists>h1 files1 h2 files2 h3 files3 io. sys_io_dup h files fd = Some (h1, files1, Inr new) \<and>
     sys_io_close h1 files1 fd = Some (h2, files2, True) \<and> sys_io_close h2 files2 (int new) = Some (h3, files3, True) \<and>
     fd_refs files3 i = 0 \<and> h3 i = Some io \<and> io_refcount io = 1 \<and> \<not> io_closed io"
proof -
  let ?c = "\<lambda>i. ext i + fd_refs files i"
  have len: "length files = MOS_PROCESS_MAX_OPEN_FILES" and c: "counted ?c h"
    using assms(1) by (auto simp: refs_ok_def)
  have k: "nat fd < length files" "new < length files" "fd_io (files ! new) = None"
    using assms(2,3,7) len free_fd_total [of files 0] by (auto simp: MOS_PROCESS_MAX_OPEN_FILES_def)
  obtain io where io: "h i = Some io" "\<not> io_closed io"
    using refs_ok_fd [OF assms(1) k(1) assms(4)] by auto
  define f where "f = \<lparr>fd_io = Some i, fd_flags = fd_flags (files ! nat fd)\<rparr>"
  have two: "?c i + 1 = 2"
    using assms(5,6) by simp
  obtain h0 where h0: "io_ref h (Some i) = Some (h0, Some i)" "counted (?c(i := 2)) h0" "dom h0 = dom h"
    using io_ref_counted [OF c io] unfolding two by auto
  then obtain io0 where io0: "h0 i = Some io0" "\<not> io_closed io0"
    using io counted_D(2) [OF h0(2)] by (fastforce simp: dom_def)
  obtain h1 where h1: "io_ref h0 (Some i) = Some (h1, Some i)" "counted (?c(i := 3)) h1" "dom h1 = dom h0"
    using io_ref_counted [OF h0(2) io0] by (auto simp: numeral_3_eq_3)
  then obtain io1 where io1: "h1 i = Some io1"
    using io0 by (auto simp: dom_def)
  let ?files1 = "files[new := f]"
  have dup: "sys_io_dup h files fd = Some (h1, ?files1, Inr new)"
    using assms(2,3,4,7) h0(1) h1(1) k len
    by (simp add: sys_io_dup_def process_get_fd_def arr_get_def process_attach_ref_fd_def arr_set_def f_def)
  have ne: "new \<noteq> nat fd"
    using k(3) assms(4) by auto
  obtain h2 io2 where h2: "process_detach_fd h1 ?files1 fd = Some (h2, ?files1[nat fd := nullfd], True)"
    "counted (?c(i := 2)) h2" "h2 = h1(i \<mapsto> io2)"
    using detach_counted [OF h1(2) _ assms(2,3) _ io1, of ?files1] assms(4) len ne by (auto simp: numeral_2_eq_2 numeral_3_eq_3)
  let ?files2 = "?files1[nat fd := nullfd]"
  obtain h3 io3 where h3: "process_detach_fd h2 ?files2 (int new) = Some (h3, ?files2[new := nullfd], True)"
    "counted (?c(i := 1)) h3" "h3 = h2(i \<mapsto> io3)"
    using detach_counted [OF h2(2), of ?files2 "int new" i io2] k len ne h2(3)
    by (auto simp: f_def numeral_2_eq_2)
  have "?files2[new := nullfd] = files[nat fd := nullfd, new := nullfd]"
    using ne by (simp add: list_update_swap [of new])
  moreover have "fd_refs (files[nat fd := nullfd]) i = 0"
    using fd_refs_nullify [OF k(1) assms(4), of nullfd] assms(6) by (simp add: nullfd_def)
  ultimately have "fd_refs (?files2[new := nullfd]) i = 0"
    using fd_refs_same [of new "files[nat fd := nullfd]" nullfd] k ne by (simp add: nullfd_def)
  moreover have "h3 i = Some io3" "\<not> io_closed io3" "unat (io_refcount io3) = unat (1 :: size_t)"
    using h3(3) counted_D [OF h3(2), of i io3] by auto
  moreover from this(3) have "io_refcount io3 = 1"
    by (simp only: word_unat_eq_iff)
  ultimately show ?thesis
    using dup h2(1) h3(1) assms(2) by (auto simp: sys_io_close_def)
qed

theorem io_dup_leaks_witness:
  "\<exists>h files h1 files1 h2 files2 h3 files3 io. run_call (Open 7) ([7 \<mapsto> io_example], no_files) = Some (h, files) \<and>
     sys_io_dup h files 0 = Some (h1, files1, Inr 1) \<and> sys_io_close h1 files1 0 = Some (h2, files2, True) \<and>
     sys_io_close h2 files2 1 = Some (h3, files3, True) \<and>
     fd_refs files3 7 = 0 \<and> h3 7 = Some io \<and> io_refcount io = 1 \<and> \<not> io_closed io"
proof -
  let ?h = "[7 \<mapsto> io_example\<lparr>io_refcount := 1\<rparr>]" and ?files = "no_files[0 := \<lparr>fd_io = Some 7, fd_flags = 0\<rparr>]"
  note run = example_open
  have ok: "refs_ok (\<lambda>_. 0) ?h ?files"
    using run_call_ok [OF example_refs_ok, of "Open 7"] run by (auto simp: MOS_PROCESS_MAX_OPEN_FILES_def)
  have refs: "fd_refs ?files 7 = 1"
    using fd_refs_fill [of 0 no_files "\<lparr>fd_io = Some 7, fd_flags = 0\<rparr>" 7] no_files_refs
    by (simp add: no_files_def nullfd_def MOS_PROCESS_MAX_OPEN_FILES_def)
  have free: "free_fd ?files 0 = Some (Inr 1)"
    by (subst free_fd.simps, subst free_fd.simps) (simp add: no_files_def MOS_PROCESS_MAX_OPEN_FILES_def nullfd_def)
  have "fd_io (?files ! nat 0) = Some 7"
    by (simp add: no_files_def MOS_PROCESS_MAX_OPEN_FILES_def)
  then show ?thesis
    using io_dup_leaks [OF ok, of 0 7 1] refs free run by (fastforce simp: MOS_PROCESS_MAX_OPEN_FILES_def)
qed

end
