(* ===== verification/FifoSpec.thy ===== *)
theory FifoSpec
  imports MOS_Prelude
begin

text \<open>
  The contract of a bounded byte queue, as the pipe code relies on it: what may be pushed, what a
  pop returns, and that neither operation faults.  The lemmas of the locale are about any
  interleaving of pushes and pops; the ring buffer (theory \<open>RingBuffer\<close>) provides the contract,
  the pipe (theory \<open>Pipe\<close>) is its client.
\<close>

datatype fifo_op = Push "u8 list" | Pop nat

text \<open>
  A sequence of operations on a queue, with the bytes the pushes accepted and the bytes the pops
  returned.
\<close>

fun fifo_run ::
  "('q \<Rightarrow> u8 list \<Rightarrow> ('q \<times> nat) option) \<Rightarrow> ('q \<Rightarrow> nat \<Rightarrow> ('q \<times> u8 list) option) \<Rightarrow>
   'q \<Rightarrow> fifo_op list \<Rightarrow> ('q \<times> u8 list \<times> u8 list) option" where
  "fifo_run push pop q [] = Some (q, [], [])"
| "fifo_run push pop q (Push bs # ops) = do {
     (q, n) \<leftarrow> push q bs;
     (q, acc, out) \<leftarrow> fifo_run push pop q ops;
     Some (q, take n bs @ acc, out) }"
| "fifo_run push pop q (Pop k # ops) = do {
     (q, got) \<leftarrow> pop q k;
     (q, acc, out) \<leftarrow> fifo_run push pop q ops;
     Some (q, acc, got @ out) }"

fun op_ok :: "fifo_op \<Rightarrow> bool" where
  "op_ok (Push bs) = (length bs < 2 ^ 63)"
| "op_ok (Pop k) = (k < 2 ^ 63)"

locale byte_fifo =
  fixes invar :: "'q \<Rightarrow> bool"
    and contents :: "'q \<Rightarrow> u8 list"
    and capacity :: "'q \<Rightarrow> nat"
    and push :: "'q \<Rightarrow> u8 list \<Rightarrow> ('q \<times> nat) option"
    and pop :: "'q \<Rightarrow> nat \<Rightarrow> ('q \<times> u8 list) option"
  assumes contents_bound: "invar q \<Longrightarrow> length (contents q) \<le> capacity q"
    and push_law: "invar q \<Longrightarrow> length bs < 2 ^ 63 \<Longrightarrow>
      \<exists>q'. push q bs = Some (q', min (length bs) (capacity q - length (contents q))) \<and> invar q' \<and>
           capacity q' = capacity q \<and>
           contents q' = contents q @ take (capacity q - length (contents q)) bs"
    and pop_law: "invar q \<Longrightarrow> k < 2 ^ 63 \<Longrightarrow>
      \<exists>q'. pop q k = Some (q', take k (contents q)) \<and> invar q' \<and>
           capacity q' = capacity q \<and> contents q' = drop k (contents q)"
begin

lemma run_fifo:
  assumes "invar q" "\<forall>op \<in> set ops. op_ok op"
  shows "\<exists>q' acc out. fifo_run push pop q ops = Some (q', acc, out) \<and> invar q' \<and>
           capacity q' = capacity q \<and> contents q @ acc = out @ contents q'"
  using assms
proof (induction ops arbitrary: q)
  case Nil
  then show ?case by simp
next
  case (Cons op ops)
  show ?case
  proof (cases op)
    case (Push bs)
    obtain q1 where q1:
      "push q bs = Some (q1, min (length bs) (capacity q - length (contents q)))" "invar q1"
      "capacity q1 = capacity q"
      "contents q1 = contents q @ take (capacity q - length (contents q)) bs"
      using push_law [of q bs] Cons.prems Push by auto
    obtain q' acc out where
      "fifo_run push pop q1 ops = Some (q', acc, out)" "invar q'" "capacity q' = capacity q1"
      "contents q1 @ acc = out @ contents q'"
      using Cons.IH [OF q1(2)] Cons.prems by auto
    with q1 Push show ?thesis
      by simp
  next
    case (Pop k)
    obtain q1 where q1: "pop q k = Some (q1, take k (contents q))" "invar q1"
      "capacity q1 = capacity q" "contents q1 = drop k (contents q)"
      using pop_law [of q k] Cons.prems Pop by auto
    obtain q' acc out where
      "fifo_run push pop q1 ops = Some (q', acc, out)" "invar q'" "capacity q' = capacity q1"
      "contents q1 @ acc = out @ contents q'"
      using Cons.IH [OF q1(2)] Cons.prems by auto
    moreover from this have "contents q @ acc = take k (contents q) @ (out @ contents q')"
      using q1(4) by (metis append.assoc append_take_drop_id)
    ultimately show ?thesis using q1 Pop by auto
  qed
qed

end

end
