(* ===== verification/RingBuffer.thy ===== *)
theory RingBuffer
  imports FifoSpec
begin

text \<open>
  The ring buffer of \<^verbatim>\<open>kernel/lib/structures/ring_buffer.c\<close> and its header.  The four position
  fields are \<^verbatim>\<open>size_t\<close> words; the data block is a byte list whose bounds every copy respects or
  faults.  The abstract value of a buffer is the list of its bytes from the head on.
\<close>

section \<open>Definitions\<close>

record ring_buffer_pos =
  rbp_size :: size_t
  rbp_capacity :: size_t
  rbp_head :: size_t
  rbp_next_pos :: size_t

record ring_buffer =
  rb_data :: "u8 list"
  rb_pos :: ring_buffer_pos

definition ring_buffer_get :: "u8 list \<Rightarrow> ring_buffer_pos \<Rightarrow> size_t \<Rightarrow> u8 option" where
  "ring_buffer_get data pos index = do {
     i \<leftarrow> mod_chk (rbp_head pos + index) (rbp_size pos);
     arr_get data (unat i) }"

definition ring_buffer_pos_init :: "size_t \<Rightarrow> ring_buffer_pos" where
  "ring_buffer_pos_init capacity =
     \<lparr>rbp_size = 0, rbp_capacity = capacity, rbp_head = 0, rbp_next_pos = 0\<rparr>"

text \<open>
  The answers of \<^verbatim>\<open>kmalloc\<close> are arguments: whether the control structure was allocated, and the
  data block if that was allocated.  The result is the \<^verbatim>\<open>NULL\<close>-able pointer the code returns.
\<close>

definition ring_buffer_create :: "size_t \<Rightarrow> bool \<Rightarrow> u8 list option \<Rightarrow> ring_buffer option" where
  "ring_buffer_create capacity rb_ok data_mem =
     (if capacity = 0 then None
      else if \<not> rb_ok then None
      else case data_mem of
             None \<Rightarrow> None
           | Some data \<Rightarrow> Some \<lparr>rb_data = data, rb_pos = ring_buffer_pos_init capacity\<rparr>)"

definition ring_buffer_create_at :: "u8 list \<Rightarrow> size_t \<Rightarrow> bool \<Rightarrow> ring_buffer option" where
  "ring_buffer_create_at data capacity rb_ok =
     (if capacity = 0 then None
      else if \<not> rb_ok then None
      else Some \<lparr>rb_data = data, rb_pos = ring_buffer_pos_init capacity\<rparr>)"

text \<open>The copying loop of \<^verbatim>\<open>ring_buffer_resize\<close>, with the number of rounds left.\<close>

fun resize_copy :: "u8 list \<Rightarrow> ring_buffer_pos \<Rightarrow> u8 list \<Rightarrow> size_t \<Rightarrow> nat \<Rightarrow> u8 list option" where
  "resize_copy data pos new_data i 0 = Some new_data"
| "resize_copy data pos new_data i (Suc n) = do {
     b \<leftarrow> ring_buffer_get data pos i;
     new_data \<leftarrow> arr_set new_data (unat i) b;
     resize_copy data pos new_data (i + 1) n }"

definition ring_buffer_resize ::
  "ring_buffer \<Rightarrow> size_t \<Rightarrow> u8 list option \<Rightarrow> (ring_buffer \<times> bool) option" where
  "ring_buffer_resize buffer new_capacity new_mem =
     (if new_capacity < rbp_size (rb_pos buffer) then Some (buffer, False)
      else case new_mem of
             None \<Rightarrow> Some (buffer, False)
           | Some new_data \<Rightarrow> do {
               new_data \<leftarrow> resize_copy (rb_data buffer) (rb_pos buffer) new_data 0
                             (unat (rbp_size (rb_pos buffer)));
               Some (\<lparr>rb_data = new_data,
                      rb_pos = (rb_pos buffer)\<lparr>rbp_capacity := new_capacity, rbp_head := 0,
                                 rbp_next_pos := rbp_size (rb_pos buffer)\<rparr>\<rparr>, True) })"

definition ring_buffer_pos_push_back ::
  "u8 list \<Rightarrow> ring_buffer_pos \<Rightarrow> u8 list \<Rightarrow> size_t \<Rightarrow> (u8 list \<times> ring_buffer_pos \<times> size_t) option"
where
  "ring_buffer_pos_push_back data pos target sz0 = do {
     let sz = (if rbp_size pos + sz0 > rbp_capacity pos
                 then rbp_capacity pos - rbp_size pos else sz0);
     let first_part_i = rbp_next_pos pos;
     let first_part_size = min sz (rbp_capacity pos - rbp_next_pos pos);
     let second_part = sz - first_part_size;
     data \<leftarrow> blit data (unat first_part_i) target 0 (unat first_part_size);
     data \<leftarrow> blit data 0 target (unat first_part_size) (unat second_part);
     next_pos \<leftarrow> mod_chk (rbp_next_pos pos + sz) (rbp_capacity pos);
     Some (data, pos\<lparr>rbp_next_pos := next_pos, rbp_size := rbp_size pos + sz\<rparr>, sz) }"

definition ring_buffer_pos_pop_back ::
  "u8 list \<Rightarrow> ring_buffer_pos \<Rightarrow> u8 list \<Rightarrow> size_t \<Rightarrow> (u8 list \<times> ring_buffer_pos \<times> size_t) option"
where
  "ring_buffer_pos_pop_back data pos target sz0 = do {
     let sz = (if sz0 > rbp_size pos then rbp_size pos else sz0);
     first_part_i \<leftarrow> mod_chk (rbp_capacity pos + rbp_next_pos pos - sz) (rbp_capacity pos);
     let first_part_size = min sz (rbp_capacity pos - first_part_i);
     let second_part_i = 0;
     let second_part_size = sz - first_part_size;
     target \<leftarrow> blit target 0 data (unat first_part_i) (unat first_part_size);
     target \<leftarrow> blit target (unat first_part_size) data second_part_i (unat second_part_size);
     next_pos \<leftarrow> mod_chk (rbp_capacity pos + rbp_next_pos pos - sz) (rbp_capacity pos);
     Some (target, pos\<lparr>rbp_next_pos := next_pos, rbp_size := rbp_size pos - sz\<rparr>, sz) }"

definition ring_buffer_pos_push_front ::
  "u8 list \<Rightarrow> ring_buffer_pos \<Rightarrow> u8 list \<Rightarrow> size_t \<Rightarrow> (u8 list \<times> ring_buffer_pos \<times> size_t) option"
where
  "ring_buffer_pos_push_front data pos target sz =
     (if rbp_size pos + sz > rbp_capacity pos then Some (data, pos, 0)
      else do {
        first_part_i \<leftarrow> mod_chk (rbp_capacity pos + rbp_head pos - sz) (rbp_capacity pos);
        let first_part_size = min sz (rbp_capacity pos - first_part_i);
        let second_part_i = 0;
        let second_part_size = sz - first_part_size;
        data \<leftarrow> blit data (unat first_part_i) target 0 (unat first_part_size);
        data \<leftarrow> blit data second_part_i target (unat first_part_size) (unat second_part_size);
        head \<leftarrow> mod_chk (rbp_capacity pos + rbp_head pos - sz) (rbp_capacity pos);
        Some (data, pos\<lparr>rbp_head := head, rbp_size := rbp_size pos + sz\<rparr>, sz) })"

definition ring_buffer_pos_pop_front ::
  "u8 list \<Rightarrow> ring_buffer_pos \<Rightarrow> u8 list \<Rightarrow> size_t \<Rightarrow> (u8 list \<times> ring_buffer_pos \<times> size_t) option"
where
  "ring_buffer_pos_pop_front data pos target sz0 = do {
     let sz = (if sz0 > rbp_size pos then rbp_size pos else sz0);
     let first_part_i = rbp_head pos;
     let first_part_size = min sz (rbp_capacity pos - first_part_i);
     let second_part_i = 0;
     let second_part_size = sz - first_part_size;
     target \<leftarrow> blit target 0 data (unat first_part_i) (unat first_part_size);
     target \<leftarrow> blit target (unat first_part_size) data second_part_i (unat second_part_size);
     head \<leftarrow> mod_chk (rbp_head pos + sz) (rbp_capacity pos);
     Some (target, pos\<lparr>rbp_head := head, rbp_size := rbp_size pos - sz\<rparr>, sz) }"

definition ring_buffer_pos_is_full :: "ring_buffer_pos \<Rightarrow> bool" where
  "ring_buffer_pos_is_full pos = (rbp_size pos = rbp_capacity pos)"

definition ring_buffer_pos_is_empty :: "ring_buffer_pos \<Rightarrow> bool" where
  "ring_buffer_pos_is_empty pos = (rbp_size pos = 0)"

definition ring_buffer_pos_pop_back_byte ::
  "u8 list \<Rightarrow> ring_buffer_pos \<Rightarrow> (ring_buffer_pos \<times> u8) option" where
  "ring_buffer_pos_pop_back_byte buffer pos = do {
     (target, pos, n) \<leftarrow> ring_buffer_pos_pop_back buffer pos [0] 1;
     b \<leftarrow> arr_get target 0;
     Some (pos, b) }"

definition ring_buffer_pos_pop_front_byte ::
  "u8 list \<Rightarrow> ring_buffer_pos \<Rightarrow> (ring_buffer_pos \<times> u8) option" where
  "ring_buffer_pos_pop_front_byte buffer pos = do {
     (target, pos, n) \<leftarrow> ring_buffer_pos_pop_front buffer pos [0] 1;
     b \<leftarrow> arr_get target 0;
     Some (pos, b) }"

definition ring_buffer_push_back ::
  "ring_buffer \<Rightarrow> u8 list \<Rightarrow> size_t \<Rightarrow> (ring_buffer \<times> size_t) option" where
  "ring_buffer_push_back buffer data sz = do {
     (d, pos, n) \<leftarrow> ring_buffer_pos_push_back (rb_data buffer) (rb_pos buffer) data sz;
     Some (\<lparr>rb_data = d, rb_pos = pos\<rparr>, n) }"

definition ring_buffer_push_front ::
  "ring_buffer \<Rightarrow> u8 list \<Rightarrow> size_t \<Rightarrow> (ring_buffer \<times> size_t) option" where
  "ring_buffer_push_front buffer data sz = do {
     (d, pos, n) \<leftarrow> ring_buffer_pos_push_front (rb_data buffer) (rb_pos buffer) data sz;
     Some (\<lparr>rb_data = d, rb_pos = pos\<rparr>, n) }"

definition ring_buffer_pop_back ::
  "ring_buffer \<Rightarrow> u8 list \<Rightarrow> size_t \<Rightarrow> (ring_buffer \<times> u8 list \<times> size_t) option" where
  "ring_buffer_pop_back buffer buf sz = do {
     (buf, pos, n) \<leftarrow> ring_buffer_pos_pop_back (rb_data buffer) (rb_pos buffer) buf sz;
     Some (buffer\<lparr>rb_pos := pos\<rparr>, buf, n) }"

definition ring_buffer_pop_front ::
  "ring_buffer \<Rightarrow> u8 list \<Rightarrow> size_t \<Rightarrow> (ring_buffer \<times> u8 list \<times> size_t) option" where
  "ring_buffer_pop_front buffer buf sz = do {
     (buf, pos, n) \<leftarrow> ring_buffer_pos_pop_front (rb_data buffer) (rb_pos buffer) buf sz;
     Some (buffer\<lparr>rb_pos := pos\<rparr>, buf, n) }"

text \<open>
  Well-formed buffers and their abstract value.  The position \<^verbatim>\<open>next_pos\<close> may equal the capacity
  (\<^verbatim>\<open>ring_buffer_resize\<close> leaves it so for a buffer it fills exactly), so it is only fixed modulo
  the capacity; an object is smaller than half of the
  address space.
\<close>

definition rb_wf :: "ring_buffer \<Rightarrow> bool" where
  "rb_wf b = (let p = rb_pos b; cap = unat (rbp_capacity p) in
     length (rb_data b) = cap \<and> 0 < cap \<and> cap < 2 ^ 63 \<and> unat (rbp_size p) \<le> cap \<and>
     unat (rbp_head p) < cap \<and> unat (rbp_next_pos p) \<le> cap \<and>
     unat (rbp_next_pos p) mod cap = (unat (rbp_head p) + unat (rbp_size p)) mod cap)"

definition ring_slice :: "u8 list \<Rightarrow> nat \<Rightarrow> nat \<Rightarrow> u8 list" where
  "ring_slice d s n = map (\<lambda>i. d ! ((s + i) mod length d)) [0..<n]"

definition rb_contents :: "ring_buffer \<Rightarrow> u8 list" where
  "rb_contents b =
     ring_slice (rb_data b) (unat (rbp_head (rb_pos b))) (unat (rbp_size (rb_pos b)))"

abbreviation rb_cap :: "ring_buffer \<Rightarrow> nat" where
  "rb_cap b \<equiv> unat (rbp_capacity (rb_pos b))"

section \<open>Cyclic reads and writes\<close>

lemma length_ring_slice [simp]: "length (ring_slice d s n) = n"
  by (simp add: ring_slice_def)

lemma nth_ring_slice [simp]: "i < n \<Longrightarrow> ring_slice d s n ! i = d ! ((s + i) mod length d)"
  by (simp add: ring_slice_def)

lemma ring_slice_mod: "ring_slice d (s mod length d) n = ring_slice d s n"
  by (simp add: ring_slice_def mod_add_left_eq)

lemma ring_slice_add: "ring_slice d s (m + n) = ring_slice d s m @ ring_slice d (s + m) n"
  by (rule nth_equalityI) (auto simp: nth_append ac_simps)

lemma take_ring_slice: "m \<le> n \<Longrightarrow> take m (ring_slice d s n) = ring_slice d s m"
  using ring_slice_add [of d s m "n - m"] by simp

lemma drop_ring_slice: "m \<le> n \<Longrightarrow> drop m (ring_slice d s n) = ring_slice d (s + m) (n - m)"
  using ring_slice_add [of d s m "n - m"] by simp

text \<open>The two copies of a pop read a slice.\<close>

lemma two_part_read:
  assumes "s \<le> length d" "n \<le> length d" "d \<noteq> []"
  shows "take (min n (length d - s)) (drop s d) @ take (n - min n (length d - s)) d
         = ring_slice d s n"
  using assms
  by (intro nth_equalityI) (auto simp: nth_append mod_shift_less ac_simps)

text \<open>The two copies of a push write a slice and leave the rest of the block alone.\<close>

definition two_part_write :: "u8 list \<Rightarrow> nat \<Rightarrow> u8 list \<Rightarrow> nat \<Rightarrow> u8 list" where
  "two_part_write d s t n =
     (let k = min n (length d - s); d1 = take s d @ take k t @ drop (s + k) d
      in take (n - k) (drop k t) @ drop (n - k) d1)"

lemma length_two_part_write [simp]:
  "s \<le> length d \<Longrightarrow> n \<le> length d \<Longrightarrow> n \<le> length t \<Longrightarrow> length (two_part_write d s t n) = length d"
  by (auto simp: two_part_write_def Let_def)

lemma blit_write:
  assumes "s \<le> length d" "n \<le> length d" "n \<le> length t" "k = min n (length d - s)" "m = n - k"
  shows "blit d s t 0 k \<bind> (\<lambda>d. blit d 0 t k m \<bind> f) = f (two_part_write d s t n)"
proof -
  have "s + k \<le> length d" "k \<le> length t" "m \<le> length d" "k + m \<le> length t"
    using assms by auto
  then show ?thesis
    unfolding two_part_write_def Let_def assms(4) [symmetric] assms(5) [symmetric]
    by (simp add: blit_def)
qed

lemma blit_read:
  assumes "s \<le> length d" "n \<le> length d" "n \<le> length t" "d \<noteq> []"
    and "k = min n (length d - s)" "m = n - k"
  shows "blit t 0 d s k \<bind> (\<lambda>t. blit t k d 0 m \<bind> f) = f (ring_slice d s n @ drop n t)"
proof -
  have le: "s + k \<le> length d" "k \<le> length t" "k + m = n" "m \<le> length d"
    using assms by auto
  then have "length (take k (drop s d)) = k"
    by simp
  then have "blit t 0 d s k \<bind> (\<lambda>t. blit t k d 0 m \<bind> f)
             = f ((take k (drop s d) @ take m d) @ drop n t)"
    using le assms(3) by (simp add: blit_def del: length_take)
  then show ?thesis
    using two_part_read [OF assms(1,2,4)] assms(5,6) by simp
qed

lemma two_part_write_nth:
  assumes "s \<le> length d" "n \<le> length d" "n \<le> length t" "j < length d"
    and "k = min n (length d - s)"
  shows "two_part_write d s t n ! j =
         (if j < n - k then t ! (k + j) else if s \<le> j \<and> j < s + k then t ! (j - s) else d ! j)"
proof -
  define d1 where "d1 = take s d @ take k (drop 0 t) @ drop (s + k) d"
  have k: "k \<le> n" "s + k \<le> length d"
    using assms by auto
  then have "length d1 = length d"
    and d1: "d1 ! j = (if s \<le> j \<and> j < s + k then t ! (j - s) else d ! j)"
    using assms nth_blit [of s k d 0 t j] by (auto simp: d1_def)
  moreover have "two_part_write d s t n = take 0 d1 @ take (n - k) (drop k t) @ drop (0 + (n - k)) d1"
    unfolding two_part_write_def Let_def d1_def assms(5) [symmetric] by simp
  moreover have "n - k \<le> length d" "k + (n - k) \<le> length t"
    using k assms by auto
  ultimately show ?thesis
    using nth_blit [of 0 "n - k" d1 k t j] assms(4) by simp
qed

lemma nth_two_part_write:
  assumes "s \<le> length d" "n \<le> length d" "n \<le> length t" "i < length d"
  shows "two_part_write d s t n ! ((s + i) mod length d) =
         (if i < n then t ! i else d ! ((s + i) mod length d))"
proof -
  have "(s + i) mod length d < length d"
    by (rule mod_less_divisor) (use assms(4) in linarith)
  note nth = two_part_write_nth [OF assms(1-3) this refl]
  show ?thesis
  proof (cases "s + i < length d")
    case True
    with nth assms show ?thesis by (auto simp: min_def)
  next
    case False
    then obtain j where j: "s + i = length d + j" "j < s"
      using assms by (auto simp: not_less le_iff_add)
    then have "length d + j - s = i" by linarith
    with j nth assms show ?thesis by (auto simp: min_def)
  qed
qed

lemma slice_of_write:
  assumes "s \<le> length d" "n \<le> length d" "n \<le> length t"
  shows "ring_slice (two_part_write d s t n) s n = take n t"
  using assms by (intro nth_equalityI) (auto simp: nth_two_part_write)

lemma slice_after_write:
  assumes "s \<le> length d" "n \<le> j" "j + m \<le> length d" "n \<le> length t"
    and h: "h mod length d = (s + j) mod length d"
  shows "ring_slice (two_part_write d s t n) h m = ring_slice d h m"
proof (rule nth_equalityI)
  fix i assume i: "i < length (ring_slice (two_part_write d s t n) h m)"
  have "(h + i) mod length d = (s + (j + i)) mod length d"
    using mod_add_cong [OF h refl, of i] by (simp add: add.assoc)
  then show "ring_slice (two_part_write d s t n) h m ! i = ring_slice d h m ! i"
    using nth_two_part_write [of s d n t "j + i"] i assms by simp
qed simp

section \<open>The operations on the abstract value\<close>

lemma rb_wfD:
  assumes "rb_wf b"
  shows "length (rb_data b) = rb_cap b" "0 < rb_cap b" "rb_cap b < 2 ^ 63"
    "unat (rbp_size (rb_pos b)) \<le> rb_cap b" "unat (rbp_head (rb_pos b)) < rb_cap b"
    "unat (rbp_next_pos (rb_pos b)) \<le> rb_cap b" "rbp_capacity (rb_pos b) \<noteq> 0"
    "unat (rbp_next_pos (rb_pos b)) mod rb_cap b =
       (unat (rbp_head (rb_pos b)) + unat (rbp_size (rb_pos b))) mod rb_cap b"
  using assms by (auto simp: rb_wf_def Let_def)

lemma length_rb_contents [simp]: "length (rb_contents b) = unat (rbp_size (rb_pos b))"
  by (simp add: rb_contents_def)

lemma push_back_size:
  assumes "rb_wf b" "unat sz < 2 ^ 63"
  shows "unat (if rbp_size (rb_pos b) + sz > rbp_capacity (rb_pos b)
               then rbp_capacity (rb_pos b) - rbp_size (rb_pos b) else sz)
         = min (unat sz) (rb_cap b - length (rb_contents b))"
  using rb_wfD [OF assms(1)] assms(2)
  by (auto simp: word_cmp_nat word_nat min_def)

lemma push_back_pos:
  assumes wf: "rb_wf b" and sz: "unat sz < 2 ^ 63"
    and n: "n = min (unat sz) (rb_cap b - length (rb_contents b))"
    and t: "n \<le> length t"
  shows "\<exists>w. unat w = n \<and> ring_buffer_push_back b t sz =
     Some (\<lparr>rb_data = two_part_write (rb_data b) (unat (rbp_next_pos (rb_pos b))) t n,
            rb_pos = (rb_pos b)\<lparr>rbp_next_pos := (rbp_next_pos (rb_pos b) + w)
                                                   mod rbp_capacity (rb_pos b),
                                 rbp_size := rbp_size (rb_pos b) + w\<rparr>\<rparr>, w)"
proof -
  note D = rb_wfD [OF wf]
  define w where "w = (if rbp_size (rb_pos b) + sz > rbp_capacity (rb_pos b)
               then rbp_capacity (rb_pos b) - rbp_size (rb_pos b) else sz)"
  define k where "k = min w (rbp_capacity (rb_pos b) - rbp_next_pos (rb_pos b))"
  have w: "unat w = n"
    unfolding w_def n by (rule push_back_size [OF wf sz])
  have "unat k = min n (length (rb_data b) - unat (rbp_next_pos (rb_pos b)))"
    "unat (w - k) = n - unat k"
    using D w by (simp_all add: k_def word_nat)
  moreover have "n \<le> length (rb_data b)" "unat (rbp_next_pos (rb_pos b)) \<le> length (rb_data b)"
    using D n by simp_all
  ultimately show ?thesis
    using w t D(7)
    unfolding ring_buffer_push_back_def ring_buffer_pos_push_back_def Let_def
      w_def [symmetric] k_def [symmetric]
    by (simp add: blit_write [where n = n] guards)
qed

lemma push_back_contents:
  assumes wf: "rb_wf b" and sz: "unat sz < 2 ^ 63"
    and n: "n = min (unat sz) (rb_cap b - length (rb_contents b))"
    and t: "n \<le> length t"
  shows "\<exists>b' w. ring_buffer_push_back b t sz = Some (b', w) \<and> unat w = n \<and> rb_wf b' \<and>
           rb_cap b' = rb_cap b \<and> rb_contents b' = rb_contents b @ take n t"
proof -
  note D = rb_wfD [OF wf]
  let ?d = "rb_data b" and ?h = "unat (rbp_head (rb_pos b))" and ?s = "unat (rbp_size (rb_pos b))"
    and ?x = "unat (rbp_next_pos (rb_pos b))"
  obtain w b' where w: "unat w = n" and b': "b' = \<lparr>rb_data = two_part_write ?d ?x t n,
            rb_pos = (rb_pos b)\<lparr>rbp_next_pos := (rbp_next_pos (rb_pos b) + w)
                                                   mod rbp_capacity (rb_pos b),
                                 rbp_size := rbp_size (rb_pos b) + w\<rparr>\<rparr>"
    and run: "ring_buffer_push_back b t sz = Some (b', w)"
    using push_back_pos [OF wf sz n t] by blast
  have le: "?x \<le> length ?d" "n + ?s \<le> length ?d" "n \<le> length ?d"
    using D n by auto
  have size': "unat (rbp_size (rb_pos b')) = ?s + n"
    using le D w by (simp add: b' word_nat)
  have next': "unat (rbp_next_pos (rb_pos b')) = (?x + n) mod rb_cap b"
    using le D w by (simp add: b' unat_mod_distrib word_nat)
  have len: "length (rb_data b') = length ?d"
    using le t by (simp add: b')
  have "(?x + n) mod rb_cap b = (?h + (?s + n)) mod rb_cap b"
    using mod_add_cong [OF D(8) refl, of n] by (simp add: add.assoc)
  then have "rb_wf b'"
    using D le len size' next' by (simp add: rb_wf_def Let_def b')
  moreover have "rb_contents b' = rb_contents b @ take n t"
  proof -
    let ?d' = "two_part_write ?d ?x t n"
    have x: "?x mod length ?d = (?h + ?s) mod length ?d"
      using D by simp
    have "rb_contents b' = ring_slice ?d' ?h ?s @ ring_slice ?d' (?h + ?s) n"
      using size' by (simp add: rb_contents_def b' ring_slice_add)
    also have "ring_slice ?d' (?h + ?s) n = ring_slice ?d' ?x n"
      using x len by (metis b' ring_buffer.select_convs(1) ring_slice_mod)
    also have "\<dots> = take n t"
      using le t by (simp add: slice_of_write)
    also have "ring_slice ?d' ?h ?s = ring_slice ?d ?h ?s"
    proof (rule slice_after_write [where j = "length ?d - ?s"])
      have "(?x + (length ?d - ?s)) mod length ?d = (?h + ?s + (length ?d - ?s)) mod length ?d"
        by (rule mod_add_cong [OF x refl])
      then show "?h mod length ?d = (?x + (length ?d - ?s)) mod length ?d"
        using le by simp
    qed (use le t in auto)
    finally show ?thesis by (simp add: rb_contents_def)
  qed
  ultimately show ?thesis
    using run w by (simp add: b')
qed

lemma pop_size:
  "unat (if (sz :: size_t) > rbp_size p then rbp_size p else sz) = min (unat sz) (unat (rbp_size p))"
  by (simp add: word_cmp_nat min_def)

lemma pop_front_contents:
  assumes wf: "rb_wf b" and n: "n = min (unat sz) (length (rb_contents b))"
    and t: "n \<le> length buf"
  shows "\<exists>b' w. ring_buffer_pop_front b buf sz = Some (b', take n (rb_contents b) @ drop n buf, w) \<and>
           unat w = n \<and> rb_wf b' \<and> rb_cap b' = rb_cap b \<and>
           rb_contents b' = drop n (rb_contents b)"
proof -
  note D = rb_wfD [OF wf]
  let ?d = "rb_data b" and ?h = "unat (rbp_head (rb_pos b))" and ?s = "unat (rbp_size (rb_pos b))"
  define w where "w = (if sz > rbp_size (rb_pos b) then rbp_size (rb_pos b) else sz)"
  define k where "k = min w (rbp_capacity (rb_pos b) - rbp_head (rb_pos b))"
  define b' where "b' = b\<lparr>rb_pos := (rb_pos b)\<lparr>rbp_head := (rbp_head (rb_pos b) + w)
                             mod rbp_capacity (rb_pos b), rbp_size := rbp_size (rb_pos b) - w\<rparr>\<rparr>"
  have w: "unat w = n"
    unfolding w_def n by (simp only: pop_size length_rb_contents)
  have le: "?h \<le> length ?d" "n \<le> ?s" "n \<le> length ?d" "?d \<noteq> []"
    using D n by auto
  have "unat k = min n (length ?d - ?h)" "unat (w - k) = n - unat k"
    using D w by (simp_all add: k_def word_nat)
  then have run: "ring_buffer_pop_front b buf sz = Some (b', ring_slice ?d ?h n @ drop n buf, w)"
    using le t D(7)
    unfolding ring_buffer_pop_front_def ring_buffer_pos_pop_front_def Let_def
      w_def [symmetric] k_def [symmetric]
    by (simp add: blit_read [where n = n] guards b'_def)
  have size': "unat (rbp_size (rb_pos b')) = ?s - n"
    using le w by (simp add: b'_def word_nat)
  have head': "unat (rbp_head (rb_pos b')) = (?h + n) mod length ?d"
    using le D w by (simp add: b'_def unat_mod_distrib word_nat)
  have "((?h + n) mod rb_cap b + (?s - n)) mod rb_cap b = (?h + ?s) mod rb_cap b"
    using mod_add_left_eq [of "?h + n" "rb_cap b" "?s - n"] le by simp
  then have "rb_wf b'"
    using D le size' head' by (simp add: rb_wf_def Let_def b'_def)
  moreover have "rb_contents b' = drop n (rb_contents b)"
    using le size' head' by (simp add: rb_contents_def b'_def drop_ring_slice ring_slice_mod)
  moreover have "rb_cap b' = rb_cap b"
    by (simp add: b'_def)
  ultimately show ?thesis
    using run w le by (simp add: rb_contents_def take_ring_slice)
qed

lemma back_index:
  fixes c x h s n :: nat
  assumes "x mod c = (h + s) mod c" "n \<le> s" "s \<le> c"
  shows "(c + x - n) mod c = (h + (s - n)) mod c"
proof -
  have "(c + x - n) mod c = (x + (c - n)) mod c"
    using assms by (simp add: add.commute)
  also have "\<dots> = (h + s + (c - n)) mod c"
    by (rule mod_add_cong [OF assms(1) refl])
  also have "h + s + (c - n) = h + (s - n) + c"
    using assms by simp
  finally show ?thesis by simp
qed

lemma pop_back_contents:
  assumes wf: "rb_wf b" and n: "n = min (unat sz) (length (rb_contents b))"
    and t: "n \<le> length buf"
  shows "\<exists>b' w. ring_buffer_pop_back b buf sz =
             Some (b', drop (length (rb_contents b) - n) (rb_contents b) @ drop n buf, w) \<and>
           unat w = n \<and> rb_wf b' \<and> rb_cap b' = rb_cap b \<and>
           rb_contents b' = take (length (rb_contents b) - n) (rb_contents b)"
proof -
  note D = rb_wfD [OF wf]
  let ?d = "rb_data b" and ?h = "unat (rbp_head (rb_pos b))" and ?s = "unat (rbp_size (rb_pos b))"
    and ?x = "unat (rbp_next_pos (rb_pos b))" and ?c = "rbp_capacity (rb_pos b)"
  define w where "w = (if sz > rbp_size (rb_pos b) then rbp_size (rb_pos b) else sz)"
  define i where "i = (?c + rbp_next_pos (rb_pos b) - w) mod ?c"
  define k where "k = min w (?c - i)"
  define b' where "b' = b\<lparr>rb_pos := (rb_pos b)\<lparr>rbp_next_pos := i,
                             rbp_size := rbp_size (rb_pos b) - w\<rparr>\<rparr>"
  have w: "unat w = n"
    unfolding w_def n by (simp only: pop_size length_rb_contents)
  have le: "n \<le> ?s" "n \<le> length ?d" "?d \<noteq> []"
    using D n by auto
  have "unat i = (unat ?c + ?x - n) mod unat ?c"
    using D(3,4,6) le w by (simp add: i_def unat_mod_distrib word_nat)
  also have "\<dots> = (?h + (?s - n)) mod unat ?c"
    by (rule back_index [OF D(8) le(1) D(4)])
  finally have i: "unat i = (?h + (?s - n)) mod length ?d"
    using D by simp
  then have i_less: "unat i < length ?d"
    using le by simp
  have "unat k = min n (length ?d - unat i)" "unat (w - k) = n - unat k"
    using D(1) w i_less by (simp_all add: k_def word_nat)
  then have run: "ring_buffer_pop_back b buf sz = Some (b', ring_slice ?d (unat i) n @ drop n buf, w)"
    using le t D(7) i_less
    unfolding ring_buffer_pop_back_def ring_buffer_pos_pop_back_def Let_def
      w_def [symmetric] mod_chk_Some [OF D(7)] bind.bind_lunit i_def [symmetric] k_def [symmetric]
    by (simp add: blit_read [where n = n] guards b'_def)
  have size': "unat (rbp_size (rb_pos b')) = ?s - n"
    using le w by (simp add: b'_def word_nat)
  have "rb_wf b'"
    using D i i_less size' by (simp add: rb_wf_def Let_def b'_def)
  moreover have "rb_contents b' = take (?s - n) (rb_contents b)"
    using size' by (simp add: rb_contents_def b'_def take_ring_slice)
  moreover have "rb_cap b' = rb_cap b"
    by (simp add: b'_def)
  moreover have "ring_slice ?d (unat i) n = drop (?s - n) (rb_contents b)"
    using i le by (simp add: rb_contents_def drop_ring_slice ring_slice_mod)
  ultimately show ?thesis
    using run w by simp
qed

lemma push_front_contents:
  assumes wf: "rb_wf b" and fits: "unat sz \<le> rb_cap b - length (rb_contents b)"
    and t: "unat sz \<le> length t"
  shows "\<exists>b'. ring_buffer_push_front b t sz = Some (b', sz) \<and> rb_wf b' \<and> rb_cap b' = rb_cap b \<and>
           rb_contents b' = take (unat sz) t @ rb_contents b"
proof -
  note D = rb_wfD [OF wf]
  let ?d = "rb_data b" and ?h = "unat (rbp_head (rb_pos b))" and ?s = "unat (rbp_size (rb_pos b))"
    and ?c = "rbp_capacity (rb_pos b)" and ?n = "unat sz"
  define i where "i = (?c + rbp_head (rb_pos b) - sz) mod ?c"
  define k where "k = min sz (?c - i)"
  define d' where "d' = two_part_write ?d (unat i) t ?n"
  define b' where "b' = \<lparr>rb_data = d', rb_pos = (rb_pos b)\<lparr>rbp_head := i,
                             rbp_size := rbp_size (rb_pos b) + sz\<rparr>\<rparr>"
  have le: "?n + ?s \<le> length ?d" "?d \<noteq> []" "unat sz \<le> length ?d"
    using D fits by auto
  have room: "\<not> rbp_size (rb_pos b) + sz > ?c"
    using D le by (simp add: word_cmp_nat word_nat)
  have i: "unat i = (unat ?c + ?h - ?n) mod length ?d"
    using D le by (simp add: i_def unat_mod_distrib word_nat)
  then have i_less: "unat i < length ?d"
    using le by simp
  have "(unat i + ?n) mod length ?d = (unat ?c + ?h - ?n + ?n) mod length ?d"
    unfolding i by (simp add: mod_add_left_eq)
  also have "\<dots> = ?h mod length ?d"
    using D(1) le by simp
  finally have i_n: "(unat i + ?n) mod length ?d = ?h mod length ?d" .
  have "unat k = min ?n (length ?d - unat i)" "unat (sz - k) = ?n - unat k"
    using D(1) i_less by (simp_all add: k_def word_nat)
  then have run: "ring_buffer_push_front b t sz = Some (b', sz)"
    using le t D(7) i_less room
    unfolding ring_buffer_push_front_def ring_buffer_pos_push_front_def Let_def
      mod_chk_Some [OF D(7)] bind.bind_lunit i_def [symmetric] k_def [symmetric]
    by (simp add: blit_write [where n = ?n] guards b'_def d'_def)
  have size': "unat (rbp_size (rb_pos b')) = ?n + ?s"
    using D le by (simp add: b'_def word_nat)
  have len: "length d' = length ?d"
    using le i_less t by (simp add: d'_def)
  have "(unat i + (?n + ?s)) mod length ?d = (?h + ?s) mod length ?d"
    using mod_add_cong [OF i_n refl, of ?s] by (simp add: add.assoc)
  then have "rb_wf b'"
    using D le len size' i_less by (simp add: rb_wf_def Let_def b'_def)
  moreover have "rb_contents b' = take ?n t @ rb_contents b"
  proof -
    have "ring_slice d' (unat i + ?n) ?s = ring_slice d' ?h ?s"
      using i_n len ring_slice_mod by metis
    also have "\<dots> = ring_slice ?d ?h ?s"
      unfolding d'_def
      by (rule slice_after_write [where j = ?n]) (use le i_less t i_n in auto)
    finally show ?thesis
      using size' le i_less t
      by (simp add: rb_contents_def b'_def ring_slice_add) (simp add: d'_def slice_of_write)
  qed
  ultimately show ?thesis
    using run by (simp add: b'_def)
qed

lemma create_contents:
  assumes "length mem = unat capacity" "0 < unat capacity" "unat capacity < 2 ^ 63"
  shows "\<exists>b. ring_buffer_create capacity True (Some mem) = Some b \<and> rb_wf b \<and>
           rb_cap b = unat capacity \<and> rb_contents b = []"
  using assms
  by (auto simp: ring_buffer_create_def ring_buffer_pos_init_def rb_wf_def rb_contents_def
      ring_slice_def)

text \<open>What the copying loop of \<^verbatim>\<open>ring_buffer_resize\<close> writes.\<close>

lemma resize_copy_result:
  assumes "unat i + n = unat (rbp_size pos)" "unat (rbp_size pos) \<le> length new"
    "unat (rbp_size pos) \<le> length d" "unat (rbp_head pos) + unat (rbp_size pos) < 2 ^ 64"
  shows "resize_copy d pos new i n =
     Some (take (unat i) new @ map (\<lambda>j. d ! ((unat (rbp_head pos) + j) mod unat (rbp_size pos)))
                                 [unat i..<unat (rbp_size pos)]
           @ drop (unat (rbp_size pos)) new)"
  using assms
proof (induction n arbitrary: i new)
  case 0
  then show ?case by simp
next
  case (Suc n)
  let ?s = "unat (rbp_size pos)" and ?x = "(unat (rbp_head pos) + unat i) mod unat (rbp_size pos)"
  have s0: "rbp_size pos \<noteq> 0" "unat i < ?s"
    using Suc.prems(1) by auto
  have i1: "unat (i + 1) = unat i + 1"
    using Suc.prems(1) unat_less_2p [of "rbp_size pos"] by (simp add: word_nat)
  have "unat ((rbp_head pos + i) mod rbp_size pos) = ?x"
    using Suc.prems s0 by (simp add: unat_mod_distrib word_nat)
  moreover have "?x < length d"
    using s0 Suc.prems by (meson mod_less_divisor order_less_le_trans unat_gt_0)
  ultimately have "ring_buffer_get d pos i = Some (d ! ?x)"
    using s0 by (simp add: ring_buffer_get_def guards)
  then have "resize_copy d pos new i (Suc n) = resize_copy d pos (new[unat i := d ! ?x]) (i + 1) n"
    using s0 Suc.prems by (simp add: guards)
  also have "\<dots> = Some (take (unat (i + 1)) (new[unat i := d ! ?x])
      @ map (\<lambda>j. d ! ((unat (rbp_head pos) + j) mod ?s)) [unat (i + 1)..<?s]
      @ drop ?s (new[unat i := d ! ?x]))"
    using Suc.prems i1 by (intro Suc.IH) auto
  finally show ?case
    using s0 Suc.prems
    by (simp add: i1 take_Suc_conv_app_nth upt_conv_Cons list_update_append)
qed

definition resized :: "ring_buffer \<Rightarrow> size_t \<Rightarrow> u8 list \<Rightarrow> ring_buffer" where
  "resized b new_capacity mem = \<lparr>rb_data = take (unat (rbp_size (rb_pos b)))
       (map (\<lambda>j. rb_data b ! ((unat (rbp_head (rb_pos b)) + j) mod unat (rbp_size (rb_pos b))))
         [0..<unat (rbp_size (rb_pos b))]) @ drop (unat (rbp_size (rb_pos b))) mem,
     rb_pos = (rb_pos b)\<lparr>rbp_capacity := new_capacity, rbp_head := 0,
                          rbp_next_pos := rbp_size (rb_pos b)\<rparr>\<rparr>"

lemma resize_run:
  assumes wf: "rb_wf b" and "length mem = unat new_capacity"
    and "length (rb_contents b) \<le> unat new_capacity"
  shows "ring_buffer_resize b new_capacity (Some mem) = Some (resized b new_capacity mem, True)"
  using rb_wfD [OF wf] assms(2,3)
    resize_copy_result [of 0 "unat (rbp_size (rb_pos b))" "rb_pos b" mem "rb_data b"]
  by (simp add: ring_buffer_resize_def resized_def word_cmp_nat)

lemma resized_contents:
  assumes wf: "rb_wf b" and mem: "length mem = unat new_capacity"
    and le: "length (rb_contents b) \<le> unat new_capacity" "0 < unat new_capacity"
      "unat new_capacity < 2 ^ 63"
    and head: "rbp_head (rb_pos b) = 0"
  shows "rb_wf (resized b new_capacity mem)" "rb_contents (resized b new_capacity mem) = rb_contents b"
proof -
  let ?s = "unat (rbp_size (rb_pos b))"
  note D = rb_wfD [OF wf]
  show "rb_wf (resized b new_capacity mem)"
    using D mem le by (simp add: rb_wf_def resized_def)
  show "rb_contents (resized b new_capacity mem) = rb_contents b"
    using D mem le head
    by (intro nth_equalityI) (auto simp: rb_contents_def resized_def nth_append)
qed

section \<open>The queue contract\<close>

definition rb_fifo_push :: "ring_buffer \<Rightarrow> u8 list \<Rightarrow> (ring_buffer \<times> nat) option" where
  "rb_fifo_push b bs =
     map_option (\<lambda>(b, w). (b, unat w)) (ring_buffer_push_back b bs (of_nat (length bs)))"

definition rb_fifo_pop :: "ring_buffer \<Rightarrow> nat \<Rightarrow> (ring_buffer \<times> u8 list) option" where
  "rb_fifo_pop b k =
     map_option (\<lambda>(b, buf, w). (b, take (unat w) buf))
       (ring_buffer_pop_front b (replicate k 0) (of_nat k))"

lemma unat_of_nat_63: "k < 2 ^ 63 \<Longrightarrow> unat (of_nat k :: size_t) = k"
  by (simp add: unat_of_nat)

interpretation rbq: byte_fifo rb_wf rb_contents "\<lambda>b. rb_cap b" rb_fifo_push rb_fifo_pop
proof
  fix b :: ring_buffer and bs :: "u8 list"
  assume wf: "rb_wf b" and len: "length bs < 2 ^ 63"
  show "\<exists>b'. rb_fifo_push b bs = Some (b', min (length bs) (rb_cap b - length (rb_contents b))) \<and>
          rb_wf b' \<and> rb_cap b' = rb_cap b \<and>
          rb_contents b' = rb_contents b @ take (rb_cap b - length (rb_contents b)) bs"
    using push_back_contents [OF wf, of "of_nat (length bs)" _ bs] len
    by (auto simp: unat_of_nat_63 rb_fifo_push_def)
next
  fix b :: ring_buffer and k :: nat
  assume wf: "rb_wf b" and "k < 2 ^ 63"
  then show "\<exists>b'. rb_fifo_pop b k = Some (b', take k (rb_contents b)) \<and> rb_wf b' \<and>
          rb_cap b' = rb_cap b \<and> rb_contents b' = drop k (rb_contents b)"
    using pop_front_contents [OF wf refl, of "of_nat k" "replicate k 0"]
    by (cases "k \<le> length (rb_contents b)") (auto simp: unat_of_nat_63 rb_fifo_pop_def)
qed (use rb_wfD in simp)

section \<open>Properties\<close>

text \<open>
  On a well-formed buffer \<^verbatim>\<open>ring_buffer_push_back\<close> never faults.  It accepts as many bytes
  as there is room for, appends exactly those to the contents (whether or not the free space wraps
  around the end of the block), and keeps the buffer well-formed with its capacity.
\<close>

theorem ring_buffer_push_back_correct:
  assumes "rb_wf b" "unat sz < 2 ^ 63" "unat sz \<le> length t"
  shows "\<exists>b' w. ring_buffer_push_back b t sz = Some (b', w) \<and>
           unat w = min (unat sz) (rb_cap b - length (rb_contents b)) \<and> rb_wf b' \<and>
           rb_cap b' = rb_cap b \<and> rb_contents b' = rb_contents b @ take (unat w) t"
  using push_back_contents [OF assms(1,2) refl min.coboundedI1 [OF assms(3)]] by metis

definition wrapped :: ring_buffer where
  "wrapped = \<lparr>rb_data = [30, 0, 10, 20],
     rb_pos = \<lparr>rbp_size = 3, rbp_capacity = 4, rbp_head = 2, rbp_next_pos = 1\<rparr>\<rparr>"

lemma wrapped_wf: "rb_wf wrapped" "rb_contents wrapped = [10, 20, 30]" "rb_cap wrapped = 4"
  by (simp_all add: wrapped_def rb_wf_def rb_contents_def ring_slice_def upt_conv_Cons)

theorem ring_buffer_push_back_correct_witness:
  "rb_wf wrapped \<and> (\<exists>b' w. ring_buffer_push_back wrapped [40, 50] 2 = Some (b', w) \<and>
     unat w = 1 \<and> rb_wf b' \<and> rb_contents b' = [10, 20, 30, 40])"
  using ring_buffer_push_back_correct [of wrapped 2 "[40, 50]"] wrapped_wf by auto

text \<open>
  On a well-formed buffer \<^verbatim>\<open>ring_buffer_pop_front\<close> never faults.  It writes the first bytes
  of the contents to the start of the caller's buffer, as many as were asked for or are there,
  leaves the rest of the caller's buffer alone, and removes exactly these bytes.
\<close>

theorem ring_buffer_pop_front_correct:
  assumes "rb_wf b" "n = min (unat sz) (length (rb_contents b))" "n \<le> length buf"
  shows "\<exists>b' w. ring_buffer_pop_front b buf sz = Some (b', take n (rb_contents b) @ drop n buf, w) \<and>
           unat w = n \<and> rb_wf b' \<and> rb_cap b' = rb_cap b \<and>
           rb_contents b' = drop n (rb_contents b)"
  by (rule pop_front_contents [OF assms])

theorem ring_buffer_pop_front_correct_witness:
  "rb_wf wrapped \<and> (\<exists>b' w. ring_buffer_pop_front wrapped [7, 7, 7] 2 = Some (b', [10, 20, 7], w) \<and>
     unat w = 2 \<and> rb_wf b' \<and> rb_contents b' = [30])"
  using ring_buffer_pop_front_correct [of wrapped 2 2 "[7, 7, 7]"] wrapped_wf by auto

text \<open>
  On a well-formed buffer \<^verbatim>\<open>ring_buffer_push_front\<close> never faults: bytes that fit are put in
  front of the contents in their order, and a request that does not fit changes nothing and
  returns 0.
\<close>

theorem ring_buffer_push_front_correct:
  assumes "rb_wf b" "unat sz < 2 ^ 63" "unat sz \<le> length t"
  shows "if length (rb_contents b) + unat sz \<le> rb_cap b
         then \<exists>b'. ring_buffer_push_front b t sz = Some (b', sz) \<and> rb_wf b' \<and>
                rb_cap b' = rb_cap b \<and> rb_contents b' = take (unat sz) t @ rb_contents b
         else ring_buffer_push_front b t sz = Some (b, 0)"
proof (cases "length (rb_contents b) + unat sz \<le> rb_cap b")
  case True
  then show ?thesis
    using push_front_contents [of b sz t] assms by auto
next
  case False
  then have "rbp_size (rb_pos b) + sz > rbp_capacity (rb_pos b)"
    using rb_wfD [OF assms(1)] assms(2) by (simp add: word_cmp_nat word_nat)
  with False show ?thesis
    by (simp add: ring_buffer_push_front_def ring_buffer_pos_push_front_def)
qed

theorem ring_buffer_push_front_correct_witness:
  "rb_wf wrapped \<and> ring_buffer_push_front wrapped [8, 9] 2 = Some (wrapped, 0) \<and>
   (\<exists>b'. ring_buffer_push_front wrapped [8] 1 = Some (b', 1) \<and> rb_contents b' = [8, 10, 20, 30])"
  using ring_buffer_push_front_correct [of wrapped 2 "[8, 9]"]
    ring_buffer_push_front_correct [of wrapped 1 "[8]"] wrapped_wf by auto

text \<open>
  On a well-formed buffer \<^verbatim>\<open>ring_buffer_pop_back\<close> never faults: it copies the last bytes of
  the contents, in their order, to the caller's buffer and removes exactly these bytes.
\<close>

theorem ring_buffer_pop_back_correct:
  assumes "rb_wf b" "n = min (unat sz) (length (rb_contents b))" "n \<le> length buf"
  shows "\<exists>b' w. ring_buffer_pop_back b buf sz =
             Some (b', drop (length (rb_contents b) - n) (rb_contents b) @ drop n buf, w) \<and>
           unat w = n \<and> rb_wf b' \<and> rb_cap b' = rb_cap b \<and>
           rb_contents b' = take (length (rb_contents b) - n) (rb_contents b)"
  by (rule pop_back_contents [OF assms])

theorem ring_buffer_pop_back_correct_witness:
  "rb_wf wrapped \<and> (\<exists>b' w. ring_buffer_pop_back wrapped [7, 7, 7] 2 = Some (b', [20, 30, 7], w) \<and>
     unat w = 2 \<and> rb_wf b' \<and> rb_contents b' = [10])"
  using ring_buffer_pop_back_correct [of wrapped 2 2 "[7, 7, 7]"] wrapped_wf by auto

text \<open>
  C15: Any interleaving of pushes at the back and pops at the front of a freshly created buffer
  runs without a fault and is first in, first out: the bytes the pops returned, followed by what
  the buffer still holds, are the bytes the pushes accepted.
\<close>

theorem ring_buffer_fifo:
  assumes "ring_buffer_create capacity True (Some mem) = Some b" "length mem = unat capacity"
    "unat capacity < 2 ^ 63" "\<forall>op \<in> set ops. op_ok op"
  shows "\<exists>b' acc out. fifo_run rb_fifo_push rb_fifo_pop b ops = Some (b', acc, out) \<and> rb_wf b' \<and>
           rb_cap b' = unat capacity \<and> acc = out @ rb_contents b'"
proof -
  have "0 < unat capacity"
    using assms(1) by (auto simp: ring_buffer_create_def unat_gt_0 split: if_splits)
  with create_contents [OF assms(2) _ assms(3)] assms(1)
  have "rb_wf b" "rb_cap b = unat capacity" "rb_contents b = []"
    by auto
  with rbq.run_fifo [OF _ assms(4), of b] show ?thesis by simp
qed

theorem ring_buffer_fifo_witness:
  "\<exists>b b' acc out. ring_buffer_create 3 True (Some [0, 0, 0]) = Some b \<and>
     fifo_run rb_fifo_push rb_fifo_pop b [Push [1, 2], Pop 1, Push [3, 4, 5], Pop 2] = Some (b', acc, out) \<and>
     acc = out @ rb_contents b'"
proof -
  obtain b where b: "ring_buffer_create 3 True (Some [0, 0, 0]) = Some b"
    by (simp add: ring_buffer_create_def)
  from ring_buffer_fifo [OF b, of "[Push [1, 2], Pop 1, Push [3, 4, 5], Pop 2]"] b
  show ?thesis by auto
qed

text \<open>
  \<^verbatim>\<open>ring_buffer_resize\<close> to a capacity that holds the contents keeps a buffer whose head is
  at index 0 well-formed, with the same contents and the new capacity.
\<close>

theorem ring_buffer_resize_head0:
  assumes "rb_wf b" "rbp_head (rb_pos b) = 0" "length mem = unat new_capacity"
    "length (rb_contents b) \<le> unat new_capacity" "0 < unat new_capacity"
    "unat new_capacity < 2 ^ 63"
  shows "\<exists>b'. ring_buffer_resize b new_capacity (Some mem) = Some (b', True) \<and> rb_wf b' \<and>
           rb_cap b' = unat new_capacity \<and> rb_contents b' = rb_contents b"
  using resize_run [OF assms(1,3,4)] resized_contents [OF assms(1,3-6,2)]
  by (simp add: resized_def)

theorem ring_buffer_resize_head0_witness:
  "\<exists>b'. ring_buffer_resize \<lparr>rb_data = [10, 20], rb_pos = \<lparr>rbp_size = 2, rbp_capacity = 2,
          rbp_head = 0, rbp_next_pos = 0\<rparr>\<rparr> 3 (Some [0, 0, 0]) = Some (b', True) \<and>
        rb_contents b' = [10, 20]"
  using ring_buffer_resize_head0 [of "\<lparr>rb_data = [10, 20], rb_pos = \<lparr>rbp_size = 2, rbp_capacity = 2,
          rbp_head = 0, rbp_next_pos = 0\<rparr>\<rparr>" "[0, 0, 0]" 3]
  by (auto simp: rb_wf_def rb_contents_def ring_slice_def upt_conv_Cons)

text \<open>
  With a head at another index \<^verbatim>\<open>ring_buffer_resize\<close> loses data: \<^verbatim>\<open>ring_buffer_get\<close> reduces
  the index modulo the number of stored bytes instead of the capacity, so a successful resize of a
  well-formed buffer can change its contents.
\<close>

theorem ring_buffer_resize_reorders:
  "\<exists>b b'. rb_wf b \<and> ring_buffer_resize b 8 (Some (replicate 8 0)) = Some (b', True) \<and> rb_wf b' \<and>
     rb_contents b = [10, 20, 30] \<and> rb_contents b' = [10, 30, 0]"
proof -
  have "ring_buffer_resize wrapped 8 (Some (replicate 8 0)) =
    Some (resized wrapped 8 (replicate 8 0), True)"
    using wrapped_wf by (intro resize_run) auto
  moreover have "rb_wf (resized wrapped 8 (replicate 8 0))"
    "rb_contents (resized wrapped 8 (replicate 8 0)) = [10, 30, 0]"
    by (simp_all add: resized_def wrapped_def rb_wf_def rb_contents_def ring_slice_def upt_conv_Cons)
  ultimately show ?thesis
    using wrapped_wf by blast
qed

end
