(* ===== verification/Pipe.thy ===== *)
theory Pipe
  imports RingBuffer Signals "HOL-Library.Sublist"
begin

text \<open>
  Pipes, \<^verbatim>\<open>kernel/ipc/pipe.c\<close>: a ring buffer with a lock and one wait list for both ends.  The sequential
  functions run until the thread returns or gives up the processor.  The relation \<open>pipe_step\<close> interleaves
  a writer and a reader: the sections under the lock, the wake-ups, joining the wait list, blocking and
  both closes are its steps.  The end-to-end order of the bytes follows from the queue contract that the ring buffer provides.
\<close>

section \<open>Definitions\<close>

definition PIPE_MAGIC :: u32 where
  "PIPE_MAGIC = 0x45504950"

definition INT_MAX :: nat where
  "INT_MAX = 2 ^ 31 - 1"

record pipe =
  p_magic :: u32
  p_waitlist :: waitlist
  p_lock :: bool
  p_other_closed :: bool
  p_npages :: size_t
  p_buffer :: ring_buffer

definition p_acquire :: "pipe \<Rightarrow> pipe option" where
  "p_acquire p = (if p_lock p then None else Some (p\<lparr>p_lock := True\<rparr>))"

definition p_release :: "pipe \<Rightarrow> pipe" where
  "p_release p = p\<lparr>p_lock := False\<rparr>"

text \<open>
  The pipe itself comes zeroed from its slab; \<open>pages\<close> is the answer of the page allocator, the memory of so
  many pages.
\<close>

definition pipe_create :: "size_t \<Rightarrow> bool \<Rightarrow> (size_t \<Rightarrow> u8 list option) \<Rightarrow> pipe option" where
  "pipe_create bufsize0 kmalloc_ok pages = do {
     let bufsize = ALIGN_UP_TO_PAGE bufsize0;
     mos_assert kmalloc_ok;
     let npages = bufsize div MOS_PAGE_SIZE;
     mem \<leftarrow> pages npages;
     Some \<lparr>p_magic = PIPE_MAGIC, p_waitlist = waitlist_init, p_lock = False, p_other_closed = False, p_npages = npages,
       p_buffer = \<lparr>rb_data = mem, rb_pos = ring_buffer_pos_init bufsize\<rparr>\<rparr> }"

text \<open>
  A writer between acquiring and releasing the lock; \<open>self\<close> is its thread, which gets \<^verbatim>\<open>SIGPIPE\<close> when the other
  end is closed.
\<close>

datatype write_result = W_Closed | W_Wait "u8 list" nat | W_Done nat

definition write_locked :: "sig_thread \<Rightarrow> pipe \<Rightarrow> u8 list \<Rightarrow> bool \<Rightarrow> (sig_thread \<times> pipe \<times> write_result) option" where
  "write_locked self p buf kmalloc_ok = do {
     p \<leftarrow> p_acquire p;
     if p_other_closed p then do {
       (self, _) \<leftarrow> signal_send_to_thread self SIGPIPE kmalloc_ok;
       Some (self, p_release p, W_Closed) }
     else do {
       (b, written) \<leftarrow> ring_buffer_push_back (p_buffer p) buf (of_nat (length buf));
       let rest = drop (unat written) buf;
       let p = p_release (p\<lparr>p_buffer := b\<rparr>);
       Some (self, p, if rest \<noteq> [] then W_Wait rest (unat written) else W_Done (unat written)) } }"

text \<open>A reader between acquiring and releasing the lock, with the bytes that it read.\<close>

datatype read_result = R_Eof "u8 list" | R_Wait nat "u8 list" | R_Done "u8 list"

definition read_locked :: "pipe \<Rightarrow> nat \<Rightarrow> (pipe \<times> read_result) option" where
  "read_locked p n = do {
     p \<leftarrow> p_acquire p;
     (b, buf, read) \<leftarrow> ring_buffer_pop_front (p_buffer p) (replicate n 0) (of_nat n);
     let bytes = take (unat read) buf;
     let left = n - unat read;
     let p = p\<lparr>p_buffer := b\<rparr>;
     Some (p_release p,
       if left > 0 then
         (if p_other_closed p \<and> ring_buffer_pos_is_empty (rb_pos b) then R_Eof bytes else R_Wait left bytes)
       else R_Done bytes) }"

definition wake_all :: "unit threads \<Rightarrow> pipe \<Rightarrow> (unit threads \<times> pipe) option" where
  "wake_all ts p = do {
     (ts, l, _) \<leftarrow> waitlist_wake ts (p_waitlist p) INT_MAX;
     Some (ts, p\<lparr>p_waitlist := l\<rparr>) }"

definition wait_on :: "unit threads \<Rightarrow> tid \<Rightarrow> pipe \<Rightarrow> bool \<Rightarrow> (unit threads \<times> pipe) option" where
  "wait_on ts me p kmalloc_ok = do {
     (ts, l, ok) \<leftarrow> reschedule_for_waitlist ts me (p_waitlist p) kmalloc_ok;
     mos_assert ok;
     Some (ts, p\<lparr>p_waitlist := l\<rparr>) }"

text \<open>
  \<^verbatim>\<open>pipe_write\<close> and \<^verbatim>\<open>pipe_read\<close> until they return (\<open>Inl\<close>) or sleep with a remainder (\<open>Inr\<close>).  After a sleep
  they go on with \<open>write_locked\<close> or \<open>read_locked\<close> on the remainder.
\<close>

datatype pipe_ret = Count nat | EPIPE | Bytes "u8 list"

definition pipe_write ::
  "unit threads \<Rightarrow> sig_thread \<Rightarrow> pipe \<Rightarrow> u8 list \<Rightarrow> bool \<Rightarrow>
     (unit threads \<times> sig_thread \<times> pipe \<times> (pipe_ret + u8 list \<times> nat)) option" where
  "pipe_write ts self p buf kmalloc_ok =
     (if p_magic p \<noteq> PIPE_MAGIC then Some (ts, self, p, Inl (Count 0))
      else do {
        (self, p, r) \<leftarrow> write_locked self p buf kmalloc_ok;
        case r of
          W_Closed \<Rightarrow> Some (ts, self, p, Inl EPIPE)
        | W_Wait rest n \<Rightarrow> do {
            (ts, p) \<leftarrow> wake_all ts p;
            (ts, p) \<leftarrow> wait_on ts (sg_tid self) p kmalloc_ok;
            Some (ts, self, p, Inr (rest, n)) }
        | W_Done n \<Rightarrow> do { (ts, p) \<leftarrow> wake_all ts p; Some (ts, self, p, Inl (Count n)) } })"

definition pipe_read ::
  "unit threads \<Rightarrow> tid \<Rightarrow> pipe \<Rightarrow> nat \<Rightarrow> bool \<Rightarrow> (unit threads \<times> pipe \<times> (pipe_ret + nat \<times> u8 list)) option" where
  "pipe_read ts me p n kmalloc_ok =
     (if p_magic p \<noteq> PIPE_MAGIC then Some (ts, p, Inl (Count 0))
      else do {
        (p, r) \<leftarrow> read_locked p n;
        (ts, p) \<leftarrow> wake_all ts p;
        case r of
          R_Eof bs \<Rightarrow> Some (ts, p, Inl (Bytes bs))
        | R_Wait left bs \<Rightarrow> do { (ts, p) \<leftarrow> wait_on ts me p kmalloc_ok; Some (ts, p, Inr (left, bs)) }
        | R_Done bs \<Rightarrow> Some (ts, p, Inl (Bytes bs)) })"

text \<open>
  Closing an end: the section under the lock tells whether the other end was closed already, and then
  the pages and the pipe are freed.
\<close>

definition close_locked :: "pipe \<Rightarrow> (pipe \<times> bool) option" where
  "close_locked p = do {
     p \<leftarrow> p_acquire p;
     if \<not> p_other_closed p then Some (p_release (p\<lparr>p_other_closed := True\<rparr>), False)
     else Some (p_release p, True) }"

definition pipe_close_one_end :: "unit threads \<Rightarrow> pipe \<Rightarrow> (unit threads \<times> pipe \<times> bool) option" where
  "pipe_close_one_end ts p =
     (if p_magic p \<noteq> PIPE_MAGIC then Some (ts, p, False)
      else do {
        (p, freed) \<leftarrow> close_locked p;
        if \<not> freed then do { (ts, p) \<leftarrow> wake_all ts p; Some (ts, p, False) }
        else Some (ts, p, True) })"

subsection \<open>A writer and a reader\<close>

text \<open>
  Where an end is in its operation, with the request that is left: about to take the lock, about to
  wake the other end (and then to sleep, if there is a request), about to join the wait list, on the
  list and about to block, or asleep.  An end that closes first has to wake the other one and is closed
  then.
\<close>

datatype 'r pipe_pc = Idle | Lock 'r | Wake "'r option" | Join 'r | Block 'r | Asleep 'r | Closing | Closed

text \<open>
  The state has the signals of the writer and whether the pipe has been freed.  The bytes of all write
  requests, those that went into the buffer, and those that came out of it are recorded.
\<close>

record pipe_system =
  ps_pipe :: pipe
  ps_freed :: bool
  ps_threads :: "unit threads"
  ps_signals :: sig_thread
  ps_writer :: "u8 list pipe_pc"
  ps_reader :: "nat pipe_pc"
  ps_requested :: "u8 list"
  ps_sent :: "u8 list"
  ps_got :: "u8 list"

fun written_of :: "write_result \<Rightarrow> nat" where
  "written_of W_Closed = 0" | "written_of (W_Wait rest n) = n" | "written_of (W_Done n) = n"

fun writer_next :: "write_result \<Rightarrow> u8 list pipe_pc" where
  "writer_next W_Closed = Idle" | "writer_next (W_Wait rest n) = Wake (Some rest)" | "writer_next (W_Done n) = Wake None"

fun bytes_of :: "read_result \<Rightarrow> u8 list" where
  "bytes_of (R_Eof bs) = bs" | "bytes_of (R_Wait n bs) = bs" | "bytes_of (R_Done bs) = bs"

fun reader_next :: "read_result \<Rightarrow> nat pipe_pc" where
  "reader_next (R_Eof bs) = Wake None" | "reader_next (R_Wait n bs) = Wake (Some n)" | "reader_next (R_Done bs) = Wake None"

definition after_wake :: "'r option \<Rightarrow> 'r pipe_pc" where
  "after_wake r = (case r of None \<Rightarrow> Idle | Some r \<Rightarrow> Join r)"

definition after_close :: "bool \<Rightarrow> 'r pipe_pc" where
  "after_close freed = (if freed then Closed else Closing)"

text \<open>
  The writer is the thread \<open>w\<close>, the reader the thread \<open>r\<close>; the allocations of wait list entries and of
  pending signals succeed.  A step that aborts is no step: a wake-up that meets a thread between
  joining the list and blocking (\<^verbatim>\<open>waitlist_wake\<close> asserts that it is blocked), and the wake-up of a
  closing end in a pipe that the other end has freed meanwhile.
\<close>

inductive pipe_step :: "tid \<Rightarrow> tid \<Rightarrow> pipe_system \<Rightarrow> pipe_system \<Rightarrow> bool" for w r where
  request_write: "ps_writer s = Idle \<Longrightarrow> p_magic (ps_pipe s) = PIPE_MAGIC \<Longrightarrow> length bs < 2 ^ 63 \<Longrightarrow>
    pipe_step w r s (s\<lparr>ps_writer := Lock bs, ps_requested := ps_requested s @ bs\<rparr>)"
| push: "ps_writer s = Lock bs \<Longrightarrow> write_locked (ps_signals s) (ps_pipe s) bs True = Some (t, p, res) \<Longrightarrow>
    pipe_step w r s (s\<lparr>ps_pipe := p, ps_signals := t, ps_writer := writer_next res, ps_sent := ps_sent s @ take (written_of res) bs\<rparr>)"
| write_wake: "ps_writer s = Wake q \<Longrightarrow> wake_all (ps_threads s) (ps_pipe s) = Some (ts, p) \<Longrightarrow>
    pipe_step w r s (s\<lparr>ps_threads := ts, ps_pipe := p, ps_writer := after_wake q\<rparr>)"
| write_join: "ps_writer s = Join bs \<Longrightarrow> ps_threads s w = Some t \<Longrightarrow> join_waitlist t w (p_waitlist (ps_pipe s)) True = Some (l, True) \<Longrightarrow>
    pipe_step w r s (s\<lparr>ps_pipe := (ps_pipe s)\<lparr>p_waitlist := l\<rparr>, ps_writer := Block bs\<rparr>)"
| write_block: "ps_writer s = Block bs \<Longrightarrow> ps_threads s w = Some t \<Longrightarrow>
    pipe_step w r s (s\<lparr>ps_threads := (ps_threads s)(w \<mapsto> block_for_waitlist t), ps_writer := Asleep bs\<rparr>)"
| write_resume: "ps_writer s = Asleep bs \<Longrightarrow> ps_threads s w = Some t \<Longrightarrow> schedule_to_thread None t = Some (t', Some flags) \<Longrightarrow>
    pipe_step w r s (s\<lparr>ps_threads := (ps_threads s)(w \<mapsto> t'), ps_writer := Lock bs\<rparr>)"
| request_read: "ps_reader s = Idle \<Longrightarrow> p_magic (ps_pipe s) = PIPE_MAGIC \<Longrightarrow> n < 2 ^ 63 \<Longrightarrow>
    pipe_step w r s (s\<lparr>ps_reader := Lock n\<rparr>)"
| pop: "ps_reader s = Lock n \<Longrightarrow> read_locked (ps_pipe s) n = Some (p, res) \<Longrightarrow>
    pipe_step w r s (s\<lparr>ps_pipe := p, ps_reader := reader_next res, ps_got := ps_got s @ bytes_of res\<rparr>)"
| read_wake: "ps_reader s = Wake q \<Longrightarrow> wake_all (ps_threads s) (ps_pipe s) = Some (ts, p) \<Longrightarrow>
    pipe_step w r s (s\<lparr>ps_threads := ts, ps_pipe := p, ps_reader := after_wake q\<rparr>)"
| read_join: "ps_reader s = Join n \<Longrightarrow> ps_threads s r = Some t \<Longrightarrow> join_waitlist t r (p_waitlist (ps_pipe s)) True = Some (l, True) \<Longrightarrow>
    pipe_step w r s (s\<lparr>ps_pipe := (ps_pipe s)\<lparr>p_waitlist := l\<rparr>, ps_reader := Block n\<rparr>)"
| read_block: "ps_reader s = Block n \<Longrightarrow> ps_threads s r = Some t \<Longrightarrow>
    pipe_step w r s (s\<lparr>ps_threads := (ps_threads s)(r \<mapsto> block_for_waitlist t), ps_reader := Asleep n\<rparr>)"
| read_resume: "ps_reader s = Asleep n \<Longrightarrow> ps_threads s r = Some t \<Longrightarrow> schedule_to_thread None t = Some (t', Some flags) \<Longrightarrow>
    pipe_step w r s (s\<lparr>ps_threads := (ps_threads s)(r \<mapsto> t'), ps_reader := Lock n\<rparr>)"
| write_close: "ps_writer s = Idle \<Longrightarrow> p_magic (ps_pipe s) = PIPE_MAGIC \<Longrightarrow> close_locked (ps_pipe s) = Some (p, freed) \<Longrightarrow>
    pipe_step w r s (s\<lparr>ps_pipe := p, ps_freed := freed, ps_writer := after_close freed\<rparr>)"
| write_close_wake: "ps_writer s = Closing \<Longrightarrow> \<not> ps_freed s \<Longrightarrow> wake_all (ps_threads s) (ps_pipe s) = Some (ts, p) \<Longrightarrow>
    pipe_step w r s (s\<lparr>ps_threads := ts, ps_pipe := p, ps_writer := Closed\<rparr>)"
| read_close: "ps_reader s = Idle \<Longrightarrow> p_magic (ps_pipe s) = PIPE_MAGIC \<Longrightarrow> close_locked (ps_pipe s) = Some (p, freed) \<Longrightarrow>
    pipe_step w r s (s\<lparr>ps_pipe := p, ps_freed := freed, ps_reader := after_close freed\<rparr>)"
| read_close_wake: "ps_reader s = Closing \<Longrightarrow> \<not> ps_freed s \<Longrightarrow> wake_all (ps_threads s) (ps_pipe s) = Some (ts, p) \<Longrightarrow>
    pipe_step w r s (s\<lparr>ps_threads := ts, ps_pipe := p, ps_reader := Closed\<rparr>)"

definition pipe_start :: "pipe \<Rightarrow> unit threads \<Rightarrow> sig_thread \<Rightarrow> pipe_system" where
  "pipe_start p ts self = \<lparr>ps_pipe = p, ps_freed = False, ps_threads = ts, ps_signals = self, ps_writer = Idle, ps_reader = Idle,
     ps_requested = [], ps_sent = [], ps_got = []\<rparr>"

section \<open>The sections under the lock\<close>

lemma sigpipe_sent:
  assumes "\<not> sg_lock self"
  shows "\<exists>res. signal_send_to_thread self SIGPIPE True =
    Some (self\<lparr>sg_pending := sg_pending self @ (if sg_mode self = THREAD_MODE_KERNEL \<or> SIGPIPE \<in> set (sg_pending self) then [] else [SIGPIPE])\<rparr>, res)"
  using assms by (cases self) (auto simp: signal_send_to_thread_def sig_acquire_def sig_release_def Let_def)

lemma write_locked_ok:
  assumes "rb_wf (p_buffer p)" "length buf < 2 ^ 63" "\<not> sg_lock self" "write_locked self p buf True = Some (self', p', res)"
  shows "rb_wf (p_buffer p')" "rb_contents (p_buffer p') = rb_contents (p_buffer p) @ take (written_of res) buf"
    "p_other_closed p' = p_other_closed p" "\<not> p_lock p'"
    "res = W_Closed \<longleftrightarrow> p_other_closed p"
    "res = W_Wait rest n \<Longrightarrow> rest = drop n buf" "res = W_Done n \<Longrightarrow> drop n buf = []" "\<not> sg_lock self'"
proof -
  obtain b n where b: "rb_fifo_push (p_buffer p) buf = Some (b, n)" "rb_wf b"
    "rb_contents b = rb_contents (p_buffer p) @ take n buf"
    using rbq.push_law [OF assms(1,2)] by (auto simp: min_def split: if_splits)
  then obtain wr where wr: "ring_buffer_push_back (p_buffer p) buf (of_nat (length buf)) = Some (b, wr)" "unat wr = n"
    by (auto simp: rb_fifo_push_def)
  obtain sig where sig: "signal_send_to_thread self SIGPIPE True =
    Some (self\<lparr>sg_pending := sg_pending self @ (if sg_mode self = THREAD_MODE_KERNEL \<or> SIGPIPE \<in> set (sg_pending self) then [] else [SIGPIPE])\<rparr>, sig)"
    using sigpipe_sent [OF assms(3)] by blast
  show "rb_wf (p_buffer p')" "rb_contents (p_buffer p') = rb_contents (p_buffer p) @ take (written_of res) buf"
    "p_other_closed p' = p_other_closed p" "\<not> p_lock p'"
    "res = W_Closed \<longleftrightarrow> p_other_closed p"
    "res = W_Wait rest m \<Longrightarrow> rest = drop m buf" "res = W_Done m \<Longrightarrow> drop m buf = []" "\<not> sg_lock self'" for m
    using assms b wr sig
    by (auto simp: write_locked_def p_acquire_def p_release_def Let_def split: if_splits)
qed

lemma read_locked_ok:
  assumes "rb_wf (p_buffer p)" "n < 2 ^ 63" "read_locked p n = Some (p', res)"
  shows "rb_wf (p_buffer p')" "rb_contents (p_buffer p) = bytes_of res @ rb_contents (p_buffer p')"
    "p_other_closed p' = p_other_closed p" "\<not> p_lock p'"
proof -
  obtain b bs where b: "rb_fifo_pop (p_buffer p) n = Some (b, bs)" "rb_wf b"
    "rb_contents (p_buffer p) = bs @ rb_contents b"
    using rbq.pop_law [OF assms(1,2)] by (metis append_take_drop_id)
  then obtain buf rd where "ring_buffer_pop_front (p_buffer p) (replicate n 0) (of_nat n) = Some (b, buf, rd)" "bs = take (unat rd) buf"
    by (auto simp: rb_fifo_pop_def)
  then show "rb_wf (p_buffer p')" "rb_contents (p_buffer p) = bytes_of res @ rb_contents (p_buffer p')"
    "p_other_closed p' = p_other_closed p" "\<not> p_lock p'"
    using assms b by (auto simp: read_locked_def p_acquire_def p_release_def Let_def split: if_splits)
qed

text \<open>Waking leaves the buffer alone, and closing sets the mark and frees the pipe if it was set.\<close>

lemma wake_all_pipe:
  "wake_all ts p = Some (ts', p') \<Longrightarrow> p_buffer p' = p_buffer p \<and> p_lock p' = p_lock p \<and> p_other_closed p' = p_other_closed p"
  by (auto simp: wake_all_def split: bind_splits)

lemma close_pipe:
  "close_locked p = Some (p', freed) \<Longrightarrow> p_buffer p' = p_buffer p \<and> p_lock p' = p_lock p \<and> p_other_closed p' \<and> freed = p_other_closed p"
  by (auto simp: close_locked_def p_acquire_def p_release_def split: if_splits)

section \<open>The invariant\<close>

fun pending :: "'r pipe_pc \<Rightarrow> 'r option" where
  "pending Idle = None" | "pending (Lock r) = Some r" | "pending (Wake r) = r" | "pending (Join r) = Some r"
| "pending (Block r) = Some r" | "pending (Asleep r) = Some r" | "pending Closing = None" | "pending Closed = None"

definition leaving :: "'r pipe_pc \<Rightarrow> bool" where
  "leaving pc \<longleftrightarrow> pc = Closing \<or> pc = Closed"

definition left :: "u8 list pipe_pc \<Rightarrow> u8 list" where
  "left pc = (case pending pc of None \<Rightarrow> [] | Some bs \<Rightarrow> bs)"

definition buffered :: "pipe_system \<Rightarrow> u8 list" where
  "buffered s = rb_contents (p_buffer (ps_pipe s))"

text \<open>
  What went in is what came out and what is in the buffer; what was requested is what went in and
  what the writer still has to write, unless the other end has been closed.  Only an end that is closed
  marks the pipe, and it is freed when both are.
\<close>

definition pipe_inv :: "pipe_system \<Rightarrow> bool" where
  "pipe_inv s \<longleftrightarrow> rb_wf (p_buffer (ps_pipe s)) \<and> \<not> p_lock (ps_pipe s) \<and> ps_sent s = ps_got s @ buffered s \<and> prefix (ps_sent s) (ps_requested s) \<and>
     (p_other_closed (ps_pipe s) \<or> ps_requested s = ps_sent s @ left (ps_writer s)) \<and>
     length (left (ps_writer s)) < 2 ^ 63 \<and> (\<forall>n. pending (ps_reader s) = Some n \<longrightarrow> n < 2 ^ 63) \<and> \<not> sg_lock (ps_signals s) \<and>
     (p_other_closed (ps_pipe s) \<longleftrightarrow> leaving (ps_writer s) \<or> leaving (ps_reader s)) \<and>
     (ps_freed s \<longleftrightarrow> leaving (ps_writer s) \<and> leaving (ps_reader s))"

lemma pipe_inv_same:
  assumes "pipe_inv s" "p_buffer p = p_buffer (ps_pipe s)" "p_lock p = p_lock (ps_pipe s)" "p_other_closed p = p_other_closed (ps_pipe s)"
    "pending wpc = pending (ps_writer s)" "leaving wpc = leaving (ps_writer s)"
    "pending rpc = pending (ps_reader s)" "leaving rpc = leaving (ps_reader s)"
  shows "pipe_inv (s\<lparr>ps_threads := ts, ps_pipe := p, ps_writer := wpc\<rparr>)" "pipe_inv (s\<lparr>ps_threads := ts, ps_pipe := p, ps_reader := rpc\<rparr>)"
    "pipe_inv (s\<lparr>ps_pipe := p, ps_writer := wpc\<rparr>)" "pipe_inv (s\<lparr>ps_pipe := p, ps_reader := rpc\<rparr>)"
    "pipe_inv (s\<lparr>ps_threads := ts, ps_writer := wpc\<rparr>)" "pipe_inv (s\<lparr>ps_threads := ts, ps_reader := rpc\<rparr>)"
  using assms by (auto simp: pipe_inv_def buffered_def left_def)

lemma leaving_simps [simp]:
  "\<not> leaving Idle" "\<not> leaving (Lock q)" "\<not> leaving (Wake q')" "\<not> leaving (Join q)" "\<not> leaving (Block q)" "\<not> leaving (Asleep q)"
  "leaving Closing" "leaving Closed" "leaving (after_close freed)" "\<not> leaving (after_wake q')"
  by (auto simp: leaving_def after_close_def after_wake_def split: option.split)

lemma leaving_next [simp]: "\<not> leaving (writer_next res)" "\<not> leaving (reader_next res')"
  by (cases res; simp) (cases res'; simp)

lemma pending_after_close [simp]: "pending (after_close freed) = None"
  by (simp add: after_close_def)

lemma pending_after_wake [simp]: "pending (after_wake q) = q"
  by (simp add: after_wake_def split: option.split)

lemma pipe_inv_push:
  assumes "pipe_inv s" "ps_writer s = Lock bs" "write_locked (ps_signals s) (ps_pipe s) bs True = Some (t, p, res)"
  shows "pipe_inv (s\<lparr>ps_pipe := p, ps_signals := t, ps_writer := writer_next res, ps_sent := ps_sent s @ take (written_of res) bs\<rparr>)"
proof -
  have len: "length bs < 2 ^ 63" and wf: "rb_wf (p_buffer (ps_pipe s))" and sg: "\<not> sg_lock (ps_signals s)"
    using assms(1,2) by (auto simp: pipe_inv_def left_def)
  note L = write_locked_ok [OF wf len sg assms(3)]
  show ?thesis
  proof (cases res)
    case W_Closed
    then show ?thesis
      using assms(1,2) L by (auto simp: pipe_inv_def buffered_def left_def)
  next
    case (W_Wait rest n)
    then have "bs = take n bs @ rest" "length rest < 2 ^ 63"
      using L(6) len by auto
    then show ?thesis
      using assms(1,2) L(1,2,3,4,5,8) W_Wait by (auto simp: pipe_inv_def buffered_def left_def prefix_def)
  next
    case (W_Done n)
    then have "take n bs = bs"
      using L(7) by simp
    then show ?thesis
      using assms(1,2) L(1,2,3,4,5,8) W_Done by (auto simp: pipe_inv_def buffered_def left_def prefix_def)
  qed
qed

lemma pipe_inv_pop:
  assumes "pipe_inv s" "ps_reader s = Lock n" "read_locked (ps_pipe s) n = Some (p, res)"
  shows "pipe_inv (s\<lparr>ps_pipe := p, ps_reader := reader_next res, ps_got := ps_got s @ bytes_of res\<rparr>)"
proof -
  have n: "n < 2 ^ 63" and wf: "rb_wf (p_buffer (ps_pipe s))"
    using assms(1,2) by (auto simp: pipe_inv_def)
  have "m \<le> n" if "res = R_Wait m bs" for m bs
    using assms(3) that by (auto simp: read_locked_def Let_def split: bind_splits if_splits)
  then have "\<forall>m. pending (reader_next res) = Some m \<longrightarrow> m < 2 ^ 63"
    using n by (cases res) auto
  then show ?thesis
    using assms(1,2) read_locked_ok [OF wf n assms(3)] by (auto simp: pipe_inv_def buffered_def)
qed

lemma pipe_step_inv:
  assumes "pipe_step w r s s'" "pipe_inv s"
  shows "pipe_inv s'"
  using assms
proof (induction rule: pipe_step.induct)
  case (request_write s bs)
  then show ?case
    by (auto simp: pipe_inv_def buffered_def left_def prefix_def)
next
  case (request_read s n)
  then show ?case
    by (auto simp: pipe_inv_def buffered_def)
next
  case (write_close s p freed)
  then show ?case
    by (auto simp: pipe_inv_def buffered_def left_def dest!: close_pipe)
next
  case (read_close s p freed)
  then show ?case
    by (auto simp: pipe_inv_def buffered_def left_def dest!: close_pipe)
qed (auto intro: pipe_inv_push pipe_inv_pop pipe_inv_same dest!: wake_all_pipe)

lemma pipe_start_inv:
  assumes "pipe_create bufsize True pages = Some p" "\<And>n mem. pages n = Some mem \<Longrightarrow> length mem = unat n * 4096"
    "0 < unat bufsize" "unat bufsize < 2 ^ 62" "\<not> sg_lock self"
  shows "pipe_inv (pipe_start p ts self)"
proof -
  let ?size = "ALIGN_UP_TO_PAGE bufsize"
  have size: "unat ?size = (unat bufsize + 4095) div 4096 * 4096"
    by (rule unat_align_up) (use assms(4) in simp)
  then have "unat (?size div MOS_PAGE_SIZE) * 4096 = unat ?size" "0 < unat ?size" "unat ?size < 2 ^ 63"
    using assms(3,4) by (auto simp: unat_div)
  then show ?thesis
    using assms(1,2,5)
    by (auto simp: pipe_create_def pipe_inv_def pipe_start_def buffered_def left_def rb_wf_def rb_contents_def
        ring_buffer_pos_init_def ring_slice_def Let_def split: bind_splits)
qed

text \<open>In a good state neither end can fail inside of the lock.\<close>

lemma write_locked_runs:
  assumes "rb_wf (p_buffer p)" "\<not> p_lock p" "length bs < 2 ^ 63" "\<not> sg_lock self"
  shows "\<exists>self' p' res. write_locked self p bs True = Some (self', p', res)"
  using rbq.push_law [OF assms(1,3)] assms(2) sigpipe_sent [OF assms(4)] by (auto simp: write_locked_def p_acquire_def rb_fifo_push_def)

lemma read_locked_runs:
  assumes "rb_wf (p_buffer p)" "\<not> p_lock p" "n < 2 ^ 63"
  shows "\<exists>p' res. read_locked p n = Some (p', res)"
  using rbq.pop_law [OF assms(1,3)] assms(2) by (auto simp: read_locked_def p_acquire_def rb_fifo_pop_def Let_def)

section \<open>The sequential operations as steps\<close>

text \<open>
  \<open>pipe_write\<close>, \<open>pipe_read\<close> and \<open>pipe_close_one_end\<close>, run without interruption, are steps of their end one after the other.
\<close>

lemma wait_onE:
  assumes "wait_on ts me p True = Some (ts', p')"
  obtains t l where "ts me = Some t" "join_waitlist t me (p_waitlist p) True = Some (l, True)"
    "ts' = ts(me \<mapsto> block_for_waitlist t)" "p' = p\<lparr>p_waitlist := l\<rparr>"
  using assms by (auto simp: wait_on_def reschedule_for_waitlist_def split: bind_splits if_splits)

lemma write_sleep_steps:
  assumes "ps_writer s = Join bs" "wait_on (ps_threads s) w (ps_pipe s) True = Some (ts, p)"
  shows "(pipe_step w r)\<^sup>*\<^sup>* s (s\<lparr>ps_pipe := p, ps_threads := ts, ps_writer := Asleep bs\<rparr>)"
proof -
  obtain t l where t: "ps_threads s w = Some t" "join_waitlist t w (p_waitlist (ps_pipe s)) True = Some (l, True)"
    "ts = (ps_threads s)(w \<mapsto> block_for_waitlist t)" "p = (ps_pipe s)\<lparr>p_waitlist := l\<rparr>"
    using assms(2) by (rule wait_onE)
  let ?s = "s\<lparr>ps_pipe := p, ps_writer := Block bs\<rparr>"
  have "pipe_step w r s ?s"
    using pipe_step.write_join [OF assms(1) t(1,2)] t(4) by simp
  moreover have "pipe_step w r ?s (s\<lparr>ps_pipe := p, ps_threads := ts, ps_writer := Asleep bs\<rparr>)"
    using pipe_step.write_block [of ?s bs w t r] t(1,3) by simp
  ultimately show ?thesis
    by (meson converse_rtranclp_into_rtranclp rtranclp.rtrancl_refl)
qed

lemma read_sleep_steps:
  assumes "ps_reader s = Join n" "wait_on (ps_threads s) r (ps_pipe s) True = Some (ts, p)"
  shows "(pipe_step w r)\<^sup>*\<^sup>* s (s\<lparr>ps_pipe := p, ps_threads := ts, ps_reader := Asleep n\<rparr>)"
proof -
  obtain t l where t: "ps_threads s r = Some t" "join_waitlist t r (p_waitlist (ps_pipe s)) True = Some (l, True)"
    "ts = (ps_threads s)(r \<mapsto> block_for_waitlist t)" "p = (ps_pipe s)\<lparr>p_waitlist := l\<rparr>"
    using assms(2) by (rule wait_onE)
  let ?s = "s\<lparr>ps_pipe := p, ps_reader := Block n\<rparr>"
  have "pipe_step w r s ?s"
    using pipe_step.read_join [OF assms(1) t(1,2)] t(4) by simp
  moreover have "pipe_step w r ?s (s\<lparr>ps_pipe := p, ps_threads := ts, ps_reader := Asleep n\<rparr>)"
    using pipe_step.read_block [of ?s n r t w] t(1,3) by simp
  ultimately show ?thesis
    by (meson converse_rtranclp_into_rtranclp rtranclp.rtrancl_refl)
qed

lemma pipe_write_steps:
  assumes "ps_writer s = Idle" "p_magic (ps_pipe s) = PIPE_MAGIC" "length bs < 2 ^ 63" "sg_tid t = w"
    "pipe_write (ps_threads s) (ps_signals s) (ps_pipe s) bs True = Some (ts, t, p, res)"
  shows "\<exists>s'. (pipe_step w r)\<^sup>*\<^sup>* s s' \<and> ps_threads s' = ts \<and> ps_signals s' = t \<and> ps_pipe s' = p \<and>
     ps_writer s' = (case res of Inl _ \<Rightarrow> Idle | Inr (rest, n) \<Rightarrow> Asleep rest)"
proof -
  let ?s1 = "s\<lparr>ps_writer := Lock bs, ps_requested := ps_requested s @ bs\<rparr>"
  obtain p1 q where q: "write_locked (ps_signals s) (ps_pipe s) bs True = Some (t, p1, q)"
    using assms(2,5) by (auto simp: pipe_write_def split: bind_splits write_result.splits)
  let ?s2 = "?s1\<lparr>ps_pipe := p1, ps_signals := t, ps_writer := writer_next q, ps_sent := ps_sent s @ take (written_of q) bs\<rparr>"
  have "pipe_step w r s ?s1"
    using pipe_step.request_write [OF assms(1-3)] by simp
  moreover have "pipe_step w r ?s1 ?s2"
    using pipe_step.push [of ?s1 bs t p1 q w r] q by simp
  ultimately have run: "(pipe_step w r)\<^sup>*\<^sup>* s ?s2"
    by (meson converse_rtranclp_into_rtranclp rtranclp.rtrancl_refl)
  show ?thesis
  proof (cases q)
    case W_Closed
    then show ?thesis
      using assms(2,5) q run by (intro exI [of _ ?s2]) (auto simp: pipe_write_def)
  next
    case (W_Wait rest n)
    then obtain ts2 p2 where w2: "wake_all (ps_threads s) p1 = Some (ts2, p2)" "wait_on ts2 w p2 True = Some (ts, p)" "res = Inr (rest, n)"
      using assms(2,4,5) q by (auto simp: pipe_write_def split: bind_splits)
    let ?s3 = "?s2\<lparr>ps_threads := ts2, ps_pipe := p2, ps_writer := Join rest\<rparr>"
    have "pipe_step w r ?s2 ?s3"
      using pipe_step.write_wake [of ?s2 "Some rest" ts2 p2 w r] w2 W_Wait by (simp add: after_wake_def)
    with run have "(pipe_step w r)\<^sup>*\<^sup>* s (?s3\<lparr>ps_pipe := p, ps_threads := ts, ps_writer := Asleep rest\<rparr>)"
      using write_sleep_steps [of ?s3 rest w ts p r] w2(2) by (simp add: rtranclp_trans)
    then show ?thesis
      using w2(3) by (intro exI [of _ "?s3\<lparr>ps_pipe := p, ps_threads := ts, ps_writer := Asleep rest\<rparr>"]) auto
  next
    case (W_Done n)
    then have w2: "wake_all (ps_threads s) p1 = Some (ts, p)" "res = Inl (Count n)"
      using assms(2,5) q by (auto simp: pipe_write_def split: bind_splits)
    let ?s3 = "?s2\<lparr>ps_threads := ts, ps_pipe := p, ps_writer := Idle\<rparr>"
    have "pipe_step w r ?s2 ?s3"
      using pipe_step.write_wake [of ?s2 None ts p w r] w2 W_Done by (simp add: after_wake_def)
    with run show ?thesis
      using w2(2) by (intro exI [of _ ?s3]) auto
  qed
qed

lemma pipe_read_steps:
  assumes "ps_reader s = Idle" "p_magic (ps_pipe s) = PIPE_MAGIC" "n < 2 ^ 63"
    "pipe_read (ps_threads s) r (ps_pipe s) n True = Some (ts, p, res)"
  shows "\<exists>s'. (pipe_step w r)\<^sup>*\<^sup>* s s' \<and> ps_threads s' = ts \<and> ps_pipe s' = p \<and>
     ps_reader s' = (case res of Inl _ \<Rightarrow> Idle | Inr (m, bs) \<Rightarrow> Asleep m)"
proof -
  let ?s1 = "s\<lparr>ps_reader := Lock n\<rparr>"
  obtain p1 q ts2 p2 where q: "read_locked (ps_pipe s) n = Some (p1, q)" "wake_all (ps_threads s) p1 = Some (ts2, p2)"
    using assms(2,4) by (auto simp: pipe_read_def split: bind_splits)
  let ?s2 = "?s1\<lparr>ps_pipe := p1, ps_reader := reader_next q, ps_got := ps_got s @ bytes_of q\<rparr>"
  let ?req = "case q of R_Wait m bs \<Rightarrow> Some m | _ \<Rightarrow> None"
  let ?s3 = "?s2\<lparr>ps_threads := ts2, ps_pipe := p2, ps_reader := after_wake ?req\<rparr>"
  have "pipe_step w r s ?s1"
    using pipe_step.request_read [OF assms(1-3)] by simp
  moreover have "pipe_step w r ?s1 ?s2"
    using pipe_step.pop [of ?s1 n p1 q w r] q by simp
  moreover have "pipe_step w r ?s2 ?s3"
    using pipe_step.read_wake [of ?s2 ?req ts2 p2 w r] q(2) by (cases q) simp_all
  ultimately have run: "(pipe_step w r)\<^sup>*\<^sup>* s ?s3"
    by (meson converse_rtranclp_into_rtranclp rtranclp.rtrancl_refl)
  show ?thesis
  proof (cases q)
    case (R_Wait m bs)
    then have w2: "wait_on ts2 r p2 True = Some (ts, p)" "res = Inr (m, bs)"
      using assms(2,4) q by (auto simp: pipe_read_def split: bind_splits)
    let ?s4 = "?s3\<lparr>ps_pipe := p, ps_threads := ts, ps_reader := Asleep m\<rparr>"
    have "(pipe_step w r)\<^sup>*\<^sup>* ?s3 ?s4"
      using read_sleep_steps [of ?s3 m r ts p w] w2(1) R_Wait by (simp add: after_wake_def)
    with run have "(pipe_step w r)\<^sup>*\<^sup>* s ?s4"
      by (rule rtranclp_trans)
    then show ?thesis
      using w2(2) by (intro exI [of _ ?s4]) auto
  qed (use assms(2,4) q run in \<open>auto simp: pipe_read_def after_wake_def intro!: exI [of _ ?s3]\<close>)
qed

lemma pipe_close_steps:
  assumes "ps_writer s = Idle" "p_magic (ps_pipe s) = PIPE_MAGIC"
    "pipe_close_one_end (ps_threads s) (ps_pipe s) = Some (ts, p, freed)"
  shows "(pipe_step w r)\<^sup>*\<^sup>* s (s\<lparr>ps_freed := freed, ps_threads := ts, ps_pipe := p, ps_writer := Closed\<rparr>)"
proof -
  obtain p1 where c: "close_locked (ps_pipe s) = Some (p1, freed)"
    "if freed then ts = ps_threads s \<and> p = p1 else wake_all (ps_threads s) p1 = Some (ts, p)"
    using assms(2,3) by (auto simp: pipe_close_one_end_def split: bind_splits if_splits)
  let ?s1 = "s\<lparr>ps_pipe := p1, ps_freed := freed, ps_writer := after_close freed\<rparr>"
  let ?s2 = "s\<lparr>ps_freed := freed, ps_threads := ts, ps_pipe := p, ps_writer := Closed\<rparr>"
  have s1: "pipe_step w r s ?s1"
    using assms(1,2) c(1) by (rule pipe_step.write_close)
  show ?thesis
  proof (cases freed)
    case True
    then have "?s1 = ?s2"
      using c(2) by (cases s) (simp add: after_close_def)
    then show ?thesis
      using s1 by auto
  next
    case False
    then have "pipe_step w r ?s1 ?s2"
      using pipe_step.write_close_wake [of ?s1 ts p w r] c(2) by (simp add: after_close_def)
    then show ?thesis
      using s1 by (meson converse_rtranclp_into_rtranclp rtranclp.rtrancl_refl)
  qed
qed

section \<open>Examples\<close>

text \<open>A pipe of one page, and a run of a write and a read on it.\<close>

definition pages_example :: "size_t \<Rightarrow> u8 list option" where
  "pages_example n = Some (replicate (unat n * 4096) 0)"

definition pipe_example :: pipe where
  "pipe_example = \<lparr>p_magic = PIPE_MAGIC, p_waitlist = waitlist_init, p_lock = False, p_other_closed = False, p_npages = 1,
     p_buffer = \<lparr>rb_data = replicate 4096 0, rb_pos = ring_buffer_pos_init 4096\<rparr>\<rparr>"

lemma pipe_example_create: "pipe_create 4096 True pages_example = Some pipe_example"
proof -
  have "ALIGN_UP_TO_PAGE 4096 = 4096" "(4096 :: size_t) div MOS_PAGE_SIZE = 1"
    by (simp_all add: ALIGN_UP_TO_PAGE_def MOS_PAGE_SIZE_def)
  then show ?thesis
    by (simp add: pipe_create_def pages_example_def pipe_example_def Let_def)
qed

lemma pipe_example_ok:
  "rb_wf (p_buffer pipe_example)" "rb_contents (p_buffer pipe_example) = []" "rb_cap (p_buffer pipe_example) = 4096"
  by (simp_all add: pipe_example_def rb_wf_def rb_contents_def ring_buffer_pos_init_def ring_slice_def)

lemma p_unlocked: "\<not> p_lock p \<Longrightarrow> p\<lparr>p_buffer := b, p_lock := False\<rparr> = p\<lparr>p_buffer := b\<rparr>"
  by (cases p) simp

text \<open>An empty read has to wait; a write of one byte to an empty buffer succeeds.\<close>

lemma read_empty:
  assumes "rb_wf (p_buffer p)" "rb_contents (p_buffer p) = []" "\<not> p_lock p" "\<not> p_other_closed p" "0 < n" "n < 2 ^ 63"
  shows "\<exists>b. read_locked p n = Some (p\<lparr>p_buffer := b\<rparr>, R_Wait n []) \<and> rb_wf b \<and> rb_contents b = [] \<and> rb_cap b = rb_cap (p_buffer p)"
proof -
  have "0 = min (unat (of_nat n :: size_t)) (length (rb_contents (p_buffer p)))"
    using assms(2) by simp
  from pop_front_contents [OF assms(1) this, of "replicate n 0"] assms(2)
  obtain b w where "ring_buffer_pop_front (p_buffer p) (replicate n 0) (of_nat n) = Some (b, replicate n 0, w)" "unat w = 0"
    "rb_wf b" "rb_contents b = []" "rb_cap b = rb_cap (p_buffer p)"
    by auto
  then show ?thesis
    using assms(3-6) by (auto simp: read_locked_def p_acquire_def p_release_def p_unlocked Let_def intro!: exI [of _ b])
qed

lemma write_one:
  assumes "rb_wf (p_buffer p)" "rb_contents (p_buffer p) = []" "\<not> p_lock p" "\<not> p_other_closed p"
  shows "\<exists>b. write_locked self p [x] True = Some (self, p\<lparr>p_buffer := b\<rparr>, W_Done 1) \<and> rb_wf b \<and> rb_contents b = [x]"
proof -
  have "0 < rb_cap (p_buffer p)"
    using rb_wfD [OF assms(1)] by simp
  then have "1 = min (unat (1 :: size_t)) (rb_cap (p_buffer p) - length (rb_contents (p_buffer p)))"
    using assms(2) by simp
  from push_back_contents [OF assms(1) _ this, of "[x]"] assms(2)
  obtain b w where "ring_buffer_push_back (p_buffer p) [x] 1 = Some (b, w)" "unat w = 1" "rb_wf b" "rb_contents b = [x]"
    by auto
  then show ?thesis
    using assms(3,4) by (auto simp: write_locked_def p_acquire_def p_release_def p_unlocked Let_def intro!: exI [of _ b])
qed

text \<open>
  A wake-up can be lost here as well: the reader finds the buffer empty, releases the lock, and joins the
  wait list only after the writer has written and has found nobody to wake.  The reader sleeps although
  there are bytes for it and the writer is done.
\<close>

definition reader_thread :: "unit thread" where
  "reader_thread = \<lparr>t_owner = 1, t_mode = THREAD_MODE_USER, t_state_lock = False, t_state = THREAD_STATE_RUNNING,
     t_waiting = None, t_waiters = waitlist_init\<rparr>"

definition writer_signals :: sig_thread where
  "writer_signals = \<lparr>sg_tid = 1, sg_mode = THREAD_MODE_USER, sg_state = THREAD_STATE_RUNNING, sg_state_lock = False, sg_lock = False,
     sg_pending = [], sg_masks = (\<lambda>_. False)\<rparr>"

lemma pipe_lost_wakeup:
  "\<exists>s. (pipe_step 1 2)\<^sup>*\<^sup>* (pipe_start pipe_example [2 \<mapsto> reader_thread] writer_signals) s \<and> ps_writer s = Idle \<and> buffered s = [7] \<and>
     ps_reader s = Asleep 1 \<and> map_option t_state (ps_threads s 2) = Some THREAD_STATE_BLOCKED"
proof -
  let ?ts = "[2 \<mapsto> reader_thread]" and ?p = pipe_example
  let ?wl = "\<lambda>p. p_waitlist p = waitlist_init"
  let ?s0 = "pipe_start ?p ?ts writer_signals"
  have wake: "wake_all ?ts p = Some (?ts, p)" if "?wl p" for p
    using that by (auto simp: wake_all_def waitlist_wake_def wl_acquire_def wl_release_def waitlist_init_def)
  have p0: "p_magic ?p = PIPE_MAGIC" "\<not> p_lock ?p" "\<not> p_other_closed ?p" "?wl ?p"
    by (simp_all add: pipe_example_def)
  obtain b where b: "read_locked ?p 1 = Some (?p\<lparr>p_buffer := b\<rparr>, R_Wait 1 [])" "rb_wf b" "rb_contents b = []"
    using read_empty [of ?p 1] pipe_example_ok p0 by auto
  let ?p1 = "?p\<lparr>p_buffer := b\<rparr>"
  obtain c where c: "write_locked writer_signals ?p1 [7] True = Some (writer_signals, ?p1\<lparr>p_buffer := c\<rparr>, W_Done 1)" "rb_contents c = [7]"
    using write_one [of ?p1 writer_signals 7] b p0 by auto
  let ?p2 = "?p\<lparr>p_buffer := c\<rparr>"
  define l where "l = waitlist_init\<lparr>wl_list := [2]\<rparr>"
  define t where "t = block_for_waitlist reader_thread"
  have join: "join_waitlist reader_thread 2 (p_waitlist ?p2) True = Some (l, True)"
    by (simp add: join_waitlist_def waitlist_append_def wl_acquire_def wl_release_def
        reader_thread_def waitlist_init_def l_def pipe_example_def)
  let ?s1 = "?s0\<lparr>ps_reader := Lock 1\<rparr>"
  let ?s2 = "?s0\<lparr>ps_pipe := ?p1, ps_reader := Wake (Some 1)\<rparr>"
  let ?s3 = "?s0\<lparr>ps_pipe := ?p1, ps_reader := Join 1\<rparr>"
  let ?s4 = "?s3\<lparr>ps_writer := Lock [7], ps_requested := [7]\<rparr>"
  let ?s5 = "?s4\<lparr>ps_pipe := ?p2, ps_writer := Wake None, ps_sent := [7]\<rparr>"
  let ?s6 = "?s5\<lparr>ps_writer := Idle\<rparr>"
  let ?s7 = "?s6\<lparr>ps_pipe := ?p2\<lparr>p_waitlist := l\<rparr>, ps_reader := Block 1\<rparr>"
  let ?s8 = "?s7\<lparr>ps_threads := ?ts(2 \<mapsto> t), ps_reader := Asleep 1\<rparr>"
  let ?step = "pipe_step 1 2"
  have "?step ?s0 ?s1"
    using pipe_step.request_read [of ?s0 1 1 2] p0 by (simp add: pipe_start_def)
  moreover have "?step ?s1 ?s2"
    using pipe_step.pop [of ?s1 1 ?p1 "R_Wait 1 []" 1 2] b(1) by (simp add: pipe_start_def)
  moreover have "?step ?s2 ?s3"
    using pipe_step.read_wake [of ?s2 "Some 1" ?ts ?p1 1 2] wake [of ?p1] p0 by (simp add: pipe_start_def after_wake_def)
  moreover have "?step ?s3 ?s4"
    using pipe_step.request_write [of ?s3 "[7]" 1 2] p0 by (simp add: pipe_start_def)
  moreover have "?step ?s4 ?s5"
    using pipe_step.push [of ?s4 "[7]" writer_signals ?p2 "W_Done 1" 1 2] c(1) by (simp add: pipe_start_def)
  moreover have "?step ?s5 ?s6"
    using pipe_step.write_wake [of ?s5 None ?ts ?p2 1 2] wake [of ?p2] p0 by (simp add: pipe_start_def after_wake_def)
  moreover have "?step ?s6 ?s7"
    using pipe_step.read_join [of ?s6 1 2 reader_thread l 1] join by (simp add: pipe_start_def)
  moreover have "?step ?s7 ?s8"
    using pipe_step.read_block [of ?s7 1 2 reader_thread 1] by (simp add: pipe_start_def t_def)
  ultimately have "?step\<^sup>*\<^sup>* ?s0 ?s8"
    by (meson converse_rtranclp_into_rtranclp rtranclp.rtrancl_refl)
  then show ?thesis
    using c(2) by (intro exI [of _ ?s8]) (simp add: pipe_start_def buffered_def t_def block_for_waitlist_def state_release_def)
qed

text \<open>
  Two ends that close at the same time can race: the first one has marked the pipe and released the lock,
  the second one frees it, and the first one still has to use the wait list of the freed pipe.
\<close>

lemma pipe_close_race:
  "\<exists>s. (pipe_step 1 2)\<^sup>*\<^sup>* (pipe_start pipe_example [2 \<mapsto> reader_thread] writer_signals) s \<and> ps_writer s = Closing \<and> ps_freed s"
proof -
  let ?s0 = "pipe_start pipe_example [2 \<mapsto> reader_thread] writer_signals"
  let ?p = "pipe_example\<lparr>p_other_closed := True\<rparr>"
  let ?s1 = "?s0\<lparr>ps_pipe := ?p, ps_freed := False, ps_writer := after_close False\<rparr>"
  let ?s2 = "?s1\<lparr>ps_pipe := ?p, ps_freed := True, ps_reader := after_close True\<rparr>"
  have c: "close_locked pipe_example = Some (?p, False)" "close_locked ?p = Some (?p, True)" "p_magic pipe_example = PIPE_MAGIC"
    by (simp_all add: close_locked_def p_acquire_def p_release_def pipe_example_def)
  have "pipe_step 1 2 ?s0 ?s1"
    by (rule pipe_step.write_close) (simp_all add: pipe_start_def c)
  moreover have "pipe_step 1 2 ?s1 ?s2"
    by (rule pipe_step.read_close) (simp_all add: pipe_start_def c)
  ultimately have "(pipe_step 1 2)\<^sup>*\<^sup>* ?s0 ?s2"
    by (meson converse_rtranclp_into_rtranclp rtranclp.rtrancl_refl)
  then show ?thesis
    by (intro exI [of _ ?s2]) (simp add: after_close_def)
qed

section \<open>Properties\<close>

text \<open>
  C11: A pipe delivers bytes in order, and neither loses nor repeats any: however a writer and a reader
  interleave, block and close, the bytes that the reader got, followed by the bytes in the buffer, are
  the bytes that were accepted, a prefix of those that the writer wanted to write.  While no end is
  closed the rest is what the current write still holds.  An end that is about to read or write finds
  the pipe allocated, and inside of the lock no operation faults.
\<close>

theorem pipe_fifo:
  assumes "pipe_create bufsize True pages = Some p" "\<And>n mem. pages n = Some mem \<Longrightarrow> length mem = unat n * 4096"
    "0 < unat bufsize" "unat bufsize < 2 ^ 62" "\<not> sg_lock self" "(pipe_step w r)\<^sup>*\<^sup>* (pipe_start p ts self) s"
  shows "ps_sent s = ps_got s @ buffered s \<and> prefix (ps_got s) (ps_requested s) \<and>
     (\<not> p_other_closed (ps_pipe s) \<longrightarrow> ps_requested s = ps_got s @ buffered s @ left (ps_writer s)) \<and>
     (\<forall>bs. ps_writer s = Lock bs \<longrightarrow> \<not> ps_freed s \<and> write_locked (ps_signals s) (ps_pipe s) bs True \<noteq> None) \<and>
     (\<forall>n. ps_reader s = Lock n \<longrightarrow> \<not> ps_freed s \<and> read_locked (ps_pipe s) n \<noteq> None)"
proof -
  have inv: "pipe_inv s"
    using assms(6) pipe_start_inv [OF assms(1-5)] by (induction rule: rtranclp_induct) (auto intro: pipe_step_inv)
  have "\<not> ps_freed s \<and> write_locked (ps_signals s) (ps_pipe s) bs True \<noteq> None" if "ps_writer s = Lock bs" for bs
    using inv that write_locked_runs [of "ps_pipe s" bs "ps_signals s"] by (auto simp: pipe_inv_def left_def)
  moreover have "\<not> ps_freed s \<and> read_locked (ps_pipe s) n \<noteq> None" if "ps_reader s = Lock n" for n
    using inv that read_locked_runs [of "ps_pipe s" n] by (auto simp: pipe_inv_def)
  moreover have "ps_sent s = ps_got s @ buffered s" "prefix (ps_sent s) (ps_requested s)"
    "p_other_closed (ps_pipe s) \<or> ps_requested s = ps_sent s @ left (ps_writer s)"
    using inv unfolding pipe_inv_def by blast+
  moreover from this(1,2) have "prefix (ps_got s) (ps_requested s)"
    using append_prefixD by metis
  ultimately show ?thesis
    by auto
qed

theorem pipe_fifo_witness:
  "\<exists>s. (pipe_step 1 2)\<^sup>*\<^sup>* (pipe_start pipe_example [2 \<mapsto> reader_thread] writer_signals) s \<and> buffered s = [7] \<and>
     ps_sent s = ps_got s @ [7] \<and> prefix (ps_got s) (ps_requested s)"
proof -
  obtain s where s: "(pipe_step 1 2)\<^sup>*\<^sup>* (pipe_start pipe_example [2 \<mapsto> reader_thread] writer_signals) s" "buffered s = [7]"
    using pipe_lost_wakeup by blast
  have "\<And>n mem. pages_example n = Some mem \<Longrightarrow> length mem = unat n * 4096"
    by (auto simp: pages_example_def)
  then show ?thesis
    using pipe_fifo [OF pipe_example_create _ _ _ _ s(1)] s by (auto simp: writer_signals_def)
qed

end
