(* ===== verification/Slab.thy ===== *)
theory Slab
  imports MOS_Prelude
begin

text \<open>
  The slab allocator, \<^verbatim>\<open>kernel/mm/slab.c\<close>, on a byte memory.  The free list of a slab runs through the free
  entries themselves: the first eight bytes of each hold the address of the next one.  The answers of
  the page allocator are arguments.  The slabs have numbers, which stand for their addresses in the
  headers of their pages.
\<close>

section \<open>Definitions\<close>

unbundle bit_operations_syntax

type_synonym mem = "nat \<Rightarrow> u8"

text \<open>Eight bytes at an address, the least significant one first.\<close>

definition load64 :: "mem \<Rightarrow> nat \<Rightarrow> nat" where
  "load64 m a = (\<Sum>j<8. unat (m (a + j)) * 256 ^ j)"

definition store64 :: "mem \<Rightarrow> nat \<Rightarrow> nat \<Rightarrow> mem" where
  "store64 m a v = (\<lambda>x. if a \<le> x \<and> x < a + 8 then of_nat (v div 256 ^ (x - a)) else m x)"

definition memset0 :: "mem \<Rightarrow> nat \<Rightarrow> nat \<Rightarrow> mem" where
  "memset0 m a n = (\<lambda>x. if a \<le> x \<and> x < a + n then 0 else m x)"

definition copy_mem :: "mem \<Rightarrow> nat \<Rightarrow> nat \<Rightarrow> nat \<Rightarrow> mem" where
  "copy_mem m dst src n = (\<lambda>x. if dst \<le> x \<and> x < dst + n then m (src + (x - dst)) else m x)"

record slab =
  sl_lock :: bool
  sl_first_free :: nat
  sl_ent_size :: nat
  sl_nobjs :: size_t

definition slab_acquire :: "slab \<Rightarrow> slab option" where
  "slab_acquire s = (if sl_lock s then None else Some (s\<lparr>sl_lock := True\<rparr>))"

definition slab_release :: "slab \<Rightarrow> slab" where
  "slab_release s = s\<lparr>sl_lock := False\<rparr>"

definition BUILTIN_SLAB_SIZES :: "nat list" where
  "BUILTIN_SLAB_SIZES = [4, 8, 16, 24, 32, 48, 64, 96, 128, 256, 384, 512, 1024]"

definition slab_init_one :: "nat \<Rightarrow> slab option" where
  "slab_init_one sz = do {
     mos_assert (sz < 4096);
     Some \<lparr>sl_lock = False, sl_first_free = 0, sl_ent_size = sz, sl_nobjs = 0\<rparr> }"

text \<open>\<^verbatim>\<open>ALIGN_UP(sizeof(slab_header_t), slab->ent_size)\<close>\<close>

definition header_offset :: "nat \<Rightarrow> nat" where
  "header_offset ent = unat ((8 + (of_nat ent - 1)) AND NOT (of_nat ent - 1) :: size_t)"

text \<open>The loop that links the entries: \<open>arr[i * fact] = &arr[(i + 1) * fact]\<close> for the first \<open>n\<close> values of \<open>i\<close>.\<close>

fun link_entries :: "mem \<Rightarrow> nat \<Rightarrow> nat \<Rightarrow> nat \<Rightarrow> mem" where
  "link_entries m arr fct 0 = m"
| "link_entries m arr fct (Suc i) = store64 (link_entries m arr fct i) (arr + 8 * (i * fct)) (arr + 8 * ((i + 1) * fct))"

text \<open>
  The argument \<open>page\<close> is the address that \<^verbatim>\<open>slab_impl_new_page\<close> returns.  When the page allocator fails there is no
  such address: the code computes \<^verbatim>\<open>phyframe_va(NULL)\<close>, which is not 0, passes its own test and writes there.
  That is \<^const>\<open>None\<close>.  A page that has no room for an entry makes \<^verbatim>\<open>max_n\<close> wrap around, and the loop leaves
  the page.
\<close>

definition slab_allocate_mem :: "nat option \<Rightarrow> nat \<Rightarrow> slab \<times> mem \<Rightarrow> (slab \<times> mem) option" where
  "slab_allocate_mem page sid = (\<lambda>(s, m). do {
     pg \<leftarrow> page;
     mos_assert (pg \<noteq> 0);
     let ent = sl_ent_size s;
     mos_assert (ent \<noteq> 0);
     let offset = header_offset ent;
     let available = 4096 - offset;
     let m = store64 m pg sid;
     let arr = pg + offset;
     mos_assert (available div ent \<noteq> 0);
     let max_n = available div ent - 1;
     let fct = ent div 8;
     let m = link_entries m arr fct max_n;
     let m = store64 m (arr + 8 * (max_n * fct)) 0;
     Some (s\<lparr>sl_first_free := arr\<rparr>, m) })"

definition kmemcache_alloc :: "nat option \<Rightarrow> nat \<Rightarrow> slab \<times> mem \<Rightarrow> (slab \<times> mem \<times> nat) option" where
  "kmemcache_alloc page sid = (\<lambda>(s, m). do {
     s \<leftarrow> slab_acquire s;
     (s, m) \<leftarrow> (if sl_first_free s = 0 then slab_allocate_mem page sid (s, m) else Some (s, m));
     let alloc = sl_first_free s;
     let s = s\<lparr>sl_first_free := load64 m alloc\<rparr>;
     let m = memset0 m alloc (sl_ent_size s);
     let s = s\<lparr>sl_nobjs := sl_nobjs s + 1\<rparr>;
     Some (slab_release s, m, alloc) })"

definition kmemcache_free :: "slab \<times> mem \<Rightarrow> nat \<Rightarrow> (slab \<times> mem) option" where
  "kmemcache_free = (\<lambda>(s, m) addr.
     (if addr = 0 then Some (s, m)
      else do {
        s \<leftarrow> slab_acquire s;
        let m = store64 m addr (sl_first_free s);
        let s = s\<lparr>sl_first_free := addr, sl_nobjs := sl_nobjs s - 1\<rparr>;
        Some (slab_release s, m) }))"

text \<open>A new slab with its first page; its record is an object of the slab of slabs, which is number 0.\<close>

definition kmemcache_create ::
  "nat option \<Rightarrow> nat option \<Rightarrow> nat \<Rightarrow> slab \<times> mem \<Rightarrow> nat \<Rightarrow> (slab \<times> mem \<times> slab) option" where
  "kmemcache_create page1 page2 sid slab_slab ent_size = do {
     (slabs, m, _) \<leftarrow> kmemcache_alloc page1 0 slab_slab;
     s \<leftarrow> slab_init_one ent_size;
     (s, m) \<leftarrow> slab_allocate_mem page2 sid (s, m);
     Some (slabs, m, s) }"

subsection \<open>The allocator of the kernel\<close>

record slab_state =
  ss_slabs :: "slab list"
  ss_mem :: mem

definition slab_for :: "slab list \<Rightarrow> nat \<Rightarrow> nat option" where
  "slab_for slabs sz = (case filter (\<lambda>i. sl_ent_size (slabs ! i) \<ge> sz) [0..<length slabs] of [] \<Rightarrow> None | i # _ \<Rightarrow> Some i)"

text \<open>
  The pages before a large block hold their number and the size of the block.  A failed page allocation is
  \<^const>\<open>None\<close> here too, because the test for 0 does not see it.
\<close>

definition slab_alloc :: "(nat \<Rightarrow> nat option) \<Rightarrow> slab_state \<Rightarrow> nat \<Rightarrow> (slab_state \<times> nat) option" where
  "slab_alloc pages st sz =
     (case slab_for (ss_slabs st) sz of
        Some i \<Rightarrow> do {
          (s, m, a) \<leftarrow> kmemcache_alloc (pages 1) i (ss_slabs st ! i, ss_mem st);
          Some (st\<lparr>ss_slabs := (ss_slabs st)[i := s], ss_mem := m\<rparr>, a) }
      | None \<Rightarrow> do {
          let page_count = unat (ALIGN_UP_TO_PAGE (of_nat sz)) div 4096;
          ret \<leftarrow> pages (page_count + 1);
          if ret = 0 then Some (st, 0)
          else Some (st\<lparr>ss_mem := store64 (store64 (ss_mem st) ret page_count) (ret + 8) sz\<rparr>, ret + 4096) })"

definition slab_calloc :: "(nat \<Rightarrow> nat option) \<Rightarrow> slab_state \<Rightarrow> size_t \<Rightarrow> size_t \<Rightarrow> (slab_state \<times> nat) option" where
  "slab_calloc pages st nmemb sz = do {
     (st, p) \<leftarrow> slab_alloc pages st (unat (nmemb * sz));
     if p = 0 then Some (st, 0)
     else Some (st\<lparr>ss_mem := memset0 (ss_mem st) p (unat (nmemb * sz))\<rparr>, p) }"

text \<open>The pages that are given back, with their number, are part of the result.\<close>

definition slab_free :: "slab_state \<Rightarrow> nat \<Rightarrow> (slab_state \<times> (nat \<times> nat) option) option" where
  "slab_free st p =
     (if p = 0 then Some (st, None)
      else if p mod 4096 = 0 then Some (st, Some (p - 4096, load64 (ss_mem st) (p - 4096) + 1))
      else do {
        let i = load64 (ss_mem st) (p div 4096 * 4096);
        s \<leftarrow> arr_get (ss_slabs st) i;
        (s, m) \<leftarrow> kmemcache_free (s, ss_mem st) p;
        Some (st\<lparr>ss_slabs := (ss_slabs st)[i := s], ss_mem := m\<rparr>, None) })"

definition slab_realloc :: "(nat \<Rightarrow> nat option) \<Rightarrow> slab_state \<Rightarrow> nat \<Rightarrow> nat \<Rightarrow> (slab_state \<times> nat) option" where
  "slab_realloc pages st old new_size =
     (if old = 0 then slab_alloc pages st new_size
      else if old mod 4096 = 0 then (
        let sz = load64 (ss_mem st) (old - 4096 + 8)
        in if ALIGN_UP_TO_PAGE (of_nat sz) = ALIGN_UP_TO_PAGE (of_nat new_size)
           then Some (st\<lparr>ss_mem := store64 (ss_mem st) (old - 4096 + 8) new_size\<rparr>, old)
           else do {
             (st, new) \<leftarrow> slab_alloc pages st new_size;
             if new = 0 then Some (st, 0)
             else do {
               let st = st\<lparr>ss_mem := copy_mem (ss_mem st) new old (min sz new_size)\<rparr>;
               (st, _) \<leftarrow> slab_free st old;
               Some (st, new) } })
      else do {
        let i = load64 (ss_mem st) (old div 4096 * 4096);
        s \<leftarrow> arr_get (ss_slabs st) i;
        if new_size > sl_ent_size s then do {
          (st, new) \<leftarrow> slab_alloc pages st new_size;
          if new = 0 then Some (st, 0)
          else do {
            let st = st\<lparr>ss_mem := copy_mem (ss_mem st) new old (sl_ent_size s)\<rparr>;
            s \<leftarrow> arr_get (ss_slabs st) i;
            (s, m) \<leftarrow> kmemcache_free (s, ss_mem st) old;
            Some (st\<lparr>ss_slabs := (ss_slabs st)[i := s], ss_mem := m\<rparr>, new) } }
        else Some (st, old) })"

subsection \<open>Clients of one slab\<close>

text \<open>
  A client allocates with a fresh page at hand, frees one of its objects, and writes to any byte of its
  objects.  The state records the pages of the slab and the objects in use.
\<close>

record cache =
  c_slab :: slab
  c_mem :: mem
  c_pages :: "nat set"
  c_live :: "nat set"

text \<open>The sizes that the allocator supports: the entries of a page are disjoint and behind the header.\<close>

definition entry_size :: "nat \<Rightarrow> nat" where
  "entry_size ent = (if ent < 8 then 8 else ent)"

definition good_size :: "nat \<Rightarrow> bool" where
  "good_size ent \<longleftrightarrow> 0 < ent \<and> ent < 4096 \<and> 8 dvd entry_size ent \<and> 8 \<le> header_offset ent \<and> header_offset ent + entry_size ent \<le> 4096"

text \<open>The entries of a page.\<close>

definition last_entry :: "nat \<Rightarrow> nat" where
  "last_entry ent = (4096 - header_offset ent) div ent - 1"

definition entry :: "nat \<Rightarrow> nat \<Rightarrow> nat \<Rightarrow> nat" where
  "entry ent pg k = pg + header_offset ent + 8 * (k * (ent div 8))"

definition entries :: "nat \<Rightarrow> nat \<Rightarrow> nat set" where
  "entries ent pg = entry ent pg ` {..last_entry ent}"

definition page_ok :: "nat \<Rightarrow> bool" where
  "page_ok pg \<longleftrightarrow> pg mod 4096 = 0 \<and> 0 < pg \<and> pg + 4096 \<le> 2 ^ 64"

inductive cache_step :: "nat \<Rightarrow> cache \<Rightarrow> cache \<Rightarrow> bool" for sid where
  alloc: "page_ok pg \<Longrightarrow> pg \<notin> c_pages c \<Longrightarrow> kmemcache_alloc (Some pg) sid (c_slab c, c_mem c) = Some (s, m, a) \<Longrightarrow>
    cache_step sid c (c\<lparr>c_slab := s, c_mem := m, c_live := insert a (c_live c),
      c_pages := (if sl_first_free (c_slab c) = 0 then insert pg (c_pages c) else c_pages c)\<rparr>)"
| free: "a \<in> c_live c \<Longrightarrow> kmemcache_free (c_slab c, c_mem c) a = Some (s, m) \<Longrightarrow>
    cache_step sid c (c\<lparr>c_slab := s, c_mem := m, c_live := c_live c - {a}\<rparr>)"
| store: "a \<in> c_live c \<Longrightarrow> x < a + sl_ent_size (c_slab c) \<Longrightarrow> a \<le> x \<Longrightarrow>
    cache_step sid c (c\<lparr>c_mem := (c_mem c)(x := v)\<rparr>)"

definition cache_start :: "nat \<Rightarrow> mem \<Rightarrow> cache" where
  "cache_start ent m = \<lparr>c_slab = \<lparr>sl_lock = False, sl_first_free = 0, sl_ent_size = ent, sl_nobjs = 0\<rparr>, c_mem = m, c_pages = {}, c_live = {}\<rparr>"

section \<open>Loads and stores\<close>

lemma digits_sum: "(\<Sum>j<k. v div b ^ j mod b * b ^ j) = v mod b ^ k" for v b :: nat
proof (induction k)
  case (Suc k)
  have "v mod b ^ Suc k = b ^ k * (v div b ^ k mod b) + v mod b ^ k"
    using mod_mult2_eq [of v "b ^ k" b] by (simp add: mult.commute)
  then show ?case
    using Suc by (simp add: mult.commute)
qed simp

lemma load_store [simp]:
  assumes "v < 2 ^ 64"
  shows "load64 (store64 m a v) a = v"
proof -
  have "load64 (store64 m a v) a = (\<Sum>j<8. v div 256 ^ j mod 256 * 256 ^ j)"
    by (simp add: load64_def store64_def unat_of_nat)
  then show ?thesis
    using assms digits_sum [of v 256 8] by simp
qed

lemma load64_cong: "(\<And>x. a \<le> x \<Longrightarrow> x < a + 8 \<Longrightarrow> m' x = m x) \<Longrightarrow> load64 m' a = load64 m a"
  by (auto simp: load64_def intro: sum.cong)

lemma load_store_other: "b + 8 \<le> a \<or> a + 8 \<le> b \<Longrightarrow> load64 (store64 m a v) b = load64 m b"
  by (rule load64_cong) (auto simp: store64_def)

section \<open>The entries of a page\<close>

lemma all_builtin_sizes_good: "list_all good_size BUILTIN_SLAB_SIZES"
  by (simp add: BUILTIN_SLAB_SIZES_def good_size_def header_offset_def entry_size_def)

lemma last_entry_fits:
  assumes "good_size ent"
  shows "(last_entry ent + 1) * ent + header_offset ent \<le> 4096" "(4096 - header_offset ent) div ent \<noteq> 0"
proof -
  have ent: "0 < ent" "ent \<le> 4096 - header_offset ent" "header_offset ent \<le> 4096"
    using assms by (auto simp: good_size_def entry_size_def split: if_splits)
  then show "(4096 - header_offset ent) div ent \<noteq> 0"
    by (simp add: div_eq_0_iff)
  then have "last_entry ent + 1 = (4096 - header_offset ent) div ent"
    by (simp add: last_entry_def)
  then show "(last_entry ent + 1) * ent + header_offset ent \<le> 4096"
    using ent(3) div_times_less_eq_dividend [of "4096 - header_offset ent" ent]
    by (metis Nat.le_diff_conv2)
qed

lemma stride: "good_size ent \<Longrightarrow> 8 \<le> ent \<Longrightarrow> 8 * (k * (ent div 8)) = k * ent"
  by (auto simp: good_size_def entry_size_def)

lemma entry_bounds:
  assumes "good_size ent" "a \<in> entries ent pg"
  shows "pg + 8 \<le> a" "a + entry_size ent \<le> pg + 4096"
proof -
  obtain k where k: "a = entry ent pg k" "k \<le> last_entry ent"
    using assms(2) by (auto simp: entries_def)
  show "pg + 8 \<le> a"
    using assms(1) k(1) by (auto simp: entry_def good_size_def)
  show "a + entry_size ent \<le> pg + 4096"
  proof (cases "ent < 8")
    case True
    then show ?thesis
      using assms(1) k(1) by (simp add: entry_def good_size_def)
  next
    case False
    have "k * ent \<le> last_entry ent * ent"
      using k(2) by (rule mult_le_mono1)
    moreover have "a = pg + header_offset ent + k * ent"
      using k(1) stride [OF assms(1), of k] False by (simp add: entry_def)
    moreover have "last_entry ent * ent + ent + header_offset ent \<le> 4096"
      using last_entry_fits(1) [OF assms(1)] by simp
    moreover have "entry_size ent = ent"
      using False by (simp add: entry_size_def)
    ultimately show ?thesis
      by linarith
  qed
qed

lemma pages_apart:
  assumes "page_ok pg" "page_ok pg'" "pg \<noteq> pg'"
  shows "pg + 4096 \<le> pg' \<or> pg' + 4096 \<le> pg"
proof -
  obtain q q' where "pg = 4096 * q" "pg' = 4096 * q'"
    using assms(1,2) by (auto simp: page_ok_def mod_eq_0_iff_dvd elim!: dvdE)
  moreover from this have "q + 1 \<le> q' \<or> q' + 1 \<le> q"
    using assms(3) by (cases q q' rule: linorder_cases) auto
  ultimately show ?thesis
    by auto
qed

lemma entries_apart:
  assumes "good_size ent" "page_ok pg" "page_ok pg'" "a \<in> entries ent pg" "b \<in> entries ent pg'" "a \<noteq> b"
  shows "a + entry_size ent \<le> b \<or> b + entry_size ent \<le> a"
proof (cases "pg = pg'")
  case False
  then have "pg + 4096 \<le> pg' \<or> pg' + 4096 \<le> pg"
    using pages_apart assms(2,3) by blast
  then show ?thesis
    using entry_bounds [OF assms(1,4)] entry_bounds [OF assms(1,5)] by auto
next
  case True
  obtain k l where k: "a = entry ent pg k" "b = entry ent pg l"
    using assms(4,5) True by (auto simp: entries_def)
  show ?thesis
  proof (cases "ent < 8")
    case True
    then show ?thesis
      using assms(6) k by (simp add: entry_def)
  next
    case False
    then have e: "a = pg + header_offset ent + k * ent" "b = pg + header_offset ent + l * ent"
      using k stride [OF assms(1)] by (auto simp: entry_def)
    then have "k < l \<or> l < k"
      using assms(6) by (metis linorder_neqE_nat)
    then have "(k + 1) * ent \<le> l * ent \<or> (l + 1) * ent \<le> k * ent"
      by (metis Suc_eq_plus1 Suc_leI mult_le_mono1)
    then show ?thesis
      using e False by (auto simp: entry_size_def)
  qed
qed

lemma entries_pages_disjoint:
  assumes "good_size ent" "page_ok pg" "page_ok pg'" "pg \<noteq> pg'"
  shows "entries ent pg \<inter> entries ent pg' = {}"
proof -
  have "pg + 4096 \<le> pg' \<or> pg' + 4096 \<le> pg"
    using pages_apart assms(2-4) by blast
  then show ?thesis
    using entry_bounds [OF assms(1)] by (fastforce simp: entry_size_def)
qed

section \<open>Free lists\<close>

fun chain :: "mem \<Rightarrow> nat \<Rightarrow> nat list \<Rightarrow> bool" where
  "chain m a [] = (a = 0)"
| "chain m a (x # xs) = (a = x \<and> x \<noteq> 0 \<and> chain m (load64 m x) xs)"

lemma chain_cong:
  assumes "chain m a xs" "\<And>x y. x \<in> set xs \<Longrightarrow> x \<le> y \<Longrightarrow> y < x + 8 \<Longrightarrow> m' y = m y"
  shows "chain m' a xs"
  using assms
proof (induction xs arbitrary: a)
  case (Cons x xs)
  have "load64 m' x = load64 m x"
    by (rule load64_cong) (use Cons.prems(2) in auto)
  then show ?case
    using Cons by auto
qed simp

text \<open>The entries of a new page in the order of its list.\<close>

definition page_list :: "nat \<Rightarrow> nat \<Rightarrow> nat list" where
  "page_list ent pg = (if ent < 8 then [entry ent pg 0] else map (entry ent pg) [0..<Suc (last_entry ent)])"

lemma set_page_list: "set (page_list ent pg) = entries ent pg"
proof -
  have "{0..<Suc n} = {..n}" for n
    by auto
  then show ?thesis
    by (auto simp: page_list_def entries_def entry_def simp del: upt_Suc)
qed

lemma entry_less:
  assumes "good_size ent" "8 \<le> ent" "k < l"
  shows "entry ent pg k + 8 \<le> entry ent pg l"
proof -
  have "(k + 1) * ent \<le> l * ent"
    using assms(3) by (intro mult_le_mono1) simp
  then show ?thesis
    using assms(2) by (simp add: entry_def stride [OF assms(1,2)])
qed

lemma distinct_page_list:
  assumes "good_size ent"
  shows "distinct (page_list ent pg)"
proof (cases "ent < 8")
  case False
  have "inj (entry ent pg)"
  proof (rule injI)
    fix k l
    assume "entry ent pg k = entry ent pg l"
    then show "k = l"
      using entry_less [OF assms, of k l pg] entry_less [OF assms, of l k pg] False by (cases k l rule: linorder_cases) auto
  qed
  then show ?thesis
    using False by (simp add: page_list_def distinct_map inj_on_subset [OF _ subset_UNIV] del: upt_Suc)
qed (simp add: page_list_def)

lemma link_entries_load:
  assumes "good_size ent" "8 \<le> ent" "i < n" "n \<le> last_entry ent" "page_ok pg"
  shows "load64 (link_entries m (pg + header_offset ent) (ent div 8) n) (entry ent pg i) = entry ent pg (i + 1)"
  using assms(3,4)
proof (induction n)
  case (Suc n)
  let ?l = "link_entries m (pg + header_offset ent) (ent div 8)"
  have step: "?l (Suc n) = store64 (?l n) (entry ent pg n) (entry ent pg (n + 1))"
    by (simp add: entry_def)
  have "entry ent pg (n + 1) < 2 ^ 64"
    using entry_bounds(2) [OF assms(1), of "entry ent pg (n + 1)" pg] Suc.prems(2) assms(5)
    by (auto simp: entries_def page_ok_def entry_size_def split: if_splits)
  show ?case
  proof (cases "i = n")
    case True
    then show ?thesis
      using step \<open>entry ent pg (n + 1) < 2 ^ 64\<close> by simp
  next
    case False
    then have "i < n"
      using Suc.prems(1) by simp
    then show ?thesis
      using step Suc.IH Suc.prems(2) entry_less [OF assms(1,2), of i n pg] by (simp add: load_store_other)
  qed
qed simp

text \<open>Linking a new page puts all of its entries on the free list.\<close>

lemma chain_of_loads:
  assumes "\<And>i. i < n \<Longrightarrow> load64 m (f i) = f (i + 1)" "load64 m (f n) = 0" "\<And>i. i \<le> n \<Longrightarrow> f i \<noteq> 0" "k \<le> n"
  shows "chain m (f k) (map f [k..<Suc n])"
  using assms(4)
proof (induction "n - k" arbitrary: k)
  case 0
  then have "k = n" by simp
  then show ?case
    using assms(2,3) by simp
next
  case (Suc d)
  then have "chain m (f (k + 1)) (map f [k + 1..<Suc n])"
    by (intro Suc.hyps(1)) auto
  moreover have "[k..<Suc n] = k # [k + 1..<Suc n]"
    using Suc by (intro upt_conv_Cons [THEN trans]) auto
  ultimately show ?case
    using assms(1) [of k] assms(3) [of k] Suc by (auto simp del: upt_Suc)
qed

lemma slab_allocate_mem_ok:
  assumes "good_size (sl_ent_size s)" "page_ok pg"
  shows "\<exists>m'. slab_allocate_mem (Some pg) sid (s, m) = Some (s\<lparr>sl_first_free := entry (sl_ent_size s) pg 0\<rparr>, m') \<and>
     chain m' (entry (sl_ent_size s) pg 0) (page_list (sl_ent_size s) pg)"
proof -
  define ent where "ent = sl_ent_size s"
  define arr where "arr = pg + header_offset ent"
  define m' where "m' = store64 (link_entries (store64 m pg sid) arr (ent div 8) (last_entry ent)) (entry ent pg (last_entry ent)) 0"
  have good: "good_size ent" and pos: "ent \<noteq> 0" "pg \<noteq> 0"
    using assms by (auto simp: ent_def good_size_def page_ok_def)
  have run: "slab_allocate_mem (Some pg) sid (s, m) = Some (s\<lparr>sl_first_free := entry ent pg 0\<rparr>, m')"
    using last_entry_fits(2) [OF good] pos
    by (simp add: slab_allocate_mem_def m'_def arr_def entry_def last_entry_def Let_def flip: ent_def)
  have nz: "entry ent pg i \<noteq> 0" for i
    using assms(2) by (auto simp: entry_def page_ok_def)
  have "chain m' (entry ent pg 0) (page_list ent pg)"
  proof (cases "ent < 8")
    case True
    then have "entry ent pg (last_entry ent) = entry ent pg 0"
      by (simp add: entry_def)
    then show ?thesis
      using True nz [of 0] by (simp add: page_list_def m'_def)
  next
    case False
    have "load64 m' (entry ent pg i) = entry ent pg (i + 1)" if "i < last_entry ent" for i
      using link_entries_load [OF good _ that _ assms(2)] entry_less [OF good _ that, of pg] False
      by (simp add: m'_def arr_def load_store_other)
    moreover have "load64 m' (entry ent pg (last_entry ent)) = 0"
      by (simp add: m'_def)
    ultimately show ?thesis
      using chain_of_loads [of "last_entry ent" m' "entry ent pg" 0] nz False by (simp add: page_list_def del: upt_Suc)
  qed
  then show ?thesis
    using run unfolding ent_def by blast
qed

section \<open>The invariant of a cache\<close>

definition cache_inv :: "nat \<Rightarrow> cache \<Rightarrow> bool" where
  "cache_inv ent c \<longleftrightarrow> sl_ent_size (c_slab c) = ent \<and> \<not> sl_lock (c_slab c) \<and> (\<forall>pg \<in> c_pages c. page_ok pg) \<and>
     finite (c_live c) \<and> sl_nobjs (c_slab c) = of_nat (card (c_live c)) \<and>
     (\<exists>free. chain (c_mem c) (sl_first_free (c_slab c)) free \<and> distinct free \<and> set free \<inter> c_live c = {} \<and>
        set free \<union> c_live c = (\<Union>pg \<in> c_pages c. entries ent pg))"

lemma cache_objects_apart:
  assumes "good_size ent" "\<forall>pg \<in> P. page_ok pg" "a \<in> (\<Union>pg \<in> P. entries ent pg)" "b \<in> (\<Union>pg \<in> P. entries ent pg)" "a \<noteq> b"
  shows "a + entry_size ent \<le> b \<or> b + entry_size ent \<le> a"
  using assms entries_apart by (metis UN_E)

lemma entry_size_ge: "good_size ent \<Longrightarrow> ent \<le> entry_size ent \<and> 8 \<le> entry_size ent"
  by (auto simp: good_size_def entry_size_def)

text \<open>Taking the first entry of a free list and clearing it.\<close>

lemma pop_entry:
  assumes "good_size ent" "\<forall>pg \<in> P. page_ok pg" "chain m a free" "distinct free" "set free \<inter> L = {}" "free \<noteq> []"
    "set free \<union> L = (\<Union>pg \<in> P. entries ent pg)"
  shows "\<exists>rest. free = a # rest \<and> chain (memset0 m a ent) (load64 m a) rest \<and> distinct rest \<and> set rest \<inter> insert a L = {} \<and>
     set rest \<union> insert a L = (\<Union>pg \<in> P. entries ent pg) \<and> a \<notin> L"
proof -
  obtain rest where rest: "free = a # rest" "chain m (load64 m a) rest"
    using assms(3,6) by (cases free) auto
  have "memset0 m a ent y = m y" if "x \<in> set rest" "x \<le> y" "y < x + 8" for x y
  proof -
    have "a + entry_size ent \<le> x \<or> x + entry_size ent \<le> a"
      using cache_objects_apart [OF assms(1,2), of a x] rest(1) assms(4,7) that(1) by auto
    then show ?thesis
      using entry_size_ge [OF assms(1)] that(2,3) by (auto simp: memset0_def)
  qed
  then have "chain (memset0 m a ent) (load64 m a) rest"
    using rest(2) chain_cong by blast
  then show ?thesis
    using rest assms(4,5,7) by auto
qed

lemma alloc_ok:
  assumes "good_size ent" "cache_inv ent c" "page_ok pg" "pg \<notin> c_pages c"
  shows "\<exists>s m a. kmemcache_alloc (Some pg) sid (c_slab c, c_mem c) = Some (s, m, a) \<and> a \<notin> c_live c \<and>
     (\<forall>x. a \<le> x \<and> x < a + ent \<longrightarrow> m x = 0) \<and>
     cache_inv ent (c\<lparr>c_slab := s, c_mem := m, c_live := insert a (c_live c),
        c_pages := (if sl_first_free (c_slab c) = 0 then insert pg (c_pages c) else c_pages c)\<rparr>)"
proof -
  let ?s = "(c_slab c)\<lparr>sl_lock := True\<rparr>"
  define P where "P = (if sl_first_free (c_slab c) = 0 then insert pg (c_pages c) else c_pages c)"
  obtain free where c: "sl_ent_size (c_slab c) = ent" "\<not> sl_lock (c_slab c)" "\<forall>pg \<in> c_pages c. page_ok pg" "finite (c_live c)"
    "sl_nobjs (c_slab c) = of_nat (card (c_live c))" "chain (c_mem c) (sl_first_free (c_slab c)) free" "distinct free"
    "set free \<inter> c_live c = {}" "set free \<union> c_live c = (\<Union>pg \<in> c_pages c. entries ent pg)"
    using assms(2) unfolding cache_inv_def by blast
  have P: "\<forall>pg \<in> P. page_ok pg"
    using c(3) assms(3) by (auto simp: P_def)
  \<comment> \<open>the free list after a page has been added, if there was none\<close>
  have "\<exists>a m free'. (if sl_first_free ?s = 0 then slab_allocate_mem (Some pg) sid (?s, c_mem c) else Some (?s, c_mem c))
      = Some (?s\<lparr>sl_first_free := a\<rparr>, m) \<and> chain m a free' \<and> distinct free' \<and> free' \<noteq> [] \<and> set free' \<inter> c_live c = {} \<and>
      set free' \<union> c_live c = (\<Union>pg \<in> P. entries ent pg)"
  proof (cases "sl_first_free (c_slab c) = 0")
    case True
    then have "free = []"
      using c(6) by (cases free) auto
    then have live: "c_live c = (\<Union>pg \<in> c_pages c. entries ent pg)"
      using c(9) by simp
    have "entries ent pg \<inter> c_live c = {}"
      using live entries_pages_disjoint [OF assms(1) assms(3)] c(3) assms(4) by auto
    moreover have "page_list ent pg \<noteq> []"
      by (simp add: page_list_def)
    moreover obtain m' where "slab_allocate_mem (Some pg) sid (?s, c_mem c) = Some (?s\<lparr>sl_first_free := entry ent pg 0\<rparr>, m')"
      "chain m' (entry ent pg 0) (page_list ent pg)"
      using slab_allocate_mem_ok [of ?s pg sid "c_mem c"] assms(1,3) c(1) by auto
    ultimately show ?thesis
      using True live distinct_page_list [OF assms(1), of pg]
      by (intro exI [of _ "entry ent pg 0"] exI [of _ m'] exI [of _ "page_list ent pg"]) (simp add: P_def set_page_list)
  next
    case False
    moreover from this have "free \<noteq> []"
      using c(6) by auto
    ultimately show ?thesis
      using c(6-9) by (intro exI [of _ "sl_first_free (c_slab c)"] exI [of _ "c_mem c"] exI [of _ free]) (simp add: P_def)
  qed
  then obtain a m free' where f: "(if sl_first_free ?s = 0 then slab_allocate_mem (Some pg) sid (?s, c_mem c) else Some (?s, c_mem c))
      = Some (?s\<lparr>sl_first_free := a\<rparr>, m)" "chain m a free'" "distinct free'" "free' \<noteq> []" "set free' \<inter> c_live c = {}"
      "set free' \<union> c_live c = (\<Union>pg \<in> P. entries ent pg)"
    by blast
  obtain rest where rest: "chain (memset0 m a ent) (load64 m a) rest" "distinct rest" "set rest \<inter> insert a (c_live c) = {}"
    "set rest \<union> insert a (c_live c) = (\<Union>pg \<in> P. entries ent pg)" "a \<notin> c_live c"
    using pop_entry [OF assms(1) P f(2,3,5,4,6)] by blast
  define s where "s = (c_slab c)\<lparr>sl_first_free := load64 m a, sl_nobjs := sl_nobjs (c_slab c) + 1\<rparr>"
  have "kmemcache_alloc (Some pg) sid (c_slab c, c_mem c) = Some (s, memset0 m a ent, a)"
    using f(1) c(1,2) by (simp add: kmemcache_alloc_def slab_acquire_def slab_release_def s_def)
  moreover have "cache_inv ent (c\<lparr>c_slab := s, c_mem := memset0 m a ent, c_live := insert a (c_live c), c_pages := P\<rparr>)"
    using c(1,2,4,5) P rest by (auto simp: cache_inv_def s_def)
  ultimately show ?thesis
    using rest(5) by (auto simp: memset0_def P_def)
qed

lemma entry_less_64:
  assumes "good_size ent" "page_ok pg" "a \<in> entries ent pg"
  shows "a < 2 ^ 64" "a \<noteq> 0"
  using entry_bounds [OF assms(1,3)] assms(2) entry_size_ge [OF assms(1)] by (auto simp: page_ok_def)

lemma free_ok:
  assumes "good_size ent" "cache_inv ent c" "a \<in> c_live c" "kmemcache_free (c_slab c, c_mem c) a = Some (s, m)"
  shows "cache_inv ent (c\<lparr>c_slab := s, c_mem := m, c_live := c_live c - {a}\<rparr>)"
proof -
  obtain free where c: "sl_ent_size (c_slab c) = ent" "\<not> sl_lock (c_slab c)" "\<forall>pg \<in> c_pages c. page_ok pg" "finite (c_live c)"
    "sl_nobjs (c_slab c) = of_nat (card (c_live c))" "chain (c_mem c) (sl_first_free (c_slab c)) free" "distinct free"
    "set free \<inter> c_live c = {}" "set free \<union> c_live c = (\<Union>pg \<in> c_pages c. entries ent pg)"
    using assms(2) unfolding cache_inv_def by blast
  have "a \<in> (\<Union>pg \<in> c_pages c. entries ent pg)"
    using assms(3) c(9) by blast
  then have a: "a \<noteq> 0" "a < 2 ^ 64"
    using c(3) entry_less_64 [OF assms(1)] by auto
  let ?f = "sl_first_free (c_slab c)"
  have "?f = 0 \<or> ?f \<in> (\<Union>pg \<in> c_pages c. entries ent pg)"
    using c(6,9) by (cases free) auto
  then have f: "?f < 2 ^ 64"
    using c(3) entry_less_64(1) [OF assms(1)] by auto
  define m' where "m' = store64 (c_mem c) a ?f"
  have r: "m = m'" "s = (c_slab c)\<lparr>sl_first_free := a, sl_nobjs := sl_nobjs (c_slab c) - 1\<rparr>"
    using assms(4) a(1) c(2) by (auto simp: kmemcache_free_def slab_acquire_def slab_release_def m'_def)
  have "m' y = c_mem c y" if "x \<in> set free" "x \<le> y" "y < x + 8" for x y
  proof -
    have "a + entry_size ent \<le> x \<or> x + entry_size ent \<le> a"
      using cache_objects_apart [OF assms(1) c(3), of a x] assms(3) c(8,9) that(1) by auto
    then show ?thesis
      using entry_size_ge [OF assms(1)] that(2,3) by (auto simp: m'_def store64_def)
  qed
  then have "chain m' ?f free"
    using c(6) chain_cong by blast
  then have "chain m' a (a # free)"
    using a(1) f by (simp add: m'_def)
  moreover have "distinct (a # free)" "set (a # free) \<inter> (c_live c - {a}) = {}"
    "set (a # free) \<union> (c_live c - {a}) = (\<Union>pg \<in> c_pages c. entries ent pg)"
    using assms(3) c(7,8,9) by auto
  moreover have "of_nat (card (c_live c)) - 1 = (of_nat (card (c_live c - {a})) :: size_t)"
    using card_Suc_Diff1 [OF c(4) assms(3), symmetric] by simp
  ultimately show ?thesis
    using c(1,2,3,4,5) r by (auto simp: cache_inv_def intro!: exI [of _ "a # free"])
qed

lemma store_ok:
  assumes "good_size ent" "cache_inv ent c" "a \<in> c_live c" "a \<le> x" "x < a + sl_ent_size (c_slab c)"
  shows "cache_inv ent (c\<lparr>c_mem := (c_mem c)(x := v)\<rparr>)"
proof -
  obtain free where c: "sl_ent_size (c_slab c) = ent" "\<forall>pg \<in> c_pages c. page_ok pg"
    "chain (c_mem c) (sl_first_free (c_slab c)) free" "distinct free"
    "set free \<inter> c_live c = {}" "set free \<union> c_live c = (\<Union>pg \<in> c_pages c. entries ent pg)"
    using assms(2) unfolding cache_inv_def by blast
  have "((c_mem c)(x := v)) y = c_mem c y" if "z \<in> set free" "z \<le> y" "y < z + 8" for z y
  proof -
    have "a + entry_size ent \<le> z \<or> z + entry_size ent \<le> a"
      using cache_objects_apart [OF assms(1) c(2), of a z] assms(3) c(5,6) that(1) by auto
    then show ?thesis
      using entry_size_ge [OF assms(1)] that(2,3) assms(4,5) c(1) by auto
  qed
  then have "chain ((c_mem c)(x := v)) (sl_first_free (c_slab c)) free"
    using c(3) chain_cong by blast
  then show ?thesis
    using assms(2) c(4-6) by (auto simp: cache_inv_def)
qed

lemma cache_step_inv:
  assumes "cache_step sid c c'" "good_size ent" "cache_inv ent c"
  shows "cache_inv ent c'"
  using assms
proof (induction rule: cache_step.induct)
  case (alloc pg c s m a)
  then show ?case
    using alloc_ok [OF alloc.prems alloc.hyps(1,2), of sid] by auto
qed (auto intro: free_ok store_ok)

lemma cache_start_inv: "cache_inv ent (cache_start ent m)"
  by (auto simp: cache_inv_def cache_start_def intro!: exI [of _ "[]"])

section \<open>Properties\<close>

text \<open>
  C10: The objects of a slab never overlap: whatever its clients allocate, free and write into their own
  objects, the objects in use are disjoint and lie inside of the pages of the slab behind the header,
  their number is exact, and the next allocation succeeds and returns a cleared object that is not
  in use.
\<close>

theorem slab_objects_disjoint:
  assumes "good_size ent" "(cache_step sid)\<^sup>*\<^sup>* (cache_start ent m) c"
  shows "(\<forall>a \<in> c_live c. \<forall>b \<in> c_live c. a \<noteq> b \<longrightarrow> a + ent \<le> b \<or> b + ent \<le> a) \<and>
     (\<forall>a \<in> c_live c. \<exists>pg \<in> c_pages c. pg + 8 \<le> a \<and> a + ent \<le> pg + 4096) \<and>
     sl_nobjs (c_slab c) = of_nat (card (c_live c)) \<and>
     (\<forall>pg. page_ok pg \<and> pg \<notin> c_pages c \<longrightarrow>
        (\<exists>s m' a. kmemcache_alloc (Some pg) sid (c_slab c, c_mem c) = Some (s, m', a) \<and> a \<notin> c_live c \<and>
           (\<forall>x. a \<le> x \<and> x < a + ent \<longrightarrow> m' x = 0)))"
proof -
  have inv: "cache_inv ent c"
    using assms(2) cache_start_inv by (induction rule: rtranclp_induct) (auto intro: cache_step_inv assms(1))
  then have c: "\<forall>pg \<in> c_pages c. page_ok pg" "c_live c \<subseteq> (\<Union>pg \<in> c_pages c. entries ent pg)"
    "sl_nobjs (c_slab c) = of_nat (card (c_live c))"
    unfolding cache_inv_def by blast+
  have "a + ent \<le> b \<or> b + ent \<le> a" if "a \<in> c_live c" "b \<in> c_live c" "a \<noteq> b" for a b
    using cache_objects_apart [OF assms(1) c(1)] entry_size_ge [OF assms(1)] c(2) that by (meson add_left_mono order_trans subsetD)
  moreover have "\<exists>pg \<in> c_pages c. pg + 8 \<le> a \<and> a + ent \<le> pg + 4096" if "a \<in> c_live c" for a
  proof -
    obtain pg where pg: "pg \<in> c_pages c" "a \<in> entries ent pg"
      using c(2) \<open>a \<in> c_live c\<close> by blast
    then show ?thesis
      using entry_bounds [OF assms(1) pg(2)] entry_size_ge [OF assms(1)] by auto
  qed
  moreover have "\<exists>s m' a. kmemcache_alloc (Some pg) sid (c_slab c, c_mem c) = Some (s, m', a) \<and> a \<notin> c_live c \<and>
      (\<forall>x. a \<le> x \<and> x < a + ent \<longrightarrow> m' x = 0)" if "page_ok pg" "pg \<notin> c_pages c" for pg
    using alloc_ok [OF assms(1) inv that, of sid] by metis
  ultimately show ?thesis
    using c(3) by metis
qed

theorem slab_objects_disjoint_witness:
  "\<exists>c. (cache_step 0)\<^sup>*\<^sup>* (cache_start 24 (\<lambda>_. 0)) c \<and> c_live c = {4104} \<and> sl_nobjs (c_slab c) = 1 \<and>
     (\<exists>s m' a. kmemcache_alloc (Some 8192) 0 (c_slab c, c_mem c) = Some (s, m', a) \<and> a \<noteq> 4104)"
proof -
  have good: "good_size 24" and ent: "entry 24 4096 0 = 4104"
    by (simp_all add: good_size_def header_offset_def entry_size_def entry_def)
  obtain m' where m': "slab_allocate_mem (Some 4096) 0 ((c_slab (cache_start 24 (\<lambda>_. 0)))\<lparr>sl_lock := True\<rparr>, \<lambda>_. 0)
      = Some ((c_slab (cache_start 24 (\<lambda>_. 0)))\<lparr>sl_lock := True, sl_first_free := 4104\<rparr>, m')"
    using slab_allocate_mem_ok [of "(c_slab (cache_start 24 (\<lambda>_. 0)))\<lparr>sl_lock := True\<rparr>" 4096 0 "\<lambda>_. 0"] good ent
    by (auto simp: cache_start_def page_ok_def)
  define c where "c = \<lparr>c_slab = \<lparr>sl_lock = False, sl_first_free = load64 m' 4104, sl_ent_size = 24, sl_nobjs = 1\<rparr>,
      c_mem = memset0 m' 4104 24, c_pages = {4096}, c_live = {4104}\<rparr>"
  have "kmemcache_alloc (Some 4096) 0 (c_slab (cache_start 24 (\<lambda>_. 0)), \<lambda>_. 0) = Some (c_slab c, c_mem c, 4104)"
    using m' by (simp add: kmemcache_alloc_def slab_acquire_def slab_release_def c_def cache_start_def)
  then have "cache_step 0 (cache_start 24 (\<lambda>_. 0)) c"
    using cache_step.alloc [of 4096 "cache_start 24 (\<lambda>_. 0)" 0 "c_slab c" "c_mem c" 4104]
    by (simp add: page_ok_def cache_start_def c_def)
  then have r: "(cache_step 0)\<^sup>*\<^sup>* (cache_start 24 (\<lambda>_. 0)) c"
    by blast
  have "page_ok 8192 \<and> 8192 \<notin> c_pages c"
    by (simp add: page_ok_def c_def)
  then show ?thesis
    using slab_objects_disjoint [OF good r] r by (intro exI [of _ c]) (force simp: c_def)
qed

end
