(* ===== verification/Vmaps.thy ===== *)
theory Vmaps
  imports Io
begin

text \<open>
  The regions of an address space: \<^verbatim>\<open>kernel/mm/mm.c\<close>, \<^verbatim>\<open>mmap.c\<close>, \<^verbatim>\<open>cow.c\<close>, the search for free addresses in
  \<^verbatim>\<open>paging.c\<close> and the heap calls of \<^verbatim>\<open>process.c\<close> and \<^verbatim>\<open>ksyscall.c\<close>.  Mappings are objects with numbers; the context
  holds the list of them, sorted by address, and records the calls that change the page tables.
  Addresses and page counts are words, so that their sums wrap around as in the code.  New objects get
  the numbers that the functions receive.
\<close>

section \<open>Definitions\<close>

unbundle bit_operations_syntax

type_synonym vmap_id = nat

datatype pt_call = PT_Unmap ptr_t size_t | PT_Mask ptr_t size_t u32

record mm_context =
  mc_lock :: bool
  mc_mmaps :: "vmap_id list"
  mc_vmaps :: "vmap_id \<rightharpoonup> vmap"
  mc_calls :: "pt_call list"

definition MOS_KERNEL_START_VADDR :: u64 where
  "MOS_KERNEL_START_VADDR = 0xFFFF800000000000"

definition MMAP_EXACT :: u32 where "MMAP_EXACT = 1"
definition MMAP_PRIVATE :: u32 where "MMAP_PRIVATE = 2"
definition MMAP_SHARED :: u32 where "MMAP_SHARED = 4"
definition VM_READ :: u32 where "VM_READ = 1"
definition VM_EXEC :: u32 where "VM_EXEC = 4"
definition VM_USER :: u32 where "VM_USER = 8"

text \<open>\<^verbatim>\<open>vmap->vaddr + vmap->npages * MOS_PAGE_SIZE\<close>\<close>

definition vmap_end :: "vmap \<Rightarrow> ptr_t" where
  "vmap_end v = vm_vaddr v + vm_npages v * MOS_PAGE_SIZE"

definition mm_acquire :: "mm_context \<Rightarrow> mm_context option" where
  "mm_acquire mm = (if mc_lock mm then None else Some (mm\<lparr>mc_lock := True\<rparr>))"

definition mm_release :: "mm_context \<Rightarrow> mm_context" where
  "mm_release mm = mm\<lparr>mc_lock := False\<rparr>"

definition set_vmap :: "vmap_id \<Rightarrow> vmap \<Rightarrow> mm_context \<Rightarrow> mm_context" where
  "set_vmap i v mm = mm\<lparr>mc_vmaps := (mc_vmaps mm)(i \<mapsto> v)\<rparr>"

definition acquire_vmap :: "vmap_id \<Rightarrow> mm_context \<Rightarrow> mm_context option" where
  "acquire_vmap i mm = do {
     v \<leftarrow> mc_vmaps mm i;
     if vm_lock v then None else Some (set_vmap i (v\<lparr>vm_lock := True\<rparr>) mm) }"

text \<open>Releasing the lock of a mapping that has been freed writes to free memory, which has no effect here.\<close>

definition release_vmap :: "vmap_id \<Rightarrow> mm_context \<Rightarrow> mm_context" where
  "release_vmap i mm = (case mc_vmaps mm i of None \<Rightarrow> mm | Some v \<Rightarrow> set_vmap i (v\<lparr>vm_lock := False\<rparr>) mm)"

subsection \<open>Mappings\<close>

fun attach_sorted :: "(vmap_id \<rightharpoonup> vmap) \<Rightarrow> ptr_t \<Rightarrow> vmap_id \<Rightarrow> vmap_id list \<Rightarrow> vmap_id list option" where
  "attach_sorted vs vaddr i [] = Some [i]"
| "attach_sorted vs vaddr i (m # ms) = do {
     v \<leftarrow> vs m;
     if vm_vaddr v > vaddr then Some (i # m # ms)
     else do { ms \<leftarrow> attach_sorted vs vaddr i ms; Some (m # ms) } }"

definition do_attach_vmap :: "mm_context \<Rightarrow> vmap_id \<Rightarrow> mm_context option" where
  "do_attach_vmap mm i = do {
     mos_assert (mc_lock mm);
     mos_assert (i \<notin> set (mc_mmaps mm));
     v \<leftarrow> mc_vmaps mm i;
     ms \<leftarrow> attach_sorted (mc_vmaps mm) (vm_vaddr v) i (mc_mmaps mm);
     Some (mm\<lparr>mc_mmaps := ms\<rparr>) }"

definition fresh_vmap :: "ptr_t \<Rightarrow> size_t \<Rightarrow> vmap" where
  "fresh_vmap vaddr npages = \<lparr>vm_lock = True, vm_vaddr = vaddr, vm_npages = npages, vm_vmflags = 0, vm_io = None,
     vm_io_offset = 0, vm_content = VMAP_UNKNOWN, vm_type = VMAP_TYPE_UNSET, vm_on_fault = False\<rparr>"

definition vmap_create :: "mm_context \<Rightarrow> vmap_id \<Rightarrow> ptr_t \<Rightarrow> size_t \<Rightarrow> mm_context option" where
  "vmap_create mm new vaddr npages =
     do_attach_vmap (set_vmap new (fresh_vmap vaddr npages) mm) new"

definition vmap_destroy :: "'d ios \<times> mm_context \<Rightarrow> vmap_id \<Rightarrow> ('d ios \<times> mm_context) option" where
  "vmap_destroy = (\<lambda>(h, mm) i. do {
     v \<leftarrow> mc_vmaps mm i;
     mos_assert (vm_lock v);
     mos_assert (mc_lock mm);
     (h, unmapped) \<leftarrow> (case vm_io v of
         None \<Rightarrow> Some (h, False)
       | Some io \<Rightarrow> do { (h, _, u) \<leftarrow> io_munmap h io v; Some (h, u = Some True) });
     let mm = (if unmapped then mm else mm\<lparr>mc_calls := mc_calls mm @ [PT_Unmap (vm_vaddr v) (vm_npages v)]\<rparr>);
     Some (h, mm\<lparr>mc_mmaps := remove1 i (mc_mmaps mm), mc_vmaps := (mc_vmaps mm)(i := None)\<rparr>) })"

fun obtain_loop :: "(vmap_id \<rightharpoonup> vmap) \<Rightarrow> ptr_t \<Rightarrow> vmap_id list \<Rightarrow> vmap_id option option" where
  "obtain_loop vs vaddr [] = Some None"
| "obtain_loop vs vaddr (m # ms) = do {
     v \<leftarrow> vs m;
     if vm_vaddr v \<le> vaddr \<and> vaddr < vmap_end v then Some (Some m) else obtain_loop vs vaddr ms }"

definition vmap_obtain :: "mm_context \<Rightarrow> ptr_t \<Rightarrow> (mm_context \<times> vmap_id option) option" where
  "vmap_obtain mm vaddr = do {
     mos_assert (mc_lock mm);
     r \<leftarrow> obtain_loop (mc_vmaps mm) vaddr (mc_mmaps mm);
     case r of
       None \<Rightarrow> Some (mm, None)
     | Some m \<Rightarrow> do { mm \<leftarrow> acquire_vmap m mm; Some (mm, Some m) } }"

definition vmap_split ::
  "'d ios \<times> mm_context \<Rightarrow> vmap_id \<Rightarrow> size_t \<Rightarrow> vmap_id \<Rightarrow> ('d ios \<times> mm_context) option" where
  "vmap_split = (\<lambda>(h, mm) first split new. do {
     v \<leftarrow> mc_vmaps mm first;
     mos_assert (vm_lock v);
     mos_assert (split \<noteq> 0 \<and> split < vm_npages v);
     let second = v\<lparr>vm_npages := vm_npages v - split, vm_vaddr := vm_vaddr v + split * MOS_PAGE_SIZE\<rparr>;
     (h, second) \<leftarrow> (case vm_io v of
         None \<Rightarrow> Some (h, second)
       | Some io \<Rightarrow> do {
           (h, io) \<leftarrow> io_ref h (Some io);
           Some (h, second\<lparr>vm_io := io, vm_io_offset := vm_io_offset second + split * MOS_PAGE_SIZE\<rparr>) });
     let mm = set_vmap first (v\<lparr>vm_npages := split\<rparr>) mm;
     mm \<leftarrow> do_attach_vmap (set_vmap new second mm) new;
     Some (h, mm) })"

definition vmap_split_for_range ::
  "'d ios \<times> mm_context \<Rightarrow> vmap_id \<Rightarrow> size_t \<Rightarrow> size_t \<Rightarrow> vmap_id \<Rightarrow> vmap_id \<Rightarrow> (('d ios \<times> mm_context) \<times> vmap_id) option" where
  "vmap_split_for_range st i rstart_pgoff rend_pgoff new1 new2 = do {
     v \<leftarrow> mc_vmaps (snd st) i;
     mos_assert (vm_lock v);
     if rstart_pgoff = 0 \<and> rend_pgoff = vm_npages v then Some (st, i)
     else if rstart_pgoff = 0 then do { st \<leftarrow> vmap_split st i rend_pgoff new1; Some (st, new1) }
     else if rend_pgoff = vm_npages v then do { st \<leftarrow> vmap_split st i rstart_pgoff new1; Some (st, new1) }
     else do {
       st \<leftarrow> vmap_split st i rstart_pgoff new1;
       st \<leftarrow> vmap_split st new1 (rend_pgoff - rstart_pgoff) new2;
       Some ((fst st, release_vmap new2 (snd st)), new1) } }"

definition vmap_finalise_init :: "mm_context \<Rightarrow> vmap_id \<Rightarrow> vmap_content \<Rightarrow> vmap_type \<Rightarrow> mm_context option" where
  "vmap_finalise_init mm i content type = do {
     v \<leftarrow> mc_vmaps mm i;
     mos_assert (vm_lock v);
     mos_assert (content \<noteq> VMAP_UNKNOWN);
     mos_assert (vm_content v = VMAP_UNKNOWN \<or> vm_content v = content);
     Some (set_vmap i (v\<lparr>vm_content := content, vm_type := type, vm_lock := False\<rparr>) mm) }"

subsection \<open>Free addresses\<close>

text \<open>Whether a mapping overlaps the pages from \<open>base\<close> to \<open>end_vaddr\<close>.\<close>

definition overlaps :: "vmap \<Rightarrow> ptr_t \<Rightarrow> ptr_t \<Rightarrow> bool" where
  "overlaps v base end_vaddr \<longleftrightarrow> vm_vaddr v < end_vaddr \<and> vmap_end v > base"

fun exact_free :: "(vmap_id \<rightharpoonup> vmap) \<Rightarrow> ptr_t \<Rightarrow> ptr_t \<Rightarrow> vmap_id list \<Rightarrow> bool option" where
  "exact_free vs base end_vaddr [] = Some True"
| "exact_free vs base end_vaddr (m # ms) = do {
     v \<leftarrow> vs m;
     if overlaps v base end_vaddr then Some False else exact_free vs base end_vaddr ms }"

text \<open>The address that the search finds, if any.\<close>

fun find_gap :: "(vmap_id \<rightharpoonup> vmap) \<Rightarrow> size_t \<Rightarrow> ptr_t \<Rightarrow> vmap_id list \<Rightarrow> ptr_t option option" where
  "find_gap vs n_pages retry_addr [] =
     Some (if retry_addr + n_pages * MOS_PAGE_SIZE \<le> MOS_KERNEL_START_VADDR then Some retry_addr else None)"
| "find_gap vs n_pages retry_addr (m # ms) =
     (if retry_addr + n_pages * MOS_PAGE_SIZE > MOS_KERNEL_START_VADDR then Some None
      else do {
        v \<leftarrow> vs m;
        let retry_addr = (if overlaps v retry_addr (retry_addr + n_pages * MOS_PAGE_SIZE) then vmap_end v else retry_addr);
        if retry_addr + n_pages * MOS_PAGE_SIZE \<le> vm_vaddr v then Some (Some retry_addr)
        else find_gap vs n_pages retry_addr ms })"

definition mm_get_free_vaddr_locked ::
  "mm_context \<Rightarrow> size_t \<Rightarrow> ptr_t \<Rightarrow> bool \<Rightarrow> vmap_id \<Rightarrow> (mm_context \<times> bool) option" where
  "mm_get_free_vaddr_locked mm n_pages base_vaddr exact new = do {
     mos_assert (mc_lock mm);
     mos_assert (base_vaddr < MOS_KERNEL_START_VADDR);
     if exact then do {
       free \<leftarrow> exact_free (mc_vmaps mm) base_vaddr (base_vaddr + n_pages * MOS_PAGE_SIZE) (mc_mmaps mm);
       if \<not> free then Some (mm, False)
       else do { mm \<leftarrow> vmap_create mm new base_vaddr n_pages; Some (mm, True) } }
     else do {
       gap \<leftarrow> find_gap (mc_vmaps mm) n_pages base_vaddr (mc_mmaps mm);
       case gap of
         None \<Rightarrow> Some (mm, False)
       | Some vaddr \<Rightarrow> do { mm \<leftarrow> vmap_create mm new vaddr n_pages; Some (mm, True) } } }"

fun mm_get_is_mapped_loop :: "(vmap_id \<rightharpoonup> vmap) \<Rightarrow> ptr_t \<Rightarrow> vmap_id list \<Rightarrow> bool option" where
  "mm_get_is_mapped_loop vs vaddr [] = Some False"
| "mm_get_is_mapped_loop vs vaddr (m # ms) = do {
     v \<leftarrow> vs m;
     if vm_vaddr v \<le> vaddr \<and> vaddr < vmap_end v then Some True else mm_get_is_mapped_loop vs vaddr ms }"

definition mm_get_is_mapped_locked :: "mm_context \<Rightarrow> ptr_t \<Rightarrow> bool option" where
  "mm_get_is_mapped_locked mm vaddr = do {
     mos_assert (mc_lock mm);
     mm_get_is_mapped_loop (mc_vmaps mm) vaddr (mc_mmaps mm) }"

subsection \<open>The memory calls of a process\<close>

text \<open>A mapping that could not be made is a null pointer, which the caller writes through.\<close>

definition cow_allocate_zeroed_pages ::
  "mm_context \<Rightarrow> size_t \<Rightarrow> ptr_t \<Rightarrow> bool \<Rightarrow> u32 \<Rightarrow> vmap_id \<Rightarrow> mm_context option" where
  "cow_allocate_zeroed_pages mm npages vaddr exact flags new = do {
     mm \<leftarrow> mm_acquire mm;
     (mm, ok) \<leftarrow> mm_get_free_vaddr_locked mm npages vaddr exact new;
     let mm = mm_release mm;
     mos_assert ok;
     v \<leftarrow> mc_vmaps mm new;
     Some (set_vmap new (v\<lparr>vm_vmflags := flags, vm_on_fault := True\<rparr>) mm) }"

text \<open>The address to use, unless the arguments are refused; \<open>user_mmap\<close> is the configured default.\<close>

definition mmap_verify_arguments :: "ptr_t \<Rightarrow> ptr_t \<Rightarrow> u32 \<Rightarrow> ptr_t option" where
  "mmap_verify_arguments user_mmap hint_addr flags =
     (if hint_addr mod MOS_PAGE_SIZE \<noteq> 0 then None
      else if (flags AND MMAP_SHARED \<noteq> 0) = (flags AND MMAP_PRIVATE \<noteq> 0) then None
      else if flags AND MMAP_EXACT \<noteq> 0 then Some hint_addr
      else Some (if hint_addr = 0 then user_mmap else hint_addr))"

definition mmap_type :: "u32 \<Rightarrow> vmap_type" where
  "mmap_type flags = (if flags AND MMAP_SHARED \<noteq> 0 then VMAP_TYPE_SHARED else VMAP_TYPE_PRIVATE)"

definition mmap_anonymous ::
  "ptr_t \<Rightarrow> mm_context \<Rightarrow> ptr_t \<Rightarrow> u32 \<Rightarrow> u32 \<Rightarrow> size_t \<Rightarrow> vmap_id \<Rightarrow> (mm_context \<times> ptr_t) option" where
  "mmap_anonymous user_mmap mm hint_addr flags vmflags n_pages new =
     (case mmap_verify_arguments user_mmap hint_addr flags of
        None \<Rightarrow> Some (mm, 0)
      | Some hint \<Rightarrow> do {
          mm \<leftarrow> cow_allocate_zeroed_pages mm n_pages hint (flags AND MMAP_EXACT \<noteq> 0) vmflags new;
          mm \<leftarrow> vmap_finalise_init mm new VMAP_MMAP (mmap_type flags);
          v \<leftarrow> mc_vmaps mm new;
          Some (mm, vm_vaddr v) })"

definition mmap_file ::
  "ptr_t \<Rightarrow> 'd ios \<times> mm_context \<Rightarrow> ptr_t \<Rightarrow> u32 \<Rightarrow> u32 \<Rightarrow> size_t \<Rightarrow> io_id \<Rightarrow> u64 \<Rightarrow> vmap_id \<Rightarrow> (('d ios \<times> mm_context) \<times> ptr_t) option" where
  "mmap_file user_mmap = (\<lambda>(h, mm) hint_addr flags vmflags n_pages io offset new.
     (case mmap_verify_arguments user_mmap hint_addr flags of
        None \<Rightarrow> Some ((h, mm), 0)
      | Some hint \<Rightarrow>
          if sint offset mod 4096 \<noteq> 0 then Some ((h, mm), 0)
          else do {
            mm \<leftarrow> mm_acquire mm;
            (mm, ok) \<leftarrow> mm_get_free_vaddr_locked mm n_pages hint (flags AND MMAP_EXACT \<noteq> 0) new;
            let mm = mm_release mm;
            if \<not> ok then Some ((h, mm), 0)
            else do {
              v \<leftarrow> mc_vmaps mm new;
              let v = v\<lparr>vm_vmflags := vmflags, vm_type := mmap_type flags\<rparr>;
              (h, v, ok) \<leftarrow> io_mmap h io v offset;
              let mm = set_vmap new v mm;
              if \<not> ok then do { (h, mm) \<leftarrow> vmap_destroy (h, mm) new; Some ((h, mm), 0) }
              else do {
                mm \<leftarrow> vmap_finalise_init mm new VMAP_FILE (mmap_type flags);
                Some ((h, mm), vm_vaddr v) } } }))"

definition munmap ::
  "'d ios \<times> mm_context \<Rightarrow> ptr_t \<Rightarrow> size_t \<Rightarrow> vmap_id \<Rightarrow> vmap_id \<Rightarrow> (('d ios \<times> mm_context) \<times> bool) option" where
  "munmap = (\<lambda>(h, mm) addr sz new1 new2. do {
     mm \<leftarrow> mm_acquire mm;
     (mm, whole) \<leftarrow> vmap_obtain mm addr;
     case whole of
       None \<Rightarrow> Some ((h, mm_release mm), False)
     | Some whole \<Rightarrow> do {
         v \<leftarrow> mc_vmaps mm whole;
         let range_start = ALIGN_DOWN_TO_PAGE addr;
         let range_end = ALIGN_UP_TO_PAGE (addr + sz);
         let start_pgoff = (range_start - vm_vaddr v) div MOS_PAGE_SIZE;
         let end_pgoff = (range_end - vm_vaddr v) div MOS_PAGE_SIZE;
         (st, range) \<leftarrow> vmap_split_for_range (h, mm) whole start_pgoff end_pgoff new1 new2;
         (h, mm) \<leftarrow> vmap_destroy st range;
         Some ((h, release_vmap whole (mm_release mm)), True) } })"

text \<open>The mapping that starts at \<open>addr\<close>: the one found there, or its second part.\<close>

definition protect_from ::
  "'d ios \<times> mm_context \<Rightarrow> vmap_id \<Rightarrow> ptr_t \<Rightarrow> vmap_id \<Rightarrow> (('d ios \<times> mm_context) \<times> vmap_id) option" where
  "protect_from st first_part addr new = do {
     v \<leftarrow> mc_vmaps (snd st) first_part;
     let addr_pgoff = (addr - vm_vaddr v) div MOS_PAGE_SIZE;
     if addr_pgoff \<noteq> 0 then do {
       st \<leftarrow> vmap_split st first_part addr_pgoff new;
       Some ((fst st, release_vmap first_part (snd st)), new) }
     else Some (st, first_part) }"

text \<open>Split off what lies behind the range.\<close>

definition protect_upto ::
  "'d ios \<times> mm_context \<Rightarrow> vmap_id \<Rightarrow> size_t \<Rightarrow> vmap_id \<Rightarrow> ('d ios \<times> mm_context) option" where
  "protect_upto st to_protect sz new = do {
     v \<leftarrow> mc_vmaps (snd st) to_protect;
     let size_pgoff = sz div MOS_PAGE_SIZE;
     if size_pgoff < vm_npages v then do {
       st \<leftarrow> vmap_split st to_protect size_pgoff new;
       Some (fst st, release_vmap new (snd st)) }
     else Some st }"

definition flags_lost :: "u32 \<Rightarrow> u32 \<Rightarrow> u32" where
  "flags_lost old perm =
     (let lost = (\<lambda>f. if old AND f \<noteq> 0 \<and> perm AND f = 0 then f else 0) in lost VM_READ OR lost VM_WRITE OR lost VM_EXEC)"

text \<open>The new permissions: rights that are lost leave the page tables, the others come with the next page fault.\<close>

definition protect_apply :: "'d ios \<times> mm_context \<Rightarrow> vmap_id \<Rightarrow> u32 \<Rightarrow> (('d ios \<times> mm_context) \<times> bool) option" where
  "protect_apply = (\<lambda>(h, mm) to_protect perm. do {
     v \<leftarrow> mc_vmaps mm to_protect;
     denied \<leftarrow> (case vm_io v of
         None \<Rightarrow> Some False
       | Some i \<Rightarrow> do { io \<leftarrow> h i; Some (\<not> io_mmap_perm_check io perm (vm_type v = VMAP_TYPE_PRIVATE)) });
     if denied then Some ((h, mm_release (release_vmap to_protect mm)), False)
     else do {
       let mm = mm\<lparr>mc_calls := mc_calls mm @ [PT_Mask (vm_vaddr v) (vm_npages v) (flags_lost (vm_vmflags v) perm)]\<rparr>;
       let mm = set_vmap to_protect (v\<lparr>vm_vmflags := perm OR VM_USER, vm_lock := False\<rparr>) mm;
       Some ((h, mm_release mm), True) } })"

definition vm_protect ::
  "'d ios \<times> mm_context \<Rightarrow> ptr_t \<Rightarrow> size_t \<Rightarrow> u32 \<Rightarrow> vmap_id \<Rightarrow> vmap_id \<Rightarrow> (('d ios \<times> mm_context) \<times> bool) option" where
  "vm_protect = (\<lambda>(h, mm) addr sz perm new1 new2. do {
     mos_assert (addr mod MOS_PAGE_SIZE = 0);
     mm \<leftarrow> mm_acquire mm;
     (mm, first_part) \<leftarrow> vmap_obtain mm addr;
     first_part \<leftarrow> first_part;
     (st, to_protect) \<leftarrow> protect_from (h, mm) first_part addr new1;
     st \<leftarrow> protect_upto st to_protect (ALIGN_UP_TO_PAGE sz) new2;
     protect_apply st to_protect perm })"

subsection \<open>The heap\<close>

fun find_heap :: "(vmap_id \<rightharpoonup> vmap) \<Rightarrow> vmap_id list \<Rightarrow> vmap_id option option" where
  "find_heap vs [] = Some None"
| "find_heap vs (m # ms) = do {
     v \<leftarrow> vs m;
     if vm_content v = VMAP_HEAP then Some (Some m) else find_heap vs ms }"

definition process_grow_heap :: "mm_context \<Rightarrow> size_t \<Rightarrow> (mm_context \<times> ptr_t) option" where
  "process_grow_heap mm npages = do {
     heap \<leftarrow> find_heap (mc_vmaps mm) (mc_mmaps mm);
     heap \<leftarrow> heap;
     mm \<leftarrow> acquire_vmap heap mm;
     v \<leftarrow> mc_vmaps mm heap;
     let heap_top = vmap_end v;
     let mm = set_vmap heap (v\<lparr>vm_npages := vm_npages v + npages, vm_lock := False\<rparr>) mm;
     Some (mm, heap_top + npages * MOS_PAGE_SIZE) }"

datatype heap_control_op = HEAP_GET_BASE | HEAP_GET_TOP | HEAP_SET_TOP | HEAP_GET_SIZE | HEAP_GROW_PAGES | HEAP_OTHER

definition heap_control :: "mm_context \<Rightarrow> heap_control_op \<Rightarrow> ptr_t \<Rightarrow> (mm_context \<times> ptr_t) option" where
  "heap_control mm op arg = do {
     block \<leftarrow> find_heap (mc_vmaps mm) (mc_mmaps mm);
     case block of
       None \<Rightarrow> Some (mm, 0)
     | Some block \<Rightarrow> do {
         v \<leftarrow> mc_vmaps mm block;
         case op of
           HEAP_GET_BASE \<Rightarrow> Some (mm, vm_vaddr v)
         | HEAP_GET_TOP \<Rightarrow> Some (mm, vmap_end v)
         | HEAP_SET_TOP \<Rightarrow>
             (if arg < vm_vaddr v then Some (mm, 0)
              else if arg mod MOS_PAGE_SIZE \<noteq> 0 then Some (mm, 0)
              else if arg = vmap_end v then Some (mm, 0)
              else if arg < vmap_end v then Some (mm, 0)
              else process_grow_heap mm ((arg - vm_vaddr v) div MOS_PAGE_SIZE))
         | HEAP_GET_SIZE \<Rightarrow> Some (mm, vm_npages v * MOS_PAGE_SIZE)
         | HEAP_GROW_PAGES \<Rightarrow> process_grow_heap mm arg
         | HEAP_OTHER \<Rightarrow> Some (mm, 0) } }"

section \<open>Regions\<close>

definition KS :: nat where
  "KS = unat MOS_KERNEL_START_VADDR"

definition vstart :: "vmap \<Rightarrow> nat" where
  "vstart v = unat (vm_vaddr v)"

definition vstop :: "vmap \<Rightarrow> nat" where
  "vstop v = vstart v + unat (vm_npages v) * 4096"

definition region :: "vmap \<Rightarrow> nat set" where
  "region v = {vstart v..<vstop v}"

text \<open>A mapping that starts at a page, is not empty and ends below the kernel.\<close>

definition vmap_wf :: "vmap \<Rightarrow> bool" where
  "vmap_wf v \<longleftrightarrow> vstart v mod 4096 = 0 \<and> 0 < unat (vm_npages v) \<and> vstop v \<le> KS"

text \<open>The mappings are listed without repetition, in the order of their addresses, and do not overlap.\<close>

definition vmap_before :: "(vmap_id \<rightharpoonup> vmap) \<Rightarrow> vmap_id \<Rightarrow> vmap_id \<Rightarrow> bool" where
  "vmap_before vs i j \<longleftrightarrow> vstop (the (vs i)) \<le> vstart (the (vs j))"

definition mm_wf :: "mm_context \<Rightarrow> bool" where
  "mm_wf mm \<longleftrightarrow> distinct (mc_mmaps mm) \<and> dom (mc_vmaps mm) = set (mc_mmaps mm) \<and> (\<forall>i v. mc_vmaps mm i = Some v \<longrightarrow> vmap_wf v) \<and>
     sorted_wrt (vmap_before (mc_vmaps mm)) (mc_mmaps mm)"

definition mapped :: "mm_context \<Rightarrow> nat set" where
  "mapped mm = (\<Union>v \<in> ran (mc_vmaps mm). region v)"

lemma KS_less: "KS < 2 ^ 64"
  by (simp add: KS_def MOS_KERNEL_START_VADDR_def)

lemma unat_pages: "unat n * 4096 < 2 ^ 64 \<Longrightarrow> unat (n * MOS_PAGE_SIZE) = unat n * 4096" for n :: size_t
  by (simp add: unat_mult_lem [THEN iffD1] MOS_PAGE_SIZE_def)

lemma unat_add_pages:
  fixes a :: ptr_t
  assumes "unat a + unat n * 4096 < 2 ^ 64"
  shows "unat (a + n * MOS_PAGE_SIZE) = unat a + unat n * 4096"
  using assms unat_add_fits [of a "n * MOS_PAGE_SIZE"] by (simp add: unat_pages)

lemma vmap_end_nat:
  assumes "vmap_wf v"
  shows "unat (vmap_end v) = vstop v"
  using assms KS_less by (auto simp: vmap_end_def vmap_wf_def vstop_def vstart_def intro: unat_add_pages)

lemma vmap_wf_less: "vmap_wf v \<Longrightarrow> vstart v < vstop v"
  by (simp add: vmap_wf_def vstop_def)

lemma vmap_wf_pages: "vmap_wf v \<Longrightarrow> vstop v mod 4096 = 0"
  by (simp add: vmap_wf_def vstop_def)

lemma region_disjoint:
  assumes "vmap_wf u" "vmap_wf v"
  shows "region u \<inter> region v = {} \<longleftrightarrow> vstop u \<le> vstart v \<or> vstop v \<le> vstart u"
  using vmap_wf_less [OF assms(1)] vmap_wf_less [OF assms(2)] by (auto simp: region_def)

section \<open>Changing the list\<close>

lemma attach_sorted_ok:
  assumes "vmap_wf v" "\<forall>m \<in> set ms. \<exists>u. vs m = Some u \<and> vmap_wf u \<and> region u \<inter> region v = {}"
    "sorted_wrt (vmap_before vs) ms" "vs i = Some v" "i \<notin> set ms" "distinct ms"
  shows "\<exists>ms'. attach_sorted vs (vm_vaddr v) i ms = Some ms' \<and> set ms' = insert i (set ms) \<and> distinct ms' \<and>
     sorted_wrt (vmap_before vs) ms'"
  using assms(2,3,5,6)
proof (induction ms)
  case Nil
  then show ?case by simp
next
  case (Cons m ms)
  obtain u where u: "vs m = Some u" "vmap_wf u" "region u \<inter> region v = {}"
    using Cons.prems(1) by auto
  have dis: "vstop u \<le> vstart v \<or> vstop v \<le> vstart u"
    using region_disjoint [OF u(2) assms(1)] u(3) by simp
  show ?case
  proof (cases "vm_vaddr u > vm_vaddr v")
    case True
    then have "vstop v \<le> vstart u"
      using dis vmap_wf_less [OF u(2)] by (auto simp: vstart_def word_less_nat_alt)
    moreover have "vstart u \<le> vstart (the (vs x))" if "x \<in> set ms" for x
      using Cons.prems(2) that u vmap_wf_less [OF u(2)] by (auto simp: vmap_before_def)
    ultimately show ?thesis
      using True u(1) Cons.prems assms(4) by (fastforce simp: vmap_before_def)
  next
    case False
    then have before: "vstop u \<le> vstart v"
      using dis vmap_wf_less [OF assms(1)] by (auto simp: vstart_def word_less_nat_alt not_less)
    obtain ms' where ms': "attach_sorted vs (vm_vaddr v) i ms = Some ms'" "set ms' = insert i (set ms)" "distinct ms'"
      "sorted_wrt (vmap_before vs) ms'"
      using Cons.IH Cons.prems by auto
    moreover have "vmap_before vs m i"
      using before u(1) assms(4) by (simp add: vmap_before_def)
    ultimately show ?thesis
      using False u(1) Cons.prems(2,3,4) by auto
  qed
qed

lemma mm_wf_disjoint:
  assumes "mm_wf mm" "mc_vmaps mm i = Some u" "mc_vmaps mm j = Some v" "i \<noteq> j"
  shows "region u \<inter> region v = {}"
proof -
  have wf: "vmap_wf u" "vmap_wf v"
    using assms by (auto simp: mm_wf_def)
  obtain a b where ab: "a < length (mc_mmaps mm)" "b < length (mc_mmaps mm)" "mc_mmaps mm ! a = i" "mc_mmaps mm ! b = j" "a \<noteq> b"
    using assms by (metis domI in_set_conv_nth mm_wf_def)
  have "vstop u \<le> vstart v \<or> vstop v \<le> vstart u"
  proof (cases "a < b")
    case True
    then show ?thesis
      using assms ab sorted_wrt_nth_less [of "vmap_before (mc_vmaps mm)" "mc_mmaps mm" a b] by (auto simp: mm_wf_def vmap_before_def)
  next
    case False
    then show ?thesis
      using assms ab sorted_wrt_nth_less [of "vmap_before (mc_vmaps mm)" "mc_mmaps mm" b a] by (auto simp: mm_wf_def vmap_before_def)
  qed
  then show ?thesis
    using region_disjoint [OF wf] by simp
qed

text \<open>Adding a mapping that overlaps none of the others.\<close>

lemma attach_ok_mm:
  assumes "mm_wf mm" "mc_vmaps mm new = None" "vmap_wf v" "region v \<inter> mapped mm = {}" "mc_lock mm"
  shows "\<exists>ms. do_attach_vmap (set_vmap new v mm) new = Some (mm\<lparr>mc_vmaps := (mc_vmaps mm)(new \<mapsto> v), mc_mmaps := ms\<rparr>) \<and>
     mm_wf (mm\<lparr>mc_vmaps := (mc_vmaps mm)(new \<mapsto> v), mc_mmaps := ms\<rparr>)"
proof -
  let ?vs = "(mc_vmaps mm)(new \<mapsto> v)" and ?ms = "mc_mmaps mm"
  have new: "new \<notin> set ?ms" and d: "distinct ?ms" "dom (mc_vmaps mm) = set ?ms"
    using assms(1,2) by (auto simp: mm_wf_def)
  have "\<forall>m \<in> set ?ms. \<exists>u. ?vs m = Some u \<and> vmap_wf u \<and> region u \<inter> region v = {}"
  proof
    fix m
    assume m: "m \<in> set ?ms"
    then obtain u where u: "mc_vmaps mm m = Some u"
      using d(2) by blast
    then have "vmap_wf u" "region u \<subseteq> mapped mm"
      using assms(1) by (auto simp: mm_wf_def mapped_def ran_def)
    then show "\<exists>u. ?vs m = Some u \<and> vmap_wf u \<and> region u \<inter> region v = {}"
      using u m new assms(4) by auto
  qed
  moreover have "sorted_wrt (vmap_before ?vs) ?ms"
    by (rule sorted_wrt_mono_rel [of _ "vmap_before (mc_vmaps mm)"]) (use assms(1) new in \<open>auto simp: mm_wf_def vmap_before_def\<close>)
  ultimately obtain ms where ms: "attach_sorted ?vs (vm_vaddr v) new ?ms = Some ms" "set ms = insert new (set ?ms)" "distinct ms"
    "sorted_wrt (vmap_before ?vs) ms"
    using attach_sorted_ok [OF assms(3), of ?ms ?vs new] new d(1) by auto
  have "do_attach_vmap (set_vmap new v mm) new = Some (mm\<lparr>mc_vmaps := ?vs, mc_mmaps := ms\<rparr>)"
    using ms(1) new assms(5) by (simp add: do_attach_vmap_def set_vmap_def)
  moreover have "mm_wf (mm\<lparr>mc_vmaps := ?vs, mc_mmaps := ms\<rparr>)"
    using assms(1,3) ms d(2) by (auto simp: mm_wf_def)
  ultimately show ?thesis by blast
qed

lemma mapped_iff: "x \<in> mapped mm \<longleftrightarrow> (\<exists>i v. mc_vmaps mm i = Some v \<and> x \<in> region v)"
  by (auto simp: mapped_def ran_def)

text \<open>Changing a mapping without moving its start or extending it.\<close>

lemma shrink_ok:
  assumes "mm_wf mm" "mc_vmaps mm i = Some v" "vmap_wf v'" "vstart v' = vstart v" "vstop v' \<le> vstop v"
  shows "mm_wf (set_vmap i v' mm)"
proof -
  have "sorted_wrt (vmap_before ((mc_vmaps mm)(i \<mapsto> v'))) (mc_mmaps mm)"
  proof (rule sorted_wrt_mono_rel [of _ "vmap_before (mc_vmaps mm)"])
    fix a b
    assume "vmap_before (mc_vmaps mm) a b"
    then show "vmap_before ((mc_vmaps mm)(i \<mapsto> v')) a b"
      using assms vmap_wf_less [of v'] by (auto simp: vmap_before_def)
  qed (use assms(1) in \<open>simp add: mm_wf_def\<close>)
  then show ?thesis
    using assms(1-3) by (auto simp: mm_wf_def set_vmap_def)
qed

lemma set_vmap_sel [simp]:
  "mc_vmaps (set_vmap i v mm) = (mc_vmaps mm)(i \<mapsto> v)" "mc_mmaps (set_vmap i v mm) = mc_mmaps mm"
  "mc_lock (set_vmap i v mm) = mc_lock mm" "mc_calls (set_vmap i v mm) = mc_calls mm"
  by (simp_all add: set_vmap_def)

lemma vmap_cong [simp]:
  "vstart (v\<lparr>vm_lock := l\<rparr>) = vstart v" "vstop (v\<lparr>vm_lock := l\<rparr>) = vstop v"
  "vstart (v\<lparr>vm_vmflags := f\<rparr>) = vstart v" "vstop (v\<lparr>vm_vmflags := f\<rparr>) = vstop v"
  "region (v\<lparr>vm_lock := l\<rparr>) = region v" "region (v\<lparr>vm_vmflags := f\<rparr>) = region v"
  "vmap_wf (v\<lparr>vm_lock := l\<rparr>) = vmap_wf v" "vmap_wf (v\<lparr>vm_vmflags := f\<rparr>) = vmap_wf v"
  by (simp_all add: vstart_def vstop_def region_def vmap_wf_def)

lemma mm_wf_vmap: "mm_wf mm \<Longrightarrow> mc_vmaps mm i = Some v \<Longrightarrow> vmap_wf v"
  by (auto simp: mm_wf_def)

lemma mm_wf_mem: "mm_wf mm \<Longrightarrow> mc_vmaps mm i = Some v \<Longrightarrow> i \<in> set (mc_mmaps mm)"
  by (auto simp: mm_wf_def)

lemma relock_ok:
  assumes "mm_wf mm" "mc_vmaps mm i = Some v"
  shows "mm_wf (set_vmap i (v\<lparr>vm_lock := l\<rparr>) mm)" "mapped (set_vmap i (v\<lparr>vm_lock := l\<rparr>) mm) = mapped mm"
proof -
  show "mm_wf (set_vmap i (v\<lparr>vm_lock := l\<rparr>) mm)"
    using assms by (rule shrink_ok) (use assms mm_wf_vmap in auto)
  show "mapped (set_vmap i (v\<lparr>vm_lock := l\<rparr>) mm) = mapped mm"
    using assms(2) unfolding set_eq_iff mapped_iff set_vmap_sel fun_upd_apply by (metis option.inject vmap_cong(5))
qed

lemma release_vmap_wf:
  assumes "mm_wf mm"
  shows "mm_wf (release_vmap i mm)" "mapped (release_vmap i mm) = mapped mm"
  using relock_ok [OF assms] assms by (auto simp: release_vmap_def split: option.split)

text \<open>The two parts of a split.\<close>

definition second_part :: "vmap \<Rightarrow> size_t \<Rightarrow> vmap" where
  "second_part v split = v\<lparr>vm_npages := vm_npages v - split, vm_vaddr := vm_vaddr v + split * MOS_PAGE_SIZE\<rparr>"

lemma split_regions:
  assumes "vmap_wf v" "split \<noteq> 0" "split < vm_npages v" "vm_vaddr w = vm_vaddr (second_part v split)"
    "vm_npages w = vm_npages (second_part v split)"
  shows "vmap_wf (v\<lparr>vm_npages := split\<rparr>)" "vmap_wf w"
    "vstart w = vstart v + unat split * 4096" "vstop w = vstop v" "vstop (v\<lparr>vm_npages := split\<rparr>) = vstart v + unat split * 4096"
proof -
  have lt: "unat split < unat (vm_npages v)" "0 < unat split"
    using assms(2,3) by (auto simp: word_less_nat_alt unat_gt_0)
  have v: "vstart v mod 4096 = 0" "vstart v + unat (vm_npages v) * 4096 \<le> KS"
    using assms(1) by (auto simp: vmap_wf_def vstop_def)
  have "unat (vm_vaddr v) + unat split * 4096 < 2 ^ 64"
    using v(2) lt KS_less by (simp add: vstart_def)
  then show start: "vstart w = vstart v + unat split * 4096"
    using assms(4) by (simp add: vstart_def second_part_def unat_add_pages)
  have "unat (vm_npages v - split) = unat (vm_npages v) - unat split"
    using lt(1) by (simp add: unat_sub word_le_nat_alt)
  then show stop: "vstop w = vstop v"
    using start assms(5) lt by (simp add: vstop_def second_part_def diff_mult_distrib)
  show "vmap_wf w"
    using v start stop assms(1) lt by (auto simp: vmap_wf_def vstop_def)
  show "vmap_wf (v\<lparr>vm_npages := split\<rparr>)" "vstop (v\<lparr>vm_npages := split\<rparr>) = vstart v + unat split * 4096"
    using v lt by (auto simp: vmap_wf_def vstop_def vstart_def)
qed

lemma vmap_split_ok:
  assumes "mm_wf mm" "mc_vmaps mm new = None" "vmap_split (h, mm) first split new = Some (h', mm')" "mc_lock mm"
  shows "\<exists>v w. mc_vmaps mm first = Some v \<and> vm_lock v \<and> 0 < unat split \<and> unat split < unat (vm_npages v) \<and> mm_wf mm' \<and>
     mc_vmaps mm' = (mc_vmaps mm)(first \<mapsto> v\<lparr>vm_npages := split\<rparr>, new \<mapsto> w) \<and>
     vstart w = vstart v + unat split * 4096 \<and> vstop w = vstop v \<and> vmap_wf w \<and> vm_lock w \<and> vm_vmflags w = vm_vmflags v \<and>
     (vm_io v = None \<longrightarrow> h' = h \<and> w = second_part v split) \<and> mc_lock mm' \<and> mc_calls mm' = mc_calls mm \<and> mapped mm' = mapped mm"
proof -
  obtain v where v: "mc_vmaps mm first = Some v" "vm_lock v" "split \<noteq> 0" "split < vm_npages v"
    using assms(3) by (auto simp: vmap_split_def split: bind_splits)
  obtain w where w: "do_attach_vmap (set_vmap new w (set_vmap first (v\<lparr>vm_npages := split\<rparr>) mm)) new = Some mm'"
    "vm_vaddr w = vm_vaddr (second_part v split)" "vm_npages w = vm_npages (second_part v split)" "vm_lock w"
    "vm_vmflags w = vm_vmflags v" "vm_io v = None \<longrightarrow> h' = h \<and> w = second_part v split"
    using assms(3) v by (cases "vm_io v") (auto simp: vmap_split_def second_part_def Let_def split: bind_splits)
  have wf: "vmap_wf v"
    using assms(1) v(1) by (auto simp: mm_wf_def)
  note R = split_regions [OF wf v(3,4) w(2,3)]
  let ?mm = "set_vmap first (v\<lparr>vm_npages := split\<rparr>) mm"
  have ne: "new \<noteq> first"
    using v(1) assms(2) by auto
  have wf1: "mm_wf ?mm"
    using assms(1) v(1) R(1) by (rule shrink_ok) (use R vmap_wf_less [OF R(2)] in \<open>auto simp: vstart_def\<close>)
  have "region w \<inter> mapped ?mm = {}"
  proof -
    have "region w \<inter> region u = {}" if "mc_vmaps ?mm i = Some u" for i u
    proof (cases "i = first")
      case True
      then have "vstop u \<le> vstart w"
        using that R by auto
      then show ?thesis
        by (auto simp: region_def)
    next
      case False
      then have "region u \<inter> region v = {}"
        using that mm_wf_disjoint [OF assms(1) _ v(1)] by auto
      moreover have "region w \<subseteq> region v"
        using R by (auto simp: region_def)
      ultimately show ?thesis by auto
    qed
    then show ?thesis
      using mapped_iff by blast
  qed
  then obtain ms where ms: "mm' = ?mm\<lparr>mc_vmaps := (mc_vmaps ?mm)(new \<mapsto> w), mc_mmaps := ms\<rparr>" "mm_wf mm'"
    using attach_ok_mm [OF wf1, of new w] R(2) w(1) assms(2,4) ne by auto
  have "region v = region (v\<lparr>vm_npages := split\<rparr>) \<union> region w"
    using R vmap_wf_less [OF R(2)] by (auto simp: region_def vstart_def)
  then have regs: "x \<in> region v \<longleftrightarrow> x \<in> region (v\<lparr>vm_npages := split\<rparr>) \<or> x \<in> region w" for x
    by auto
  have vs: "mc_vmaps mm' = (mc_vmaps mm)(first \<mapsto> v\<lparr>vm_npages := split\<rparr>, new \<mapsto> w)"
    using ms(1) by simp
  have "mapped mm' = mapped mm"
    using v(1) ne assms(2) regs unfolding set_eq_iff mapped_iff vs fun_upd_apply by (metis option.distinct(1) option.inject)
  then show ?thesis
    using v w R ms assms(4) by (auto simp: word_less_nat_alt unat_gt_0)
qed

lemma attach_sorted_runs: "set ms \<subseteq> dom vs \<Longrightarrow> attach_sorted vs x new ms \<noteq> None"
  by (induction ms) (auto split: bind_splits)

text \<open>A split that is asked for inside the mapping succeeds.\<close>

lemma vmap_split_runs:
  assumes "mm_wf mm" "mc_vmaps mm new = None" "mc_lock mm" "mc_vmaps mm first = Some v" "vm_lock v"
    "0 < unat split" "unat split < unat (vm_npages v)" "vm_io v = None"
  shows "\<exists>mm'. vmap_split (h, mm) first split new = Some (h, mm')"
proof -
  have wf: "vmap_wf v"
    using assms(1,4) by (rule mm_wf_vmap)
  have sp: "split \<noteq> 0" "split < vm_npages v"
    using assms(6,7) by (auto simp: word_less_nat_alt)
  have "set (mc_mmaps mm) \<subseteq> dom ((mc_vmaps mm)(first \<mapsto> a, new \<mapsto> b))" "new \<notin> set (mc_mmaps mm)" for a b
    using assms(1,2) by (auto simp: mm_wf_def)
  then show ?thesis
    using assms sp attach_sorted_runs
    by (auto simp: vmap_split_def do_attach_vmap_def Let_def not_None_eq split: bind_splits)
qed

lemma vmap_destroy_ok:
  assumes "mm_wf mm" "vmap_destroy (h, mm) i = Some (h', mm')"
  shows "\<exists>v. mc_vmaps mm i = Some v \<and> mm_wf mm' \<and> mc_vmaps mm' = (mc_vmaps mm)(i := None) \<and> mc_lock mm' = mc_lock mm \<and>
     mapped mm' = mapped mm - region v \<and> (vm_io v = None \<longrightarrow> mc_calls mm' = mc_calls mm @ [PT_Unmap (vm_vaddr v) (vm_npages v)])"
proof -
  obtain v where v: "mc_vmaps mm i = Some v"
    using assms(2) by (auto simp: vmap_destroy_def split: bind_splits)
  have m: "mc_vmaps mm' = (mc_vmaps mm)(i := None)" "mc_mmaps mm' = remove1 i (mc_mmaps mm)" "mc_lock mm' = mc_lock mm"
    "vm_io v = None \<longrightarrow> mc_calls mm' = mc_calls mm @ [PT_Unmap (vm_vaddr v) (vm_npages v)]"
    using assms(2) v by (auto simp: vmap_destroy_def Let_def split: bind_splits option.splits)
  have "sorted_wrt (vmap_before (mc_vmaps mm)) (remove1 i (mc_mmaps mm))"
    using assms(1) unfolding mm_wf_def by (metis distinct_remove1_removeAll removeAll_filter_not_eq sorted_wrt_filter)
  moreover have "vmap_before (mc_vmaps mm) x y \<Longrightarrow> vmap_before ((mc_vmaps mm)(i := None)) x y" if "x \<noteq> i" "y \<noteq> i" for x y
    using that by (simp add: vmap_before_def)
  ultimately have "sorted_wrt (vmap_before ((mc_vmaps mm)(i := None))) (remove1 i (mc_mmaps mm))"
    using assms(1)
    by - (rule sorted_wrt_mono_rel [of "remove1 i (mc_mmaps mm)" "vmap_before (mc_vmaps mm)"], auto simp: mm_wf_def)
  then have wf: "mm_wf mm'"
    using assms(1) m by (auto simp: mm_wf_def split: if_splits)
  have "region u \<inter> region v = {}" if "mc_vmaps mm j = Some u" "j \<noteq> i" for j u
    using mm_wf_disjoint [OF assms(1) that(1) v that(2)] .
  then have "mapped mm' = mapped mm - region v"
    using v unfolding set_eq_iff Diff_iff mapped_iff m(1) fun_upd_apply by (metis IntI empty_iff option.distinct(1) option.inject)
  then show ?thesis
    using v m wf by auto
qed

lemma obtain_loop_ok:
  assumes "\<forall>m \<in> set ms. \<exists>v. vs m = Some v \<and> vmap_wf v"
  shows "(\<exists>m v. obtain_loop vs a ms = Some (Some m) \<and> vs m = Some v \<and> unat a \<in> region v \<and> m \<in> set ms) \<or>
     (obtain_loop vs a ms = Some None \<and> (\<forall>m \<in> set ms. unat a \<notin> region (the (vs m))))"
  using assms
proof (induction ms)
  case (Cons m ms)
  then obtain v where v: "vs m = Some v" "vmap_wf v" by auto
  have "vm_vaddr v \<le> a \<and> a < vmap_end v \<longleftrightarrow> unat a \<in> region v"
    using vmap_end_nat [OF v(2)] by (simp add: region_def vstart_def word_le_nat_alt word_less_nat_alt)
  then show ?case
    using Cons v by auto
qed simp

lemma vmap_obtain_ok:
  assumes "mm_wf mm" "vmap_obtain mm a = Some (mm', r)"
  shows "mm_wf mm' \<and> mapped mm' = mapped mm \<and> mc_lock mm' \<and> mc_calls mm' = mc_calls mm \<and> (case r of
       None \<Rightarrow> mm' = mm \<and> unat a \<notin> mapped mm
     | Some i \<Rightarrow> \<exists>v. mc_vmaps mm i = Some v \<and> unat a \<in> region v \<and> mc_vmaps mm' = (mc_vmaps mm)(i \<mapsto> v\<lparr>vm_lock := True\<rparr>))"
proof -
  have lk: "mc_lock mm"
    using assms(2) by (auto simp: vmap_obtain_def split: bind_splits)
  have "\<forall>m \<in> set (mc_mmaps mm). \<exists>v. mc_vmaps mm m = Some v \<and> vmap_wf v"
    using assms(1) by (fastforce simp: mm_wf_def)
  from obtain_loop_ok [OF this, of a] show ?thesis
  proof (elim disjE exE conjE)
    fix m v
    assume m: "obtain_loop (mc_vmaps mm) a (mc_mmaps mm) = Some (Some m)" "mc_vmaps mm m = Some v" "unat a \<in> region v"
    then have "mm' = set_vmap m (v\<lparr>vm_lock := True\<rparr>) mm" "r = Some m"
      using assms(2) by (auto simp: vmap_obtain_def acquire_vmap_def split: bind_splits if_splits)
    then show ?thesis
      using relock_ok [OF assms(1) m(2)] m lk by auto
  next
    assume m: "obtain_loop (mc_vmaps mm) a (mc_mmaps mm) = Some None" "\<forall>m\<in>set (mc_mmaps mm). unat a \<notin> region (the (mc_vmaps mm m))"
    then have "mm' = mm" "r = None"
      using assms(2) by (auto simp: vmap_obtain_def split: bind_splits)
    moreover have "unat a \<notin> mapped mm"
      using m(2) mm_wf_mem [OF assms(1)] by (fastforce simp: mapped_iff)
    ultimately show ?thesis
      using lk assms(1) by simp
  qed
qed

section \<open>The search for free addresses\<close>

text \<open>The addresses where \<open>n\<close> bytes fit below the kernel and beside the listed mappings.\<close>

definition fits :: "(vmap_id \<rightharpoonup> vmap) \<Rightarrow> vmap_id list \<Rightarrow> nat \<Rightarrow> nat \<Rightarrow> bool" where
  "fits vs ms n b \<longleftrightarrow> b + n \<le> KS \<and> (\<forall>m \<in> set ms. {b..<b + n} \<inter> region (the (vs m)) = {})"

lemma interval_region:
  assumes "0 < n" "vmap_wf v"
  shows "{b..<b + n} \<inter> region v = {} \<longleftrightarrow> b + n \<le> vstart v \<or> vstop v \<le> b"
  using assms(1) vmap_wf_less [OF assms(2)] unfolding region_def by (auto simp: max_def min_def split: if_splits)

lemma overlaps_iff:
  assumes "0 < unat n_pages" "vmap_wf v" "unat a + unat n_pages * 4096 < 2 ^ 64"
  shows "overlaps v a (a + n_pages * MOS_PAGE_SIZE) \<longleftrightarrow> {unat a..<unat a + unat n_pages * 4096} \<inter> region v \<noteq> {}"
proof -
  have "0 < unat n_pages * 4096"
    using assms(1) by simp
  then show ?thesis
    using interval_region [OF _ assms(2)] vmap_end_nat [OF assms(2)] unat_add_pages [OF assms(3)]
    by (auto simp: overlaps_def word_less_nat_alt vstart_def not_le)
qed

lemma exact_free_iff:
  assumes "0 < unat n_pages" "unat a + unat n_pages * 4096 < 2 ^ 64" "\<forall>m \<in> set ms. \<exists>v. vs m = Some v \<and> vmap_wf v"
  shows "exact_free vs a (a + n_pages * MOS_PAGE_SIZE) ms =
    Some (\<forall>m \<in> set ms. {unat a..<unat a + unat n_pages * 4096} \<inter> region (the (vs m)) = {})"
  using assms(3) by (induction ms) (auto simp: overlaps_iff [OF assms(1) _ assms(2)])

lemma fits_Cons:
  assumes "0 < n" "vs m = Some v" "vmap_wf v"
  shows "fits vs (m # ms) n b \<longleftrightarrow> fits vs ms n b \<and> (b + n \<le> vstart v \<or> vstop v \<le> b)"
  using interval_region [OF assms(1,3)] assms(2) by (auto simp: fits_def)

lemma fits_below:
  assumes "b + n \<le> KS" "b + n \<le> vstart v" "vs m = Some v" "vmap_wf v" "sorted_wrt (vmap_before vs) (m # ms)"
  shows "fits vs ms n b"
proof -
  have "b + n \<le> vstart (the (vs x))" if "x \<in> set ms" for x
    using assms(2,3,5) that vmap_wf_less [OF assms(4)] by (fastforce simp: vmap_before_def)
  then show ?thesis
    using assms(1) by (fastforce simp: fits_def region_def)
qed

lemma gap_end:
  fixes x :: ptr_t
  assumes "unat n_pages * 4096 < 2 ^ 47" "unat x \<le> KS"
  shows "unat x + unat n_pages * 4096 < 2 ^ 64" "unat (x + n_pages * MOS_PAGE_SIZE) = unat x + unat n_pages * 4096"
proof -
  show "unat x + unat n_pages * 4096 < 2 ^ 64"
    using assms by (simp add: KS_def MOS_KERNEL_START_VADDR_def)
  then show "unat (x + n_pages * MOS_PAGE_SIZE) = unat x + unat n_pages * 4096"
    by (rule unat_add_pages)
qed

text \<open>One turn of the search: where it goes on, and that it skips no address that fits.\<close>

lemma find_gap_step:
  assumes "0 < unat n_pages" "unat n_pages * 4096 < 2 ^ 47" "vs m = Some v" "vmap_wf v" "unat a + unat n_pages * 4096 \<le> KS"
  obtains a' where "find_gap vs n_pages a (m # ms) =
        (if unat a' + unat n_pages * 4096 \<le> vstart v then Some (Some a') else find_gap vs n_pages a' ms)"
    "unat a' = (if vstart v < unat a + unat n_pages * 4096 \<and> unat a < vstop v then vstop v else unat a)" "unat a' \<le> KS"
proof -
  have a: "unat a \<le> KS"
    using assms(5) by simp
  define a' where "a' = (if overlaps v a (a + n_pages * MOS_PAGE_SIZE) then vmap_end v else a)"
  have a': "unat a' = (if vstart v < unat a + unat n_pages * 4096 \<and> unat a < vstop v then vstop v else unat a)"
    using overlaps_iff [OF assms(1,4) gap_end(1) [OF assms(2) a]] interval_region [OF _ assms(4), of "unat n_pages * 4096"]
      vmap_end_nat [OF assms(4)] assms(1)
    by (auto simp: a'_def)
  have a'_le: "unat a' \<le> KS"
    using a' assms(4) a by (auto simp: vmap_wf_def)
  have "find_gap vs n_pages a (m # ms) =
      (if unat a' + unat n_pages * 4096 \<le> vstart v then Some (Some a') else find_gap vs n_pages a' ms)"
    using assms(3,5) gap_end(2) [OF assms(2) a] gap_end(2) [OF assms(2) a'_le]
    by (simp add: a'_def [symmetric] word_less_nat_alt word_le_nat_alt KS_def vstart_def Let_def del: find_gap.simps(1))
  then show ?thesis
    using a' a'_le that by blast
qed

text \<open>The search returns the first address that fits.\<close>

definition first_fit :: "(vmap_id \<rightharpoonup> vmap) \<Rightarrow> vmap_id list \<Rightarrow> nat \<Rightarrow> ptr_t \<Rightarrow> ptr_t option \<Rightarrow> bool" where
  "first_fit vs ms n a r \<longleftrightarrow> (case r of
       None \<Rightarrow> \<forall>b \<ge> unat a. \<not> fits vs ms n b
     | Some g \<Rightarrow> fits vs ms n (unat g) \<and> unat a \<le> unat g \<and> (unat a mod 4096 = 0 \<longrightarrow> unat g mod 4096 = 0) \<and>
         (\<forall>b. unat a \<le> b \<and> b < unat g \<longrightarrow> \<not> fits vs ms n b))"

lemma first_fit_Cons:
  assumes "0 < n" "vs m = Some v" "vmap_wf v" "first_fit vs ms n a' r"
    "unat a' = (if vstart v < unat a + n \<and> unat a < vstop v then vstop v else unat a)" "vstop v \<le> unat a'"
  shows "first_fit vs (m # ms) n a r"
proof -
  note F = fits_Cons [of n vs m v ms, OF assms(1-3)]
  have skip: "\<not> fits vs (m # ms) n b" if "unat a \<le> b" "b < unat a'" for b
    using that assms(5) F by (auto split: if_splits)
  have al: "unat a mod 4096 = 0 \<longrightarrow> unat a' mod 4096 = 0"
    using assms(5) vmap_wf_pages [OF assms(3)] by auto
  have le: "unat a \<le> unat a'"
    using assms(5) by auto
  show ?thesis
  proof (cases r)
    case None
    then have "\<forall>b \<ge> unat a'. \<not> fits vs ms n b"
      using assms(4) by (simp add: first_fit_def)
    then have "\<not> fits vs (m # ms) n b" if "unat a \<le> b" for b
      using that skip F by (metis not_le)
    then show ?thesis
      using None by (simp add: first_fit_def)
  next
    case (Some g)
    then have g: "fits vs ms n (unat g)" "unat a' \<le> unat g" "unat a' mod 4096 = 0 \<longrightarrow> unat g mod 4096 = 0"
      "\<forall>b. unat a' \<le> b \<and> b < unat g \<longrightarrow> \<not> fits vs ms n b"
      using assms(4) by (auto simp: first_fit_def)
    have "\<not> fits vs (m # ms) n b" if "unat a \<le> b" "b < unat g" for b
      using that skip g(4) F by (metis not_le)
    moreover have "fits vs (m # ms) n (unat g)"
      using g F assms(6) by auto
    ultimately show ?thesis
      using Some al le g by (auto simp: first_fit_def)
  qed
qed

lemma find_gap_first:
  assumes "0 < unat n_pages" "unat n_pages * 4096 < 2 ^ 47" "\<forall>m \<in> set ms. \<exists>v. vs m = Some v \<and> vmap_wf v"
    "sorted_wrt (vmap_before vs) ms" "unat a \<le> KS"
  shows "\<exists>r. find_gap vs n_pages a ms = Some r \<and> first_fit vs ms (unat n_pages * 4096) a r"
  using assms(3-5)
proof (induction ms arbitrary: a)
  case Nil
  then show ?case
    using gap_end(2) [OF assms(2)] by (auto simp: fits_def first_fit_def word_le_nat_alt KS_def)
next
  case (Cons m ms)
  let ?n = "unat n_pages * 4096"
  have n: "0 < ?n"
    using assms(1) by simp
  obtain v where v: "vs m = Some v" "vmap_wf v"
    using Cons.prems(1) by auto
  show ?case
  proof (cases "unat a + ?n > KS")
    case True
    then show ?thesis
      using gap_end(2) [OF assms(2) Cons.prems(3)] by (auto simp: word_less_nat_alt fits_def first_fit_def KS_def)
  next
    case False
    then have "unat a + ?n \<le> KS" by simp
    from find_gap_step [of n_pages vs m v a ms, OF assms(1,2) v this]
    obtain a' where a': "find_gap vs n_pages a (m # ms) =
        (if unat a' + ?n \<le> vstart v then Some (Some a') else find_gap vs n_pages a' ms)"
      "unat a' = (if vstart v < unat a + ?n \<and> unat a < vstop v then vstop v else unat a)" "unat a' \<le> KS"
      by blast
    show ?thesis
    proof (cases "unat a' + ?n \<le> vstart v")
      case True
      then have eq: "a' = a"
        using a'(2) vmap_wf_less [OF v(2)] n by (auto simp: word_unat_eq_iff split: if_splits)
      have "fits vs ms ?n (unat a)"
        using False True v Cons.prems(2) unfolding eq by (intro fits_below [of _ _ v _ m]) auto
      then show ?thesis
        using a'(1) True fits_Cons [of ?n vs m v, OF n v] eq by (auto simp: first_fit_def)
    next
      case F2: False
      then have stop: "vstop v \<le> unat a'"
        using a'(2) by (auto split: if_splits)
      obtain r where "find_gap vs n_pages a' ms = Some r" "first_fit vs ms ?n a' r"
        using Cons.IH [OF _ _ a'(3)] Cons.prems(1,2) by auto
      then show ?thesis
        using a'(1) F2 first_fit_Cons [of ?n vs m v ms a', OF n v _ a'(2) stop] by auto
    qed
  qed
qed

end
