(* ===== verification/VmapCalls.thy ===== *)
theory VmapCalls
  imports Vmaps
begin

unbundle bit_operations_syntax

text \<open>
  The memory calls of a process over the mappings of the theory Vmaps: what an address space looks like between two calls, what
  mapping, unmapping and protecting a range do to the set of mapped addresses, that any sequence of calls with fitting requests that
  return leaves the address space well formed and unlocked, and what requests that do not fit do to it.\<close>

section \<open>Address spaces between calls\<close>

text \<open>An address space in which no call is running.\<close>

definition mm_idle :: "mm_context \<Rightarrow> bool" where
  "mm_idle mm \<longleftrightarrow> mm_wf mm \<and> \<not> mc_lock mm \<and> (\<forall>i v. mc_vmaps mm i = Some v \<longrightarrow> \<not> vm_lock v)"

text \<open>\<open>n\<close> bytes at \<open>b\<close> lie below the kernel and are not mapped.\<close>

definition free_at :: "mm_context \<Rightarrow> nat \<Rightarrow> nat \<Rightarrow> bool" where
  "free_at mm n b \<longleftrightarrow> b + n \<le> KS \<and> {b..<b + n} \<inter> mapped mm = {}"

lemma mm_wf_listed: "mm_wf mm \<Longrightarrow> \<forall>m \<in> set (mc_mmaps mm). \<exists>v. mc_vmaps mm m = Some v \<and> vmap_wf v"
  by (fastforce simp: mm_wf_def)

lemma fits_free_at:
  assumes "mm_wf mm"
  shows "fits (mc_vmaps mm) (mc_mmaps mm) n b \<longleftrightarrow> free_at mm n b"
proof -
  have "mapped mm = (\<Union>m \<in> set (mc_mmaps mm). region (the (mc_vmaps mm m)))"
    using mm_wf_listed [OF assms] mm_wf_mem [OF assms] unfolding set_eq_iff mapped_iff UN_iff by (metis option.sel)
  then show ?thesis
    by (auto simp: fits_def free_at_def)
qed

lemma mm_locked [simp]:
  "mapped (mm\<lparr>mc_lock := l\<rparr>) = mapped mm" "mm_wf (mm\<lparr>mc_lock := l\<rparr>) = mm_wf mm" "free_at (mm\<lparr>mc_lock := l\<rparr>) = free_at mm"
  by (simp_all add: mapped_def mm_wf_def free_at_def fun_eq_iff)

lemma fresh_vmap_region:
  assumes "0 < unat n_pages" "free_at mm (unat n_pages * 4096) (unat a)" "unat a mod 4096 = 0"
  shows "vmap_wf (fresh_vmap a n_pages)" "region (fresh_vmap a n_pages) = {unat a..<unat a + unat n_pages * 4096}"
  using assms by (simp_all add: vmap_wf_def fresh_vmap_def vstart_def vstop_def free_at_def region_def)

lemma vmap_create_ok:
  assumes "mm_wf mm" "mc_vmaps mm new = None" "mc_lock mm" "0 < unat n_pages" "free_at mm (unat n_pages * 4096) (unat a)"
    "unat a mod 4096 = 0"
  obtains mm' where "vmap_create mm new a n_pages = Some mm'" "mm_wf mm'" "mc_vmaps mm' = (mc_vmaps mm)(new \<mapsto> fresh_vmap a n_pages)"
    "mc_lock mm'" "mc_calls mm' = mc_calls mm" "mapped mm' = mapped mm \<union> {unat a..<unat a + unat n_pages * 4096}"
proof -
  note R = fresh_vmap_region [OF assms(4-6)]
  obtain ms where ms: "vmap_create mm new a n_pages =
      Some (mm\<lparr>mc_vmaps := (mc_vmaps mm)(new \<mapsto> fresh_vmap a n_pages), mc_mmaps := ms\<rparr>)"
    "mm_wf (mm\<lparr>mc_vmaps := (mc_vmaps mm)(new \<mapsto> fresh_vmap a n_pages), mc_mmaps := ms\<rparr>)"
    using attach_ok_mm [OF assms(1,2) R(1)] R(2) assms(3,5) by (auto simp: vmap_create_def free_at_def)
  have "mapped (mm\<lparr>mc_vmaps := (mc_vmaps mm)(new \<mapsto> fresh_vmap a n_pages), mc_mmaps := ms\<rparr>) =
      mapped mm \<union> {unat a..<unat a + unat n_pages * 4096}"
    using assms(2) R(2) by (auto simp: mapped_def)
  then show ?thesis
    using ms assms(3) that by simp
qed

lemma get_free_vaddr_search:
  assumes "mm_wf mm" "mc_lock mm" "0 < unat n_pages" "unat n_pages * 4096 < 2 ^ 47" "base < MOS_KERNEL_START_VADDR"
  obtains r where "first_fit (mc_vmaps mm) (mc_mmaps mm) (unat n_pages * 4096) base r"
    "mm_get_free_vaddr_locked mm n_pages base False new =
       (case r of None \<Rightarrow> Some (mm, False) | Some g \<Rightarrow> do { mm \<leftarrow> vmap_create mm new g n_pages; Some (mm, True) })"
proof -
  have "unat base \<le> KS" "sorted_wrt (vmap_before (mc_vmaps mm)) (mc_mmaps mm)"
    using assms(1,5) by (simp_all add: word_less_nat_alt KS_def mm_wf_def)
  from find_gap_first [OF assms(3,4) mm_wf_listed [OF assms(1)] this(2,1)] show ?thesis
    using that assms(2,5) by (auto simp: mm_get_free_vaddr_locked_def)
qed

lemma get_free_vaddr_exact:
  assumes "mm_wf mm" "mc_lock mm" "0 < unat n_pages" "unat base + unat n_pages * 4096 \<le> KS"
  shows "mm_get_free_vaddr_locked mm n_pages base True new =
       (if free_at mm (unat n_pages * 4096) (unat base) then do { mm \<leftarrow> vmap_create mm new base n_pages; Some (mm, True) }
        else Some (mm, False))"
proof -
  have lt: "unat base + unat n_pages * 4096 < 2 ^ 64" "base < MOS_KERNEL_START_VADDR"
    using assms(3,4) KS_less by (auto simp: word_less_nat_alt KS_def)
  have "free_at mm (unat n_pages * 4096) (unat base) \<longleftrightarrow>
      (\<forall>m \<in> set (mc_mmaps mm). {unat base..<unat base + unat n_pages * 4096} \<inter> region (the (mc_vmaps mm m)) = {})"
    using fits_free_at [OF assms(1)] assms(4) by (auto simp: fits_def)
  then show ?thesis
    using exact_free_iff [OF assms(3) lt(1) mm_wf_listed [OF assms(1)]] assms(2) lt(2)
    by (simp add: mm_get_free_vaddr_locked_def)
qed

lemma verify_aligned:
  assumes "mmap_verify_arguments user_mmap hint flags = Some base" "unat user_mmap mod 4096 = 0"
  shows "unat base mod 4096 = 0"
proof -
  have "unat hint mod 4096 = 0" if "hint mod MOS_PAGE_SIZE = 0"
    using that unat_mod [of hint MOS_PAGE_SIZE] by simp
  then show ?thesis
    using assms by (auto simp: mmap_verify_arguments_def split: if_splits)
qed

text \<open>What an allocation of pages returns, whichever way it chooses the address.\<close>

definition chosen :: "mm_context \<Rightarrow> bool \<Rightarrow> ptr_t \<Rightarrow> nat \<Rightarrow> ptr_t \<Rightarrow> bool" where
  "chosen mm exact base n a \<longleftrightarrow> free_at mm n (unat a) \<and>
     (if exact then a = base else base \<le> a \<and> (\<forall>b. unat base \<le> b \<and> b < unat a \<longrightarrow> \<not> free_at mm n b))"

lemma get_free_vaddr_ok:
  assumes "mm_wf mm" "mc_lock mm" "mc_vmaps mm new = None" "unat base mod 4096 = 0"
    "0 < unat n_pages" "unat n_pages * 4096 < 2 ^ 47" "base < MOS_KERNEL_START_VADDR" "exact \<longrightarrow> unat base + unat n_pages * 4096 \<le> KS"
  shows "(mm_get_free_vaddr_locked mm n_pages base exact new = Some (mm, False) \<and> (\<nexists>a. chosen mm exact base (unat n_pages * 4096) a)) \<or>
     (\<exists>a mm'. chosen mm exact base (unat n_pages * 4096) a \<and> mm_get_free_vaddr_locked mm n_pages base exact new = Some (mm', True) \<and>
        mm_wf mm' \<and> mc_vmaps mm' = (mc_vmaps mm)(new \<mapsto> fresh_vmap a n_pages) \<and> mc_lock mm' \<and> mc_calls mm' = mc_calls mm \<and>
        mapped mm' = mapped mm \<union> {unat a..<unat a + unat n_pages * 4096})"
proof (cases exact)
  case True
  show ?thesis
  proof (cases "free_at mm (unat n_pages * 4096) (unat base)")
    case f: True
    obtain mm' where "vmap_create mm new base n_pages = Some mm'" "mm_wf mm'" "mc_vmaps mm' = (mc_vmaps mm)(new \<mapsto> fresh_vmap base n_pages)"
      "mc_lock mm'" "mc_calls mm' = mc_calls mm" "mapped mm' = mapped mm \<union> {unat base..<unat base + unat n_pages * 4096}"
      using vmap_create_ok [OF assms(1,3,2,5) f assms(4)] by blast
    then show ?thesis
      using True f get_free_vaddr_exact [OF assms(1,2,5)] assms(8) by (auto simp: chosen_def)
  qed (use True get_free_vaddr_exact [OF assms(1,2,5)] assms(8) in \<open>auto simp: chosen_def\<close>)
next
  case False
  obtain r where r: "first_fit (mc_vmaps mm) (mc_mmaps mm) (unat n_pages * 4096) base r"
    "mm_get_free_vaddr_locked mm n_pages base False new =
       (case r of None \<Rightarrow> Some (mm, False) | Some g \<Rightarrow> do { mm \<leftarrow> vmap_create mm new g n_pages; Some (mm, True) })"
    using get_free_vaddr_search [OF assms(1,2,5,6,7)] by blast
  show ?thesis
  proof (cases r)
    case None
    then show ?thesis
      using r False fits_free_at [OF assms(1)] by (auto simp: first_fit_def chosen_def word_le_nat_alt)
  next
    case (Some g)
    then have c: "chosen mm exact base (unat n_pages * 4096) g" and al: "unat g mod 4096 = 0"
      using r(1) False assms(4) fits_free_at [OF assms(1)] by (auto simp: first_fit_def chosen_def word_le_nat_alt)
    then have f: "free_at mm (unat n_pages * 4096) (unat g)"
      by (simp add: chosen_def)
    obtain mm' where "vmap_create mm new g n_pages = Some mm'" "mm_wf mm'" "mc_vmaps mm' = (mc_vmaps mm)(new \<mapsto> fresh_vmap g n_pages)"
      "mc_lock mm'" "mc_calls mm' = mc_calls mm" "mapped mm' = mapped mm \<union> {unat g..<unat g + unat n_pages * 4096}"
      using vmap_create_ok [OF assms(1,3,2,5) f al] by blast
    then show ?thesis
      using Some r(2) False c by auto
  qed
qed

lemma relabel_ok:
  assumes "mm_wf mm" "mc_vmaps mm i = Some v" "vm_vaddr v' = vm_vaddr v" "vm_npages v' = vm_npages v"
  shows "mm_wf (set_vmap i v' mm)" "mapped (set_vmap i v' mm) = mapped mm"
proof -
  have v: "vstart v' = vstart v" "vstop v' = vstop v" "vmap_wf v'" "region v' = region v"
    using assms(3,4) mm_wf_vmap [OF assms(1,2)] by (simp_all add: vstart_def vstop_def vmap_wf_def region_def)
  then show "mm_wf (set_vmap i v' mm)"
    by (intro shrink_ok [OF assms(1,2)]) simp_all
  show "mapped (set_vmap i v' mm) = mapped mm"
    using assms(2) v(4) unfolding set_eq_iff mapped_iff set_vmap_sel fun_upd_apply by (metis option.inject)
qed

lemma mmap_anonymous_ok:
  assumes "mm_idle mm" "mc_vmaps mm new = None" "mmap_verify_arguments user_mmap hint flags = Some base" "unat user_mmap mod 4096 = 0"
    "base < MOS_KERNEL_START_VADDR" "0 < unat n_pages" "unat n_pages * 4096 < 2 ^ 47"
    "flags AND MMAP_EXACT \<noteq> 0 \<longrightarrow> unat base + unat n_pages * 4096 \<le> KS"
  shows "case mmap_anonymous user_mmap mm hint flags vmflags n_pages new of
      None \<Rightarrow> \<nexists>a. chosen mm (flags AND MMAP_EXACT \<noteq> 0) base (unat n_pages * 4096) a
    | Some (mm', a) \<Rightarrow> chosen mm (flags AND MMAP_EXACT \<noteq> 0) base (unat n_pages * 4096) a \<and> mm_idle mm' \<and>
        mapped mm' = mapped mm \<union> {unat a..<unat a + unat n_pages * 4096} \<and> mc_calls mm' = mc_calls mm \<and>
        mc_vmaps mm' = (mc_vmaps mm)(new \<mapsto> (fresh_vmap a n_pages)\<lparr>vm_vmflags := vmflags, vm_on_fault := True,
          vm_content := VMAP_MMAP, vm_type := mmap_type flags, vm_lock := False\<rparr>)"
proof -
  let ?n = "unat n_pages * 4096" and ?mm = "mm\<lparr>mc_lock := True\<rparr>" and ?ex = "flags AND MMAP_EXACT \<noteq> 0"
  have idle: "mm_wf ?mm" "mc_lock ?mm" "mc_vmaps ?mm new = None" "mm_acquire mm = Some ?mm"
    using assms(1,2) by (simp_all add: mm_idle_def mm_acquire_def)
  have ch: "chosen ?mm = chosen mm"
    by (simp add: chosen_def fun_eq_iff)
  from get_free_vaddr_ok [OF idle(1-3) verify_aligned [OF assms(3,4)] assms(6,7,5,8)] show ?thesis
  proof (elim disjE exE conjE)
    assume "mm_get_free_vaddr_locked ?mm n_pages base ?ex new = Some (?mm, False)" "\<nexists>a. chosen ?mm ?ex base ?n a"
    then show ?thesis
      using assms(3) idle(4) ch by (simp add: mmap_anonymous_def cow_allocate_zeroed_pages_def)
  next
    fix a mm'
    assume m: "chosen ?mm ?ex base ?n a" "mm_get_free_vaddr_locked ?mm n_pages base ?ex new = Some (mm', True)" "mm_wf mm'"
      "mc_vmaps mm' = (mc_vmaps ?mm)(new \<mapsto> fresh_vmap a n_pages)" "mc_calls mm' = mc_calls ?mm"
      "mapped mm' = mapped ?mm \<union> {unat a..<unat a + ?n}"
    let ?v = "(fresh_vmap a n_pages)\<lparr>vm_vmflags := vmflags, vm_on_fault := True, vm_content := VMAP_MMAP,
        vm_type := mmap_type flags, vm_lock := False\<rparr>"
    have r: "mmap_anonymous user_mmap mm hint flags vmflags n_pages new = Some (set_vmap new ?v (mm'\<lparr>mc_lock := False\<rparr>), a)"
      using assms(3) idle(4) m(2,4)
      by (simp add: mmap_anonymous_def cow_allocate_zeroed_pages_def vmap_finalise_init_def mm_release_def fresh_vmap_def set_vmap_def)
    have "mm_wf (set_vmap new ?v (mm'\<lparr>mc_lock := False\<rparr>))" "mapped (set_vmap new ?v (mm'\<lparr>mc_lock := False\<rparr>)) = mapped mm'"
      using relabel_ok [of "mm'\<lparr>mc_lock := False\<rparr>" new "fresh_vmap a n_pages" ?v] m(3,4) by auto
    then show ?thesis
      using r m ch assms(1) by (auto simp: mm_idle_def)
  qed
qed

section \<open>Taking mappings apart\<close>

lemma range_pages:
  fixes a b :: u64
  assumes "unat a mod 4096 = 0" "unat b mod 4096 = 0" "unat b \<le> unat a"
  shows "unat ((a - b) div MOS_PAGE_SIZE) = unat a div 4096 - unat b div 4096" "unat ((a - b) div MOS_PAGE_SIZE) * 4096 = unat a - unat b"
proof -
  have "unat (a - b) = unat a - unat b"
    using assms(3) by (simp add: unat_sub word_le_nat_alt)
  then have u: "unat ((a - b) div MOS_PAGE_SIZE) = (unat a - unat b) div 4096"
    by (simp add: unat_div)
  obtain k l where kl: "unat a = k * 4096" "unat b = l * 4096"
    using assms(1,2) by (metis add_0_right div_mult_mod_eq)
  then have "(unat a - unat b) div 4096 = k - l"
    by (metis diff_mult_distrib nonzero_mult_div_cancel_right zero_neq_numeral)
  then show "unat ((a - b) div MOS_PAGE_SIZE) = unat a div 4096 - unat b div 4096"
    "unat ((a - b) div MOS_PAGE_SIZE) * 4096 = unat a - unat b"
    using u kl by (simp_all add: diff_mult_distrib)
qed

definition only_locked :: "mm_context \<Rightarrow> vmap_id set \<Rightarrow> bool" where
  "only_locked mm S \<longleftrightarrow> (\<forall>i v. mc_vmaps mm i = Some v \<longrightarrow> vm_lock v \<longrightarrow> i \<in> S)"

text \<open>Well formed, with the lock of the address space held and at most the locks of \<open>S\<close>.\<close>

definition mm_busy :: "mm_context \<Rightarrow> vmap_id set \<Rightarrow> bool" where
  "mm_busy mm S \<longleftrightarrow> mm_wf mm \<and> mc_lock mm \<and> only_locked mm S"

lemma mm_busy_mono: "mm_busy mm S \<Longrightarrow> S \<subseteq> T \<Longrightarrow> mm_busy mm T"
  by (auto simp: mm_busy_def only_locked_def)

lemma mm_idle_busy: "mm_idle mm \<Longrightarrow> mm_acquire mm = Some (mm\<lparr>mc_lock := True\<rparr>) \<and> mm_busy (mm\<lparr>mc_lock := True\<rparr>) {}"
  by (auto simp: mm_idle_def mm_busy_def mm_acquire_def only_locked_def)

lemma mm_busy_idle: "mm_busy mm {} \<Longrightarrow> mm_idle (mm_release mm)"
  by (auto simp: mm_idle_def mm_busy_def mm_release_def only_locked_def)

lemma split_busy:
  assumes "mm_busy mm S" "mc_vmaps mm new = None" "vmap_split (h, mm) first split new = Some (h', mm')"
  shows "mm_busy mm' (insert new S)" "mapped mm' = mapped mm"
    "\<And>j. j \<noteq> new \<Longrightarrow> mc_vmaps mm' j = None \<longleftrightarrow> mc_vmaps mm j = None"
  using vmap_split_ok [OF _ assms(2,3)] assms(1) by (auto simp: mm_busy_def only_locked_def split: if_splits)

lemma release_busy:
  assumes "mm_busy mm S"
  shows "mm_busy (release_vmap i mm) (S - {i})" "mapped (release_vmap i mm) = mapped mm"
  using assms release_vmap_wf [of mm i]
  by (auto simp: mm_busy_def only_locked_def release_vmap_def split: option.splits if_splits)

lemma destroy_busy:
  assumes "mm_busy mm S" "vmap_destroy (h, mm) i = Some (h', mm')"
  shows "mm_busy mm' (S - {i})"
  using vmap_destroy_ok [OF _ assms(2)] assms(1) by (auto simp: mm_busy_def only_locked_def split: if_splits)

lemma obtain_busy:
  assumes "mm_busy mm {}" "vmap_obtain mm a = Some (mm', r)"
  shows "mm_busy mm' (set_option r)" "mapped mm' = mapped mm" "mc_vmaps mm' j = None \<longleftrightarrow> mc_vmaps mm j = None"
  using vmap_obtain_ok [OF _ assms(2)] assms(1) by (auto simp: mm_busy_def only_locked_def split: option.splits if_splits)

lemma split_for_range_busy:
  assumes "mm_busy mm {i}" "mc_vmaps mm new1 = None" "mc_vmaps mm new2 = None" "new1 \<noteq> new2"
    "vmap_split_for_range (h, mm) i rs re new1 new2 = Some ((h', mm'), r)"
  shows "mm_busy mm' {i, r}"
proof -
  obtain v where v: "mc_vmaps mm i = Some v"
    using assms(5) by (auto simp: vmap_split_for_range_def split: bind_splits)
  consider "mm' = mm" "r = i" | k where "vmap_split (h, mm) i k new1 = Some (h', mm')" "r = new1"
    | h1 mm1 k mm2 where "vmap_split (h, mm) i rs new1 = Some (h1, mm1)" "vmap_split (h1, mm1) new1 k new2 = Some (h', mm2)"
        "mm' = release_vmap new2 mm2" "r = new1"
  proof (cases "rs = 0 \<or> re = vm_npages v")
    case True
    then have "mm' = mm \<and> r = i \<or> (\<exists>k. vmap_split (h, mm) i k new1 = Some (h', mm') \<and> r = new1)"
      using assms(5) v by (auto simp: vmap_split_for_range_def split: bind_splits if_splits)
    then show ?thesis
      using that(1,2) by blast
  next
    case False
    then obtain st1 st2 where "vmap_split (h, mm) i rs new1 = Some st1" "vmap_split st1 new1 (re - rs) new2 = Some st2"
      "h' = fst st2" "mm' = release_vmap new2 (snd st2)" "r = new1"
      using assms(5) v by (auto simp: vmap_split_for_range_def Option.bind_eq_Some_conv)
    then show ?thesis
      using that(3) [of "fst st1" "snd st1"  "re - rs" "snd st2"] by simp
  qed
  then show ?thesis
  proof cases
    case 1
    then show ?thesis using assms(1) by simp
  next
    case 2
    then show ?thesis using split_busy(1) [OF assms(1,2)] by (metis insert_commute)
  next
    case 3
    note s1 = split_busy [OF assms(1,2) 3(1)]
    have "mc_vmaps mm1 new2 = None"
      using s1(3) assms(3,4) by auto
    from split_busy(1) [OF s1(1) this 3(2)] have "mm_busy mm2 {new2, new1, i}" .
    moreover have "{new2, new1, i} - {new2} \<subseteq> {i, r}"
      using 3(4) by auto
    ultimately show ?thesis
      using mm_busy_mono [OF release_busy(1)] 3(3) by simp
  qed
qed

lemma munmap_idle:
  assumes "mm_idle mm" "mc_vmaps mm new1 = None" "mc_vmaps mm new2 = None" "new1 \<noteq> new2"
    "munmap (h, mm) addr sz new1 new2 = Some ((h', mm'), ok)"
  shows "mm_idle mm'"
proof -
  let ?mm = "mm\<lparr>mc_lock := True\<rparr>"
  note B = mm_idle_busy [OF assms(1)]
  obtain mm1 whole where 1: "vmap_obtain ?mm addr = Some (mm1, whole)"
    using assms(5) B by (auto simp: munmap_def split: bind_splits)
  note O = obtain_busy [OF conjunct2 [OF B] 1]
  show ?thesis
  proof (cases whole)
    case None
    then show ?thesis
      using assms(5) B 1 O(1) mm_busy_idle by (auto simp: munmap_def)
  next
    case (Some i)
    then obtain rs re h2 mm2 r mm3 where 2: "vmap_split_for_range (h, mm1) i rs re new1 new2 = Some ((h2, mm2), r)"
      "vmap_destroy (h2, mm2) r = Some (h', mm3)" "mm' = release_vmap i (mm_release mm3)"
      using assms(5) B 1 by (auto simp: munmap_def Let_def split: bind_splits)
    have "mm_busy mm2 {i, r}"
      using split_for_range_busy [OF _ _ _ assms(4) 2(1)] O assms(2,3) Some by auto
    from release_busy(1) [OF destroy_busy [OF this 2(2)]] have "mm_busy (release_vmap i mm3) ({i, r} - {r} - {i})" .
    moreover have "release_vmap i (mm_release mm3) = mm_release (release_vmap i mm3)"
      by (auto simp: release_vmap_def mm_release_def set_vmap_def split: option.split)
    moreover have "{i, r} - {r} - {i} = {}"
      by auto
    ultimately show ?thesis
      using mm_busy_idle 2(3) by simp
  qed
qed

lemma set_vmap_busy:
  assumes "mm_busy mm S" "mc_vmaps mm i = Some v" "vm_vaddr v' = vm_vaddr v" "vm_npages v' = vm_npages v" "\<not> vm_lock v'"
  shows "mm_busy (set_vmap i v' mm) (S - {i})"
  using relabel_ok [OF _ assms(2-4)] assms(1,5) by (auto simp: mm_busy_def only_locked_def split: if_splits)

lemma protect_from_busy:
  assumes "mm_busy mm {i}" "mc_vmaps mm new = None" "protect_from (h, mm) i addr new = Some ((h', mm'), t)"
  shows "mm_busy mm' {t}" "mapped mm' = mapped mm" "j \<noteq> new \<Longrightarrow> mc_vmaps mm j = None \<Longrightarrow> mc_vmaps mm' j = None"
proof -
  have "mm' = mm \<and> t = i \<or> (\<exists>k mm1. vmap_split (h, mm) i k new = Some (h', mm1) \<and> mm' = release_vmap i mm1 \<and> t = new)"
    using assms(3) by (auto simp: protect_from_def Let_def Option.bind_eq_Some_conv split: if_splits)
  then have "mm_busy mm' {t} \<and> mapped mm' = mapped mm \<and> (j \<noteq> new \<longrightarrow> mc_vmaps mm j = None \<longrightarrow> mc_vmaps mm' j = None)"
  proof (elim disjE exE conjE)
    fix k mm1
    assume k: "vmap_split (h, mm) i k new = Some (h', mm1)" "mm' = release_vmap i mm1" "t = new"
    note s1 = split_busy [OF assms(1,2) k(1)]
    have "mm_busy mm' ({new, i} - {i})" "mapped mm' = mapped mm"
      using release_busy [OF s1(1), of i] s1(2) k(2) by simp_all
    moreover have "mc_vmaps mm' j = None \<longleftrightarrow> mc_vmaps mm1 j = None"
      using k(2) by (auto simp: release_vmap_def split: option.split)
    ultimately show ?thesis
      using k(3) s1(3) by (auto elim: mm_busy_mono)
  qed (use assms(1) in auto)
  then show "mm_busy mm' {t}" "mapped mm' = mapped mm" "j \<noteq> new \<Longrightarrow> mc_vmaps mm j = None \<Longrightarrow> mc_vmaps mm' j = None"
    by blast+
qed

lemma protect_upto_busy:
  assumes "mm_busy mm {t}" "mc_vmaps mm new = None" "protect_upto (h, mm) t sz new = Some (h', mm')"
  shows "mm_busy mm' {t}" "mapped mm' = mapped mm"
proof -
  have "mm' = mm \<or> (\<exists>k mm1. vmap_split (h, mm) t k new = Some (h', mm1) \<and> mm' = release_vmap new mm1)"
    using assms(3) by (auto simp: protect_upto_def Let_def Option.bind_eq_Some_conv split: if_splits)
  then have "mm_busy mm' {t} \<and> mapped mm' = mapped mm"
  proof (elim disjE exE conjE)
    fix k mm1
    assume k: "vmap_split (h, mm) t k new = Some (h', mm1)" "mm' = release_vmap new mm1"
    note s1 = split_busy [OF assms(1,2) k(1)]
    show ?thesis
      using release_busy [OF s1(1), of new] s1(2) k(2) by (auto elim: mm_busy_mono)
  qed (use assms(1) in auto)
  then show "mm_busy mm' {t}" "mapped mm' = mapped mm"
    by blast+
qed

lemma protect_apply_idle:
  assumes "mm_busy mm {t}" "protect_apply (h, mm) t perm = Some ((h', mm'), ok)"
  shows "mm_idle mm'" "mapped mm' = mapped mm"
proof -
  obtain v where v: "mc_vmaps mm t = Some v"
    using assms(2) by (auto simp: protect_apply_def split: bind_splits)
  consider "mm' = mm_release (release_vmap t mm)"
    | c where "mm' = mm_release (set_vmap t (v\<lparr>vm_vmflags := perm OR VM_USER, vm_lock := False\<rparr>) (mm\<lparr>mc_calls := c\<rparr>))"
    using assms(2) v by (auto simp: protect_apply_def Let_def Option.bind_eq_Some_conv split: if_splits)
  then have "mm_idle mm' \<and> mapped mm' = mapped mm"
  proof cases
    case 1
    then show ?thesis
      using release_busy [OF assms(1), of t] mm_busy_idle by (simp add: mm_release_def)
  next
    case 2
    let ?v = "v\<lparr>vm_vmflags := perm OR VM_USER, vm_lock := False\<rparr>" and ?mm = "mm\<lparr>mc_calls := c\<rparr>"
    have "mm_busy ?mm {t}" "mapped ?mm = mapped mm"
      using assms(1) by (auto simp: mm_busy_def mm_wf_def only_locked_def mapped_def)
    then show ?thesis
      using set_vmap_busy [of ?mm "{t}" t v ?v] relabel_ok [of ?mm t v ?v] v 2 mm_busy_idle
      by (simp add: mm_release_def mm_busy_def)
  qed
  then show "mm_idle mm'" "mapped mm' = mapped mm"
    by blast+
qed

lemma vm_protect_idle:
  assumes "mm_idle mm" "mc_vmaps mm new1 = None" "mc_vmaps mm new2 = None" "new1 \<noteq> new2"
    "vm_protect (h, mm) addr sz perm new1 new2 = Some ((h', mm'), ok)"
  shows "mm_idle mm'" "mapped mm' = mapped mm"
proof -
  let ?mm = "mm\<lparr>mc_lock := True\<rparr>"
  note B = mm_idle_busy [OF assms(1)]
  obtain mm1 i h2 mm2 t h3 mm3 where 1: "vmap_obtain ?mm addr = Some (mm1, Some i)" "protect_from (h, mm1) i addr new1 = Some ((h2, mm2), t)"
    "protect_upto (h2, mm2) t (ALIGN_UP_TO_PAGE sz) new2 = Some (h3, mm3)" "protect_apply (h3, mm3) t perm = Some ((h', mm'), ok)"
    using assms(5) B by (auto simp: vm_protect_def Option.bind_eq_Some_conv)
  note O = obtain_busy [OF conjunct2 [OF B] 1(1)]
  have n1: "mc_vmaps mm1 new1 = None" and n2: "mc_vmaps mm1 new2 = None"
    using O(3) assms(2,3) by simp_all
  have b1: "mm_busy mm1 {i}"
    using O(1) by simp
  note F = protect_from_busy [OF b1 n1 1(2)]
  have "mc_vmaps mm2 new2 = None"
    using F(3) n2 assms(4) by auto
  note U = protect_upto_busy [OF F(1) this 1(3)]
  show "mm_idle mm'" "mapped mm' = mapped mm"
    using protect_apply_idle [OF U(1) 1(4)] U(2) F(2) O(2) by simp_all
qed

section \<open>Unmapping a range\<close>

lemma obtain_runs:
  assumes "mm_busy mm {}" "mc_vmaps mm i = Some v" "unat a \<in> region v"
  shows "vmap_obtain mm a = Some (set_vmap i (v\<lparr>vm_lock := True\<rparr>) mm, Some i)"
proof -
  have wf: "mm_wf mm"
    using assms(1) by (simp add: mm_busy_def)
  have "\<not> (\<forall>m \<in> set (mc_mmaps mm). unat a \<notin> region (the (mc_vmaps mm m)))"
    using mm_wf_mem [OF wf assms(2)] assms(2,3) by force
  then obtain m u where m: "obtain_loop (mc_vmaps mm) a (mc_mmaps mm) = Some (Some m)" "mc_vmaps mm m = Some u" "unat a \<in> region u"
    using obtain_loop_ok [OF mm_wf_listed [OF wf], of a] by auto
  have "m = i"
    using mm_wf_disjoint [OF wf m(2) assms(2)] m(3) assms(3) by auto
  moreover have "\<not> vm_lock v"
    using assms(1,2) by (auto simp: mm_busy_def only_locked_def)
  ultimately show ?thesis
    using m(1) assms(1,2) by (simp add: vmap_obtain_def acquire_vmap_def mm_busy_def)
qed

lemma split_runs:
  assumes "mm_busy mm S" "mc_vmaps mm first = Some v" "vm_lock v" "vm_io v = None" "mc_vmaps mm new = None"
    "0 < unat split" "unat split < unat (vm_npages v)"
  obtains mm' where "vmap_split (h, mm) first split new = Some (h, mm')" "mm_busy mm' (insert new S)" "mapped mm' = mapped mm"
    "mc_vmaps mm' = (mc_vmaps mm)(first \<mapsto> v\<lparr>vm_npages := split\<rparr>, new \<mapsto> second_part v split)" "mc_calls mm' = mc_calls mm"
proof -
  have b: "mm_wf mm" "mc_lock mm"
    using assms(1) by (simp_all add: mm_busy_def)
  from vmap_split_runs [OF b(1) assms(5) b(2) assms(2,3,6,7,4)]
  obtain mm' where r: "vmap_split (h, mm) first split new = Some (h, mm')" by blast
  show ?thesis
    using that [OF r split_busy(1,2) [OF assms(1,5) r]] vmap_split_ok [OF b(1) assms(5) r b(2)] assms(2,4) by auto
qed

lemma second_part_sel [simp]:
  "vm_lock (second_part v k) = vm_lock v" "vm_io (second_part v k) = vm_io v"
  "vm_vaddr (second_part v k) = vm_vaddr v + k * MOS_PAGE_SIZE" "vm_npages (second_part v k) = vm_npages v - k"
  by (simp_all add: second_part_def)

lemma split_twice_runs:
  assumes "mm_busy mm {i}" "mc_vmaps mm i = Some v" "vm_lock v" "vm_io v = None" "mc_vmaps mm new1 = None" "mc_vmaps mm new2 = None"
    "new1 \<noteq> new2" "0 < unat rs" "unat rs < unat re" "unat re < unat (vm_npages v)"
  obtains mm' where "vmap_split_for_range (h, mm) i rs re new1 new2 = Some ((h, mm'), new1)" "mapped mm' = mapped mm"
    "mc_calls mm' = mc_calls mm" "mc_vmaps mm' new1 = Some ((second_part v rs)\<lparr>vm_npages := re - rs\<rparr>)"
proof -
  have lt: "unat rs < unat (vm_npages v)" "re \<noteq> vm_npages v" "rs \<noteq> 0"
    using assms(8-10) by auto
  obtain mm1 where m: "vmap_split (h, mm) i rs new1 = Some (h, mm1)" "mm_busy mm1 {new1, i}" "mapped mm1 = mapped mm"
    "mc_vmaps mm1 = (mc_vmaps mm)(i \<mapsto> v\<lparr>vm_npages := rs\<rparr>, new1 \<mapsto> second_part v rs)" "mc_calls mm1 = mc_calls mm"
    using split_runs [OF assms(1-5,8) lt(1)] by metis
  have u: "unat (re - rs) = unat re - unat rs" "unat (vm_npages v - rs) = unat (vm_npages v) - unat rs"
    using assms(9) lt(1) by (simp_all add: unat_sub word_le_nat_alt)
  have n: "mc_vmaps mm1 new1 = Some (second_part v rs)" "mc_vmaps mm1 new2 = None" "new2 \<noteq> i"
    using m(4) assms(2,6,7) by auto
  have "vm_lock (second_part v rs)" "vm_io (second_part v rs) = None" "0 < unat (re - rs)"
    "unat (re - rs) < unat (vm_npages (second_part v rs))"
    using assms(3,4,9,10) u by simp_all
  from split_runs [OF m(2) n(1) this(1,2) n(2) this(3,4), of h]
  obtain mm2 where m2: "vmap_split (h, mm1) new1 (re - rs) new2 = Some (h, mm2)" "mapped mm2 = mapped mm1"
    "mc_vmaps mm2 = (mc_vmaps mm1)(new1 \<mapsto> (second_part v rs)\<lparr>vm_npages := re - rs\<rparr>, new2 \<mapsto> second_part (second_part v rs) (re - rs))"
    "mc_calls mm2 = mc_calls mm1" "mm_busy mm2 {new2, new1, i}"
    by metis
  have "vmap_split_for_range (h, mm) i rs re new1 new2 = Some ((h, release_vmap new2 mm2), new1)"
    using lt m(1) m2(1) assms(2,3) by (simp add: vmap_split_for_range_def)
  moreover have "mc_vmaps (release_vmap new2 mm2) new1 = Some ((second_part v rs)\<lparr>vm_npages := re - rs\<rparr>)"
    "mc_calls (release_vmap new2 mm2) = mc_calls mm2"
    using m2(3) assms(7) by (auto simp: release_vmap_def)
  ultimately show ?thesis
    using that release_busy(2) [OF m2(5)] m m2 by auto
qed

text \<open>The mapping that the kernel isolates for a range: the range itself, unless the range is a proper prefix.\<close>

lemma split_for_range_runs:
  assumes "mm_busy mm {i}" "mc_vmaps mm i = Some v" "vm_lock v" "vm_io v = None" "mc_vmaps mm new1 = None" "mc_vmaps mm new2 = None"
    "new1 \<noteq> new2" "unat rs < unat re" "unat re \<le> unat (vm_npages v)" "0 < unat rs \<or> re = vm_npages v"
  obtains mm' r w where "vmap_split_for_range (h, mm) i rs re new1 new2 = Some ((h, mm'), r)" "mm_busy mm' {i, r}"
    "mapped mm' = mapped mm" "mc_calls mm' = mc_calls mm" "mc_vmaps mm' r = Some w" "vm_lock w" "vm_io w = None"
    "vm_vaddr w = vm_vaddr v + rs * MOS_PAGE_SIZE" "vm_npages w = re - rs"
proof -
  note busy = split_for_range_busy [OF assms(1,5,6,7)]
  consider "rs = 0" "re = vm_npages v" | "0 < unat rs" "re = vm_npages v" | "0 < unat rs" "unat re < unat (vm_npages v)"
    using assms(9,10) unfolding unat_gt_0 by (metis le_neq_implies_less unsigned_word_eqI)
  then show ?thesis
  proof cases
    case 1
    then have "vmap_split_for_range (h, mm) i rs re new1 new2 = Some ((h, mm), i)"
      using assms(2,3) by (simp add: vmap_split_for_range_def)
    then show ?thesis
      by (rule that) (use 1 assms(1-4) in simp_all)
  next
    case 2
    obtain mm1 where m: "vmap_split (h, mm) i rs new1 = Some (h, mm1)" "mapped mm1 = mapped mm"
      "mc_vmaps mm1 = (mc_vmaps mm)(i \<mapsto> v\<lparr>vm_npages := rs\<rparr>, new1 \<mapsto> second_part v rs)" "mc_calls mm1 = mc_calls mm"
      using split_runs [OF assms(1-5) 2(1)] assms(8) 2(2) by metis
    have r: "vmap_split_for_range (h, mm) i rs re new1 new2 = Some ((h, mm1), new1)"
      using 2 m(1) assms(2,3) by (auto simp: vmap_split_for_range_def)
    then show ?thesis
      using that [OF r busy [OF r] m(2,4), of "second_part v rs"] m(3) assms(3,4) 2(2) by simp
  next
    case 3
    from split_twice_runs [OF assms(1-7) 3(1) assms(8) 3(2)]
    obtain mm1 where m: "vmap_split_for_range (h, mm) i rs re new1 new2 = Some ((h, mm1), new1)" "mapped mm1 = mapped mm"
      "mc_calls mm1 = mc_calls mm" "mc_vmaps mm1 new1 = Some ((second_part v rs)\<lparr>vm_npages := re - rs\<rparr>)"
      by metis
    then show ?thesis
      using that [OF m(1) busy [OF m(1)] m(2-4)] assms(3,4) by simp
  qed
qed

lemma destroy_runs:
  assumes "mm_busy mm S" "mc_vmaps mm r = Some w" "vm_lock w" "vm_io w = None"
  obtains mm' where "vmap_destroy (h, mm) r = Some (h, mm')" "mm_busy mm' (S - {r})" "mapped mm' = mapped mm - region w"
    "mc_calls mm' = mc_calls mm @ [PT_Unmap (vm_vaddr w) (vm_npages w)]"
proof -
  obtain mm' where r: "vmap_destroy (h, mm) r = Some (h, mm')"
    using assms by (auto simp: vmap_destroy_def mm_busy_def)
  show ?thesis
    using that [OF r destroy_busy [OF assms(1) r]] vmap_destroy_ok [OF _ r] assms by (auto simp: mm_busy_def)
qed

text \<open>The pages that a call of \<^const>\<open>munmap\<close> names.\<close>

definition page_floor :: "ptr_t \<Rightarrow> nat" where
  "page_floor a = unat a div 4096 * 4096"

definition page_ceil :: "ptr_t \<Rightarrow> size_t \<Rightarrow> nat" where
  "page_ceil a sz = (unat a + unat sz + 4095) div 4096 * 4096"

lemma range_offsets:
  assumes "vmap_wf v" "unat addr \<in> region v" "0 < unat sz" "page_ceil addr sz \<le> vstop v"
    "rs = (ALIGN_DOWN_TO_PAGE addr - vm_vaddr v) div MOS_PAGE_SIZE" "re = (ALIGN_UP_TO_PAGE (addr + sz) - vm_vaddr v) div MOS_PAGE_SIZE"
  shows "unat rs * 4096 = page_floor addr - vstart v" "unat re * 4096 = page_ceil addr sz - vstart v"
    "vstart v \<le> page_floor addr" "page_floor addr < page_ceil addr sz" "unat rs < unat re" "unat re \<le> unat (vm_npages v)"
proof -
  have v: "vstart v mod 4096 = 0" "vstop v \<le> KS"
    using assms(1) by (simp_all add: vmap_wf_def)
  have in_v: "vstart v \<le> unat addr" "unat addr < vstop v"
    using assms(2) by (simp_all add: region_def)
  have ceil: "unat addr + unat sz \<le> page_ceil addr sz"
    unfolding page_ceil_def by linarith
  have K: "KS + 4096 < 2 ^ 64"
    by (simp add: KS_def MOS_KERNEL_START_VADDR_def)
  have sum: "unat (addr + sz) = unat addr + unat sz" "unat (addr + sz) + 4095 < 2 ^ 64"
    using ceil assms(4) v(2) K unat_add_fits [of addr sz] by auto
  have up: "unat (ALIGN_UP_TO_PAGE (addr + sz)) = page_ceil addr sz"
    using unat_align_up [OF sum(2)] sum(1) by (simp add: page_ceil_def)
  have down: "unat (ALIGN_DOWN_TO_PAGE addr) = page_floor addr"
    by (simp add: unat_align_down page_floor_def)
  show le: "vstart v \<le> page_floor addr"
    using in_v(1) v(1) unfolding page_floor_def by (metis add_0_right div_le_mono div_mult_mod_eq mult_le_mono1)
  show lt: "page_floor addr < page_ceil addr sz"
    using assms(3) ceil unfolding page_floor_def by (metis add_less_cancel_left add.right_neutral div_times_less_eq_dividend le_less_trans less_le_trans)
  show rs: "unat rs * 4096 = page_floor addr - vstart v"
    using range_pages(2) [of "ALIGN_DOWN_TO_PAGE addr" "vm_vaddr v"] le v(1) unfolding assms(5) down vstart_def
    by (simp add: page_floor_def)
  show re: "unat re * 4096 = page_ceil addr sz - vstart v"
    using range_pages(2) [of "ALIGN_UP_TO_PAGE (addr + sz)" "vm_vaddr v"] le lt v(1) unfolding assms(6) up vstart_def
    by (simp add: page_ceil_def)
  have "unat rs * 4096 < unat re * 4096"
    using rs re le lt by simp
  then show "unat rs < unat re"
    by simp
  have "unat re * 4096 \<le> unat (vm_npages v) * 4096"
    using re assms(4) by (simp add: vstop_def)
  then show "unat re \<le> unat (vm_npages v)"
    by simp
qed

lemma munmap_runs:
  assumes "mm_idle mm" "mc_vmaps mm i = Some v" "unat addr \<in> region v"
    "vmap_split_for_range (h, set_vmap i (v\<lparr>vm_lock := True\<rparr>) (mm\<lparr>mc_lock := True\<rparr>)) i
       ((ALIGN_DOWN_TO_PAGE addr - vm_vaddr v) div MOS_PAGE_SIZE) ((ALIGN_UP_TO_PAGE (addr + sz) - vm_vaddr v) div MOS_PAGE_SIZE) new1 new2 =
       Some ((h, mm2), r)"
    "mm_busy mm2 {i, r}" "mc_vmaps mm2 r = Some w" "vm_lock w" "vm_io w = None"
  obtains mm' where "munmap (h, mm) addr sz new1 new2 = Some ((h, mm'), True)" "mm_idle mm'" "mapped mm' = mapped mm2 - region w"
    "mc_calls mm' = mc_calls mm2 @ [PT_Unmap (vm_vaddr w) (vm_npages w)]"
proof -
  note B = mm_idle_busy [OF assms(1)]
  have o: "vmap_obtain (mm\<lparr>mc_lock := True\<rparr>) addr = Some (set_vmap i (v\<lparr>vm_lock := True\<rparr>) (mm\<lparr>mc_lock := True\<rparr>), Some i)"
    using obtain_runs [OF conjunct2 [OF B]] assms(2,3) by simp
  obtain mm3 where d: "vmap_destroy (h, mm2) r = Some (h, mm3)" "mm_busy mm3 ({i, r} - {r})" "mapped mm3 = mapped mm2 - region w"
    "mc_calls mm3 = mc_calls mm2 @ [PT_Unmap (vm_vaddr w) (vm_npages w)]"
    using destroy_runs [OF assms(5-8)] by metis
  let ?mm = "release_vmap i (mm_release mm3)"
  have eq: "?mm = mm_release (release_vmap i mm3)"
    by (auto simp: release_vmap_def mm_release_def set_vmap_def split: option.split)
  have "munmap (h, mm) addr sz new1 new2 = Some ((h, ?mm), True)"
    using B o assms(4) d(1) by (simp add: munmap_def)
  moreover have "mm_busy (release_vmap i mm3) {}"
    using release_busy(1) [OF d(2), of i] by (rule mm_busy_mono) auto
  then have "mm_idle ?mm" "mapped ?mm = mapped mm3"
    using mm_busy_idle release_busy(2) [OF d(2)] unfolding eq by (simp_all add: mm_release_def)
  moreover have "mc_calls ?mm = mc_calls mm3"
    by (simp add: release_vmap_def mm_release_def split: option.split)
  ultimately show ?thesis
    using that d by simp
qed

lemma idle_obtained:
  assumes "mm_idle mm" "mc_vmaps mm i = Some v"
  defines "mm1 \<equiv> set_vmap i (v\<lparr>vm_lock := True\<rparr>) (mm\<lparr>mc_lock := True\<rparr>)"
  shows "mm_busy mm1 {i}" "mc_vmaps mm1 i = Some (v\<lparr>vm_lock := True\<rparr>)" "j \<noteq> i \<Longrightarrow> mc_vmaps mm1 j = mc_vmaps mm j"
    "mapped mm1 = mapped mm" "mc_calls mm1 = mc_calls mm"
  using relock_ok [of "mm\<lparr>mc_lock := True\<rparr>" i v True] assms
  by (auto simp: mm_busy_def mm_idle_def only_locked_def split: if_splits)

section \<open>Steps of an address space\<close>

text \<open>What the kernel relies on when an object maps itself: the mapping stays where it is.\<close>

definition mmap_keeps_range :: "'d ios \<Rightarrow> bool" where
  "mmap_keeps_range h \<longleftrightarrow> (\<forall>i f g d v off d' v' ok. h i = Some f \<longrightarrow> op_mmap (io_ops f) = Some g \<longrightarrow> g d v off = (d', v', ok) \<longrightarrow>
     vm_vaddr v' = vm_vaddr v \<and> vm_npages v' = vm_npages v \<and> vm_lock v' = vm_lock v)"

text \<open>
  The requests that the code handles as intended.  A request for pages has at least one page and less than \<open>2 ^ 47\<close> bytes, so that
  no end of a candidate range wraps around, and an exact one ends below the kernel; the pages by which the heap is to grow are
  free.  The code checks none of this: see the lemmas \<open>mmap_unfit_not_idle\<close>, \<open>mmap_huge_wraps\<close> and \<open>grow_heap_iff\<close> for what happens
  otherwise.\<close>

definition request_fits :: "u32 \<Rightarrow> ptr_t \<Rightarrow> size_t \<Rightarrow> bool" where
  "request_fits flags hint n_pages \<longleftrightarrow> 0 < unat n_pages \<and> unat n_pages * 4096 < 2 ^ 47 \<and>
     (flags AND MMAP_EXACT \<noteq> 0 \<longrightarrow> unat hint + unat n_pages * 4096 \<le> KS)"

definition heap_growth :: "vmap \<Rightarrow> heap_control_op \<Rightarrow> ptr_t \<Rightarrow> size_t" where
  "heap_growth v op arg = (case op of
       HEAP_GROW_PAGES \<Rightarrow> arg
     | HEAP_SET_TOP \<Rightarrow> if vm_vaddr v \<le> arg \<and> arg mod MOS_PAGE_SIZE = 0 \<and> vmap_end v < arg then (arg - vm_vaddr v) div MOS_PAGE_SIZE else 0
     | _ \<Rightarrow> 0)"

definition heap_fits :: "mm_context \<Rightarrow> heap_control_op \<Rightarrow> ptr_t \<Rightarrow> bool" where
  "heap_fits mm op arg \<longleftrightarrow> (\<forall>i v. find_heap (mc_vmaps mm) (mc_mmaps mm) = Some (Some i) \<and> mc_vmaps mm i = Some v \<longrightarrow>
     free_at mm (unat (heap_growth v op arg) * 4096) (vstop v))"

text \<open>The calls that return, with fitting requests; unmapping and protecting may have any argument.\<close>

inductive mm_step :: "ptr_t \<Rightarrow> 'd ios \<times> mm_context \<Rightarrow> 'd ios \<times> mm_context \<Rightarrow> bool" for user_mmap where
  anonymous: "mc_vmaps mm new = None \<Longrightarrow> request_fits flags hint n_pages \<Longrightarrow>
    mmap_anonymous user_mmap mm hint flags vmflags n_pages new = Some (mm', a) \<Longrightarrow> mm_step user_mmap (h, mm) (h, mm')"
| from_file: "mc_vmaps mm new = None \<Longrightarrow> request_fits flags hint n_pages \<Longrightarrow> mmap_keeps_range h \<Longrightarrow>
    mmap_file user_mmap (h, mm) hint flags vmflags n_pages io offset new = Some (st', a) \<Longrightarrow> mm_step user_mmap (h, mm) st'"
| unmap: "mc_vmaps mm new1 = None \<Longrightarrow> mc_vmaps mm new2 = None \<Longrightarrow> new1 \<noteq> new2 \<Longrightarrow>
    munmap (h, mm) addr sz new1 new2 = Some (st', ok) \<Longrightarrow> mm_step user_mmap (h, mm) st'"
| protect: "mc_vmaps mm new1 = None \<Longrightarrow> mc_vmaps mm new2 = None \<Longrightarrow> new1 \<noteq> new2 \<Longrightarrow>
    vm_protect (h, mm) addr sz perm new1 new2 = Some (st', ok) \<Longrightarrow> mm_step user_mmap (h, mm) st'"
| heap: "heap_fits mm op arg \<Longrightarrow> heap_control mm op arg = Some (mm', a) \<Longrightarrow> mm_step user_mmap (h, mm) (h, mm')"

lemma verify_exact: "mmap_verify_arguments user_mmap hint flags = Some base \<Longrightarrow> flags AND MMAP_EXACT \<noteq> 0 \<Longrightarrow> base = hint"
  by (auto simp: mmap_verify_arguments_def split: if_splits)

lemma get_free_vaddr_below: "mm_get_free_vaddr_locked mm n base exact new = Some r \<Longrightarrow> base < MOS_KERNEL_START_VADDR"
  by (auto simp: mm_get_free_vaddr_locked_def Option.bind_eq_Some_conv)

lemma mmap_anonymous_idle:
  assumes "mm_idle mm" "mc_vmaps mm new = None" "unat user_mmap mod 4096 = 0" "0 < unat n_pages" "unat n_pages * 4096 < 2 ^ 47"
    "flags AND MMAP_EXACT \<noteq> 0 \<Longrightarrow> unat hint + unat n_pages * 4096 \<le> KS"
    "mmap_anonymous user_mmap mm hint flags vmflags n_pages new = Some (mm', a)"
  shows "mm_idle mm'"
proof (cases "mmap_verify_arguments user_mmap hint flags")
  case None
  then show ?thesis
    using assms(1,7) by (simp add: mmap_anonymous_def)
next
  case (Some base)
  then have "base < MOS_KERNEL_START_VADDR"
    using assms(7) by (auto simp: mmap_anonymous_def cow_allocate_zeroed_pages_def Option.bind_eq_Some_conv dest: get_free_vaddr_below)
  then show ?thesis
    using mmap_anonymous_ok [OF assms(1,2) Some assms(3) _ assms(4,5), of vmflags] assms(6,7) verify_exact [OF Some] by auto
qed

lemma io_mmap_keeps:
  assumes "io_mmap h i v off = Some (h', v', ok)" "mmap_keeps_range h"
  shows "vm_vaddr v' = vm_vaddr v" "vm_npages v' = vm_npages v" "vm_lock v' = vm_lock v"
proof -
  obtain f where f: "h i = Some f"
    using assms(1) by (auto simp: io_mmap_def split: bind_splits)
  have "v' = v \<or> (\<exists>g d d' ok. op_mmap (io_ops f) = Some g \<and> g d (v\<lparr>vm_io := Some i, vm_io_offset := off\<rparr>) off = (d', v', ok))"
  proof (cases "io_mmap_perm_check f (vm_vmflags v) (vm_type v = VMAP_TYPE_PRIVATE)")
    case True
    then obtain g where g: "op_mmap (io_ops f) = Some g"
      using assms(1) f by (auto simp: io_mmap_def Let_def split: bind_splits)
    obtain d' v2 ok2 where "g (io_dev f) (v\<lparr>vm_io := Some i, vm_io_offset := off\<rparr>) off = (d', v2, ok2)"
      using prod_cases3 by blast
    then show ?thesis
      using assms(1) f g True by (auto simp: io_mmap_def Let_def Option.bind_eq_Some_conv split: if_splits)
  qed (use assms(1) f in \<open>auto simp: io_mmap_def\<close>)
  then have "vm_vaddr v' = vm_vaddr v \<and> vm_npages v' = vm_npages v \<and> vm_lock v' = vm_lock v"
    using assms(2) f unfolding mmap_keeps_range_def by fastforce
  then show "vm_vaddr v' = vm_vaddr v" "vm_npages v' = vm_npages v" "vm_lock v' = vm_lock v"
    by simp_all
qed

lemma mmap_file_idle:
  assumes "mm_idle mm" "mc_vmaps mm new = None" "unat user_mmap mod 4096 = 0" "0 < unat n_pages" "unat n_pages * 4096 < 2 ^ 47"
    "flags AND MMAP_EXACT \<noteq> 0 \<Longrightarrow> unat hint + unat n_pages * 4096 \<le> KS" "mmap_keeps_range h"
    "mmap_file user_mmap (h, mm) hint flags vmflags n_pages io offset new = Some ((h', mm'), a)"
  shows "mm_idle mm'"
proof (cases "mmap_verify_arguments user_mmap hint flags = None \<or> sint offset mod 4096 \<noteq> 0")
  case True
  then show ?thesis
    using assms(1,8) by (auto simp: mmap_file_def split: option.splits)
next
  case False
  then obtain base where base: "mmap_verify_arguments user_mmap hint flags = Some base" and off: "sint offset mod 4096 = 0"
    by auto
  let ?mm = "mm\<lparr>mc_lock := True\<rparr>" and ?ex = "flags AND MMAP_EXACT \<noteq> 0"
  have idle: "mm_wf ?mm" "mc_lock ?mm" "mc_vmaps ?mm new = None" "mm_acquire mm = Some ?mm"
    using assms(1,2) by (simp_all add: mm_idle_def mm_acquire_def)
  have lt: "base < MOS_KERNEL_START_VADDR"
    using assms(8) base off by (auto simp: mmap_file_def Option.bind_eq_Some_conv dest: get_free_vaddr_below)
  have ex: "?ex \<longrightarrow> unat base + unat n_pages * 4096 \<le> KS"
    using assms(6) verify_exact [OF base] by auto
  from get_free_vaddr_ok [OF idle(1-3) verify_aligned [OF base assms(3)] assms(4,5) lt ex] show ?thesis
  proof (elim disjE exE conjE)
    assume "mm_get_free_vaddr_locked ?mm n_pages base ?ex new = Some (?mm, False)"
    then show ?thesis
      using assms(1,8) base off idle(4) by (auto simp: mmap_file_def mm_idle_def mm_release_def)
  next
    fix g mm1
    assume m: "mm_get_free_vaddr_locked ?mm n_pages base ?ex new = Some (mm1, True)" "mm_wf mm1"
      "mc_vmaps mm1 = (mc_vmaps ?mm)(new \<mapsto> fresh_vmap g n_pages)"
    let ?v = "(fresh_vmap g n_pages)\<lparr>vm_vmflags := vmflags, vm_type := mmap_type flags\<rparr>"
    obtain v' where io: "io_mmap h io ?v offset = Some (h', v', True)"
      and fin: "vmap_finalise_init (set_vmap new v' (mm1\<lparr>mc_lock := False\<rparr>)) new VMAP_FILE (mmap_type flags) = Some mm'"
      using assms(8) base off idle(4) m(1,3)
      by (auto simp: mmap_file_def Let_def vmap_destroy_def mm_release_def Option.bind_eq_Some_conv split: if_splits)
    let ?w = "v'\<lparr>vm_content := VMAP_FILE, vm_type := mmap_type flags, vm_lock := False\<rparr>" and ?mm1 = "mm1\<lparr>mc_lock := False\<rparr>"
    have mm': "mm' = set_vmap new ?w ?mm1"
      using fin by (auto simp: vmap_finalise_init_def set_vmap_def Option.bind_eq_Some_conv)
    have "mm_wf (set_vmap new ?w ?mm1)"
      using relabel_ok(1) [of ?mm1 new "fresh_vmap g n_pages" ?w] m(2,3) io_mmap_keeps [OF io assms(7)] by auto
    then show ?thesis
      using mm' m(3) assms(1) by (auto simp: mm_idle_def split: if_splits)
  qed
qed

subsection \<open>The heap\<close>

lemma grown_regions:
  assumes "vmap_wf v" "unat (vm_npages v) + unat n < 2 ^ 64"
  defines "v' \<equiv> v\<lparr>vm_npages := vm_npages v + n, vm_lock := False\<rparr>"
  shows "vstart v' = vstart v" "vstop v' = vstop v + unat n * 4096" "region v' = region v \<union> {vstop v..<vstop v + unat n * 4096}"
proof -
  show "vstart v' = vstart v"
    by (simp add: v'_def vstart_def)
  have "unat (vm_npages v + n) = unat (vm_npages v) + unat n"
    using assms(2) unat_add_fits [of "vm_npages v" n] by simp
  then show stop: "vstop v' = vstop v + unat n * 4096"
    by (simp add: v'_def vstart_def vstop_def distrib_right)
  show "region v' = region v \<union> {vstop v..<vstop v + unat n * 4096}"
    using vmap_wf_less [OF assms(1)] stop by (auto simp: region_def v'_def vstart_def)
qed

text \<open>Extending a mapping into free pages.\<close>

lemma extend_ok:
  assumes "mm_wf mm" "mc_vmaps mm i = Some v" "vstart v' = vstart v" "vmap_wf v'" "{vstop v..<vstop v'} \<inter> mapped mm = {}"
  shows "mm_wf (set_vmap i v' mm)"
proof -
  have far: "vstop v' \<le> vstart w" if w: "mc_vmaps mm j = Some w" "vstop v \<le> vstart w" for j w
  proof (rule ccontr)
    assume "\<not> ?thesis"
    then have "vstart w \<in> {vstop v..<vstop v'}" "vstart w \<in> region w"
      using w(2) vmap_wf_less [OF mm_wf_vmap [OF assms(1) w(1)]] by (auto simp: region_def)
    then show False
      using assms(5) w(1) mapped_iff by blast
  qed
  have "sorted_wrt (vmap_before ((mc_vmaps mm)(i \<mapsto> v'))) (mc_mmaps mm)"
  proof (rule sorted_wrt_mono_rel [of _ "vmap_before (mc_vmaps mm)"])
    fix a b
    assume ab: "a \<in> set (mc_mmaps mm)" "b \<in> set (mc_mmaps mm)" "vmap_before (mc_vmaps mm) a b"
    then obtain w where w: "mc_vmaps mm b = Some w"
      using mm_wf_listed [OF assms(1)] by blast
    have "a = i \<Longrightarrow> b \<noteq> i"
      using ab(3) assms(2) vmap_wf_less [OF mm_wf_vmap [OF assms(1,2)]] by (auto simp: vmap_before_def)
    then show "vmap_before ((mc_vmaps mm)(i \<mapsto> v')) a b"
      using ab(3) assms(2,3) w far [OF w] by (auto simp: vmap_before_def)
  qed (use assms(1) in \<open>simp add: mm_wf_def\<close>)
  then show ?thesis
    using assms(1,2,4) by (auto simp: mm_wf_def set_vmap_def)
qed

lemma find_heap_listed: "find_heap vs ms = Some (Some i) \<Longrightarrow> \<exists>v. vs i = Some v"
  by (induction ms) (auto simp: Option.bind_eq_Some_conv split: if_splits)

lemma grow_heap_runs:
  assumes "mm_idle mm" "find_heap (mc_vmaps mm) (mc_mmaps mm) = Some (Some i)" "mc_vmaps mm i = Some v"
  shows "process_grow_heap mm n =
    Some (set_vmap i (v\<lparr>vm_npages := vm_npages v + n, vm_lock := False\<rparr>) mm, vmap_end v + n * MOS_PAGE_SIZE)"
  using assms by (simp add: process_grow_heap_def acquire_vmap_def mm_idle_def vmap_end_def set_vmap_def)

text \<open>
  The heap grows whatever lies behind it: the address space stays well formed if, and as long as the number of pages does not wrap
  around only if, the pages behind the heap are free.\<close>

lemma grow_heap_iff:
  assumes "mm_idle mm" "find_heap (mc_vmaps mm) (mc_mmaps mm) = Some (Some i)" "mc_vmaps mm i = Some v"
    "unat (vm_npages v) + unat n < 2 ^ 64"
  shows "\<exists>mm' top. process_grow_heap mm n = Some (mm', top) \<and> (mm_idle mm' \<longleftrightarrow> free_at mm (unat n * 4096) (vstop v))"
proof -
  let ?v = "v\<lparr>vm_npages := vm_npages v + n, vm_lock := False\<rparr>"
  have wf: "mm_wf mm" "vmap_wf v"
    using assms(1,3) mm_wf_vmap by (auto simp: mm_idle_def)
  note R = grown_regions [OF wf(2) assms(4)]
  have idle: "mm_idle (set_vmap i ?v mm) \<longleftrightarrow> mm_wf (set_vmap i ?v mm)"
    using assms(1) by (auto simp: mm_idle_def)
  have "mm_wf (set_vmap i ?v mm) \<longleftrightarrow> free_at mm (unat n * 4096) (vstop v)"
  proof
    assume ok: "mm_wf (set_vmap i ?v mm)"
    have "{vstop v..<vstop v + unat n * 4096} \<inter> region w = {}" if w: "mc_vmaps mm j = Some w" for j w
    proof (cases "j = i")
      case True
      then show ?thesis
        using w assms(3) by (auto simp: region_def)
    next
      case False
      then show ?thesis
        using mm_wf_disjoint [OF ok, of i ?v j w] w R(3) by auto
    qed
    then have "{vstop v..<vstop v + unat n * 4096} \<inter> mapped mm = {}"
      unfolding disjoint_iff mapped_iff by blast
    moreover have "vstop ?v \<le> KS"
      using mm_wf_vmap [OF ok, of i ?v] by (simp add: vmap_wf_def)
    ultimately show "free_at mm (unat n * 4096) (vstop v)"
      using R(2) by (simp add: free_at_def)
  next
    assume "free_at mm (unat n * 4096) (vstop v)"
    moreover from this have "vmap_wf ?v"
      using wf(2) R(1,2) assms(4) unat_add_fits [of "vm_npages v" n] by (simp add: vmap_wf_def free_at_def)
    ultimately show "mm_wf (set_vmap i ?v mm)"
      using extend_ok [OF wf(1) assms(3) R(1)] R(2) by (simp add: free_at_def)
  qed
  then show ?thesis
    using grow_heap_runs [OF assms(1-3)] idle by auto
qed

lemma heap_control_idle:
  assumes "mm_idle mm" "heap_fits mm op arg" "heap_control mm op arg = Some (mm', a)"
  shows "mm_idle mm'"
proof (cases "mm' = mm")
  case False
  obtain i where i: "find_heap (mc_vmaps mm) (mc_mmaps mm) = Some (Some i)"
    using assms(3) False by (auto simp: heap_control_def Option.bind_eq_Some_conv split: option.splits)
  then obtain v where v: "mc_vmaps mm i = Some v"
    using find_heap_listed by blast
  have run: "process_grow_heap mm (heap_growth v op arg) = Some (mm', a)"
    using assms(3) False i v
    by (auto simp: heap_control_def heap_growth_def not_less not_le split: heap_control_op.splits if_splits)
  have free: "free_at mm (unat (heap_growth v op arg) * 4096) (vstop v)"
    using assms(2) i v by (simp add: heap_fits_def)
  then have "unat (vm_npages v) + unat (heap_growth v op arg) < 2 ^ 64"
    using KS_less by (simp add: free_at_def vstop_def)
  then show ?thesis
    using grow_heap_iff [OF assms(1) i v, of "heap_growth v op arg"] run free by simp
qed (use assms(1) in simp)

subsection \<open>Requests that do not fit\<close>

text \<open>A call that maps no page, or pages that do not end below the kernel, breaks the address space.\<close>

lemma mmap_unfit_not_idle:
  assumes "mmap_anonymous user_mmap mm hint flags vmflags n_pages new = Some (mm', a)" "mmap_verify_arguments user_mmap hint flags = Some base"
    "n_pages = 0 \<or> KS < unat a + unat n_pages * 4096"
  shows "\<not> mm_idle mm'"
proof
  assume idle: "mm_idle mm'"
  obtain mm1 v where m: "mm_get_free_vaddr_locked (mm\<lparr>mc_lock := True\<rparr>) n_pages base (flags AND MMAP_EXACT \<noteq> 0) new = Some (mm1, True)"
      "mc_vmaps mm1 new = Some v" "mm' = set_vmap new (v\<lparr>vm_vmflags := vmflags, vm_on_fault := True, vm_content := VMAP_MMAP,
        vm_type := mmap_type flags, vm_lock := False\<rparr>) (mm1\<lparr>mc_lock := False\<rparr>)" "a = vm_vaddr v"
    using assms(1,2)
    by (auto simp: mmap_anonymous_def cow_allocate_zeroed_pages_def mm_acquire_def mm_release_def vmap_finalise_init_def set_vmap_def
        Option.bind_eq_Some_conv split: if_splits)
  obtain g where "vmap_create (mm\<lparr>mc_lock := True\<rparr>) new g n_pages = Some mm1"
    using m(1) by (auto simp: mm_get_free_vaddr_locked_def Option.bind_eq_Some_conv split: if_splits option.splits)
  then have "vm_npages v = n_pages"
    using m(2) by (auto simp: vmap_create_def do_attach_vmap_def fresh_vmap_def set_vmap_def Option.bind_eq_Some_conv)
  with m(3,4) have "\<exists>v. mc_vmaps mm' new = Some v \<and> vm_npages v = n_pages \<and> vm_vaddr v = a"
    by simp
  then show False
    using idle assms(3) mm_wf_vmap [of mm' new] by (auto simp: mm_idle_def vmap_wf_def vstop_def vstart_def)
qed

text \<open>
  The size of a request may wrap around: one for \<open>2 ^ 52 - 1\<close> pages adds \<open>-4096\<close> to every candidate address, so the search takes the first
  address that is not mapped, and the new mapping reaches through the kernel around the end of the address space.\<close>

lemma find_gap_wraps:
  assumes "\<forall>m \<in> set ms. \<exists>v. vs m = Some v \<and> vmap_wf v \<and> unat a \<notin> region v" "4096 \<le> unat a" "unat a < KS"
  shows "find_gap vs 0xFFFFFFFFFFFFF a ms = Some (Some a)"
proof -
  have n: "a + 0xFFFFFFFFFFFFF * MOS_PAGE_SIZE = a - 4096"
    by (simp add: MOS_PAGE_SIZE_def)
  have a: "unat (a - 4096) = unat a - 4096" "\<not> a - 4096 > MOS_KERNEL_START_VADDR"
    using assms(2,3) by (simp_all add: unat_sub word_le_nat_alt word_less_nat_alt KS_def)
  show ?thesis
    using assms(1)
  proof (induction ms)
    case (Cons m ms)
    then obtain v where v: "vs m = Some v" "vmap_wf v" "unat a \<notin> region v"
      by auto
    have "\<not> overlaps v a (a - 4096)"
      using v(3) vmap_end_nat [OF v(2)] a(1) by (auto simp: overlaps_def region_def vstart_def word_less_nat_alt)
    then show ?case
      using v(1) Cons a(2) n by (simp add: Let_def)
  qed (use a n in \<open>simp add: not_less\<close>)
qed

lemma mmap_huge_wraps:
  assumes "mm_idle mm" "mc_vmaps mm new = None" "mmap_verify_arguments user_mmap hint flags = Some base" "flags AND MMAP_EXACT = 0"
    "4096 \<le> unat base" "base < MOS_KERNEL_START_VADDR" "unat base \<notin> mapped mm"
  shows "\<exists>mm'. mmap_anonymous user_mmap mm hint flags vmflags 0xFFFFFFFFFFFFF new = Some (mm', base) \<and> \<not> mm_idle mm'"
proof -
  let ?n = "0xFFFFFFFFFFFFF :: size_t" and ?mm = "mm\<lparr>mc_lock := True\<rparr>"
  have wf: "mm_wf ?mm" "mm_acquire mm = Some ?mm"
    using assms(1) by (simp_all add: mm_idle_def mm_acquire_def)
  have "\<forall>m \<in> set (mc_mmaps mm). \<exists>v. mc_vmaps mm m = Some v \<and> vmap_wf v \<and> unat base \<notin> region v"
    using mm_wf_listed [OF wf(1)] assms(7) mapped_iff [of "unat base" mm] by fastforce
  then have gap: "find_gap (mc_vmaps mm) ?n base (mc_mmaps mm) = Some (Some base)"
    by (rule find_gap_wraps) (use assms(5,6) in \<open>simp_all add: word_less_nat_alt KS_def\<close>)
  have new: "new \<notin> set (mc_mmaps mm)" "set (mc_mmaps mm) \<subseteq> dom ((mc_vmaps mm)(new \<mapsto> fresh_vmap base ?n))"
    using wf(1) assms(2) by (auto simp: mm_wf_def)
  then obtain ms where "attach_sorted ((mc_vmaps mm)(new \<mapsto> fresh_vmap base ?n)) base new (mc_mmaps mm) = Some ms"
    using attach_sorted_runs by blast
  then obtain mm' where mm': "mmap_anonymous user_mmap mm hint flags vmflags ?n new = Some (mm', base)"
    using assms(3,4,6) wf(2) gap new(1)
    by (simp add: mmap_anonymous_def cow_allocate_zeroed_pages_def mm_get_free_vaddr_locked_def
        vmap_create_def do_attach_vmap_def vmap_finalise_init_def mm_release_def set_vmap_def fresh_vmap_def)
  moreover have "KS < unat base + unat ?n * 4096"
    using assms(5) by (simp add: KS_def MOS_KERNEL_START_VADDR_def)
  ultimately show ?thesis
    using mmap_unfit_not_idle [OF mm' assms(3)] by blast
qed

text \<open>An address space with one mapping of four pages, used to apply the theorems below.\<close>

definition sample_vmap :: vmap where
  "sample_vmap = (fresh_vmap 0x100000 4)\<lparr>vm_lock := False, vm_vmflags := VM_READ, vm_content := VMAP_MMAP, vm_type := VMAP_TYPE_PRIVATE\<rparr>"

definition sample_mm :: mm_context where
  "sample_mm = \<lparr>mc_lock = False, mc_mmaps = [0], mc_vmaps = [0 \<mapsto> sample_vmap], mc_calls = []\<rparr>"

definition sample_file :: "unit io" where
  "sample_file = \<lparr>io_closed = False, io_refcount = 1, io_flags = IO_READABLE OR IO_MMAPABLE, io_type = IO_FILE,
     io_ops = \<lparr>op_read = None, op_write = None, op_close = None, op_seek = None, op_mmap = None, op_munmap = None\<rparr>, io_dev = ()\<rparr>"

lemma sample_sel [simp]:
  "mc_vmaps sample_mm 0 = Some sample_vmap" "i \<noteq> 0 \<Longrightarrow> mc_vmaps sample_mm i = None" "vm_io sample_vmap = None"
  "vstart sample_vmap = 0x100000" "vstop sample_vmap = 0x104000" "region sample_vmap = {0x100000..<0x104000}"
  by (simp_all add: sample_mm_def sample_vmap_def fresh_vmap_def vstart_def vstop_def region_def)

lemma mapped_sample: "mapped sample_mm = {0x100000..<0x104000}"
  by (auto simp: mapped_def sample_mm_def ran_def)

lemma sample_idle: "mm_idle sample_mm"
  by (simp add: mm_idle_def mm_wf_def sample_mm_def vmap_wf_def)
     (simp add: sample_vmap_def fresh_vmap_def KS_def MOS_KERNEL_START_VADDR_def)

section \<open>The memory calls\<close>

text \<open>
  C7: the pages of a range inside an anonymous mapping, if the range does not start where the mapping starts or is all of it,
  are unmapped by \<^const>\<open>munmap\<close>: those addresses and no others are gone, the page tables are told to drop exactly those pages,
  and every lock is released.  When the range is all of the mapping, the code also writes to the lock of the mapping it has just
  freed, which is taken to have no effect.\<close>
theorem munmap_removes_range:
  fixes h :: "'d ios"
  assumes "mm_idle mm" "mc_vmaps mm i = Some v" "vm_io v = None" "unat addr \<in> region v" "0 < unat sz" "page_ceil addr sz \<le> vstop v"
    "vstart v < page_floor addr \<or> page_ceil addr sz = vstop v"
    "mc_vmaps mm new1 = None" "mc_vmaps mm new2 = None" "new1 \<noteq> new2"
  shows "\<exists>mm' a n. munmap (h, mm) addr sz new1 new2 = Some ((h, mm'), True) \<and> mm_idle mm' \<and>
     mapped mm' = mapped mm - {page_floor addr..<page_ceil addr sz} \<and>
     mc_calls mm' = mc_calls mm @ [PT_Unmap a n] \<and> unat a = page_floor addr \<and> unat n * 4096 = page_ceil addr sz - page_floor addr"
proof -
  let ?v = "v\<lparr>vm_lock := True\<rparr>"
  note I = idle_obtained [OF assms(1,2)]
  have wf: "vmap_wf v"
    using assms(1,2) mm_wf_vmap by (auto simp: mm_idle_def)
  define rs re where "rs = (ALIGN_DOWN_TO_PAGE addr - vm_vaddr v) div MOS_PAGE_SIZE"
    and "re = (ALIGN_UP_TO_PAGE (addr + sz) - vm_vaddr v) div MOS_PAGE_SIZE"
  note R = range_offsets [OF wf assms(4-6) rs_def re_def]
  have new: "new1 \<noteq> i" "new2 \<noteq> i"
    using assms(2,8,9) by auto
  have "0 < unat rs \<or> re = vm_npages ?v"
    using assms(7)
  proof
    assume "page_ceil addr sz = vstop v"
    then have "unat re * 4096 = unat (vm_npages v) * 4096"
      using R(2) by (simp add: vstop_def)
    then show ?thesis by (simp add: word_unat_eq_iff)
  qed (use R(1) in linarith)
  with split_for_range_runs [OF I(1,2), of new1 new2 rs re h] obtain mm2 r w where s:
    "vmap_split_for_range (h, set_vmap i ?v (mm\<lparr>mc_lock := True\<rparr>)) i rs re new1 new2 = Some ((h, mm2), r)" "mm_busy mm2 {i, r}"
    "mapped mm2 = mapped mm" "mc_calls mm2 = mc_calls mm" "mc_vmaps mm2 r = Some w" "vm_lock w" "vm_io w = None"
    "vm_vaddr w = vm_vaddr v + rs * MOS_PAGE_SIZE" "vm_npages w = re - rs"
    using assms(3,8-10) new I(3-5) R(5,6) by auto
  have "unat (vm_vaddr v) + unat rs * 4096 < 2 ^ 64"
    using R(1,3,4) assms(6) wf KS_less by (simp add: vstart_def vmap_wf_def)
  then have w1: "unat (vm_vaddr w) = page_floor addr"
    using s(8) R(1,3) by (simp add: unat_add_pages vstart_def)
  have w2: "unat (vm_npages w) * 4096 = page_ceil addr sz - page_floor addr"
    using s(9) R by (simp add: unat_sub word_le_nat_alt diff_mult_distrib)
  have "region w = {page_floor addr..<page_ceil addr sz}"
    using w1 w2 R(4) by (simp add: region_def vstop_def vstart_def)
  then show ?thesis
    using munmap_runs [OF assms(1,2,4) s(1) [unfolded rs_def re_def] s(2,5-7)] s(3,4) w1 w2 by metis
qed

theorem munmap_removes_range_witness:
  "\<exists>mm'. munmap (Map.empty :: unit ios, sample_mm) 0x101800 0x1000 1 2 = Some ((Map.empty, mm'), True) \<and>
     mapped mm' = {0x100000..<0x101000} \<union> {0x103000..<0x104000}"
  using munmap_removes_range [of sample_mm 0 sample_vmap "0x101800" "0x1000" 1 2 "Map.empty :: unit ios"] sample_idle mapped_sample
  by (force simp: page_floor_def page_ceil_def)

text \<open>
  C34: a proper prefix of a mapping is not unmapped: \<^const>\<open>munmap\<close> reports success, drops the rest of the mapping and
  leaves the pages that were named mapped.\<close>
theorem munmap_prefix_drops_rest:
  fixes h :: "'d ios"
  assumes "mm_idle mm" "mc_vmaps mm i = Some v" "vm_io v = None" "unat addr \<in> region v" "0 < unat sz" "page_floor addr = vstart v"
    "page_ceil addr sz < vstop v" "mc_vmaps mm new1 = None"
  shows "\<exists>mm'. munmap (h, mm) addr sz new1 new2 = Some ((h, mm'), True) \<and> mapped mm' = mapped mm - {page_ceil addr sz..<vstop v} \<and>
     {page_floor addr..<page_ceil addr sz} \<subseteq> mapped mm'"
proof -
  let ?v = "v\<lparr>vm_lock := True\<rparr>"
  note I = idle_obtained [OF assms(1,2)]
  have wf: "vmap_wf v"
    using assms(1,2) mm_wf_vmap by (auto simp: mm_idle_def)
  define rs re where "rs = (ALIGN_DOWN_TO_PAGE addr - vm_vaddr v) div MOS_PAGE_SIZE"
    and "re = (ALIGN_UP_TO_PAGE (addr + sz) - vm_vaddr v) div MOS_PAGE_SIZE"
  note R = range_offsets [OF wf assms(4,5) less_imp_le [OF assms(7)] rs_def re_def]
  have re: "0 < unat re" "unat re < unat (vm_npages ?v)" "rs = 0"
    using R assms(6,7) by (auto simp: vstop_def unat_eq_zero)
  have "vm_lock ?v" "vm_io ?v = None" "mc_vmaps (set_vmap i ?v (mm\<lparr>mc_lock := True\<rparr>)) new1 = None"
    using assms(2,3,8) I(3) by auto
  from split_runs [OF I(1,2) this re(1,2), of h] obtain mm2 where s:
    "vmap_split (h, set_vmap i ?v (mm\<lparr>mc_lock := True\<rparr>)) i re new1 = Some (h, mm2)" "mm_busy mm2 {new1, i}"
    "mapped mm2 = mapped mm" "mc_vmaps mm2 new1 = Some (second_part ?v re)"
    using I(4) by (metis fun_upd_same)
  have "vmap_split_for_range (h, set_vmap i ?v (mm\<lparr>mc_lock := True\<rparr>)) i rs re new1 new2 = Some ((h, mm2), new1)"
    using s(1) I(2) re by (auto simp: vmap_split_for_range_def)
  note sr = this [unfolded rs_def re_def]
  have "mm_busy mm2 {i, new1}" "vm_lock (second_part ?v re)" "vm_io (second_part ?v re) = None"
    using s(2) assms(3) by (simp_all add: insert_commute)
  from munmap_runs [OF assms(1,2,4) sr this(1) s(4) this(2,3)] obtain mm' where m:
    "munmap (h, mm) addr sz new1 new2 = Some ((h, mm'), True)" "mapped mm' = mapped mm2 - region (second_part ?v re)"
    by metis
  have wfl: "vmap_wf ?v"
    using wf by simp
  have sp: "re \<noteq> 0" "re < vm_npages ?v"
    using re by (auto simp: word_less_nat_alt)
  have reg: "region (second_part ?v re) = {page_ceil addr sz..<vstop v}"
    using split_regions(3,4) [OF wfl sp refl refl] R(2,3,4) by (simp add: region_def)
  have "{page_floor addr..<page_ceil addr sz} \<subseteq> region v"
    using assms(6,7) by (auto simp: region_def)
  moreover have "region v \<subseteq> mapped mm"
    using assms(2) mapped_iff by blast
  ultimately have "{page_floor addr..<page_ceil addr sz} \<subseteq> mapped mm'"
    using m(2) s(3) reg by auto
  then show ?thesis
    using m s(3) reg by auto
qed

theorem munmap_prefix_drops_rest_witness:
  "\<exists>mm'. munmap (Map.empty :: unit ios, sample_mm) 0x100000 0x1000 1 2 = Some ((Map.empty, mm'), True) \<and>
     mapped mm' = {0x100000..<0x101000}"
  using munmap_prefix_drops_rest [of sample_mm 0 sample_vmap "0x100000" "0x1000" 1 "Map.empty :: unit ios" 2] sample_idle mapped_sample
  by (force simp: page_floor_def page_ceil_def)

text \<open>
  C6: a call of \<^const>\<open>mmap_anonymous\<close> without \<^verbatim>\<open>MMAP_EXACT\<close>, for at least one page and less than \<open>2 ^ 47\<close> bytes and with a hint below
  the kernel, takes the first address from the hint upwards where the pages are free and lie below the kernel, and maps exactly
  these pages; if there is no such address the kernel does not refuse the call but stops at a null pointer.  Larger requests may
  wrap around in the comparisons of the search, which then maps pages that are not free (lemma \<open>mmap_huge_wraps\<close>).\<close>
theorem mmap_anonymous_first_fit:
  assumes "mm_idle mm" "mc_vmaps mm new = None" "mmap_verify_arguments user_mmap hint flags = Some base" "flags AND MMAP_EXACT = 0"
    "unat user_mmap mod 4096 = 0" "base < MOS_KERNEL_START_VADDR" "0 < unat n_pages" "unat n_pages * 4096 < 2 ^ 47"
  shows "case mmap_anonymous user_mmap mm hint flags vmflags n_pages new of
      None \<Rightarrow> \<forall>b \<ge> unat base. \<not> free_at mm (unat n_pages * 4096) b
    | Some (mm', a) \<Rightarrow> free_at mm (unat n_pages * 4096) (unat a) \<and> base \<le> a \<and>
        (\<forall>b. unat base \<le> b \<and> b < unat a \<longrightarrow> \<not> free_at mm (unat n_pages * 4096) b) \<and>
        mm_idle mm' \<and> mapped mm' = mapped mm \<union> {unat a..<unat a + unat n_pages * 4096}"
proof -
  have none: "\<forall>b \<ge> unat base. \<not> free_at mm (unat n_pages * 4096) b"
    if "\<nexists>a. chosen mm False base (unat n_pages * 4096) a"
  proof (rule ccontr)
    assume "\<not> ?thesis"
    then have ex: "\<exists>b. unat base \<le> b \<and> free_at mm (unat n_pages * 4096) b" by auto
    define b where "b = (LEAST b. unat base \<le> b \<and> free_at mm (unat n_pages * 4096) b)"
    have b: "unat base \<le> b" "free_at mm (unat n_pages * 4096) b"
      using LeastI_ex [OF ex] unfolding b_def by blast+
    have min: "\<not> free_at mm (unat n_pages * 4096) c" if "unat base \<le> c" "c < b" for c
      using that not_less_Least [of c "\<lambda>b. unat base \<le> b \<and> free_at mm (unat n_pages * 4096) b"] unfolding b_def by blast
    have "b < 2 ^ 64"
      using b(2) KS_less by (simp add: free_at_def)
    then have "unat (of_nat b :: ptr_t) = b"
      by (simp add: unat_of_nat)
    then have "chosen mm False base (unat n_pages * 4096) (of_nat b)"
      using b min by (simp add: chosen_def word_le_nat_alt)
    then show False
      using that by blast
  qed
  note ok = mmap_anonymous_ok [OF assms(1-3,5-8), of vmflags]
  show ?thesis
  proof (cases "mmap_anonymous user_mmap mm hint flags vmflags n_pages new")
    case None
    then show ?thesis
      using ok none assms(4) by simp
  next
    case (Some r)
    then show ?thesis
      using ok assms(4) by (cases r) (simp add: chosen_def)
  qed
qed

theorem mmap_anonymous_first_fit_witness:
  "case mmap_anonymous 0x1000000 sample_mm 0xFF000 MMAP_PRIVATE VM_READ 2 1 of
      None \<Rightarrow> \<forall>b \<ge> 0xFF000. \<not> free_at sample_mm 8192 b
    | Some (mm', a) \<Rightarrow> free_at sample_mm 8192 (unat a) \<and> mapped mm' = {0x100000..<0x104000} \<union> {unat a..<unat a + 8192}"
  using mmap_anonymous_first_fit [of sample_mm 1 "0x1000000" "0xFF000" MMAP_PRIVATE "0xFF000" 2 VM_READ] sample_idle mapped_sample
  by (auto simp: mmap_verify_arguments_def MMAP_PRIVATE_def MMAP_SHARED_def MMAP_EXACT_def MOS_PAGE_SIZE_def
      MOS_KERNEL_START_VADDR_def split: option.splits)

text \<open>
  C35: a file that may not be mapped as asked, such as a shared writable mapping of a file opened for reading, makes
  \<^const>\<open>mmap_file\<close> stop the kernel: the mapping is taken back without the lock that taking it back asserts.\<close>
theorem mmap_file_refused_panics:
  fixes h :: "'d ios"
  assumes "mm_idle mm" "mc_vmaps mm new = None" "mmap_verify_arguments user_mmap hint flags = Some base" "flags AND MMAP_EXACT = 0"
    "unat user_mmap mod 4096 = 0" "base < MOS_KERNEL_START_VADDR" "0 < unat n_pages" "unat n_pages * 4096 < 2 ^ 47"
    "sint offset mod 4096 = 0" "h io = Some f" "\<not> io_mmap_perm_check f vmflags (mmap_type flags = VMAP_TYPE_PRIVATE)"
    "base \<le> a" "free_at mm (unat n_pages * 4096) (unat a)"
  shows "mmap_file user_mmap (h, mm) hint flags vmflags n_pages io offset new = None"
proof -
  let ?mm = "mm\<lparr>mc_lock := True\<rparr>"
  have idle: "mm_wf ?mm" "mc_lock ?mm" "mc_vmaps ?mm new = None" "mm_acquire mm = Some ?mm"
    using assms(1,2) by (simp_all add: mm_idle_def mm_acquire_def)
  from get_free_vaddr_search [OF idle(1,2) assms(7,8,6)] obtain r where r:
    "first_fit (mc_vmaps ?mm) (mc_mmaps ?mm) (unat n_pages * 4096) base r"
    "mm_get_free_vaddr_locked ?mm n_pages base False new =
       (case r of None \<Rightarrow> Some (?mm, False) | Some g \<Rightarrow> do { mm \<leftarrow> vmap_create ?mm new g n_pages; Some (mm, True) })"
    by metis
  obtain g where g: "r = Some g"
    using r(1) fits_free_at [OF idle(1)] assms(12,13) by (cases r) (auto simp: first_fit_def word_le_nat_alt)
  have "free_at ?mm (unat n_pages * 4096) (unat g)" "unat g mod 4096 = 0"
    using r(1) g fits_free_at [OF idle(1)] verify_aligned [OF assms(3,5)] by (auto simp: first_fit_def)
  from vmap_create_ok [OF idle(1,3,2) assms(7) this] obtain mm1 where
    "vmap_create ?mm new g n_pages = Some mm1" "mc_vmaps mm1 = (mc_vmaps ?mm)(new \<mapsto> fresh_vmap g n_pages)"
    by metis
  then show ?thesis
    using r(2) g idle(4) assms(3,4,9-11)
    by (simp add: mmap_file_def io_mmap_def vmap_destroy_def mm_release_def fresh_vmap_def)
qed

theorem mmap_file_refused_panics_witness:
  "mmap_file 0x1000000 ([7 \<mapsto> sample_file], sample_mm) 0 MMAP_SHARED (VM_READ OR VM_WRITE) 2 7 0 1 = None"
  by (rule mmap_file_refused_panics [where base = "0x1000000" and a = "0x1000000" and io = 7 and f = sample_file])
     (simp_all add: sample_idle mapped_sample mmap_verify_arguments_def MMAP_PRIVATE_def MMAP_SHARED_def MMAP_EXACT_def MOS_PAGE_SIZE_def
      MOS_KERNEL_START_VADDR_def io_mmap_perm_check_def sample_file_def IO_READABLE_def IO_MMAPABLE_def IO_WRITABLE_def VM_READ_def
      VM_WRITE_def mmap_type_def free_at_def KS_def)

text \<open>
  C5: between calls an address space is well formed, as long as the requests of its process fit: the mappings are listed once and in
  order, start at pages, are not empty, do not overlap, end below the kernel, and no lock is left held.  The calls are
  \<^const>\<open>mmap_anonymous\<close> and \<^const>\<open>mmap_file\<close> for at least one page and less than \<open>2 ^ 47\<close> bytes, with an end below the kernel if
  the address is exact, \<^const>\<open>munmap\<close> and \<^const>\<open>vm_protect\<close> with any argument, and \<^const>\<open>heap_control\<close> that grows the heap by free pages
  or not at all; calls that panic do not count.  The code does not refuse the other requests, and they break the address space:
  growing the heap over another mapping, mapping no page or pages that reach the kernel, and sizes that wrap around (lemmas
  \<open>grow_heap_iff\<close>, \<open>mmap_unfit_not_idle\<close> and \<open>mmap_huge_wraps\<close>).\<close>
theorem address_space_wf:
  fixes h :: "'d ios"
  assumes "(mm_step user_mmap)\<^sup>*\<^sup>* (h, mm) (h', mm')" "mm_idle mm" "unat user_mmap mod 4096 = 0"
  shows "mm_idle mm'"
  using assms(1)
proof (induction "(h', mm')" arbitrary: h' mm' rule: rtranclp_induct)
  case base
  then show ?case
    using assms(2) by simp
next
  case (step st)
  obtain h1 mm1 where st: "st = (h1, mm1)" by fastforce
  then have idle: "mm_idle mm1"
    using step.hyps(3) by simp
  from step.hyps(2) [unfolded st] show ?case
  proof (cases rule: mm_step.cases)
    case anonymous
    then show ?thesis
      using mmap_anonymous_idle [OF idle _ assms(3)] unfolding request_fits_def by blast
  next
    case from_file
    then show ?thesis
      using mmap_file_idle [OF idle _ assms(3)] unfolding request_fits_def by blast
  next
    case unmap
    then show ?thesis
      using munmap_idle [OF idle] by blast
  next
    case protect
    then show ?thesis
      using vm_protect_idle(1) [OF idle] by blast
  next
    case heap
    then show ?thesis
      using heap_control_idle [OF idle] by blast
  qed
qed

theorem address_space_wf_witness:
  "\<exists>mm'. mm_step 0x1000000 (Map.empty :: unit ios, \<lparr>mc_lock = False, mc_mmaps = [], mc_vmaps = Map.empty, mc_calls = []\<rparr>) (Map.empty, mm') \<and>
     mc_mmaps mm' = [3] \<and> mm_idle mm'"
proof -
  let ?mm = "\<lparr>mc_lock = False, mc_mmaps = [], mc_vmaps = Map.empty, mc_calls = []\<rparr>"
  obtain mm' where m: "mmap_anonymous 0x1000000 ?mm 0 MMAP_PRIVATE VM_READ 2 3 = Some (mm', 0x1000000)" "mc_mmaps mm' = [3]"
    by (simp add: mmap_anonymous_def mmap_verify_arguments_def cow_allocate_zeroed_pages_def mm_get_free_vaddr_locked_def
        mm_acquire_def vmap_create_def do_attach_vmap_def vmap_finalise_init_def mm_release_def set_vmap_def fresh_vmap_def
        MMAP_PRIVATE_def MMAP_SHARED_def MMAP_EXACT_def MOS_PAGE_SIZE_def MOS_KERNEL_START_VADDR_def)
  have st: "mm_step 0x1000000 (Map.empty :: unit ios, ?mm) (Map.empty, mm')"
    by (rule mm_step.anonymous [OF _ _ m(1)]) (simp_all add: request_fits_def MMAP_PRIVATE_def MMAP_EXACT_def)
  moreover have "mm_idle ?mm"
    by (simp add: mm_idle_def mm_wf_def)
  ultimately have "mm_idle mm'"
    using address_space_wf [of "0x1000000" "Map.empty :: unit ios" ?mm Map.empty mm'] by auto
  then show ?thesis
    using m(2) st by blast
qed

text \<open>
  C36: an exact request is not compared with the start of the kernel: a process may map pages on both sides of it.\<close>
theorem mmap_exact_enters_kernel:
  assumes "mm_idle mm" "mc_vmaps mm new = None" "hint = MOS_KERNEL_START_VADDR - MOS_PAGE_SIZE" "unat hint \<notin> mapped mm"
    "flags = MMAP_EXACT OR MMAP_PRIVATE"
  shows "\<exists>mm'. mmap_anonymous user_mmap mm hint flags vmflags 2 new = Some (mm', hint) \<and> KS \<in> mapped mm'"
proof -
  let ?mm = "mm\<lparr>mc_lock := True\<rparr>"
  have wf: "mm_wf ?mm" "mm_acquire mm = Some ?mm"
    using assms(1) by (simp_all add: mm_idle_def mm_acquire_def)
  have nums: "unat hint = KS - 4096" "unat (hint + 2 * MOS_PAGE_SIZE) = KS + 4096" "hint < MOS_KERNEL_START_VADDR" "hint mod MOS_PAGE_SIZE = 0"
    by (simp_all add: assms(3) KS_def MOS_KERNEL_START_VADDR_def MOS_PAGE_SIZE_def)
  have "\<not> overlaps v hint (hint + 2 * MOS_PAGE_SIZE)" if "mc_vmaps mm m = Some v" for m v
  proof -
    have v: "vmap_wf v"
      using that wf(1) mm_wf_vmap by fastforce
    have "unat hint \<notin> region v"
      using assms(4) that mapped_iff by blast
    then have "vstop v \<le> unat hint \<or> KS - 4096 < vstart v"
      using nums(1) by (auto simp: region_def)
    moreover have "\<not> KS - 4096 < vstart v"
    proof -
      have "vstart v = vstart v div 4096 * 4096" "vstart v < KS"
        using v vmap_wf_less [OF v] by (auto simp: vmap_wf_def)
      moreover obtain q where "q = vstart v div 4096" by blast
      ultimately have "q * 4096 < KS" "vstart v = q * 4096" by simp_all
      then show ?thesis
        unfolding KS_def MOS_KERNEL_START_VADDR_def by simp
    qed
    ultimately show ?thesis
      using vmap_end_nat [OF v] by (simp add: overlaps_def word_less_nat_alt)
  qed
  then have "exact_free (mc_vmaps mm) hint (hint + 2 * MOS_PAGE_SIZE) ms = Some True" if "set ms \<subseteq> set (mc_mmaps mm)" for ms
    using that mm_wf_listed [OF wf(1)] by (induction ms) fastforce+
  then have ex: "exact_free (mc_vmaps mm) hint (hint + 2 * MOS_PAGE_SIZE) (mc_mmaps mm) = Some True"
    by blast
  have new: "new \<notin> set (mc_mmaps mm)" "set (mc_mmaps mm) \<subseteq> dom ((mc_vmaps mm)(new \<mapsto> fresh_vmap hint 2))"
    using wf(1) assms(2) by (auto simp: mm_wf_def)
  then obtain ms where at: "attach_sorted ((mc_vmaps mm)(new \<mapsto> fresh_vmap hint 2)) hint new (mc_mmaps mm) = Some ms"
    using attach_sorted_runs by blast
  have "flags AND MMAP_SHARED = 0" "flags AND MMAP_PRIVATE \<noteq> 0" "flags AND MMAP_EXACT \<noteq> 0"
    by (simp_all add: assms(5) MMAP_SHARED_def MMAP_PRIVATE_def MMAP_EXACT_def)
  then obtain mm' where mm': "mmap_anonymous user_mmap mm hint flags vmflags 2 new = Some (mm', hint)"
    "mc_vmaps mm' = (mc_vmaps mm)(new \<mapsto> (fresh_vmap hint 2)\<lparr>vm_vmflags := vmflags, vm_on_fault := True, vm_content := VMAP_MMAP,
        vm_type := mmap_type flags, vm_lock := False\<rparr>)"
    using nums(3,4) wf(2) ex new(1) at
    by (simp add: mmap_anonymous_def mmap_verify_arguments_def cow_allocate_zeroed_pages_def mm_get_free_vaddr_locked_def
        vmap_create_def do_attach_vmap_def vmap_finalise_init_def mm_release_def set_vmap_def fresh_vmap_def)
  have "KS \<in> mapped mm'"
    unfolding mapped_iff mm'(2) using nums(1)
    by (intro exI [of _ new]) (simp add: region_def vstart_def vstop_def fresh_vmap_def KS_def MOS_KERNEL_START_VADDR_def)
  then show ?thesis
    using mm'(1) by blast
qed

theorem mmap_exact_enters_kernel_witness:
  "\<exists>mm'. mmap_anonymous 0x1000000 sample_mm 0xFFFF7FFFFFFFF000 3 VM_READ 2 1 = Some (mm', 0xFFFF7FFFFFFFF000) \<and> KS \<in> mapped mm'"
  by (rule mmap_exact_enters_kernel)
     (simp_all add: sample_idle mapped_sample MMAP_PRIVATE_def MMAP_EXACT_def MOS_PAGE_SIZE_def MOS_KERNEL_START_VADDR_def)

end
