(* ===== verification/PageTables.thy ===== *)
theory PageTables
  imports Vmaps
begin

unbundle bit_operations_syntax

text \<open>
  The page tables: \<^verbatim>\<open>kernel/mm/paging/pmlx/pml1.c\<close> to \<^verbatim>\<open>pml5.c\<close>, \<^verbatim>\<open>table_ops.c\<close> and the callbacks under \<^verbatim>\<open>table_ops/\<close>,
  over the entry formats of \<^verbatim>\<open>arch/x86_64/mm/paging.c\<close>.  An entry is a 64-bit word with the fields of the processor at their
  bits; a table is a function from indices to entries and is named by its page frame number, which the direct map turns into a
  pointer and back.  New tables come from the list \<open>pt_new\<close>, the answers of \<^verbatim>\<open>mm_get_free_page\<close>; reference counts of frames
  and invalidations of the translation cache are recorded.\<close>

section \<open>Entries\<close>

definition put_bit :: "nat \<Rightarrow> bool \<Rightarrow> u64 \<Rightarrow> u64" where
  "put_bit n b e = (if b then set_bit n e else unset_bit n e)"

definition get_field :: "nat \<Rightarrow> nat \<Rightarrow> u64 \<Rightarrow> u64" where
  "get_field lo len e = take_bit len (drop_bit lo e)"

definition put_field :: "nat \<Rightarrow> nat \<Rightarrow> u64 \<Rightarrow> u64 \<Rightarrow> u64" where
  "put_field lo len x e = (e AND NOT (push_bit lo (mask len))) OR push_bit lo (take_bit len x)"

text \<open>The bits of \<^verbatim>\<open>x86_pte64_t\<close>, \<^verbatim>\<open>x86_pde64_t\<close> and \<^verbatim>\<open>x86_pde64_huge_t\<close>.\<close>

definition X86_PRESENT :: nat where "X86_PRESENT = 0"
definition X86_WRITABLE :: nat where "X86_WRITABLE = 1"
definition X86_USERMODE :: nat where "X86_USERMODE = 2"
definition X86_WRITE_THROUGH :: nat where "X86_WRITE_THROUGH = 3"
definition X86_CACHE_DISABLED :: nat where "X86_CACHE_DISABLED = 4"
definition X86_PAGE_SIZE :: nat where "X86_PAGE_SIZE = 7"
definition X86_GLOBAL :: nat where "X86_GLOBAL = 8"
definition X86_NO_EXECUTE :: nat where "X86_NO_EXECUTE = 63"

lemmas x86_bits = X86_PRESENT_def X86_WRITABLE_def X86_USERMODE_def X86_WRITE_THROUGH_def X86_CACHE_DISABLED_def
  X86_PAGE_SIZE_def X86_GLOBAL_def X86_NO_EXECUTE_def

definition VM_WRITE_THROUGH :: u32 where "VM_WRITE_THROUGH = 16"
definition VM_CACHE_DISABLED :: u32 where "VM_CACHE_DISABLED = 32"
definition VM_GLOBAL :: u32 where "VM_GLOBAL = 64"

subsection \<open>Level 1\<close>

definition platform_pml1e_get_pfn :: "u64 \<Rightarrow> u64" where
  "platform_pml1e_get_pfn e = get_field 12 40 e"

definition platform_pml1e_set_pfn :: "u64 \<Rightarrow> u64 \<Rightarrow> u64" where
  "platform_pml1e_set_pfn e pfn = put_field 12 40 pfn e"

definition platform_pml1e_get_present :: "u64 \<Rightarrow> bool" where
  "platform_pml1e_get_present e = bit e X86_PRESENT"

definition platform_pml1e_set_present :: "u64 \<Rightarrow> bool \<Rightarrow> u64" where
  "platform_pml1e_set_present e present = put_bit X86_PRESENT present 0"

definition platform_pml1e_set_flags :: "u64 \<Rightarrow> u32 \<Rightarrow> u64" where
  "platform_pml1e_set_flags e flags =
     put_bit X86_NO_EXECUTE (\<not> has_flag flags VM_EXEC)
     (put_bit X86_GLOBAL (has_flag flags VM_GLOBAL)
     (put_bit X86_CACHE_DISABLED (has_flag flags VM_CACHE_DISABLED)
     (put_bit X86_WRITE_THROUGH (has_flag flags VM_WRITE_THROUGH)
     (put_bit X86_USERMODE (has_flag flags VM_USER)
     (put_bit X86_WRITABLE (has_flag flags VM_WRITE) e)))))"

definition platform_pml1e_get_flags :: "u64 \<Rightarrow> u32" where
  "platform_pml1e_get_flags e =
     VM_READ OR (if bit e X86_WRITABLE then VM_WRITE else 0) OR (if bit e X86_USERMODE then VM_USER else 0) OR
     (if bit e X86_WRITE_THROUGH then VM_WRITE_THROUGH else 0) OR (if bit e X86_CACHE_DISABLED then VM_CACHE_DISABLED else 0) OR
     (if bit e X86_GLOBAL then VM_GLOBAL else 0) OR (if bit e X86_NO_EXECUTE then 0 else VM_EXEC)"

subsection \<open>Levels 2 to 4\<close>

text \<open>The functions of the three levels differ only where the level is asked for: level 4 has no huge pages.\<close>

definition platform_pmlxe_get_table :: "u64 \<Rightarrow> u64" where
  "platform_pmlxe_get_table e = get_field 12 40 e"

definition platform_pmlxe_set_table :: "u64 \<Rightarrow> u64 \<Rightarrow> u64" where
  "platform_pmlxe_set_table e pfn = put_field 12 40 pfn e"

definition platform_pmlxe_get_present :: "u64 \<Rightarrow> bool" where
  "platform_pmlxe_get_present e = bit e X86_PRESENT"

definition platform_pmlxe_set_present :: "u64 \<Rightarrow> bool \<Rightarrow> u64" where
  "platform_pmlxe_set_present e present = put_bit X86_PRESENT present 0"

definition or_bit :: "nat \<Rightarrow> bool \<Rightarrow> u64 \<Rightarrow> u64" where
  "or_bit n b e = put_bit n (bit e n \<or> b) e"

definition platform_pml4e_set_flags :: "u64 \<Rightarrow> u32 \<Rightarrow> u64" where
  "platform_pml4e_set_flags e flags =
     (let e = or_bit X86_WRITABLE (has_flag flags VM_WRITE) e;
          e = or_bit X86_USERMODE (has_flag flags VM_USER) e;
          e = or_bit X86_WRITE_THROUGH (has_flag flags VM_WRITE_THROUGH) e;
          e = or_bit X86_CACHE_DISABLED (has_flag flags VM_CACHE_DISABLED) e
      in if has_flag flags VM_EXEC then put_bit X86_NO_EXECUTE False e else e)"

definition platform_pml3e_set_flags :: "u64 \<Rightarrow> u32 \<Rightarrow> u64" where
  "platform_pml3e_set_flags e flags =
     (let e = or_bit X86_WRITABLE (has_flag flags VM_WRITE) e;
          e = or_bit X86_USERMODE (has_flag flags VM_USER) e;
          e = or_bit X86_WRITE_THROUGH (has_flag flags VM_WRITE_THROUGH) e;
          e = or_bit X86_CACHE_DISABLED (has_flag flags VM_CACHE_DISABLED) e;
          e = (if has_flag flags VM_EXEC then put_bit X86_NO_EXECUTE False e else e)
      in if bit e X86_PAGE_SIZE
         then put_bit X86_GLOBAL (has_flag flags VM_GLOBAL) (put_bit X86_NO_EXECUTE (\<not> has_flag flags VM_EXEC) e)
         else e)"

definition platform_pml2e_set_flags :: "u64 \<Rightarrow> u32 \<Rightarrow> u64" where
  "platform_pml2e_set_flags = platform_pml3e_set_flags"

definition platform_pml4e_get_flags :: "u64 \<Rightarrow> u32" where
  "platform_pml4e_get_flags e =
     VM_READ OR (if bit e X86_WRITABLE then VM_WRITE else 0) OR (if bit e X86_USERMODE then VM_USER else 0) OR
     (if bit e X86_WRITE_THROUGH then VM_WRITE_THROUGH else 0) OR (if bit e X86_CACHE_DISABLED then VM_CACHE_DISABLED else 0) OR
     (if bit e X86_NO_EXECUTE then 0 else VM_EXEC)"

definition platform_pml3e_get_flags :: "u64 \<Rightarrow> u32" where
  "platform_pml3e_get_flags e =
     platform_pml4e_get_flags e OR (if bit e X86_PAGE_SIZE \<and> bit e X86_GLOBAL then VM_GLOBAL else 0)"

definition platform_pml2e_get_flags :: "u64 \<Rightarrow> u32" where
  "platform_pml2e_get_flags = platform_pml3e_get_flags"

definition platform_pmlxe_is_huge :: "u64 \<Rightarrow> bool" where
  "platform_pmlxe_is_huge e = bit e X86_PAGE_SIZE"

definition platform_pmlxe_set_huge :: "u64 \<Rightarrow> u64 \<Rightarrow> u64" where
  "platform_pmlxe_set_huge e pfn = put_field 13 39 (drop_bit 1 pfn) (put_bit X86_PAGE_SIZE True (put_bit X86_PRESENT True 0))"

definition platform_pmlxe_get_huge_pfn :: "u64 \<Rightarrow> u64" where
  "platform_pmlxe_get_huge_pfn e = push_bit 1 (get_field 13 39 e)"

section \<open>Tables\<close>

datatype pm_call = Pmm_Ref u64 | Pmm_Unref u64 | Tlb_Invalidate ptr_t | Table_Free u64

record pts =
  pt_mem :: "u64 \<rightharpoonup> (nat \<Rightarrow> u64)"
  pt_new :: "u64 list"
  pt_log :: "pm_call list"

definition pm_record :: "pm_call \<Rightarrow> pts \<Rightarrow> pts" where
  "pm_record c s = s\<lparr>pt_log := pt_log s @ [c]\<rparr>"

definition read_entry :: "pts \<Rightarrow> u64 \<Rightarrow> nat \<Rightarrow> u64 option" where
  "read_entry s p i = do { t \<leftarrow> pt_mem s p; Some (t i) }"

definition write_entry :: "pts \<Rightarrow> u64 \<Rightarrow> nat \<Rightarrow> u64 \<Rightarrow> pts option" where
  "write_entry s p i e = do { t \<leftarrow> pt_mem s p; Some (s\<lparr>pt_mem := (pt_mem s)(p \<mapsto> t(i := e))\<rparr>) }"

text \<open>\<^verbatim>\<open>__create_page_table\<close>; without a free page the null pointer is used as a table.\<close>

definition create_page_table :: "pts \<Rightarrow> (pts \<times> u64) option" where
  "create_page_table s = (case pt_new s of
       [] \<Rightarrow> None
     | p # ps \<Rightarrow> Some (s\<lparr>pt_new := ps, pt_mem := (pt_mem s)(p \<mapsto> (\<lambda>i. 0))\<rparr>, p))"

definition destroy_page_table :: "pts \<Rightarrow> u64 \<Rightarrow> pts" where
  "destroy_page_table s p = pm_record (Table_Free p) (s\<lparr>pt_mem := (pt_mem s)(p := None)\<rparr>)"

text \<open>The index of an address in its table of a level, \<^verbatim>\<open>pml1_index\<close> to \<^verbatim>\<open>pml4_index\<close>, and the pages behind an entry.\<close>

definition pml_index :: "nat \<Rightarrow> ptr_t \<Rightarrow> nat" where
  "pml_index l vaddr = unat (drop_bit (12 + 9 * (l - 1)) vaddr AND 0x1FF)"

definition PMLxE_NPAGES :: "nat \<Rightarrow> u64" where
  "PMLxE_NPAGES l = 512 ^ (l - 1)"

text \<open>The entry of a table that is not there yet gets a table first.\<close>

definition add_table :: "pts \<Rightarrow> u64 \<Rightarrow> nat \<Rightarrow> (pts \<times> u64) option" where
  "add_table s p i = do {
     (s, child) \<leftarrow> create_page_table s;
     e \<leftarrow> read_entry s p i;
     s \<leftarrow> write_entry s p i (platform_pmlxe_set_table (platform_pmlxe_set_present e True) child);
     Some (s, child) }"

definition get_or_create :: "pts \<Rightarrow> u64 \<Rightarrow> nat \<Rightarrow> (pts \<times> u64) option" where
  "get_or_create s p i = do {
     e \<leftarrow> read_entry s p i;
     if platform_pmlxe_get_present e then Some (s, platform_pmlxe_get_table e)
     else add_table s p i }"

subsection \<open>Traversal\<close>

text \<open>A callback gets the table and the index of its entry, the address and the data of the walk.\<close>

type_synonym 'd callback = "u64 \<Rightarrow> nat \<Rightarrow> ptr_t \<Rightarrow> pts \<times> 'd \<Rightarrow> (pts \<times> 'd) option"

record 'd walk_options =
  wo_readonly :: bool
  wo_pml4e_pre :: "'d callback option"
  wo_pml3e_pre :: "'d callback option"
  wo_pml2e_pre :: "'d callback option"
  wo_pml1e :: "'d callback option"

record 'd walk =
  w_pts :: pts
  w_data :: 'd
  w_vaddr :: ptr_t
  w_npages :: size_t

definition walk_skip :: "u64 \<Rightarrow> 'd walk \<Rightarrow> 'd walk" where
  "walk_skip npages w = w\<lparr>w_vaddr := w_vaddr w + min (w_npages w) npages * MOS_PAGE_SIZE,
     w_npages := w_npages w - min (w_npages w) npages\<rparr>"

definition walk_call :: "'d callback option \<Rightarrow> u64 \<Rightarrow> nat \<Rightarrow> 'd walk \<Rightarrow> 'd walk option" where
  "walk_call cb p i w = (case cb of
       None \<Rightarrow> Some w
     | Some f \<Rightarrow> do { (s, d) \<leftarrow> f p i (w_vaddr w) (w_pts w, w_data w); Some (w\<lparr>w_pts := s, w_data := d\<rparr>) })"

text \<open>The loops run over the entries of a table from the index of the address on; \<open>k\<close> counts the entries that are left.\<close>

fun pml1_loop :: "'d walk_options \<Rightarrow> u64 \<Rightarrow> nat \<Rightarrow> 'd walk \<Rightarrow> 'd walk option" where
  "pml1_loop opts pml1 0 w = Some w"
| "pml1_loop opts pml1 (Suc k) w =
     (if w_npages w = 0 then Some w
      else do {
        w \<leftarrow> walk_call (wo_pml1e opts) pml1 (pml_index 1 (w_vaddr w)) w;
        pml1_loop opts pml1 k (walk_skip (PMLxE_NPAGES 1) w) })"

definition pml1_traverse :: "'d walk_options \<Rightarrow> u64 \<Rightarrow> 'd walk \<Rightarrow> 'd walk option" where
  "pml1_traverse opts pml1 w = pml1_loop opts pml1 (512 - pml_index 1 (w_vaddr w)) w"

text \<open>The loop of the levels 2 to 4, over the traversal of the level below.\<close>

fun pmlx_loop ::
  "nat \<Rightarrow> bool \<Rightarrow> 'd callback option \<Rightarrow> (u64 \<Rightarrow> 'd walk \<Rightarrow> 'd walk option) \<Rightarrow> u64 \<Rightarrow> nat \<Rightarrow> 'd walk \<Rightarrow> 'd walk option" where
  "pmlx_loop l readonly pre traverse p 0 w = Some w"
| "pmlx_loop l readonly pre traverse p (Suc k) w =
     (if w_npages w = 0 then Some w
      else do {
        let i = pml_index l (w_vaddr w);
        e \<leftarrow> read_entry (w_pts w) p i;
        if \<not> platform_pmlxe_get_present e \<and> readonly
        then pmlx_loop l readonly pre traverse p k (walk_skip (PMLxE_NPAGES l) w)
        else do {
          (s, child) \<leftarrow> (if platform_pmlxe_get_present e then get_or_create (w_pts w) p i else add_table (w_pts w) p i);
          w \<leftarrow> walk_call pre p i (w\<lparr>w_pts := s\<rparr>);
          w \<leftarrow> traverse child w;
          pmlx_loop l readonly pre traverse p k w } })"

definition pml2_traverse :: "'d walk_options \<Rightarrow> u64 \<Rightarrow> 'd walk \<Rightarrow> 'd walk option" where
  "pml2_traverse opts pml2 w =
     pmlx_loop 2 (wo_readonly opts) (wo_pml2e_pre opts) (pml1_traverse opts) pml2 (512 - pml_index 2 (w_vaddr w)) w"

definition pml3_traverse :: "'d walk_options \<Rightarrow> u64 \<Rightarrow> 'd walk \<Rightarrow> 'd walk option" where
  "pml3_traverse opts pml3 w =
     pmlx_loop 3 (wo_readonly opts) (wo_pml3e_pre opts) (pml2_traverse opts) pml3 (512 - pml_index 3 (w_vaddr w)) w"

definition pml4_traverse :: "'d walk_options \<Rightarrow> u64 \<Rightarrow> 'd walk \<Rightarrow> 'd walk option" where
  "pml4_traverse opts pml4 w =
     pmlx_loop 4 (wo_readonly opts) (wo_pml4e_pre opts) (pml3_traverse opts) pml4 (512 - pml_index 4 (w_vaddr w)) w"

text \<open>There is no fifth level: its only entry is the table of level 4.\<close>

definition pml5_traverse :: "'d walk_options \<Rightarrow> u64 \<Rightarrow> 'd walk \<Rightarrow> 'd walk option" where
  "pml5_traverse opts pml5 w = pml4_traverse opts pml5 w"

subsection \<open>Removal of tables\<close>

fun pml1_destroy_loop :: "u64 \<Rightarrow> nat \<Rightarrow> unit walk \<Rightarrow> unit walk option" where
  "pml1_destroy_loop pml1 0 w = Some w"
| "pml1_destroy_loop pml1 (Suc k) w =
     (if w_npages w = 0 then Some w
      else do {
        e \<leftarrow> read_entry (w_pts w) pml1 (pml_index 1 (w_vaddr w));
        mos_assert (\<not> platform_pml1e_get_present e);
        pml1_destroy_loop pml1 k (w\<lparr>w_vaddr := w_vaddr w + PMLxE_NPAGES 1 * MOS_PAGE_SIZE, w_npages := w_npages w - PMLxE_NPAGES 1\<rparr>) })"

definition zap_table :: "bool \<Rightarrow> u64 \<Rightarrow> unit walk \<Rightarrow> unit walk \<times> bool" where
  "zap_table should_zap p w = (if should_zap then w\<lparr>w_pts := destroy_page_table (w_pts w) p\<rparr> else w, should_zap)"

definition pml1_destroy_range :: "u64 \<Rightarrow> unit walk \<Rightarrow> (unit walk \<times> bool) option" where
  "pml1_destroy_range pml1 w = do {
     let should_zap = (pml_index 1 (w_vaddr w) = 0 \<and> w_npages w \<ge> 512 * PMLxE_NPAGES 1);
     w \<leftarrow> pml1_destroy_loop pml1 (512 - pml_index 1 (w_vaddr w)) w;
     Some (zap_table should_zap pml1 w) }"

fun pmlx_destroy_loop :: "nat \<Rightarrow> (u64 \<Rightarrow> unit walk \<Rightarrow> (unit walk \<times> bool) option) \<Rightarrow> u64 \<Rightarrow> nat \<Rightarrow> unit walk \<Rightarrow> unit walk option" where
  "pmlx_destroy_loop l destroy_range p 0 w = Some w"
| "pmlx_destroy_loop l destroy_range p (Suc k) w =
     (if w_npages w = 0 then Some w
      else do {
        let i = pml_index l (w_vaddr w);
        e \<leftarrow> read_entry (w_pts w) p i;
        if platform_pmlxe_get_present e then do {
          (w, destroyed) \<leftarrow> destroy_range (platform_pmlxe_get_table e) w;
          w \<leftarrow> (if destroyed then do {
                  e \<leftarrow> read_entry (w_pts w) p i;
                  s \<leftarrow> write_entry (w_pts w) p i (platform_pmlxe_set_present e False);
                  Some (w\<lparr>w_pts := s\<rparr>) }
                else Some w);
          pmlx_destroy_loop l destroy_range p k w }
        else pmlx_destroy_loop l destroy_range p k (walk_skip (PMLxE_NPAGES l) w) })"

definition pml2_destroy_range :: "u64 \<Rightarrow> unit walk \<Rightarrow> (unit walk \<times> bool) option" where
  "pml2_destroy_range pml2 w = do {
     let should_zap = (pml_index 2 (w_vaddr w) = 0 \<and> w_npages w \<ge> 512 * PMLxE_NPAGES 2);
     w \<leftarrow> pmlx_destroy_loop 2 pml1_destroy_range pml2 (512 - pml_index 2 (w_vaddr w)) w;
     Some (zap_table should_zap pml2 w) }"

definition pml3_destroy_range :: "u64 \<Rightarrow> unit walk \<Rightarrow> (unit walk \<times> bool) option" where
  "pml3_destroy_range pml3 w = do {
     let should_zap = (pml_index 3 (w_vaddr w) = 0 \<and> w_npages w \<ge> 512 * PMLxE_NPAGES 3);
     w \<leftarrow> pmlx_destroy_loop 3 pml2_destroy_range pml3 (512 - pml_index 3 (w_vaddr w)) w;
     Some (zap_table should_zap pml3 w) }"

definition MOS_USER_END_VADDR :: ptr_t where
  "MOS_USER_END_VADDR = 0x00007FFFFFFFFFFF"

definition pml4_destroy_range :: "u64 \<Rightarrow> unit walk \<Rightarrow> (unit walk \<times> bool) option" where
  "pml4_destroy_range pml4 w = do {
     let should_zap = (pml_index 4 (w_vaddr w) = 0 \<and> w_npages w = (MOS_USER_END_VADDR + 1) div MOS_PAGE_SIZE);
     w \<leftarrow> pmlx_destroy_loop 4 pml3_destroy_range pml4 (512 - pml_index 4 (w_vaddr w)) w;
     Some (zap_table should_zap pml4 w) }"

definition pml5_destroy_range :: "u64 \<Rightarrow> unit walk \<Rightarrow> (unit walk \<times> bool) option" where
  "pml5_destroy_range pml5 w = pml4_destroy_range pml5 w"

section \<open>Operations\<close>

subsection \<open>Mapping\<close>

record do_map_data =
  md_pfn :: u64
  md_flags :: u32
  md_refcount :: bool

definition pml1e_do_map_callback :: "do_map_data callback" where
  "pml1e_do_map_callback p i vaddr = (\<lambda>(s, d). do {
     e \<leftarrow> read_entry s p i;
     s \<leftarrow> write_entry s p i (platform_pml1e_set_pfn (platform_pml1e_set_flags (platform_pml1e_set_present e True) (md_flags d)) (md_pfn d));
     let s = pm_record (Tlb_Invalidate vaddr) s;
     let s = (if md_refcount d then pm_record (Pmm_Ref (md_pfn d)) s else s);
     Some (s, d\<lparr>md_pfn := md_pfn d + 1\<rparr>) })"

definition set_flags_callback :: "(u64 \<Rightarrow> u32 \<Rightarrow> u64) \<Rightarrow> ('d \<Rightarrow> u32) \<Rightarrow> 'd callback" where
  "set_flags_callback set_flags flags p i vaddr = (\<lambda>(s, d). do {
     e \<leftarrow> read_entry s p i;
     s \<leftarrow> write_entry s p i (set_flags e (flags d));
     Some (s, d) })"

definition pml2e_do_map_callback :: "do_map_data callback" where
  "pml2e_do_map_callback = set_flags_callback platform_pml2e_set_flags md_flags"

definition pml3e_do_map_callback :: "do_map_data callback" where
  "pml3e_do_map_callback = set_flags_callback platform_pml3e_set_flags md_flags"

definition pml4e_do_map_callback :: "do_map_data callback" where
  "pml4e_do_map_callback = set_flags_callback platform_pml4e_set_flags md_flags"

definition pagetable_do_map_callbacks :: "do_map_data walk_options" where
  "pagetable_do_map_callbacks = \<lparr>wo_readonly = False, wo_pml4e_pre = Some pml4e_do_map_callback,
     wo_pml3e_pre = Some pml3e_do_map_callback, wo_pml2e_pre = Some pml2e_do_map_callback, wo_pml1e = Some pml1e_do_map_callback\<rparr>"

definition mm_do_map :: "pts \<Rightarrow> u64 \<Rightarrow> ptr_t \<Rightarrow> u64 \<Rightarrow> size_t \<Rightarrow> u32 \<Rightarrow> bool \<Rightarrow> pts option" where
  "mm_do_map s pgd vaddr pfn n_pages flags do_refcount = do {
     w \<leftarrow> pml5_traverse pagetable_do_map_callbacks pgd
       \<lparr>w_pts = s, w_data = \<lparr>md_pfn = pfn, md_flags = flags, md_refcount = do_refcount\<rparr>, w_vaddr = vaddr, w_npages = n_pages\<rparr>;
     Some (w_pts w) }"

subsection \<open>Flags\<close>

definition pml1e_do_flag_callback :: "u32 callback" where
  "pml1e_do_flag_callback p i vaddr = (\<lambda>(s, d). do {
     e \<leftarrow> read_entry s p i;
     if platform_pml1e_get_present e then do {
       s \<leftarrow> write_entry s p i (platform_pml1e_set_flags e d);
       Some (pm_record (Tlb_Invalidate vaddr) s, d) }
     else Some (s, d) })"

definition pml2e_do_flag_callback :: "u32 callback" where
  "pml2e_do_flag_callback = set_flags_callback platform_pml2e_set_flags (\<lambda>d. d)"

definition pml3e_do_flag_callback :: "u32 callback" where
  "pml3e_do_flag_callback = set_flags_callback platform_pml3e_set_flags (\<lambda>d. d)"

definition pml4e_do_flag_callback :: "u32 callback" where
  "pml4e_do_flag_callback = set_flags_callback platform_pml4e_set_flags (\<lambda>d. d)"

definition pagetable_do_flag_callbacks :: "u32 walk_options" where
  "pagetable_do_flag_callbacks = \<lparr>wo_readonly = False, wo_pml4e_pre = Some pml4e_do_flag_callback,
     wo_pml3e_pre = Some pml3e_do_flag_callback, wo_pml2e_pre = Some pml2e_do_flag_callback, wo_pml1e = Some pml1e_do_flag_callback\<rparr>"

definition mm_do_flag :: "pts \<Rightarrow> u64 \<Rightarrow> ptr_t \<Rightarrow> size_t \<Rightarrow> u32 \<Rightarrow> pts option" where
  "mm_do_flag s pgd vaddr n_pages flags = do {
     w \<leftarrow> pml5_traverse pagetable_do_flag_callbacks pgd \<lparr>w_pts = s, w_data = flags, w_vaddr = vaddr, w_npages = n_pages\<rparr>;
     Some (w_pts w) }"

definition pml1e_do_mask_callback :: "u32 callback" where
  "pml1e_do_mask_callback p i vaddr = (\<lambda>(s, d). do {
     e \<leftarrow> read_entry s p i;
     if platform_pml1e_get_present e then do {
       s \<leftarrow> write_entry s p i (platform_pml1e_set_flags e (platform_pml1e_get_flags e AND NOT d));
       Some (pm_record (Tlb_Invalidate vaddr) s, d) }
     else Some (s, d) })"

definition pagetable_do_mask_callbacks :: "u32 walk_options" where
  "pagetable_do_mask_callbacks = \<lparr>wo_readonly = False, wo_pml4e_pre = None, wo_pml3e_pre = None, wo_pml2e_pre = None,
     wo_pml1e = Some pml1e_do_mask_callback\<rparr>"

definition mm_do_mask_flags :: "pts \<Rightarrow> u64 \<Rightarrow> ptr_t \<Rightarrow> size_t \<Rightarrow> u32 \<Rightarrow> pts option" where
  "mm_do_mask_flags s pgd vaddr n_pages msk = do {
     w \<leftarrow> pml5_traverse pagetable_do_mask_callbacks pgd \<lparr>w_pts = s, w_data = msk, w_vaddr = vaddr, w_npages = n_pages\<rparr>;
     Some (w_pts w) }"

subsection \<open>Unmapping\<close>

definition pml1e_do_unmap_callback :: "bool callback" where
  "pml1e_do_unmap_callback p i vaddr = (\<lambda>(s, d). do {
     e \<leftarrow> read_entry s p i;
     if \<not> platform_pml1e_get_present e then Some (s, d)
     else do {
       let s = (if d then pm_record (Pmm_Unref (platform_pml1e_get_pfn e)) s else s);
       s \<leftarrow> write_entry s p i (platform_pml1e_set_present e False);
       Some (pm_record (Tlb_Invalidate vaddr) s, d) } })"

definition pmlxe_do_unmap_callback :: "bool callback" where
  "pmlxe_do_unmap_callback p i vaddr st = Some st"

definition pagetable_do_unmap_callbacks :: "bool walk_options" where
  "pagetable_do_unmap_callbacks = \<lparr>wo_readonly = True, wo_pml4e_pre = Some pmlxe_do_unmap_callback,
     wo_pml3e_pre = Some pmlxe_do_unmap_callback, wo_pml2e_pre = Some pmlxe_do_unmap_callback, wo_pml1e = Some pml1e_do_unmap_callback\<rparr>"

definition mm_do_unmap :: "pts \<Rightarrow> u64 \<Rightarrow> ptr_t \<Rightarrow> size_t \<Rightarrow> bool \<Rightarrow> pts option" where
  "mm_do_unmap s pgd vaddr n_pages do_unref = do {
     w \<leftarrow> pml5_traverse pagetable_do_unmap_callbacks pgd \<lparr>w_pts = s, w_data = do_unref, w_vaddr = vaddr, w_npages = n_pages\<rparr>;
     (w, _) \<leftarrow> pml5_destroy_range pgd \<lparr>w_pts = w_pts w, w_data = (), w_vaddr = vaddr, w_npages = n_pages\<rparr>;
     Some (w_pts w) }"

subsection \<open>Copying\<close>

text \<open>The tables of the destination that the walk has reached.\<close>

record do_copy_data =
  cd_pml4 :: u64
  cd_pml3 :: u64
  cd_pml2 :: u64
  cd_pml1 :: u64

definition pml1e_do_copy_callback :: "do_copy_data callback" where
  "pml1e_do_copy_callback p i vaddr = (\<lambda>(s, d). do {
     src_e \<leftarrow> read_entry s p i;
     let j = pml_index 1 vaddr;
     dest_e \<leftarrow> read_entry s (cd_pml1 d) j;
     let old_pfn = (if platform_pml1e_get_present dest_e then platform_pml1e_get_pfn dest_e else 0);
     s \<leftarrow> (if platform_pml1e_get_present src_e then do {
             let pfn = platform_pml1e_get_pfn src_e;
             let s = pm_record (Pmm_Ref pfn) s;
             write_entry s (cd_pml1 d) j (platform_pml1e_set_pfn
               (platform_pml1e_set_flags (platform_pml1e_set_present dest_e True) (platform_pml1e_get_flags src_e)) pfn) }
           else write_entry s (cd_pml1 d) j (platform_pml1e_set_present dest_e False));
     Some (if old_pfn \<noteq> 0 then pm_record (Pmm_Unref old_pfn) s else s, d) })"

text \<open>The entry above gets its table in the destination and the flags of the source.\<close>

definition copy_entry :: "(u64 \<Rightarrow> u32 \<Rightarrow> u64) \<Rightarrow> (u64 \<Rightarrow> u32) \<Rightarrow> u64 \<Rightarrow> nat \<Rightarrow> u64 \<Rightarrow> nat \<Rightarrow> pts \<Rightarrow> (pts \<times> u64) option" where
  "copy_entry set_flags get_flags p i dest j s = do {
     (s, child) \<leftarrow> get_or_create s dest j;
     src_e \<leftarrow> read_entry s p i;
     dest_e \<leftarrow> read_entry s dest j;
     s \<leftarrow> write_entry s dest j (set_flags dest_e (get_flags src_e));
     Some (s, child) }"

definition pml2e_do_copy_callback :: "do_copy_data callback" where
  "pml2e_do_copy_callback p i vaddr = (\<lambda>(s, d). do {
     (s, child) \<leftarrow> copy_entry platform_pml2e_set_flags platform_pml2e_get_flags p i (cd_pml2 d) (pml_index 2 vaddr) s;
     Some (s, d\<lparr>cd_pml1 := child\<rparr>) })"

definition pml3e_do_copy_callback :: "do_copy_data callback" where
  "pml3e_do_copy_callback p i vaddr = (\<lambda>(s, d). do {
     (s, child) \<leftarrow> copy_entry platform_pml3e_set_flags platform_pml3e_get_flags p i (cd_pml3 d) (pml_index 3 vaddr) s;
     Some (s, d\<lparr>cd_pml2 := child\<rparr>) })"

definition pml4e_do_copy_callback :: "do_copy_data callback" where
  "pml4e_do_copy_callback p i vaddr = (\<lambda>(s, d). do {
     (s, child) \<leftarrow> copy_entry platform_pml4e_set_flags platform_pml4e_get_flags p i (cd_pml4 d) (pml_index 4 vaddr) s;
     Some (s, d\<lparr>cd_pml3 := child\<rparr>) })"

definition pagetable_do_copy_callbacks :: "do_copy_data walk_options" where
  "pagetable_do_copy_callbacks = \<lparr>wo_readonly = False, wo_pml4e_pre = Some pml4e_do_copy_callback,
     wo_pml3e_pre = Some pml3e_do_copy_callback, wo_pml2e_pre = Some pml2e_do_copy_callback, wo_pml1e = Some pml1e_do_copy_callback\<rparr>"

definition mm_do_copy :: "pts \<Rightarrow> u64 \<Rightarrow> u64 \<Rightarrow> ptr_t \<Rightarrow> size_t \<Rightarrow> pts option" where
  "mm_do_copy s src dst vaddr n_pages = do {
     w \<leftarrow> pml5_traverse pagetable_do_copy_callbacks src
       \<lparr>w_pts = s, w_data = \<lparr>cd_pml4 = dst, cd_pml3 = 0, cd_pml2 = 0, cd_pml1 = 0\<rparr>, w_vaddr = vaddr, w_npages = n_pages\<rparr>;
     Some (w_pts w) }"

subsection \<open>Reading\<close>

definition PML2_HUGE_MASK :: u64 where
  "PML2_HUGE_MASK = push_bit 12 0x1FF"

definition PML3_HUGE_MASK :: u64 where
  "PML3_HUGE_MASK = PML2_HUGE_MASK OR push_bit 21 0x1FF"

definition mm_do_get_pfn :: "pts \<Rightarrow> u64 \<Rightarrow> ptr_t \<Rightarrow> u64 option" where
  "mm_do_get_pfn s pgd vaddr0 = do {
     let vaddr = ALIGN_DOWN_TO_PAGE vaddr0;
     pml4e \<leftarrow> read_entry s pgd (pml_index 4 vaddr);
     if \<not> platform_pmlxe_get_present pml4e then Some 0
     else do {
       pml3e \<leftarrow> read_entry s (platform_pmlxe_get_table pml4e) (pml_index 3 vaddr);
       if \<not> platform_pmlxe_get_present pml3e then Some 0
       else if platform_pmlxe_is_huge pml3e
       then Some (platform_pmlxe_get_huge_pfn pml3e + (vaddr AND PML3_HUGE_MASK) div MOS_PAGE_SIZE)
       else do {
         pml2e \<leftarrow> read_entry s (platform_pmlxe_get_table pml3e) (pml_index 2 vaddr);
         if \<not> platform_pmlxe_get_present pml2e then Some 0
         else if platform_pmlxe_is_huge pml2e
         then Some (platform_pmlxe_get_huge_pfn pml2e + (vaddr AND PML2_HUGE_MASK) div MOS_PAGE_SIZE)
         else do {
           pml1e \<leftarrow> read_entry s (platform_pmlxe_get_table pml2e) (pml_index 1 vaddr);
           if \<not> platform_pml1e_get_present pml1e then Some 0
           else Some (platform_pml1e_get_pfn pml1e) } } } }"

definition mm_do_get_flags :: "pts \<Rightarrow> u64 \<Rightarrow> ptr_t \<Rightarrow> u32 option" where
  "mm_do_get_flags s pgd vaddr0 = do {
     let vaddr = ALIGN_DOWN_TO_PAGE vaddr0;
     pml4e \<leftarrow> read_entry s pgd (pml_index 4 vaddr);
     if \<not> platform_pmlxe_get_present pml4e then Some 0
     else do {
       let flags = platform_pml4e_get_flags pml4e;
       pml3e \<leftarrow> read_entry s (platform_pmlxe_get_table pml4e) (pml_index 3 vaddr);
       if \<not> platform_pmlxe_get_present pml3e then Some 0
       else if platform_pmlxe_is_huge pml3e then Some (platform_pml3e_get_flags pml3e)
       else do {
         let flags = flags AND platform_pml3e_get_flags pml3e;
         pml2e \<leftarrow> read_entry s (platform_pmlxe_get_table pml3e) (pml_index 2 vaddr);
         if \<not> platform_pmlxe_get_present pml2e then Some 0
         else if platform_pmlxe_is_huge pml2e then Some (platform_pml2e_get_flags pml2e)
         else do {
           let flags = flags AND platform_pml2e_get_flags pml2e;
           pml1e \<leftarrow> read_entry s (platform_pmlxe_get_table pml2e) (pml_index 1 vaddr);
           if \<not> platform_pml1e_get_present pml1e then Some 0
           else Some (flags AND platform_pml1e_get_flags pml1e) } } } }"

definition mm_get_phys_addr :: "pts \<Rightarrow> u64 \<Rightarrow> ptr_t \<Rightarrow> ptr_t option" where
  "mm_get_phys_addr s pgd vaddr = do {
     pfn \<leftarrow> mm_do_get_pfn s pgd vaddr;
     Some (push_bit 12 pfn OR (vaddr mod MOS_PAGE_SIZE)) }"

end
