(* ===== verification/PtWalk.thy ===== *)
theory PtWalk
  imports PageTables
begin

unbundle bit_operations_syntax

text \<open>
  Page tables as maps: the entries of a tree of tables as one function of the page number, what each write to a table does to that
  function, and the traversal of the tables as a loop over the pages of the range.\<close>

section \<open>Entries\<close>

lemma bit_put_bit: "n < 64 \<Longrightarrow> bit (put_bit n b e) k \<longleftrightarrow> (if k = n then b else bit e k)"
  by (auto simp: put_bit_def bit_set_bit_iff bit_unset_bit_iff)

lemma bit_or_bit: "n < 64 \<Longrightarrow> bit (or_bit n b e) k \<longleftrightarrow> (if k = n then bit e k \<or> b else bit e k)"
  by (simp add: or_bit_def bit_put_bit)

lemma bit_get_field: "bit (get_field lo len e) k \<longleftrightarrow> k < len \<and> bit e (lo + k)"
  by (simp add: get_field_def bit_take_bit_iff bit_drop_bit_eq add.commute)

lemma bit_put_field:
  "lo + len \<le> 64 \<Longrightarrow> bit (put_field lo len x e) k \<longleftrightarrow> k < 64 \<and> (if lo \<le> k \<and> k < lo + len then bit x (k - lo) else bit e k)"
  by (auto simp: put_field_def bit_or_iff bit_and_iff bit_not_iff bit_push_bit_iff bit_take_bit_iff bit_mask_iff dest: bit_imp_le_length)

lemma get_put_field: "lo + len \<le> 64 \<Longrightarrow> get_field lo len (put_field lo len x e) = take_bit len x"
  by (rule bit_eqI) (auto simp: bit_get_field bit_put_field bit_take_bit_iff)

lemma get_field_put_bit: "n < 64 \<Longrightarrow> n < lo \<or> lo + len \<le> n \<Longrightarrow> get_field lo len (put_bit n b e) = get_field lo len e"
  by (rule bit_eqI) (auto simp: bit_get_field bit_put_bit)

lemma get_field_or_bit: "n < 64 \<Longrightarrow> n < lo \<or> lo + len \<le> n \<Longrightarrow> get_field lo len (or_bit n b e) = get_field lo len e"
  by (simp add: or_bit_def get_field_put_bit)

lemma get_field_0 [simp]: "get_field lo len 0 = 0"
  by (simp add: get_field_def)

lemmas entry_simps = bit_put_bit bit_or_bit bit_put_field get_put_field get_field_put_bit get_field_or_bit x86_bits

text \<open>A new entry of level 1.\<close>

lemma bit_vm_flag:
  "bit VM_READ n \<longleftrightarrow> n = 0" "bit VM_WRITE n \<longleftrightarrow> n = 1" "bit VM_EXEC n \<longleftrightarrow> n = 2" "bit VM_USER n \<longleftrightarrow> n = 3"
  "bit VM_WRITE_THROUGH n \<longleftrightarrow> n = 4" "bit VM_CACHE_DISABLED n \<longleftrightarrow> n = 5" "bit VM_GLOBAL n \<longleftrightarrow> n = 6"
proof -
  have p: "bit (2 ^ k :: u32) n \<longleftrightarrow> n = k" if "k < 32" for k
    using that by (auto simp: bit_exp_iff)
  show "bit VM_READ n \<longleftrightarrow> n = 0" "bit VM_WRITE n \<longleftrightarrow> n = 1" "bit VM_EXEC n \<longleftrightarrow> n = 2" "bit VM_USER n \<longleftrightarrow> n = 3"
    "bit VM_WRITE_THROUGH n \<longleftrightarrow> n = 4" "bit VM_CACHE_DISABLED n \<longleftrightarrow> n = 5" "bit VM_GLOBAL n \<longleftrightarrow> n = 6"
    using p [of 0] p [of 1] p [of 2] p [of 3] p [of 4] p [of 5] p [of 6]
    by (simp_all add: VM_READ_def VM_WRITE_def VM_EXEC_def VM_USER_def VM_WRITE_THROUGH_def VM_CACHE_DISABLED_def VM_GLOBAL_def)
qed

lemma has_flag_bit:
  "has_flag f VM_WRITE \<longleftrightarrow> bit f 1" "has_flag f VM_EXEC \<longleftrightarrow> bit f 2" "has_flag f VM_USER \<longleftrightarrow> bit f 3"
  "has_flag f VM_WRITE_THROUGH \<longleftrightarrow> bit f 4" "has_flag f VM_CACHE_DISABLED \<longleftrightarrow> bit f 5" "has_flag f VM_GLOBAL \<longleftrightarrow> bit f 6"
proof -
  have "has_flag f w \<longleftrightarrow> bit f k" if "\<And>n. bit w n \<longleftrightarrow> n = k" for w k
    unfolding has_flag_def bit_eq_iff [of "f AND w" 0] by (auto simp: bit_and_iff that dest: bit_imp_le_length)
  then show "has_flag f VM_WRITE \<longleftrightarrow> bit f 1" "has_flag f VM_EXEC \<longleftrightarrow> bit f 2" "has_flag f VM_USER \<longleftrightarrow> bit f 3"
    "has_flag f VM_WRITE_THROUGH \<longleftrightarrow> bit f 4" "has_flag f VM_CACHE_DISABLED \<longleftrightarrow> bit f 5" "has_flag f VM_GLOBAL \<longleftrightarrow> bit f 6"
    using bit_vm_flag by blast+
qed

lemma bit_flag_mask: "bit (0x7E :: u32) n \<longleftrightarrow> 1 \<le> n \<and> n \<le> 6"
proof -
  have "bit (mask 7 AND NOT 1 :: u32) n \<longleftrightarrow> 1 \<le> n \<and> n \<le> 6"
    by (auto simp: bit_and_iff bit_mask_iff bit_not_iff bit_1_iff)
  also have "mask 7 AND NOT 1 = (0x7E :: u32)"
    by (simp add: mask_eq_exp_minus_1)
  finally show ?thesis .
qed

lemma pml1e_flagged:
  fixes e flags
  defines "x \<equiv> platform_pml1e_set_flags e flags"
  shows "platform_pml1e_get_present x = platform_pml1e_get_present e" "platform_pml1e_get_pfn x = platform_pml1e_get_pfn e"
    "platform_pml1e_get_flags x = (flags AND 0x7E) OR VM_READ"
proof -
  show "platform_pml1e_get_present x = platform_pml1e_get_present e" "platform_pml1e_get_pfn x = platform_pml1e_get_pfn e"
    by (simp_all add: x_def platform_pml1e_get_present_def platform_pml1e_get_pfn_def platform_pml1e_set_flags_def entry_simps)
  show "platform_pml1e_get_flags x = (flags AND 0x7E) OR VM_READ"
  proof (rule bit_eqI)
    fix n
    have opt: "bit (if b then w else 0) n \<longleftrightarrow> b \<and> bit w n" "bit (if b then 0 else w) n \<longleftrightarrow> \<not> b \<and> bit w n" for b and w :: u32
      by simp_all
    have x: "bit x X86_WRITABLE = bit flags 1" "bit x X86_NO_EXECUTE = (\<not> bit flags 2)" "bit x X86_USERMODE = bit flags 3"
      "bit x X86_WRITE_THROUGH = bit flags 4" "bit x X86_CACHE_DISABLED = bit flags 5" "bit x X86_GLOBAL = bit flags 6"
      by (simp_all add: x_def platform_pml1e_set_flags_def entry_simps has_flag_bit)
    have "n = 1 \<or> n = 2 \<or> n = 3 \<or> n = 4 \<or> n = 5 \<or> n = 6 \<longleftrightarrow> 1 \<le> n \<and> n \<le> 6"
      by auto
    then show "bit (platform_pml1e_get_flags x) n \<longleftrightarrow> bit ((flags AND 0x7E) OR VM_READ) n"
      unfolding platform_pml1e_get_flags_def bit_or_iff bit_and_iff opt x bit_vm_flag bit_flag_mask by blast
  qed
qed

lemma pml1e_mapped:
  fixes e flags pfn
  defines "x \<equiv> platform_pml1e_set_pfn (platform_pml1e_set_flags (platform_pml1e_set_present e True) flags) pfn"
  shows "platform_pml1e_get_present x" "platform_pml1e_get_pfn x = take_bit 40 pfn"
    "platform_pml1e_get_flags x = (flags AND 0x7E) OR VM_READ"
proof -
  show "platform_pml1e_get_present x" "platform_pml1e_get_pfn x = take_bit 40 pfn"
    by (simp_all add: x_def platform_pml1e_get_present_def platform_pml1e_get_pfn_def platform_pml1e_set_pfn_def
        platform_pml1e_set_flags_def platform_pml1e_set_present_def entry_simps)
  have "platform_pml1e_get_flags x = platform_pml1e_get_flags (platform_pml1e_set_flags (platform_pml1e_set_present e True) flags)"
    by (simp add: x_def platform_pml1e_get_flags_def platform_pml1e_set_pfn_def entry_simps)
  then show "platform_pml1e_get_flags x = (flags AND 0x7E) OR VM_READ"
    by (simp add: pml1e_flagged)
qed

text \<open>Taking flags away from an entry.\<close>

lemma get_flags_bit: "bit (platform_pml1e_get_flags e) n \<Longrightarrow> n \<le> 6"
  by (auto simp: platform_pml1e_get_flags_def bit_or_iff bit_vm_flag split: if_splits)

lemma pml1e_masked:
  "platform_pml1e_get_flags (platform_pml1e_set_flags e (platform_pml1e_get_flags e AND NOT msk)) = (platform_pml1e_get_flags e AND NOT msk) OR VM_READ"
proof (rule bit_eqI)
  fix n
  show "bit (platform_pml1e_get_flags (platform_pml1e_set_flags e (platform_pml1e_get_flags e AND NOT msk))) n \<longleftrightarrow>
      bit ((platform_pml1e_get_flags e AND NOT msk) OR VM_READ) n"
    unfolding pml1e_flagged bit_or_iff bit_and_iff bit_flag_mask bit_vm_flag using get_flags_bit [of e n] by (auto simp: Suc_le_eq)
qed

text \<open>The part of an entry above level 1 that a walk reads.\<close>

definition same_link :: "u64 \<Rightarrow> u64 \<Rightarrow> bool" where
  "same_link e e' \<longleftrightarrow> platform_pmlxe_get_present e' = platform_pmlxe_get_present e \<and>
     platform_pmlxe_get_table e' = platform_pmlxe_get_table e \<and> platform_pmlxe_is_huge e' = platform_pmlxe_is_huge e"

lemmas link_defs = same_link_def platform_pmlxe_get_present_def platform_pmlxe_get_table_def platform_pmlxe_is_huge_def
  platform_pmlxe_set_present_def platform_pmlxe_set_table_def

lemma same_link_refl [simp]: "same_link e e"
  by (simp add: same_link_def)

lemma same_link_set_flags:
  "same_link e (platform_pml4e_set_flags e f)" "same_link e (platform_pml3e_set_flags e f)" "same_link e (platform_pml2e_set_flags e f)"
  by (auto simp: link_defs platform_pml4e_set_flags_def platform_pml3e_set_flags_def platform_pml2e_set_flags_def Let_def entry_simps)

lemma new_link:
  assumes "c < 2 ^ 40"
  shows "platform_pmlxe_get_present (platform_pmlxe_set_table (platform_pmlxe_set_present e True) c)"
    "platform_pmlxe_get_table (platform_pmlxe_set_table (platform_pmlxe_set_present e True) c) = c"
    "\<not> platform_pmlxe_is_huge (platform_pmlxe_set_table (platform_pmlxe_set_present e True) c)"
  using assms by (simp_all add: link_defs entry_simps take_bit_eq_mod mod_word_less)

lemma no_link: "\<not> platform_pmlxe_get_present (platform_pmlxe_set_present e False)" "\<not> platform_pmlxe_get_present 0"
  by (simp_all add: link_defs entry_simps)

section \<open>Page numbers\<close>

definition vpn :: "ptr_t \<Rightarrow> nat" where
  "vpn v = unat v div 4096 mod 2 ^ 36"

lemma vpn_less: "vpn v < 2 ^ 36"
  by (simp add: vpn_def)

lemma pml_index_vpn:
  assumes "1 \<le> l" "l \<le> 4"
  shows "pml_index l v = vpn v div 512 ^ (l - 1) mod 512"
proof -
  have "pml_index l v = unat v div 2 ^ (12 + 9 * (l - 1)) mod 512"
  proof -
    have "drop_bit (12 + 9 * (l - 1)) v AND 0x1FF = take_bit 9 (drop_bit (12 + 9 * (l - 1)) v)"
      by (simp add: take_bit_eq_mask mask_eq_exp_minus_1)
    then show ?thesis
      unfolding pml_index_def by (simp only: unsigned_take_bit_eq unat_drop_bit_eq) (simp add: take_bit_eq_mod drop_bit_eq_div)
  qed
  also have "\<dots> = unat v div 4096 div 512 ^ (l - 1) mod 512"
    by (simp add: power_add power_mult div_mult2_eq)
  also have "\<dots> = unat v div 4096 mod (512 ^ (l - 1) * 512 * 512 ^ (4 - l)) div 512 ^ (l - 1) mod 512"
    by (simp add: mod_mult2_eq mult.assoc)
  also have "512 ^ (l - 1) * 512 * 512 ^ (4 - l) = (512 :: nat) ^ (l - 1 + 1 + (4 - l))"
    by (simp add: power_add)
  also have "l - 1 + 1 + (4 - l) = 4"
    using assms by simp
  finally show ?thesis
    by (simp add: vpn_def)
qed

lemma vpn_add: "vpn (v + n * MOS_PAGE_SIZE) = (vpn v + unat n) mod 2 ^ 36"
proof -
  have "unat (v + n * MOS_PAGE_SIZE) = (unat v + unat n * 4096) mod 2 ^ 64"
    by (simp add: unat_word_ariths mod_simps)
  then have "unat (v + n * MOS_PAGE_SIZE) div 4096 = (unat v + unat n * 4096) div 4096 mod 2 ^ 52"
    using mod_mult2_eq [of "unat v + unat n * 4096" 4096 "2 ^ 52"] by simp
  also have "\<dots> = (unat v div 4096 + unat n) mod 2 ^ 52"
    by (simp add: add.commute)
  finally show ?thesis
    by (simp add: vpn_def mod_simps mod_mod_cancel)
qed

section \<open>Trees of tables\<close>

text \<open>The index of a page in its table at a depth, and the number of that table among the tables of the depth.\<close>

definition tidx :: "nat \<Rightarrow> nat \<Rightarrow> nat" where
  "tidx j x = x div 512 ^ (3 - j) mod 512"

definition tnum :: "nat \<Rightarrow> nat \<Rightarrow> nat" where
  "tnum j x = x div 512 ^ (4 - j)"

lemma tnum_Suc: "j \<le> 3 \<Longrightarrow> tnum (Suc j) x = tnum (Suc j) y \<longleftrightarrow> tnum j x = tnum j y \<and> tidx j x = tidx j y"
proof -
  assume j: "j \<le> 3"
  have "tnum j z = tnum (Suc j) z div 512" "tidx j z = tnum (Suc j) z mod 512" for z
  proof -
    have "4 - j = Suc (3 - j)" "4 - Suc j = 3 - j"
      using j by simp_all
    then show "tnum j z = tnum (Suc j) z div 512" "tidx j z = tnum (Suc j) z mod 512"
      by (simp_all only: tnum_def tidx_def power_Suc2 div_mult2_eq)
  qed
  then show ?thesis
    by (metis div_mult_mod_eq)
qed

lemma tnum_ends [simp]: "x < 2 ^ 36 \<Longrightarrow> tnum 0 x = 0" "tnum 4 x = x"
  by (simp_all add: tnum_def)

lemma tnum_mono: "tnum j x = tnum j y \<Longrightarrow> i \<le> j \<Longrightarrow> j \<le> 4 \<Longrightarrow> tnum i x = tnum i y"
proof (induction j)
  case (Suc j)
  then show ?case
    using tnum_Suc [of j x y] by (cases "i = Suc j") auto
qed simp

text \<open>The table of a page at a depth: 0 is the root, 3 the table of level 1.\<close>

fun tab :: "(u64 \<rightharpoonup> (nat \<Rightarrow> u64)) \<Rightarrow> u64 \<Rightarrow> nat \<Rightarrow> nat \<Rightarrow> u64 option" where
  "tab m r 0 x = Some r"
| "tab m r (Suc j) x = do {
     p \<leftarrow> tab m r j x;
     t \<leftarrow> m p;
     if platform_pmlxe_get_present (t (tidx j x)) then Some (platform_pmlxe_get_table (t (tidx j x))) else None }"

text \<open>The entry of a page; where there is no table it is the entry that a new table would have.\<close>

definition pte :: "(u64 \<rightharpoonup> (nat \<Rightarrow> u64)) \<Rightarrow> u64 \<Rightarrow> nat \<Rightarrow> u64" where
  "pte m r x = (case tab m r 3 x of None \<Rightarrow> 0 | Some p \<Rightarrow> (case m p of None \<Rightarrow> 0 | Some t \<Rightarrow> t (tidx 3 x)))"

definition UPAGES :: nat where
  "UPAGES = 2 ^ 35"

text \<open>The tables of the pages of a process: they exist, form a tree and have no huge pages.\<close>

definition pt_wf :: "(u64 \<rightharpoonup> (nat \<Rightarrow> u64)) \<Rightarrow> u64 \<Rightarrow> bool" where
  "pt_wf m r \<longleftrightarrow>
     (\<forall>j \<le> 3. \<forall>x < UPAGES. \<forall>p. tab m r j x = Some p \<longrightarrow> p \<in> dom m) \<and>
     (\<forall>i \<le> 3. \<forall>j \<le> 3. \<forall>x < UPAGES. \<forall>y < UPAGES. \<forall>p. tab m r i x = Some p \<longrightarrow> tab m r j y = Some p \<longrightarrow> i = j \<and> tnum j x = tnum j y) \<and>
     (\<forall>j \<le> 2. \<forall>x < UPAGES. \<forall>p t. tab m r j x = Some p \<longrightarrow> m p = Some t \<longrightarrow> platform_pmlxe_get_present (t (tidx j x)) \<longrightarrow>
        \<not> platform_pmlxe_is_huge (t (tidx j x)))"

lemma pt_wf_dom: "pt_wf m r \<Longrightarrow> j \<le> 3 \<Longrightarrow> x < UPAGES \<Longrightarrow> tab m r j x = Some p \<Longrightarrow> \<exists>t. m p = Some t"
  unfolding pt_wf_def by blast

lemma pt_wf_inj:
  "pt_wf m r \<Longrightarrow> i \<le> 3 \<Longrightarrow> j \<le> 3 \<Longrightarrow> x < UPAGES \<Longrightarrow> y < UPAGES \<Longrightarrow> tab m r i x = Some p \<Longrightarrow> tab m r j y = Some p \<Longrightarrow>
   i = j \<and> tnum j x = tnum j y"
  unfolding pt_wf_def by blast

lemma tab_cong: "tnum j x = tnum j y \<Longrightarrow> j \<le> 4 \<Longrightarrow> tab m r j x = tab m r j y"
proof (induction j)
  case (Suc j)
  then have "tnum j x = tnum j y" "tidx j x = tidx j y"
    using tnum_Suc [of j x y] by auto
  then show ?case
    using Suc by (simp cong: if_cong)
qed simp

lemma pt_wfI:
  assumes "\<And>j x p. j \<le> 3 \<Longrightarrow> x < UPAGES \<Longrightarrow> tab m r j x = Some p \<Longrightarrow> p \<in> dom m"
    "\<And>i j x y p. i \<le> 3 \<Longrightarrow> j \<le> 3 \<Longrightarrow> x < UPAGES \<Longrightarrow> y < UPAGES \<Longrightarrow> tab m r i x = Some p \<Longrightarrow> tab m r j y = Some p \<Longrightarrow>
       i = j \<and> tnum j x = tnum j y"
    "\<And>j x p t. j \<le> 2 \<Longrightarrow> x < UPAGES \<Longrightarrow> tab m r j x = Some p \<Longrightarrow> m p = Some t \<Longrightarrow> platform_pmlxe_get_present (t (tidx j x)) \<Longrightarrow>
       \<not> platform_pmlxe_is_huge (t (tidx j x))"
  shows "pt_wf m r"
  unfolding pt_wf_def using assms by blast

lemma pte_table: "tab m r 3 x = Some p \<Longrightarrow> m p = Some t \<Longrightarrow> pte m r x = t (tidx 3 x)"
  by (simp add: pte_def)

subsection \<open>Writing an entry\<close>

text \<open>A write that changes no link of the tree.\<close>

lemma tab_links:
  assumes "pt_wf m r" "x < UPAGES" "j \<le> 3" "\<And>p t i. i \<le> 2 \<Longrightarrow> tab m r i x = Some p \<Longrightarrow> m p = Some t \<Longrightarrow>
      \<exists>t'. m' p = Some t' \<and> same_link (t (tidx i x)) (t' (tidx i x))"
  shows "tab m' r j x = tab m r j x"
  using assms(3)
proof (induction j)
  case (Suc j)
  then have IH: "tab m' r j x = tab m r j x" by simp
  show ?case
  proof (cases "tab m r j x")
    case None
    then show ?thesis using IH by simp
  next
    case (Some p)
    obtain t where t: "m p = Some t"
      using pt_wf_dom [OF assms(1) _ assms(2) Some] Suc.prems by auto
    obtain t' where "m' p = Some t'" "same_link (t (tidx j x)) (t' (tidx j x))"
      using assms(4) [OF _ Some t] Suc.prems by auto
    then show ?thesis
      using IH Some t by (auto simp: same_link_def)
  qed
qed simp

lemma link_write:
  assumes "pt_wf m r" "x < UPAGES" "j \<le> 3" "tab m r j x = Some p" "m p = Some t" "j \<le> 2 \<Longrightarrow> same_link (t (tidx j x)) e"
  defines "m' \<equiv> m(p \<mapsto> t(tidx j x := e))"
  shows "\<And>i y. y < UPAGES \<Longrightarrow> i \<le> 3 \<Longrightarrow> tab m' r i y = tab m r i y" "pt_wf m' r"
proof -
  have link: "\<exists>t'. m' q = Some t' \<and> same_link (u (tidx i y)) (t' (tidx i y))"
    if q: "i \<le> 2" "y < UPAGES" "tab m r i y = Some q" "m q = Some u" for q u i y
  proof (cases "q = p")
    case True
    then have "i = j"
      using pt_wf_inj [OF assms(1) _ assms(3) q(2) assms(2) q(3)] assms(4) q(1) by auto
    then show ?thesis
      using True q assms(5,6) by (auto simp: m'_def)
  qed (use q in \<open>simp add: m'_def\<close>)
  show tab: "tab m' r i y = tab m r i y" if "y < UPAGES" "i \<le> 3" for i y
    using tab_links [OF assms(1) that] link that(1) by blast
  have "\<not> platform_pmlxe_is_huge (u (tidx i y))"
    if q: "i \<le> 2" "y < UPAGES" "tab m r i y = Some q" "m' q = Some u" "platform_pmlxe_get_present (u (tidx i y))" for q u i y
  proof -
    obtain u0 where u0: "m q = Some u0"
      using pt_wf_dom [OF assms(1) _ q(2,3)] q(1) by auto
    then have "same_link (u0 (tidx i y)) (u (tidx i y))"
      using link [OF q(1-3) u0] q(4) by auto
    moreover from this have "\<not> platform_pmlxe_is_huge (u0 (tidx i y))"
      using assms(1) q u0 unfolding pt_wf_def same_link_def by blast
    ultimately show ?thesis
      by (simp add: same_link_def)
  qed
  note huge = this
  have d: "dom m' = dom m"
    using assms(5) by (auto simp: m'_def)
  show "pt_wf m' r"
  proof (rule pt_wfI)
    fix i y q
    assume "i \<le> 3" "y < UPAGES" "tab m' r i y = Some q"
    then show "q \<in> dom m'"
      using pt_wf_dom [OF assms(1), of i y q] tab d by auto
  next
    fix i k y z q
    assume "i \<le> 3" "k \<le> 3" "y < UPAGES" "z < UPAGES" "tab m' r i y = Some q" "tab m' r k z = Some q"
    then show "i = k \<and> tnum k y = tnum k z"
      using pt_wf_inj [OF assms(1), of i k y z q] tab by simp
  next
    fix i y q u
    assume "i \<le> 2" "y < UPAGES" "tab m' r i y = Some q" "m' q = Some u" "platform_pmlxe_get_present (u (tidx i y))"
    then show "\<not> platform_pmlxe_is_huge (u (tidx i y))"
      using huge [of i y q u] tab [of y i] by simp
  qed
qed

lemma link_write_pte:
  assumes "pt_wf m r" "x < UPAGES" "j \<le> 2" "tab m r j x = Some p" "m p = Some t" "same_link (t (tidx j x)) e" "y < UPAGES"
  shows "pte (m(p \<mapsto> t(tidx j x := e))) r y = pte m r y"
proof (cases "tab m r 3 y")
  case None
  then show ?thesis
    using link_write(1) [OF assms(1,2) _ assms(4,5), of e y 3] assms(3,6,7) by (simp add: pte_def)
next
  case (Some q)
  then have "q \<noteq> p"
    using pt_wf_inj [OF assms(1) _ _ assms(7,2) Some, of j] assms(3,4) by auto
  then show ?thesis
    using Some link_write(1) [OF assms(1,2) _ assms(4,5), of e y 3] assms(3,6,7) by (simp add: pte_def)
qed

lemma leaf_write_pte:
  assumes "pt_wf m r" "x < UPAGES" "tab m r 3 x = Some p" "m p = Some t" "y < UPAGES"
  shows "pte (m(p \<mapsto> t(tidx 3 x := e))) r y = (if y = x then e else pte m r y)"
proof -
  have tab: "tab (m(p \<mapsto> t(tidx 3 x := e))) r 3 y = tab m r 3 y"
    using link_write(1) [OF assms(1,2) _ assms(3,4), of e y 3] assms(5) by simp
  show ?thesis
  proof (cases "tab m r 3 y = Some p")
    case True
    then have "tnum 3 y = tnum 3 x"
      using pt_wf_inj [OF assms(1) _ _ assms(5,2) True assms(3)] by simp
    then have "tidx 3 y = tidx 3 x \<longleftrightarrow> y = x"
      using tnum_Suc [of 3 y x] by simp
    then show ?thesis
      using True tab assms(4) by (simp add: pte_def)
  next
    case False
    then show ?thesis
      using tab assms(3) by (auto simp: pte_def split: option.split)
  qed
qed

subsection \<open>Adding a table\<close>

lemma tab_down:
  assumes "tab m r i x = None" "i \<le> j"
  shows "tab m r j x = None"
  using assms(2,1) by (induction rule: dec_induct) simp_all

text \<open>The entry of a page at a depth is empty and can be linked to the new table \<open>c\<close>.\<close>

definition can_add :: "(u64 \<rightharpoonup> (nat \<Rightarrow> u64)) \<Rightarrow> u64 \<Rightarrow> nat \<Rightarrow> nat \<Rightarrow> u64 \<Rightarrow> (nat \<Rightarrow> u64) \<Rightarrow> u64 \<Rightarrow> u64 \<Rightarrow> bool" where
  "can_add m r j x p t c e \<longleftrightarrow> pt_wf m r \<and> x < UPAGES \<and> j \<le> 2 \<and> tab m r j x = Some p \<and> m p = Some t \<and>
     \<not> platform_pmlxe_get_present (t (tidx j x)) \<and> m c = None \<and>
     platform_pmlxe_get_present e \<and> platform_pmlxe_get_table e = c \<and> \<not> platform_pmlxe_is_huge e"

lemma add_tab:
  assumes "y < UPAGES" "i \<le> 3" and add: "can_add m r j x p t c e" and m'_def: "m' = m(c \<mapsto> (\<lambda>i. 0), p \<mapsto> t(tidx j x := e))"
  shows "tab m' r i y =
     (if j < i \<and> tnum (Suc j) y = tnum (Suc j) x then (if i = Suc j then Some c else None) else tab m r i y)"
  using assms(2)
proof (induction i)
  case (Suc i)
  have wf: "pt_wf m r" and x: "x < UPAGES" and j: "j \<le> 2" and p: "tab m r j x = Some p" "m p = Some t"
    and c: "m c = None" and e: "platform_pmlxe_get_present e" "platform_pmlxe_get_table e = c"
    using add by (simp_all add: can_add_def)
  have pc: "p \<noteq> c"
    using p(2) c by auto
  have m': "m' p = Some (t(tidx j x := e))" "m' c = Some (\<lambda>i. 0)" "\<And>q. q \<noteq> p \<Longrightarrow> q \<noteq> c \<Longrightarrow> m' q = m q"
    using pc by (simp_all add: m'_def)
  have IH: "tab m' r i y = (if j < i \<and> tnum (Suc j) y = tnum (Suc j) x then (if i = Suc j then Some c else None) else tab m r i y)"
    using Suc.IH [OF Suc_leD [OF Suc.prems]] .
  consider "tnum (Suc j) y = tnum (Suc j) x" "i = j" | "tnum (Suc j) y = tnum (Suc j) x" "i = Suc j"
    | "tnum (Suc j) y = tnum (Suc j) x" "Suc j < i" | "i < j" | "tnum (Suc j) y \<noteq> tnum (Suc j) x" "j \<le> i"
    by linarith
  then show ?case
  proof cases
    case 1
    then have "tab m r j y = Some p" "tidx j y = tidx j x"
      using tnum_Suc [of j y x] tab_cong [of j y x m r] j p(1) by auto
    then show ?thesis
      using IH 1 e m'(1) by simp
  next
    case 2
    then show ?thesis
      using IH m'(2) no_link(2) by simp
  next
    case 3
    then show ?thesis
      using IH by simp
  next
    case 4
    then have "tab m' r i y = tab m r i y"
      using IH by simp
    moreover have "m' q = m q" if q: "tab m r i y = Some q" for q
    proof -
      obtain u where "m q = Some u"
        using pt_wf_dom [OF wf _ assms(1) q] Suc.prems by auto
      moreover have "q \<noteq> p"
        using pt_wf_inj [OF wf _ _ assms(1) x q, of j] p(1) j 4 by auto
      ultimately show ?thesis
        using c m'(3) by (cases "q = c") auto
    qed
    ultimately show ?thesis
      using 4 by (cases "tab m r i y") (auto split: bind_splits)
  next
    case 5
    then have "tab m' r i y = tab m r i y"
      using IH by simp
    moreover have "(m' q = m q) \<or> (i = j \<and> q = p \<and> tidx j y \<noteq> tidx j x)" if q: "tab m r i y = Some q" for q
    proof (cases "q = p")
      case True
      then have "i = j" "tnum j y = tnum j x"
        using pt_wf_inj [OF wf _ _ assms(1) x q, of j] p(1) j Suc.prems by auto
      then show ?thesis
        using True 5 tnum_Suc [of j y x] j by auto
    next
      case False
      moreover obtain u where "m q = Some u"
        using pt_wf_dom [OF wf _ assms(1) q] Suc.prems by auto
      ultimately show ?thesis
        using c m'(3) by (cases "q = c") auto
    qed
    ultimately show ?thesis
      using 5 p(2) m'(1) by (cases "tab m r i y") fastforce+
  qed
qed simp

lemma add_tab_absent:
  assumes "can_add m r j x p t c e" "tnum (Suc j) y = tnum (Suc j) x" "j < i"
  shows "tab m r i y = None"
proof -
  have j: "j \<le> 2" and p: "tab m r j x = Some p" "m p = Some t" and absent: "\<not> platform_pmlxe_get_present (t (tidx j x))"
    using assms(1) by (simp_all add: can_add_def)
  have "tab m r j y = Some p" "tidx j y = tidx j x"
    using assms(2) tnum_Suc [of j y x] tab_cong [of j y x m r] j p(1) by auto
  then have "tab m r (Suc j) y = None"
    using p(2) absent by simp
  then show ?thesis
    using tab_down assms(3) by (meson Suc_leI)
qed

lemma add_tab_pte:
  assumes add: "can_add m r j x p t c e" and y: "y < UPAGES"
  shows "pte (m(c \<mapsto> (\<lambda>i. 0), p \<mapsto> t(tidx j x := e))) r y = pte m r y"
proof (cases "tnum (Suc j) y = tnum (Suc j) x")
  case True
  have j: "j < 3" "p \<noteq> c"
    using add by (auto simp: can_add_def)
  have "pte m r y = 0"
    using add_tab_absent [OF add True j(1)] by (simp add: pte_def)
  then show ?thesis
    using add_tab [OF y _ add refl, of 3] True j by (auto simp: pte_def split: option.split)
next
  case False
  have wf: "pt_wf m r" and x: "x < UPAGES" and j: "j \<le> 2" and p: "tab m r j x = Some p" and c: "m c = None"
    using add by (simp_all add: can_add_def)
  have "q \<noteq> p \<and> q \<noteq> c" if "tab m r 3 y = Some q" for q
    using pt_wf_inj [OF wf _ _ y x that, of j] pt_wf_dom [OF wf _ y that] p j c by auto
  then show ?thesis
    using add_tab [OF y _ add refl, of 3] False by (auto simp: pte_def split: option.split)
qed

lemma add_tab_wf:
  assumes add: "can_add m r j x p t c e"
  shows "pt_wf (m(c \<mapsto> (\<lambda>i. 0), p \<mapsto> t(tidx j x := e))) r" (is "pt_wf ?m r")
proof -
  have wf: "pt_wf m r" and x: "x < UPAGES" and j: "j \<le> 2" and p: "tab m r j x = Some p" "m p = Some t" and c: "m c = None"
    and e: "\<not> platform_pmlxe_is_huge e"
    using add by (simp_all add: can_add_def)
  have new: "q = c \<longleftrightarrow> i = Suc j \<and> tnum (Suc j) y = tnum (Suc j) x" and old: "q \<noteq> c \<Longrightarrow> tab m r i y = Some q"
    if "tab ?m r i y = Some q" "i \<le> 3" "y < UPAGES" for i y q
  proof -
    have "tab m r i y \<noteq> Some c"
      using pt_wf_dom [OF wf that(2,3)] c by fastforce
    then show "q = c \<longleftrightarrow> i = Suc j \<and> tnum (Suc j) y = tnum (Suc j) x" "q \<noteq> c \<Longrightarrow> tab m r i y = Some q"
      using add_tab [OF that(3,2) add refl] that(1) by (auto split: if_splits)
  qed
  show ?thesis
  proof (rule pt_wfI)
    fix i y q
    assume "i \<le> 3" "y < UPAGES" "tab ?m r i y = Some q"
    then show "q \<in> dom ?m"
      using old pt_wf_dom [OF wf] by fastforce
  next
    fix i k y z q
    assume a: "i \<le> 3" "k \<le> 3" "y < UPAGES" "z < UPAGES" "tab ?m r i y = Some q" "tab ?m r k z = Some q"
    show "i = k \<and> tnum k y = tnum k z"
    proof (cases "q = c")
      case True
      then show ?thesis
        using new [OF a(5,1,3)] new [OF a(6,2,4)] by auto
    next
      case False
      then show ?thesis
        using old [OF a(5,1,3)] old [OF a(6,2,4)] pt_wf_inj [OF wf a(1-4)] by blast
    qed
  next
    fix i y q u
    assume a: "i \<le> 2" "y < UPAGES" "tab ?m r i y = Some q" "?m q = Some u" "platform_pmlxe_get_present (u (tidx i y))"
    show "\<not> platform_pmlxe_is_huge (u (tidx i y))"
    proof (cases "q = c")
      case True
      then show ?thesis
        using a(4,5) p(2) c no_link(2) by (auto split: if_splits)
    next
      case False
      then have q: "tab m r i y = Some q"
        using old [OF a(3) _ a(2)] a(1) by simp
      show ?thesis
      proof (cases "q = p")
        case True
        then have "i = j"
          using pt_wf_inj [OF wf _ _ a(2) x q, of j] p(1) a(1) j by auto
        then show ?thesis
          using wf q True a p e unfolding pt_wf_def by (auto split: if_splits)
      next
        case False
        then show ?thesis
          using wf q a \<open>q \<noteq> c\<close> unfolding pt_wf_def by auto
      qed
    qed
  qed
qed

subsection \<open>Removing a table of level 1\<close>

lemma rem_tab:
  assumes wf: "pt_wf m r" and x: "x < UPAGES" and p: "tab m r 2 x = Some p" "m p = Some t" and c: "tab m r 3 x = Some c"
    and e: "\<not> platform_pmlxe_get_present e" and m': "m' = m(c := None, p \<mapsto> t(tidx 2 x := e))" and y: "y < UPAGES" and "i \<le> 3"
  shows "tab m' r i y = (if i = 3 \<and> tnum 3 y = tnum 3 x then None else tab m r i y)"
  using assms(9)
proof (induction i)
  case (Suc i)
  have pc: "p \<noteq> c"
    using pt_wf_inj [OF wf _ _ x x p(1), of 3] c by auto
  have i: "i \<le> 2" "i \<noteq> 3"
    using Suc.prems by auto
  have IH: "tab m' r i y = tab m r i y"
    using Suc.IH i by simp
  have old: "m' q = m q" if "tab m r i y = Some q" "q \<noteq> p" for q
    using pt_wf_inj [OF wf _ _ y x that(1), of 3] c that(2) i pc by (auto simp: m')
  show ?case
  proof (cases "tab m r i y = Some p")
    case True
    then have "i = 2" "tnum 2 y = tnum 2 x"
      using pt_wf_inj [OF wf _ _ y x True p(1)] i by auto
    moreover have "tnum 3 y = tnum 3 x \<longleftrightarrow> tidx 2 y = tidx 2 x"
      using tnum_Suc [of 2 y x] \<open>tnum 2 y = tnum 2 x\<close> by (simp add: numeral_eq_Suc)
    moreover have "m' p = Some (t(tidx 2 x := e))"
      using pc by (simp add: m')
    ultimately show ?thesis
      unfolding tab.simps using IH True e p(2) by auto
  next
    case False
    moreover from this have "\<not> (Suc i = 3 \<and> tnum 3 y = tnum 3 x)"
      using tab_cong [of 2 y x m r] tnum_mono [of 3 y x 2] p(1) by auto
    ultimately show ?thesis
      using IH old by (cases "tab m r i y") auto
  qed
qed simp

lemma rem_tab_pte:
  assumes wf: "pt_wf m r" and x: "x < UPAGES" and p: "tab m r 2 x = Some p" "m p = Some t" and c: "tab m r 3 x = Some c"
    and e: "\<not> platform_pmlxe_get_present e" and m': "m' = m(c := None, p \<mapsto> t(tidx 2 x := e))" and y: "y < UPAGES"
  shows "pte m' r y = (if tnum 3 y = tnum 3 x then 0 else pte m r y)"
proof -
  have "m' q = m q" if "tab m r 3 y = Some q" "tnum 3 y \<noteq> tnum 3 x" for q
  proof -
    have "q \<noteq> p"
      using pt_wf_inj [OF wf _ _ y x that(1), of 2] p(1) by auto
    moreover have "q \<noteq> c"
      using pt_wf_inj [OF wf _ _ y x that(1), of 3] c that(2) by auto
    ultimately show ?thesis
      by (simp add: m')
  qed
  then show ?thesis
    using rem_tab [OF assms, of 3] by (auto simp: pte_def split: option.split)
qed

lemma rem_tab_wf:
  assumes wf: "pt_wf m r" and x: "x < UPAGES" and p: "tab m r 2 x = Some p" "m p = Some t" and c: "tab m r 3 x = Some c"
    and e: "\<not> platform_pmlxe_get_present e" and m': "m' = m(c := None, p \<mapsto> t(tidx 2 x := e))"
  shows "pt_wf m' r"
proof -
  note T = rem_tab [OF wf x p c e m']
  have old: "tab m r i y = Some q" "q \<noteq> c" if "tab m' r i y = Some q" "i \<le> 3" "y < UPAGES" for i y q
  proof -
    have "i = 3 \<and> tnum 3 y = tnum 3 x" if "tab m r i y = Some c"
      using pt_wf_inj [OF wf _ _ \<open>y < UPAGES\<close> x that c] \<open>i \<le> 3\<close> by simp
    then show "tab m r i y = Some q" "q \<noteq> c"
      using T [OF that(3,2)] that(1) by (auto split: if_splits)
  qed
  show ?thesis
  proof (rule pt_wfI)
    fix i y q
    assume "i \<le> 3" "y < UPAGES" "tab m' r i y = Some q"
    then show "q \<in> dom m'"
      using old [of i y q] pt_wf_dom [OF wf, of i y q] by (auto simp: m')
  next
    fix i k y z q
    assume a: "i \<le> 3" "k \<le> 3" "y < UPAGES" "z < UPAGES" "tab m' r i y = Some q" "tab m' r k z = Some q"
    then show "i = k \<and> tnum k y = tnum k z"
      using pt_wf_inj [OF wf a(1-4)] old(1) by blast
  next
    fix i y q u
    assume a: "i \<le> 2" "y < UPAGES" "tab m' r i y = Some q" "m' q = Some u" "platform_pmlxe_get_present (u (tidx i y))"
    have q: "tab m r i y = Some q" "q \<noteq> c"
      using old [OF a(3)] a(1,2) by auto
    show "\<not> platform_pmlxe_is_huge (u (tidx i y))"
      using wf q a p e unfolding pt_wf_def m' by (auto split: if_splits)
  qed
qed

section \<open>Walks\<close>

definition upte :: "pts \<Rightarrow> u64 \<Rightarrow> nat \<Rightarrow> u64" where
  "upte s r x = (if x < UPAGES then pte (pt_mem s) r x else 0)"

definition pt_ok :: "pts \<Rightarrow> u64 \<Rightarrow> bool" where
  "pt_ok s r \<longleftrightarrow> pt_wf (pt_mem s) r \<and> distinct (pt_new s) \<and> (\<forall>c \<in> set (pt_new s). pt_mem s c = None \<and> c < 2 ^ 40)"

definition tab_le :: "pts \<Rightarrow> pts \<Rightarrow> u64 \<Rightarrow> bool" where
  "tab_le s s' r \<longleftrightarrow> (\<forall>j \<le> 3. \<forall>x < UPAGES. \<forall>p. tab (pt_mem s) r j x = Some p \<longrightarrow> tab (pt_mem s') r j x = Some p)"

lemma tab_leD: "tab_le s s' r \<Longrightarrow> j \<le> 3 \<Longrightarrow> x < UPAGES \<Longrightarrow> tab (pt_mem s) r j x = Some p \<Longrightarrow> tab (pt_mem s') r j x = Some p"
  by (simp add: tab_le_def)

text \<open>What a walk does to the pages of its range, in order: the new data, entries and recorded calls.\<close>

type_synonym 'd pstep = "'d \<Rightarrow> ptr_t \<Rightarrow> u64 \<Rightarrow> 'd \<times> u64 \<times> pm_call list"

fun pages :: "'d pstep \<Rightarrow> nat \<Rightarrow> ptr_t \<Rightarrow> 'd \<times> (nat \<Rightarrow> u64) \<times> pm_call list \<Rightarrow> 'd \<times> (nat \<Rightarrow> u64) \<times> pm_call list" where
  "pages step 0 v a = a"
| "pages step (Suc n) v (d, E, L) =
     (let (d', e, l) = step d v (E (vpn v)) in pages step n (v + MOS_PAGE_SIZE) (d', E(vpn v := e), L @ l))"

lemma pages_add: "pages step (n + k) v a = pages step k (v + of_nat n * MOS_PAGE_SIZE) (pages step n v a)"
  by (induction step n v a rule: pages.induct) (simp_all add: algebra_simps split: prod.split)

text \<open>A walk over \<open>n\<close> pages that used at most \<open>k\<close> new tables.\<close>

definition walked :: "'d pstep \<Rightarrow> u64 \<Rightarrow> nat \<Rightarrow> nat \<Rightarrow> 'd walk \<Rightarrow> 'd walk \<Rightarrow> bool" where
  "walked step r n k w w' \<longleftrightarrow> pt_ok (w_pts w') r \<and> tab_le (w_pts w) (w_pts w') r \<and>
     w_vaddr w' = w_vaddr w + of_nat n * MOS_PAGE_SIZE \<and> w_npages w' = w_npages w - of_nat n \<and>
     (w_data w', upte (w_pts w') r, pt_log (w_pts w')) = pages step n (w_vaddr w) (w_data w, upte (w_pts w) r, pt_log (w_pts w)) \<and>
     length (pt_new (w_pts w)) \<le> length (pt_new (w_pts w')) + k"

lemma walked_refl: "pt_ok (w_pts w) r \<Longrightarrow> walked step r 0 k w w"
  by (simp add: walked_def tab_le_def)

lemma walked_trans: "walked step r n k w w' \<Longrightarrow> walked step r n' k' w' w'' \<Longrightarrow> walked step r (n + n') (k + k') w w''"
  by (simp add: walked_def tab_le_def pages_add algebra_simps)

lemma walked_mono: "walked step r n k w w' \<Longrightarrow> k \<le> k' \<Longrightarrow> walked step r n k' w w'"
  by (simp add: walked_def)

text \<open>The entries of a table that are left: \<open>k\<close> entries from the one of the page on.\<close>

definition at_entry :: "nat \<Rightarrow> u64 \<Rightarrow> u64 \<Rightarrow> nat \<Rightarrow> 'd walk \<Rightarrow> bool" where
  "at_entry j r p k w \<longleftrightarrow> w_npages w = 0 \<or> k = 0 \<or>
     (k = 512 - tidx j (vpn (w_vaddr w)) \<and> tab (pt_mem (w_pts w)) r j (vpn (w_vaddr w)) = Some p)"

definition in_range :: "'d walk \<Rightarrow> bool" where
  "in_range w \<longleftrightarrow> vpn (w_vaddr w) + unat (w_npages w) \<le> UPAGES"

lemma in_range_less: "in_range w \<Longrightarrow> w_npages w \<noteq> 0 \<Longrightarrow> vpn (w_vaddr w) < UPAGES"
  using unat_gt_0 [of "w_npages w"] by (auto simp: in_range_def)

lemma advance_range:
  assumes "in_range w" "n \<le> unat (w_npages w)" "w_vaddr w' = w_vaddr w + of_nat n * MOS_PAGE_SIZE" "w_npages w' = w_npages w - of_nat n"
  shows "in_range w'" "unat (w_npages w') = unat (w_npages w) - n" "vpn (w_vaddr w') = vpn (w_vaddr w) + n"
proof -
  have n: "unat (of_nat n :: u64) = n"
    using assms(2) unat_less_2p [of "w_npages w"] by (simp add: unat_of_nat)
  show np: "unat (w_npages w') = unat (w_npages w) - n"
    using assms(2,4) n by (simp add: unat_sub word_le_nat_alt)
  have "vpn (w_vaddr w') = (vpn (w_vaddr w) + n) mod 2 ^ 36"
    using assms(3) n by (simp add: vpn_add)
  then show v: "vpn (w_vaddr w') = vpn (w_vaddr w) + n"
    using assms(1,2) by (simp add: in_range_def UPAGES_def)
  show "in_range w'"
    using assms(1,2) np v by (simp add: in_range_def)
qed

lemma walked_range:
  assumes "walked step r n k w w'" "in_range w" "n \<le> unat (w_npages w)"
  shows "in_range w'" "unat (w_npages w') = unat (w_npages w) - n" "vpn (w_vaddr w') = vpn (w_vaddr w) + n"
proof -
  have "w_vaddr w' = w_vaddr w + of_nat n * MOS_PAGE_SIZE" "w_npages w' = w_npages w - of_nat n"
    using assms(1) by (simp_all add: walked_def)
  then show "in_range w'" "unat (w_npages w') = unat (w_npages w) - n" "vpn (w_vaddr w') = vpn (w_vaddr w) + n"
    using advance_range [OF assms(2,3)] by blast+
qed

text \<open>One entry of a table whose entries stand for \<open>B\<close> pages.\<close>

lemma block_step:
  fixes x n k B :: nat
  assumes "0 < B" "Suc k = 512 - x div B mod 512" "0 < n"
  defines "n1 \<equiv> min n (B - x mod B)"
  shows "0 < n1" "min n (Suc k * B - x mod B) = n1 + min (n - n1) (k * B - (x + n1) mod B)"
    "n1 = n \<or> k = 0 \<or> k = 512 - (x + n1) div B mod 512 \<and> (x + n1) div (512 * B) = x div (512 * B)"
    "n1 = n \<or> (x + n1) mod B = 0"
proof -
  have lt: "x mod B < B"
    using assms(1) by simp
  show "0 < n1"
    using assms(3) lt by (simp add: n1_def)
  have cases: "n1 = n \<or> n1 = B - x mod B \<and> x + n1 = B * (x div B + 1)"
  proof (cases "n \<le> B - x mod B")
    case False
    have "x + (B - x mod B) = B * (x div B) + B"
      using lt mult_div_mod_eq [of B x] by linarith
    then show ?thesis
      using False by (simp add: n1_def)
  qed (simp add: n1_def)
  then show m: "n1 = n \<or> (x + n1) mod B = 0"
    by (metis mod_mult_self1_is_0)
  show "n1 = n \<or> k = 0 \<or> k = 512 - (x + n1) div B mod 512 \<and> (x + n1) div (512 * B) = x div (512 * B)"
  proof (cases "n1 = n \<or> k = 0")
    case False
    then have d: "(x + n1) div B = x div B + 1"
      using cases assms(1) by (metis nonzero_mult_div_cancel_left not_gr0)
    moreover have "x div B mod 512 < 511"
      using assms(2) False by arith
    ultimately have "(x + n1) div B mod 512 = x div B mod 512 + 1" "(x + n1) div B div 512 = x div B div 512"
      by (simp_all add: mod_Suc div_Suc)
    moreover from this have "k = 512 - (x + n1) div B mod 512"
      using assms(2) by arith
    ultimately show ?thesis
      by (simp add: div_mult2_eq mult.commute [of 512 B])
  qed auto
  show "min n (Suc k * B - x mod B) = n1 + min (n - n1) (k * B - (x + n1) mod B)"
  proof -
    have rest: "Suc k * B - x mod B = (B - x mod B) + k * B"
      using lt by simp
    show ?thesis
    proof (cases "n1 = n")
      case True
      then have "n \<le> B - x mod B"
        by (simp add: n1_def min_def split: if_splits)
      then show ?thesis
        using True rest by simp
    next
      case False
      then have "n1 = B - x mod B" "(x + n1) mod B = 0" "n1 \<le> n"
        using cases m by (auto simp: n1_def)
      then show ?thesis
        unfolding rest by simp
    qed
  qed
qed

lemma upte_cong: "(\<And>x. x < UPAGES \<Longrightarrow> pte (pt_mem s') r x = pte (pt_mem s) r x) \<Longrightarrow> upte s' r = upte s r"
  by (auto simp: upte_def)

text \<open>The entry of a page at a depth gets a table, if it has none.\<close>

lemma entry_table:
  assumes "pt_ok s r" "x < UPAGES" "j \<le> 2" "tab (pt_mem s) r j x = Some p" "pt_mem s p = Some t"
    "platform_pmlxe_get_present (t (tidx j x)) \<or> pt_new s \<noteq> []"
  obtains s' child where "get_or_create s p (tidx j x) = Some (s', child)" "pt_ok s' r" "tab_le s s' r" "upte s' r = upte s r"
    "tab (pt_mem s') r (Suc j) x = Some child" "pt_log s' = pt_log s" "length (pt_new s) \<le> length (pt_new s') + 1"
    "\<not> platform_pmlxe_get_present (t (tidx j x)) \<Longrightarrow> add_table s p (tidx j x) = Some (s', child)"
proof (cases "platform_pmlxe_get_present (t (tidx j x))")
  case True
  then show ?thesis
    using that [of s "platform_pmlxe_get_table (t (tidx j x))"] assms
    by (simp add: get_or_create_def read_entry_def tab_le_def)
next
  case False
  let ?i = "tidx j x"
  obtain c cs where new: "pt_new s = c # cs"
    using assms(6) False by (cases "pt_new s") auto
  have wf: "pt_wf (pt_mem s) r" and c: "pt_mem s c = None" "c < 2 ^ 40" "c \<notin> set cs" "distinct cs"
    "\<forall>c' \<in> set cs. pt_mem s c' = None \<and> c' < 2 ^ 40"
    using assms(1) new by (auto simp: pt_ok_def)
  have pc: "p \<noteq> c"
    using assms(5) c(1) by auto
  let ?e = "platform_pmlxe_set_table (platform_pmlxe_set_present (t ?i) True) c"
  define m' where "m' = (pt_mem s)(c \<mapsto> (\<lambda>i. 0), p \<mapsto> t(?i := ?e))"
  let ?s = "s\<lparr>pt_new := cs, pt_mem := m'\<rparr>"
  have add: "can_add (pt_mem s) r j x p t c ?e"
    using wf assms(2-5) False c(1) new_link [OF c(2)] by (simp add: can_add_def)
  have T: "tab m' r i y = (if j < i \<and> tnum (Suc j) y = tnum (Suc j) x then (if i = Suc j then Some c else None)
      else tab (pt_mem s) r i y)" if "y < UPAGES" "i \<le> 3" for i y
    using add_tab [OF that add m'_def] .
  have table: "add_table s p ?i = Some (?s, c)" "get_or_create s p ?i = Some (?s, c)"
    using new False assms(5) pc by (simp_all add: add_table_def get_or_create_def create_page_table_def read_entry_def
        write_entry_def m'_def)
  have "pt_wf m' r"
    using add_tab_wf [OF add] unfolding m'_def .
  then have ok: "pt_ok ?s r"
    using c assms(5) by (auto simp: pt_ok_def m'_def)
  have le: "tab_le s ?s r"
    unfolding tab_le_def
  proof (intro allI impI)
    fix i y q
    assume a: "i \<le> 3" "y < UPAGES" "tab (pt_mem s) r i y = Some q"
    then have "\<not> (j < i \<and> tnum (Suc j) y = tnum (Suc j) x)"
      using add_tab_absent [OF add, of y i] by auto
    then show "tab (pt_mem ?s) r i y = Some q"
      using T [OF a(2,1)] a(3) by simp
  qed
  have "upte ?s r = upte s r"
    using add_tab_pte [OF add] by (intro upte_cong) (simp add: m'_def)
  moreover have "tab (pt_mem ?s) r (Suc j) x = Some c"
    using T [OF assms(2), of "Suc j"] assms(3) by simp
  ultimately show ?thesis
    using that [OF table(2) ok le] table(1) new by simp
qed

text \<open>A traversal of the table of a depth walks over the pages of the range that the table covers.\<close>

definition covered :: "nat \<Rightarrow> 'd walk \<Rightarrow> nat" where
  "covered j w = min (unat (w_npages w)) (512 ^ (4 - j) - vpn (w_vaddr w) mod 512 ^ (4 - j))"

lemma covered_rest:
  assumes "j \<le> 2"
  shows "covered j w = min (unat (w_npages w)) ((512 - tidx j (vpn (w_vaddr w))) * 512 ^ (3 - j) - vpn (w_vaddr w) mod 512 ^ (3 - j))"
proof -
  let ?x = "vpn (w_vaddr w)" and ?B = "512 ^ (3 - j) :: nat"
  have "4 - j = Suc (3 - j)"
    using assms by simp
  then have "(512 :: nat) ^ (4 - j) = ?B * 512"
    by simp
  moreover have "?x mod (?B * 512) = ?B * tidx j ?x + ?x mod ?B"
    by (simp add: mod_mult2_eq tidx_def)
  moreover have "(512 - tidx j ?x) * ?B = ?B * 512 - ?B * tidx j ?x"
    by (simp add: diff_mult_distrib mult.commute)
  ultimately show ?thesis
    by (simp add: covered_def)
qed

definition prepared :: "bool \<Rightarrow> u64 \<Rightarrow> nat \<Rightarrow> nat \<Rightarrow> 'd walk \<Rightarrow> bool" where
  "prepared ro r j n w \<longleftrightarrow> pt_ok (w_pts w) r \<and> in_range w \<and>
     (if ro then \<forall>x. vpn (w_vaddr w) \<le> x \<and> x < vpn (w_vaddr w) + n \<longrightarrow> tab (pt_mem (w_pts w)) r 3 x \<noteq> None
      else (3 - j) * n \<le> length (pt_new (w_pts w)))"

lemma prepared_step:
  assumes "prepared ro r j n w" "walked step r d k w w'" "d + n' \<le> n" "n \<le> unat (w_npages w)" "(3 - j') * n' + k \<le> (3 - j) * n"
  shows "prepared ro r j' n' w'"
proof -
  have w: "in_range w" "d \<le> unat (w_npages w)"
    using assms(1,3,4) by (auto simp: prepared_def)
  note R = walked_range [OF assms(2) w]
  have "tab (pt_mem (w_pts w')) r 3 x \<noteq> None" if ro "vpn (w_vaddr w') \<le> x" "x < vpn (w_vaddr w') + n'" for x
  proof -
    have x: "x < UPAGES"
      using that(3) R(3) assms(3,4) w(1) by (simp add: in_range_def)
    have "tab (pt_mem (w_pts w)) r 3 x \<noteq> None"
      using assms(1,3) that R(3) by (auto simp: prepared_def)
    then show ?thesis
      using assms(2) x by (auto simp: walked_def tab_le_def)
  qed
  then show ?thesis
    using assms(1,2,5) R(1) by (auto simp: prepared_def walked_def)
qed

definition travels :: "'d pstep \<Rightarrow> bool \<Rightarrow> u64 \<Rightarrow> nat \<Rightarrow> (u64 \<Rightarrow> 'd walk \<Rightarrow> 'd walk option) \<Rightarrow> bool" where
  "travels step ro r j traverse \<longleftrightarrow> (\<forall>p w. w_npages w \<noteq> 0 \<longrightarrow> tab (pt_mem (w_pts w)) r j (vpn (w_vaddr w)) = Some p \<longrightarrow>
     prepared ro r j (covered j w) w \<longrightarrow> (\<exists>w'. traverse p w = Some w' \<and> walked step r (covered j w) ((3 - j) * covered j w) w w'))"

locale table_walk =
  fixes opts :: "'d walk_options" and step :: "'d pstep"
  assumes leaf: "pt_mem (w_pts w) p = Some t \<Longrightarrow> step (w_data w) (w_vaddr w) (t i) = (d, e, l) \<Longrightarrow>
      walk_call (wo_pml1e opts) p i w = Some (w\<lparr>w_data := d,
        w_pts := (w_pts w)\<lparr>pt_mem := (pt_mem (w_pts w))(p \<mapsto> t(i := e)), pt_log := pt_log (w_pts w) @ l\<rparr>\<rparr>)"
    and pre: "cb \<in> {wo_pml4e_pre opts, wo_pml3e_pre opts, wo_pml2e_pre opts} \<Longrightarrow> pt_mem (w_pts w) p = Some t \<Longrightarrow>
      \<exists>e. same_link (t i) e \<and> walk_call cb p i w = Some (w\<lparr>w_pts := (w_pts w)\<lparr>pt_mem := (pt_mem (w_pts w))(p \<mapsto> t(i := e))\<rparr>\<rparr>)"
begin

text \<open>One page.\<close>

lemma leaf_walked:
  assumes "pt_ok (w_pts w) r" "w_npages w \<noteq> 0" "vpn (w_vaddr w) < UPAGES" "tab (pt_mem (w_pts w)) r 3 (vpn (w_vaddr w)) = Some p"
  shows "\<exists>w1. walk_call (wo_pml1e opts) p (pml_index 1 (w_vaddr w)) w = Some w1 \<and> walked step r 1 0 w (walk_skip (PMLxE_NPAGES 1) w1)"
proof -
  let ?x = "vpn (w_vaddr w)" and ?s = "w_pts w"
  have wf: "pt_wf (pt_mem ?s) r"
    using assms(1) by (simp add: pt_ok_def)
  obtain t where t: "pt_mem ?s p = Some t"
    using pt_wf_dom [OF wf _ assms(3,4)] by auto
  have i: "pml_index 1 (w_vaddr w) = tidx 3 ?x"
    by (simp add: pml_index_vpn tidx_def)
  obtain d e l where st: "step (w_data w) (w_vaddr w) (t (tidx 3 ?x)) = (d, e, l)"
    by (metis prod_cases3)
  let ?s1 = "?s\<lparr>pt_mem := (pt_mem ?s)(p \<mapsto> t(tidx 3 ?x := e)), pt_log := pt_log ?s @ l\<rparr>"
  have call: "walk_call (wo_pml1e opts) p (pml_index 1 (w_vaddr w)) w = Some (w\<lparr>w_data := d, w_pts := ?s1\<rparr>)"
    unfolding i by (rule leaf [OF t st])
  have W: "tab (pt_mem ?s1) r j y = tab (pt_mem ?s) r j y" "pt_wf (pt_mem ?s1) r" if "y < UPAGES" "j \<le> 3" for j y
    using link_write [OF wf assms(3) _ assms(4) t] that by simp_all
  have ok: "pt_ok ?s1 r"
    using assms(1,3) W(2) t by (auto simp: pt_ok_def)
  have "upte ?s1 r = (upte ?s r)(?x := e)"
    using leaf_write_pte [OF wf assms(3,4) t] assms(3) by (auto simp: upte_def fun_eq_iff)
  moreover have "upte ?s r ?x = t (tidx 3 ?x)"
    using pte_table [OF assms(4) t] assms(3) by (simp add: upte_def)
  moreover have "min (w_npages w) (PMLxE_NPAGES 1) = 1"
    using assms(2) by (auto simp: PMLxE_NPAGES_def min_def word_le_nat_alt word_unat_eq_iff)
  ultimately have "walked step r 1 0 w (walk_skip (PMLxE_NPAGES 1) (w\<lparr>w_data := d, w_pts := ?s1\<rparr>))"
    using ok st W(1) by (simp add: walked_def walk_skip_def tab_le_def)
  then show ?thesis
    using call by blast
qed

lemma pml1_loop_walked:
  assumes "pt_ok (w_pts w) r" "in_range w" "at_entry 3 r p k w"
  shows "\<exists>w'. pml1_loop opts p k w = Some w' \<and> walked step r (min (unat (w_npages w)) k) 0 w w'"
  using assms
proof (induction k arbitrary: w)
  case 0
  then show ?case
    using walked_refl by simp
next
  case (Suc k)
  show ?case
  proof (cases "w_npages w = 0")
    case True
    then show ?thesis
      using walked_refl [OF Suc.prems(1)] by simp
  next
    case False
    let ?x = "vpn (w_vaddr w)"
    have k: "Suc k = 512 - tidx 3 ?x" and p: "tab (pt_mem (w_pts w)) r 3 ?x = Some p" and n: "0 < unat (w_npages w)"
      using Suc.prems(3) False by (auto simp: at_entry_def unat_gt_0)
    have x: "?x < UPAGES"
      using Suc.prems(2) n by (simp add: in_range_def)
    obtain w1 where w1: "walk_call (wo_pml1e opts) p (pml_index 1 (w_vaddr w)) w = Some w1"
      "walked step r 1 0 w (walk_skip (PMLxE_NPAGES 1) w1)"
      using leaf_walked [OF Suc.prems(1) False x p] by blast
    let ?w = "walk_skip (PMLxE_NPAGES 1) w1"
    have r: "in_range ?w" "unat (w_npages ?w) = unat (w_npages w) - 1" "vpn (w_vaddr ?w) = ?x + 1"
      using walked_range [OF w1(2) Suc.prems(2)] n by simp_all
    have "at_entry 3 r p k ?w"
    proof (cases "k = 0 \<or> w_npages ?w = 0")
      case False
      then have "tidx 3 ?x < 511"
        using k by arith
      then have "?x mod 512 < 511"
        by (simp add: tidx_def)
      then have "tidx 3 (?x + 1) = tidx 3 ?x + 1" "tnum 3 (?x + 1) = tnum 3 ?x"
        by (simp_all add: tidx_def tnum_def mod_Suc div_Suc)
      moreover have "tab (pt_mem (w_pts ?w)) r 3 ?x = Some p"
        using w1(2) tab_leD [OF _ _ x p] by (auto simp: walked_def)
      moreover have "k = 512 - (tidx 3 ?x + 1)"
        using k by arith
      ultimately show ?thesis
        using r(3) tab_cong [of 3 "?x + 1" ?x] by (simp add: at_entry_def)
    qed (auto simp: at_entry_def)
    then obtain w' where "pml1_loop opts p k ?w = Some w'" "walked step r (min (unat (w_npages ?w)) k) 0 ?w w'"
      using Suc.IH [of ?w] w1(2) r(1) by (auto simp: walked_def)
    moreover have "1 + min (unat (w_npages ?w)) k = min (unat (w_npages w)) (Suc k)"
      using r(2) n by simp
    ultimately show ?thesis
      using w1 False walked_trans [OF w1(2), of "min (unat (w_npages ?w)) k" 0 w'] by auto
  qed
qed

text \<open>The way down into the table of the next level.\<close>

lemma enter_table:
  assumes "pt_ok (w_pts w) r" "in_range w" "w_npages w \<noteq> 0" "j \<le> 2" "tab (pt_mem (w_pts w)) r j (vpn (w_vaddr w)) = Some p"
    "cb \<in> {wo_pml4e_pre opts, wo_pml3e_pre opts, wo_pml2e_pre opts}" "\<not> ro \<Longrightarrow> pt_new (w_pts w) \<noteq> []"
    "ro \<Longrightarrow> tab (pt_mem (w_pts w)) r (Suc j) (vpn (w_vaddr w)) \<noteq> None"
  obtains child w1 where "walked step r 0 1 w w1" "tab (pt_mem (w_pts w1)) r (Suc j) (vpn (w_vaddr w)) = Some child"
    "\<And>traverse k. pmlx_loop (4 - j) ro cb traverse p (Suc k) w =
       do { w \<leftarrow> traverse child w1; pmlx_loop (4 - j) ro cb traverse p k w }"
proof -
  let ?x = "vpn (w_vaddr w)"
  have x: "?x < UPAGES"
    using assms(2,3) by (rule in_range_less)
  have i: "pml_index (4 - j) (w_vaddr w) = tidx j ?x"
    using assms(4) pml_index_vpn [of "4 - j" "w_vaddr w"] by (simp add: tidx_def)
  have wf: "pt_wf (pt_mem (w_pts w)) r"
    using assms(1) by (simp add: pt_ok_def)
  obtain t where t: "pt_mem (w_pts w) p = Some t"
    using pt_wf_dom [OF wf _ x assms(5)] assms(4) by auto
  have pr: "platform_pmlxe_get_present (t (tidx j ?x))" if ro
    using assms(5,8) that t by (auto split: if_splits)
  obtain s child where s: "get_or_create (w_pts w) p (tidx j ?x) = Some (s, child)" "pt_ok s r" "tab_le (w_pts w) s r"
    "upte s r = upte (w_pts w) r" "tab (pt_mem s) r (Suc j) ?x = Some child" "pt_log s = pt_log (w_pts w)"
    "length (pt_new (w_pts w)) \<le> length (pt_new s) + 1"
    "\<not> platform_pmlxe_get_present (t (tidx j ?x)) \<Longrightarrow> add_table (w_pts w) p (tidx j ?x) = Some (s, child)"
  proof (rule entry_table [OF assms(1) x assms(4,5) t])
    show "platform_pmlxe_get_present (t (tidx j ?x)) \<or> pt_new (w_pts w) \<noteq> []"
      using assms(7) pr by (cases ro) auto
  qed (use that in blast)
  have wf': "pt_wf (pt_mem s) r" and p: "tab (pt_mem s) r j ?x = Some p"
    using s(2) tab_leD [OF s(3) _ x assms(5)] assms(4) by (simp_all add: pt_ok_def)
  obtain u where u: "pt_mem s p = Some u"
    using pt_wf_dom [OF wf' _ x p] assms(4) by auto
  obtain e where e: "same_link (u (tidx j ?x)) e" "walk_call cb p (tidx j ?x) (w\<lparr>w_pts := s\<rparr>) =
      Some (w\<lparr>w_pts := s\<lparr>pt_mem := (pt_mem s)(p \<mapsto> u(tidx j ?x := e))\<rparr>\<rparr>)"
    using pre [OF assms(6), of "w\<lparr>w_pts := s\<rparr>" p u "tidx j ?x"] u by auto
  let ?s1 = "s\<lparr>pt_mem := (pt_mem s)(p \<mapsto> u(tidx j ?x := e))\<rparr>"
  have W: "tab (pt_mem ?s1) r i y = tab (pt_mem s) r i y" "pt_wf (pt_mem ?s1) r" if "y < UPAGES" "i \<le> 3" for i y
    using link_write [OF wf' x _ p u] assms(4) e(1) that by simp_all
  have ok: "pt_ok ?s1 r"
    using s(2) W(2) x u by (auto simp: pt_ok_def)
  have "upte ?s1 r = upte s r"
    using link_write_pte [OF wf' x assms(4) p u e(1)] by (intro upte_cong) simp
  then have w1: "walked step r 0 1 w (w\<lparr>w_pts := ?s1\<rparr>)"
    using ok s(3,4,6,7) W(1) by (simp add: walked_def tab_le_def)
  have child: "tab (pt_mem ?s1) r (Suc j) ?x = Some child"
    using W(1) [OF x, of "Suc j"] s(5) assms(4) by simp
  have "pmlx_loop (4 - j) ro cb traverse p (Suc k) w =
       do { w \<leftarrow> traverse child (w\<lparr>w_pts := ?s1\<rparr>); pmlx_loop (4 - j) ro cb traverse p k w }" for traverse k
    using assms(3) i t s(1,8) e(2) pr by (auto simp: read_entry_def Let_def)
  then show ?thesis
    using that [OF w1] child by simp
qed

lemma pml1_travels: "travels step ro r 3 (pml1_traverse opts)"
  unfolding travels_def
proof (intro allI impI)
  fix p and w :: "'d walk"
  assume a: "w_npages w \<noteq> 0" "tab (pt_mem (w_pts w)) r 3 (vpn (w_vaddr w)) = Some p" "prepared ro r 3 (covered 3 w) w"
  have "at_entry 3 r p (512 - pml_index 1 (w_vaddr w)) w"
    using a(2) by (simp add: at_entry_def pml_index_vpn tidx_def)
  then show "\<exists>w'. pml1_traverse opts p w = Some w' \<and> walked step r (covered 3 w) ((3 - 3) * covered 3 w) w w'"
    using pml1_loop_walked [of w r p] a(3) by (simp add: pml1_traverse_def covered_def prepared_def pml_index_vpn)
qed

lemma pmlx_loop_walked:
  assumes "travels step ro r (Suc j) traverse" "j \<le> 2" "cb \<in> {wo_pml4e_pre opts, wo_pml3e_pre opts, wo_pml2e_pre opts}"
    "at_entry j r p k w" "n = min (unat (w_npages w)) (k * 512 ^ (3 - j) - vpn (w_vaddr w) mod 512 ^ (3 - j))" "prepared ro r j n w"
  shows "\<exists>w'. pmlx_loop (4 - j) ro cb traverse p k w = Some w' \<and> walked step r n ((3 - j) * n) w w'"
  using assms(4-6)
proof (induction k arbitrary: w n)
  case 0
  then show ?case
    by (auto simp: prepared_def intro: walked_refl)
next
  case (Suc k)
  let ?B = "512 ^ (3 - j) :: nat" and ?x = "vpn (w_vaddr w)" and ?np = "unat (w_npages w)"
  show ?case
  proof (cases "w_npages w = 0")
    case True
    then show ?thesis
      using walked_refl [of w r] Suc.prems by (auto simp: prepared_def)
  next
    case False
    then have np: "0 < ?np"
      by (simp add: unat_gt_0)
    have k: "Suc k = 512 - ?x div ?B mod 512" and p: "tab (pt_mem (w_pts w)) r j ?x = Some p"
      using Suc.prems(1) False by (auto simp: at_entry_def tidx_def)
    define n1 where "n1 = min ?np (?B - ?x mod ?B)"
    have B0: "0 < ?B" by simp
    note B = block_step [OF B0 k np, folded n1_def]
    have n: "n = n1 + min (?np - n1) (k * ?B - (?x + n1) mod ?B)"
      using B(2) Suc.prems(2) by simp
    have x: "?x < UPAGES" and ok: "pt_ok (w_pts w) r" "in_range w"
      using Suc.prems(3) in_range_less [OF _ False] by (auto simp: prepared_def)
    have sup: "pt_new (w_pts w) \<noteq> []" if "\<not> ro"
      using Suc.prems(3) that B(1) n assms(2) by (auto simp: prepared_def)
    have deep: "tab (pt_mem (w_pts w)) r (Suc j) ?x \<noteq> None" if ro
    proof
      assume "tab (pt_mem (w_pts w)) r (Suc j) ?x = None"
      then have "tab (pt_mem (w_pts w)) r 3 ?x = None"
        using tab_down [of _ _ "Suc j" _ 3] assms(2) by simp
      then show False
        using Suc.prems(3) that B(1) n by (auto simp: prepared_def)
    qed
    obtain child w1 where w1: "walked step r 0 1 w w1" "tab (pt_mem (w_pts w1)) r (Suc j) ?x = Some child"
      "pmlx_loop (4 - j) ro cb traverse p (Suc k) w = do { w \<leftarrow> traverse child w1; pmlx_loop (4 - j) ro cb traverse p k w }"
      using enter_table [OF ok False assms(2) p assms(3) sup deep] by metis
    have same: "w_vaddr w1 = w_vaddr w" "w_npages w1 = w_npages w" "pt_ok (w_pts w1) r" "tab_le (w_pts w) (w_pts w1) r"
      "length (pt_new (w_pts w)) \<le> length (pt_new (w_pts w1)) + 1"
      using w1(1) by (simp_all add: walked_def)
    have n1: "covered (Suc j) w1 = n1"
      using same by (simp add: covered_def n1_def)
    have j: "3 - j = Suc (2 - j)"
      using assms(2) by simp
    have le: "(3 - j) * n = (2 - j) * n1 + n1 + (3 - j) * (n - n1)" "n1 \<le> n"
    proof -
      have "(3 - j) * (n1 + n2) = (2 - j) * n1 + n1 + (3 - j) * n2" for n2
        by (simp add: j add_mult_distrib2)
      note split = this [of "n - n1"]
      show "n1 \<le> n"
        unfolding n by (rule le_add1)
      then show "(3 - j) * n = (2 - j) * n1 + n1 + (3 - j) * (n - n1)"
        using split by (simp only: le_add_diff_inverse)
    qed
    have np_le: "n \<le> ?np"
      unfolding Suc.prems(2) by (rule min.cobounded1)
    have "3 - Suc j = 2 - j" by simp
    then have "(3 - Suc j) * n1 + 1 \<le> (3 - j) * n"
      using le(1) B(1) by (simp only:)
    then have "prepared ro r (Suc j) (covered (Suc j) w1) w1"
      unfolding n1 using le(2) by (intro prepared_step [OF Suc.prems(3) w1(1) _ np_le]) simp_all
    moreover have "w_npages w1 \<noteq> 0" "tab (pt_mem (w_pts w1)) r (Suc j) (vpn (w_vaddr w1)) = Some child"
      using False w1(2) same(1,2) by simp_all
    ultimately obtain w2 where w2: "traverse child w1 = Some w2" "walked step r n1 ((2 - j) * n1) w1 w2"
      using assms(1) n1 \<open>3 - Suc j = 2 - j\<close> unfolding travels_def by metis
    have w02: "walked step r n1 (1 + (2 - j) * n1) w w2"
      using walked_trans [OF w1(1) w2(2)] by simp
    have r2: "in_range w2" "unat (w_npages w2) = ?np - n1" "vpn (w_vaddr w2) = ?x + n1"
      using walked_range [OF w02 ok(2)] by (simp_all add: n1_def)
    have at2: "at_entry j r p k w2"
    proof (cases "n1 = ?np \<or> k = 0")
      case True
      then show ?thesis
        using r2(2) by (auto simp: at_entry_def unat_eq_zero)
    next
      case False
      have "512 ^ (4 - j) = 512 * ?B"
        using assms(2) by (simp add: power_Suc [symmetric] del: power_Suc)
      then have "tnum j (?x + n1) = tnum j ?x" "k = 512 - tidx j (?x + n1)"
        using B(3) False by (simp_all add: tnum_def tidx_def)
      moreover have "tab (pt_mem (w_pts w2)) r j ?x = Some p"
        using w02 tab_leD [OF _ _ x p] assms(2) by (auto simp: walked_def)
      ultimately show ?thesis
        using r2(3) tab_cong [of j "?x + n1" ?x] assms(2) by (simp add: at_entry_def)
    qed
    have p2: "prepared ro r j (n - n1) w2"
    proof (rule prepared_step [OF Suc.prems(3) w02 _ np_le])
      show "(3 - j) * (n - n1) + (1 + (2 - j) * n1) \<le> (3 - j) * n"
        using le(1) B(1) by linarith
    qed (use le(2) in simp)
    obtain w' where w': "pmlx_loop (4 - j) ro cb traverse p k w2 = Some w'" "walked step r (n - n1) ((3 - j) * (n - n1)) w2 w'"
      using Suc.IH [OF at2 _ p2] n r2 by auto
    have "walked step r n ((3 - j) * n) w w'"
      using walked_mono [OF walked_trans [OF w02 w'(2)], of "(3 - j) * n"] le B(1) by simp
    then show ?thesis
      using w1(3) w2(1) w'(1) by simp
  qed
qed

lemma pmlx_travels:
  assumes "travels step ro r (Suc j) traverse" "j \<le> 2" "cb \<in> {wo_pml4e_pre opts, wo_pml3e_pre opts, wo_pml2e_pre opts}"
  shows "travels step ro r j (\<lambda>p w. pmlx_loop (4 - j) ro cb traverse p (512 - pml_index (4 - j) (w_vaddr w)) w)"
  unfolding travels_def
proof (intro allI impI)
  fix p and w :: "'d walk"
  let ?x = "vpn (w_vaddr w)" and ?B = "512 ^ (3 - j) :: nat"
  assume a: "w_npages w \<noteq> 0" "tab (pt_mem (w_pts w)) r j ?x = Some p" "prepared ro r j (covered j w) w"
  have idx: "pml_index (4 - j) (w_vaddr w) = tidx j ?x"
    using assms(2) pml_index_vpn [of "4 - j" "w_vaddr w"] by (simp add: tidx_def)
  have "covered j w = min (unat (w_npages w)) ((512 - tidx j ?x) * ?B - ?x mod ?B)"
    by (rule covered_rest [OF assms(2)])
  moreover have "at_entry j r p (512 - tidx j ?x) w"
    using a(2) by (simp add: at_entry_def)
  ultimately show "\<exists>w'. pmlx_loop (4 - j) ro cb traverse p (512 - pml_index (4 - j) (w_vaddr w)) w = Some w' \<and>
      walked step r (covered j w) ((3 - j) * covered j w) w w'"
    unfolding idx using pmlx_loop_walked [OF assms] a(3) by blast
qed

lemma pml4_travels: "travels step (wo_readonly opts) r 0 (pml4_traverse opts)"
proof -
  have 2: "travels step (wo_readonly opts) r 2 (pml2_traverse opts)"
    using pmlx_travels [of "wo_readonly opts" r 2 "pml1_traverse opts" "wo_pml2e_pre opts"] pml1_travels
    by (simp add: pml2_traverse_def [abs_def] numeral_eq_Suc)
  have 1: "travels step (wo_readonly opts) r 1 (pml3_traverse opts)"
    using pmlx_travels [of "wo_readonly opts" r 1 "pml2_traverse opts" "wo_pml3e_pre opts"] 2
    by (simp add: pml3_traverse_def [abs_def] numeral_eq_Suc)
  then show ?thesis
    using pmlx_travels [of "wo_readonly opts" r 0 "pml3_traverse opts" "wo_pml4e_pre opts"]
    by (simp add: pml4_traverse_def [abs_def] numeral_eq_Suc)
qed

text \<open>A traversal from the root walks over all pages of a range of the process.\<close>

lemma pml5_walked:
  assumes "prepared (wo_readonly opts) r 0 (unat (w_npages w)) w"
  shows "\<exists>w'. pml5_traverse opts r w = Some w' \<and> walked step r (unat (w_npages w)) (3 * unat (w_npages w)) w w'"
proof (cases "w_npages w = 0")
  case True
  then have "pml5_traverse opts r w = Some w"
    unfolding pml5_traverse_def pml4_traverse_def by (cases "512 - pml_index 4 (w_vaddr w)") simp_all
  then show ?thesis
    using True walked_refl assms by (auto simp: prepared_def)
next
  case False
  have "covered 0 w = unat (w_npages w)"
  proof -
    have "vpn (w_vaddr w) + unat (w_npages w) \<le> 2 ^ 35"
      using assms by (simp add: prepared_def in_range_def UPAGES_def)
    then show ?thesis
      using vpn_less [of "w_vaddr w"] by (simp add: covered_def)
  qed
  then show ?thesis
    using pml4_travels [of r] assms False unfolding travels_def pml5_traverse_def by fastforce
qed

end

end
