(* ===== verification/PtOps.thy ===== *)
theory PtOps
  imports PtWalk
begin

unbundle bit_operations_syntax

text \<open>
  The operations on page tables: mapping, changing and removing pages as changes of the translation from page numbers to frames.
  The callbacks of each operation are shown to fit the interface of a walk; the removal of empty tables leaves the translation
  alone.\<close>

section \<open>Reading\<close>

lemma vpn_align: "vpn (ALIGN_DOWN_TO_PAGE v) = vpn v"
  by (simp add: vpn_def unat_align_down)

lemma index_tidx: "pml_index 4 v = tidx 0 (vpn v)" "pml_index 3 v = tidx 1 (vpn v)" "pml_index 2 v = tidx 2 (vpn v)"
  "pml_index 1 v = tidx 3 (vpn v)" "pml_index (Suc 0) v = tidx 3 (vpn v)"
  by (simp_all add: pml_index_vpn tidx_def)

text \<open>The frame of a page, 0 if it is not mapped.\<close>

definition frame_of :: "pts \<Rightarrow> u64 \<Rightarrow> nat \<Rightarrow> u64" where
  "frame_of s r x = (let e = upte s r x in if platform_pml1e_get_present e then platform_pml1e_get_pfn e else 0)"

lemma not_present_0 [simp]: "\<not> platform_pml1e_get_present 0"
  by (simp add: platform_pml1e_get_present_def)

lemma tab_next:
  assumes "pt_wf m r" "x < UPAGES" "j \<le> 2" "tab m r j x = Some p"
  obtains t where "m p = Some t" "platform_pmlxe_get_present (t (tidx j x)) \<Longrightarrow> \<not> platform_pmlxe_is_huge (t (tidx j x))"
    "tab m r (Suc j) x = (if platform_pmlxe_get_present (t (tidx j x)) then Some (platform_pmlxe_get_table (t (tidx j x))) else None)"
proof -
  obtain t where t: "m p = Some t"
    using pt_wf_dom [OF assms(1) _ assms(2,4)] assms(3) by auto
  show ?thesis
    by (rule that [OF t]) (use assms t in \<open>auto simp: pt_wf_def\<close>)
qed

lemma mm_do_get_pfn_frame:
  assumes "pt_ok s r" "vpn v < UPAGES"
  shows "mm_do_get_pfn s r v = Some (frame_of s r (vpn v))"
proof -
  let ?m = "pt_mem s" and ?x = "vpn v"
  have wf: "pt_wf ?m r"
    using assms(1) by (simp add: pt_ok_def)
  obtain t0 where t0: "?m r = Some t0"
    "tab ?m r 1 ?x = (if platform_pmlxe_get_present (t0 (tidx 0 ?x)) then Some (platform_pmlxe_get_table (t0 (tidx 0 ?x))) else None)"
    using tab_next [OF wf assms(2), of 0 r] by auto
  show ?thesis
  proof (cases "tab ?m r 1 ?x")
    case None
    then have "tab ?m r 3 ?x = None"
      using tab_down [of ?m r 1 ?x 3] by simp
    then show ?thesis
      using None t0 by (simp add: mm_do_get_pfn_def read_entry_def index_tidx vpn_align frame_of_def upte_def pte_def split: if_splits)
  next
    case (Some p1)
    obtain t1 where t1: "?m p1 = Some t1" "platform_pmlxe_get_present (t1 (tidx 1 ?x)) \<Longrightarrow> \<not> platform_pmlxe_is_huge (t1 (tidx 1 ?x))"
      "tab ?m r 2 ?x = (if platform_pmlxe_get_present (t1 (tidx 1 ?x)) then Some (platform_pmlxe_get_table (t1 (tidx 1 ?x))) else None)"
      using tab_next [OF wf assms(2) _ Some] by (auto simp: numeral_eq_Suc)
    show ?thesis
    proof (cases "tab ?m r 2 ?x")
      case None
      then have "tab ?m r 3 ?x = None"
        using tab_down [of ?m r 2 ?x 3] by simp
      then show ?thesis
        using None Some t0 t1
        by (simp add: mm_do_get_pfn_def read_entry_def index_tidx vpn_align frame_of_def upte_def pte_def split: if_splits)
    next
      case S2: (Some p2)
      obtain t2 where t2: "?m p2 = Some t2" "platform_pmlxe_get_present (t2 (tidx 2 ?x)) \<Longrightarrow> \<not> platform_pmlxe_is_huge (t2 (tidx 2 ?x))"
        "tab ?m r 3 ?x = (if platform_pmlxe_get_present (t2 (tidx 2 ?x)) then Some (platform_pmlxe_get_table (t2 (tidx 2 ?x))) else None)"
        using tab_next [OF wf assms(2) _ S2] by (auto simp: numeral_eq_Suc)
      show ?thesis
      proof (cases "tab ?m r 3 ?x")
        case None
        then show ?thesis
          using S2 Some t0 t1 t2
          by (simp add: mm_do_get_pfn_def read_entry_def index_tidx vpn_align frame_of_def upte_def pte_def split: if_splits)
      next
        case S3: (Some p3)
        obtain t3 where "?m p3 = Some t3"
          using pt_wf_dom [OF wf _ assms(2) S3] by auto
        then show ?thesis
          using S3 S2 Some t0 t1 t2 assms(2)
          by (simp add: mm_do_get_pfn_def read_entry_def index_tidx vpn_align frame_of_def upte_def pte_def Let_def split: if_splits)
      qed
    qed
  qed
qed

section \<open>Mapping\<close>

definition mapped_entry :: "u32 \<Rightarrow> u64 \<Rightarrow> u64" where
  "mapped_entry flags pfn = platform_pml1e_set_pfn (platform_pml1e_set_flags (platform_pml1e_set_present 0 True) flags) pfn"

definition map_step :: "do_map_data pstep" where
  "map_step d v e = (d\<lparr>md_pfn := md_pfn d + 1\<rparr>, mapped_entry (md_flags d) (md_pfn d),
     Tlb_Invalidate v # (if md_refcount d then [Pmm_Ref (md_pfn d)] else []))"

lemma set_flags_call:
  assumes "pt_mem (w_pts w) p = Some t" "\<And>e f. same_link e (set_flags e f)"
  shows "\<exists>e. same_link (t i) e \<and> walk_call (Some (set_flags_callback set_flags flags)) p i w =
     Some (w\<lparr>w_pts := (w_pts w)\<lparr>pt_mem := (pt_mem (w_pts w))(p \<mapsto> t(i := e))\<rparr>\<rparr>)"
  using assms by (auto simp: walk_call_def set_flags_callback_def read_entry_def write_entry_def)

interpretation mapw: table_walk pagetable_do_map_callbacks map_step
proof unfold_locales
  fix w :: "do_map_data walk" and p t i d e l
  assume "pt_mem (w_pts w) p = Some t" "map_step (w_data w) (w_vaddr w) (t i) = (d, e, l)"
  then show "walk_call (wo_pml1e pagetable_do_map_callbacks) p i w = Some (w\<lparr>w_data := d,
      w_pts := (w_pts w)\<lparr>pt_mem := (pt_mem (w_pts w))(p \<mapsto> t(i := e)), pt_log := pt_log (w_pts w) @ l\<rparr>\<rparr>)"
    by (auto simp: walk_call_def pagetable_do_map_callbacks_def pml1e_do_map_callback_def read_entry_def write_entry_def
        map_step_def mapped_entry_def pm_record_def platform_pml1e_set_present_def)
next
  fix cb and w :: "do_map_data walk" and p t i
  assume "cb \<in> {wo_pml4e_pre pagetable_do_map_callbacks, wo_pml3e_pre pagetable_do_map_callbacks, wo_pml2e_pre pagetable_do_map_callbacks}"
    "pt_mem (w_pts w) p = Some t"
  then show "\<exists>e. same_link (t i) e \<and> walk_call cb p i w = Some (w\<lparr>w_pts := (w_pts w)\<lparr>pt_mem := (pt_mem (w_pts w))(p \<mapsto> t(i := e))\<rparr>\<rparr>)"
    using set_flags_call [of w p t platform_pml4e_set_flags] set_flags_call [of w p t platform_pml3e_set_flags]
      set_flags_call [of w p t platform_pml2e_set_flags] same_link_set_flags
    unfolding pagetable_do_map_callbacks_def pml2e_do_map_callback_def pml3e_do_map_callback_def pml4e_do_map_callback_def
    by auto
qed

lemma pages_map:
  assumes "vpn v + n \<le> UPAGES"
  shows "pages map_step n v (d, E, L) = (d\<lparr>md_pfn := md_pfn d + of_nat n\<rparr>,
     (\<lambda>x. if vpn v \<le> x \<and> x < vpn v + n then mapped_entry (md_flags d) (md_pfn d + of_nat (x - vpn v)) else E x),
     L @ concat (map (\<lambda>k. Tlb_Invalidate (v + of_nat k * MOS_PAGE_SIZE) # (if md_refcount d then [Pmm_Ref (md_pfn d + of_nat k)] else [])) [0..<n]))"
  using assms
proof (induction n arbitrary: v d E L)
  case (Suc n)
  have v: "vpn (v + MOS_PAGE_SIZE) = vpn v + 1"
    using vpn_add [of v 1] Suc.prems by (simp add: UPAGES_def)
  let ?d = "d\<lparr>md_pfn := md_pfn d + 1\<rparr>"
  let ?l = "\<lambda>v d k. Tlb_Invalidate (v + of_nat k * MOS_PAGE_SIZE) # (if md_refcount d then [Pmm_Ref (md_pfn d + of_nat k)] else [])"
  have "pages map_step (Suc n) v (d, E, L) =
      pages map_step n (v + MOS_PAGE_SIZE) (?d, E(vpn v := mapped_entry (md_flags d) (md_pfn d)), L @ ?l v d 0)"
    by (simp add: map_step_def)
  also have "\<dots> = (?d\<lparr>md_pfn := md_pfn ?d + of_nat n\<rparr>,
     (\<lambda>x. if vpn v + 1 \<le> x \<and> x < vpn v + 1 + n then mapped_entry (md_flags d) (md_pfn d + 1 + of_nat (x - (vpn v + 1)))
        else (E(vpn v := mapped_entry (md_flags d) (md_pfn d))) x),
     (L @ ?l v d 0) @ concat (map (?l (v + MOS_PAGE_SIZE) ?d) [0..<n]))"
    using Suc.IH [of "v + MOS_PAGE_SIZE" ?d] Suc.prems v by (simp cong: if_cong)
  also have "map (?l (v + MOS_PAGE_SIZE) ?d) [0..<n] = map (?l v d) (map Suc [0..<n])"
    by (simp add: algebra_simps)
  also have "(\<lambda>x. if vpn v + 1 \<le> x \<and> x < vpn v + 1 + n then mapped_entry (md_flags d) (md_pfn d + 1 + of_nat (x - (vpn v + 1)))
        else (E(vpn v := mapped_entry (md_flags d) (md_pfn d))) x) =
      (\<lambda>x. if vpn v \<le> x \<and> x < vpn v + Suc n then mapped_entry (md_flags d) (md_pfn d + of_nat (x - vpn v)) else E x)"
  proof
    fix x
    have "md_pfn d + 1 + of_nat (x - (vpn v + 1)) = md_pfn d + of_nat (x - vpn v)" if "vpn v + 1 \<le> x"
      using that by (simp add: of_nat_diff)
    then show "(if vpn v + 1 \<le> x \<and> x < vpn v + 1 + n then mapped_entry (md_flags d) (md_pfn d + 1 + of_nat (x - (vpn v + 1)))
        else (E(vpn v := mapped_entry (md_flags d) (md_pfn d))) x) =
      (if vpn v \<le> x \<and> x < vpn v + Suc n then mapped_entry (md_flags d) (md_pfn d + of_nat (x - vpn v)) else E x)"
      by (cases "x = vpn v") auto
  qed
  finally show ?case
    by (simp add: map_Suc_upt upt_conv_Cons del: upt_Suc)
qed (auto simp: fun_eq_iff)

text \<open>An operation that fits a walk, on a range of the process.\<close>

lemma prepared_start:
  assumes "pt_ok s r" "vpn v + unat n \<le> UPAGES" "3 * unat n \<le> length (pt_new s)"
  shows "prepared False r 0 (unat n) \<lparr>w_pts = s, w_data = d, w_vaddr = v, w_npages = n\<rparr>"
  using assms by (simp add: prepared_def in_range_def)

lemma mapped_entry_pfn: "platform_pml1e_get_present (mapped_entry flags pfn)" "platform_pml1e_get_pfn (mapped_entry flags pfn) = take_bit 40 pfn"
  "platform_pml1e_get_flags (mapped_entry flags pfn) = (flags AND 0x7E) OR VM_READ"
  by (simp_all add: mapped_entry_def pml1e_mapped)

lemma mm_do_map_ok:
  assumes "pt_ok s r" "vpn vaddr + unat n_pages \<le> UPAGES" "3 * unat n_pages \<le> length (pt_new s)"
  shows "\<exists>s'. mm_do_map s r vaddr pfn n_pages flags rc = Some s' \<and> pt_ok s' r \<and> tab_le s s' r \<and>
     upte s' r = (\<lambda>x. if vpn vaddr \<le> x \<and> x < vpn vaddr + unat n_pages then mapped_entry flags (pfn + of_nat (x - vpn vaddr)) else upte s r x) \<and>
     pt_log s' = pt_log s @ concat (map (\<lambda>k. Tlb_Invalidate (vaddr + of_nat k * MOS_PAGE_SIZE) #
       (if rc then [Pmm_Ref (pfn + of_nat k)] else [])) [0..<unat n_pages]) \<and>
     length (pt_new s) \<le> length (pt_new s') + 3 * unat n_pages"
proof -
  let ?w = "\<lparr>w_pts = s, w_data = \<lparr>md_pfn = pfn, md_flags = flags, md_refcount = rc\<rparr>, w_vaddr = vaddr, w_npages = n_pages\<rparr>"
  have "prepared (wo_readonly pagetable_do_map_callbacks) r 0 (unat (w_npages ?w)) ?w"
    using prepared_start [OF assms] by (simp add: pagetable_do_map_callbacks_def)
  then obtain w' where w': "pml5_traverse pagetable_do_map_callbacks r ?w = Some w'"
    "walked map_step r (unat n_pages) (3 * unat n_pages) ?w w'"
    using mapw.pml5_walked by fastforce
  then show ?thesis
    using pages_map [OF assms(2)] by (simp add: mm_do_map_def walked_def cong: if_cong)
qed

section \<open>Changing entries\<close>

text \<open>Operations whose data stays the same treat every page alike.\<close>

lemma pages_each:
  assumes "\<And>v e. step d v e = (d, g e, h v e)" "vpn v + n \<le> UPAGES"
  shows "pages step n v (d, E, L) = (d, (\<lambda>x. if vpn v \<le> x \<and> x < vpn v + n then g (E x) else E x),
     L @ concat (map (\<lambda>k. h (v + of_nat k * MOS_PAGE_SIZE) (E (vpn v + k))) [0..<n]))"
  using assms(2)
proof (induction n arbitrary: v E L)
  case (Suc n)
  have v: "vpn (v + MOS_PAGE_SIZE) = vpn v + 1"
    using vpn_add [of v 1] Suc.prems by (simp add: UPAGES_def)
  let ?E = "E(vpn v := g (E (vpn v)))"
  have "pages step (Suc n) v (d, E, L) = pages step n (v + MOS_PAGE_SIZE) (d, ?E, L @ h v (E (vpn v)))"
    by (simp add: assms(1))
  also have "\<dots> = (d, (\<lambda>x. if vpn v + 1 \<le> x \<and> x < vpn v + 1 + n then g (?E x) else ?E x),
     (L @ h v (E (vpn v))) @ concat (map (\<lambda>k. h (v + MOS_PAGE_SIZE + of_nat k * MOS_PAGE_SIZE) (?E (vpn v + 1 + k))) [0..<n]))"
    using Suc.IH [of "v + MOS_PAGE_SIZE" ?E "L @ h v (E (vpn v))"] Suc.prems unfolding v by (simp del: fun_upd_apply)
  also have "map (\<lambda>k. h (v + MOS_PAGE_SIZE + of_nat k * MOS_PAGE_SIZE) (?E (vpn v + 1 + k))) [0..<n] =
      map (\<lambda>k. h (v + of_nat k * MOS_PAGE_SIZE) (E (vpn v + k))) (map Suc [0..<n])"
    by (simp add: algebra_simps)
  also have "(\<lambda>x. if vpn v + 1 \<le> x \<and> x < vpn v + 1 + n then g (?E x) else ?E x) =
      (\<lambda>x. if vpn v \<le> x \<and> x < vpn v + Suc n then g (E x) else E x)"
    by (auto simp: fun_eq_iff)
  finally show ?case
    by (simp add: map_Suc_upt upt_conv_Cons del: upt_Suc)
qed (auto simp: fun_eq_iff)

definition flag_step :: "u32 pstep" where
  "flag_step d v e = (if platform_pml1e_get_present e then (d, platform_pml1e_set_flags e d, [Tlb_Invalidate v]) else (d, e, []))"

definition mask_step :: "u32 pstep" where
  "mask_step d v e = (if platform_pml1e_get_present e
     then (d, platform_pml1e_set_flags e (platform_pml1e_get_flags e AND NOT d), [Tlb_Invalidate v]) else (d, e, []))"

definition unmap_step :: "bool pstep" where
  "unmap_step d v e = (if platform_pml1e_get_present e
     then (d, 0, (if d then [Pmm_Unref (platform_pml1e_get_pfn e)] else []) @ [Tlb_Invalidate v]) else (d, e, []))"

lemma walk_same:
  fixes w :: "'d walk"
  shows "pt_mem (w_pts w) p = Some t \<Longrightarrow> w\<lparr>w_pts := (w_pts w)\<lparr>pt_mem := (pt_mem (w_pts w))(p \<mapsto> t(i := t i))\<rparr>\<rparr> = w"
  by (simp add: map_upd_triv)

lemma walk_same_data:
  fixes w :: "'d walk"
  shows "pt_mem (w_pts w) p = Some t \<Longrightarrow>
    w\<lparr>w_data := w_data w, w_pts := (w_pts w)\<lparr>pt_mem := (pt_mem (w_pts w))(p \<mapsto> t(i := t i)), pt_log := pt_log (w_pts w) @ []\<rparr>\<rparr> = w"
  by (simp add: map_upd_triv)

interpretation flagw: table_walk pagetable_do_flag_callbacks flag_step
proof unfold_locales
  fix w :: "u32 walk" and p t i d e l
  assume a: "pt_mem (w_pts w) p = Some t" "flag_step (w_data w) (w_vaddr w) (t i) = (d, e, l)"
  show "walk_call (wo_pml1e pagetable_do_flag_callbacks) p i w = Some (w\<lparr>w_data := d,
      w_pts := (w_pts w)\<lparr>pt_mem := (pt_mem (w_pts w))(p \<mapsto> t(i := e)), pt_log := pt_log (w_pts w) @ l\<rparr>\<rparr>)"
  proof (cases "platform_pml1e_get_present (t i)")
    case True
    then show ?thesis
      using a by (auto simp: walk_call_def pagetable_do_flag_callbacks_def pml1e_do_flag_callback_def read_entry_def write_entry_def
          flag_step_def pm_record_def)
  next
    case False
    then have "d = w_data w" "e = t i" "l = []"
      using a(2) by (simp_all add: flag_step_def)
    then show ?thesis
      using a(1) False walk_same_data [OF a(1)]
      by (simp add: walk_call_def pagetable_do_flag_callbacks_def pml1e_do_flag_callback_def read_entry_def map_upd_triv)
  qed
next
  fix cb and w :: "u32 walk" and p t i
  assume "cb \<in> {wo_pml4e_pre pagetable_do_flag_callbacks, wo_pml3e_pre pagetable_do_flag_callbacks, wo_pml2e_pre pagetable_do_flag_callbacks}"
    "pt_mem (w_pts w) p = Some t"
  then show "\<exists>e. same_link (t i) e \<and> walk_call cb p i w = Some (w\<lparr>w_pts := (w_pts w)\<lparr>pt_mem := (pt_mem (w_pts w))(p \<mapsto> t(i := e))\<rparr>\<rparr>)"
    using set_flags_call [of w p t platform_pml4e_set_flags] set_flags_call [of w p t platform_pml3e_set_flags]
      set_flags_call [of w p t platform_pml2e_set_flags] same_link_set_flags
    unfolding pagetable_do_flag_callbacks_def pml2e_do_flag_callback_def pml3e_do_flag_callback_def pml4e_do_flag_callback_def
    by auto
qed

interpretation maskw: table_walk pagetable_do_mask_callbacks mask_step
proof unfold_locales
  fix w :: "u32 walk" and p t i d e l
  assume a: "pt_mem (w_pts w) p = Some t" "mask_step (w_data w) (w_vaddr w) (t i) = (d, e, l)"
  show "walk_call (wo_pml1e pagetable_do_mask_callbacks) p i w = Some (w\<lparr>w_data := d,
      w_pts := (w_pts w)\<lparr>pt_mem := (pt_mem (w_pts w))(p \<mapsto> t(i := e)), pt_log := pt_log (w_pts w) @ l\<rparr>\<rparr>)"
  proof (cases "platform_pml1e_get_present (t i)")
    case True
    then show ?thesis
      using a by (auto simp: walk_call_def pagetable_do_mask_callbacks_def pml1e_do_mask_callback_def read_entry_def write_entry_def
          mask_step_def pm_record_def)
  next
    case False
    then have "d = w_data w" "e = t i" "l = []"
      using a(2) by (simp_all add: mask_step_def)
    then show ?thesis
      using a(1) False walk_same_data [OF a(1)]
      by (simp add: walk_call_def pagetable_do_mask_callbacks_def pml1e_do_mask_callback_def read_entry_def map_upd_triv)
  qed
next
  fix cb and w :: "u32 walk" and p t i
  assume "cb \<in> {wo_pml4e_pre pagetable_do_mask_callbacks, wo_pml3e_pre pagetable_do_mask_callbacks, wo_pml2e_pre pagetable_do_mask_callbacks}"
    and t: "pt_mem (w_pts w) p = Some t"
  then have "walk_call cb p i w = Some w"
    by (auto simp: walk_call_def pagetable_do_mask_callbacks_def)
  then show "\<exists>e. same_link (t i) e \<and> walk_call cb p i w = Some (w\<lparr>w_pts := (w_pts w)\<lparr>pt_mem := (pt_mem (w_pts w))(p \<mapsto> t(i := e))\<rparr>\<rparr>)"
    using walk_same [OF t, of i] by (intro exI [of _ "t i"]) simp
qed

interpretation unmapw: table_walk pagetable_do_unmap_callbacks unmap_step
proof unfold_locales
  fix w :: "bool walk" and p t i d e l
  assume a: "pt_mem (w_pts w) p = Some t" "unmap_step (w_data w) (w_vaddr w) (t i) = (d, e, l)"
  show "walk_call (wo_pml1e pagetable_do_unmap_callbacks) p i w = Some (w\<lparr>w_data := d,
      w_pts := (w_pts w)\<lparr>pt_mem := (pt_mem (w_pts w))(p \<mapsto> t(i := e)), pt_log := pt_log (w_pts w) @ l\<rparr>\<rparr>)"
  proof (cases "platform_pml1e_get_present (t i)")
    case True
    moreover have "platform_pml1e_set_present (t i) False = 0"
      by (simp add: platform_pml1e_set_present_def put_bit_def)
    ultimately show ?thesis
      using a by (auto simp: walk_call_def pagetable_do_unmap_callbacks_def pml1e_do_unmap_callback_def read_entry_def write_entry_def
          unmap_step_def pm_record_def Let_def)
  next
    case False
    then have "d = w_data w" "e = t i" "l = []"
      using a(2) by (simp_all add: unmap_step_def)
    then show ?thesis
      using a(1) False walk_same_data [OF a(1)]
      by (simp add: walk_call_def pagetable_do_unmap_callbacks_def pml1e_do_unmap_callback_def read_entry_def map_upd_triv)
  qed
next
  fix cb and w :: "bool walk" and p t i
  assume "cb \<in> {wo_pml4e_pre pagetable_do_unmap_callbacks, wo_pml3e_pre pagetable_do_unmap_callbacks, wo_pml2e_pre pagetable_do_unmap_callbacks}"
    and t: "pt_mem (w_pts w) p = Some t"
  then have "walk_call cb p i w = Some w"
    by (auto simp: walk_call_def pagetable_do_unmap_callbacks_def pmlxe_do_unmap_callback_def)
  then show "\<exists>e. same_link (t i) e \<and> walk_call cb p i w = Some (w\<lparr>w_pts := (w_pts w)\<lparr>pt_mem := (pt_mem (w_pts w))(p \<mapsto> t(i := e))\<rparr>\<rparr>)"
    using walk_same [OF t, of i] by (intro exI [of _ "t i"]) simp
qed

lemma mm_do_flag_ok:
  assumes "pt_ok s r" "vpn vaddr + unat n_pages \<le> UPAGES" "3 * unat n_pages \<le> length (pt_new s)"
  shows "\<exists>s'. mm_do_flag s r vaddr n_pages flags = Some s' \<and> pt_ok s' r \<and> tab_le s s' r \<and>
     upte s' r = (\<lambda>x. if vpn vaddr \<le> x \<and> x < vpn vaddr + unat n_pages \<and> platform_pml1e_get_present (upte s r x)
       then platform_pml1e_set_flags (upte s r x) flags else upte s r x)"
proof -
  let ?w = "\<lparr>w_pts = s, w_data = flags, w_vaddr = vaddr, w_npages = n_pages\<rparr>"
  have step: "flag_step flags v e = (flags, if platform_pml1e_get_present e then platform_pml1e_set_flags e flags else e,
      if platform_pml1e_get_present e then [Tlb_Invalidate v] else [])" for v e
    by (simp add: flag_step_def)
  have "prepared (wo_readonly pagetable_do_flag_callbacks) r 0 (unat (w_npages ?w)) ?w"
    using prepared_start [OF assms] by (simp add: pagetable_do_flag_callbacks_def)
  then obtain w' where w': "pml5_traverse pagetable_do_flag_callbacks r ?w = Some w'"
    "walked flag_step r (unat n_pages) (3 * unat n_pages) ?w w'"
    using flagw.pml5_walked by fastforce
  then show ?thesis
    using pages_each [of flag_step flags _ _ vaddr "unat n_pages", OF step assms(2)]
    by (auto simp: mm_do_flag_def walked_def fun_eq_iff)
qed

lemma mm_do_mask_flags_ok:
  assumes "pt_ok s r" "vpn vaddr + unat n_pages \<le> UPAGES" "3 * unat n_pages \<le> length (pt_new s)"
  shows "\<exists>s'. mm_do_mask_flags s r vaddr n_pages msk = Some s' \<and> pt_ok s' r \<and> tab_le s s' r \<and>
     upte s' r = (\<lambda>x. if vpn vaddr \<le> x \<and> x < vpn vaddr + unat n_pages \<and> platform_pml1e_get_present (upte s r x)
       then platform_pml1e_set_flags (upte s r x) (platform_pml1e_get_flags (upte s r x) AND NOT msk) else upte s r x) \<and>
     pt_log s' = pt_log s @ concat (map (\<lambda>k. if platform_pml1e_get_present (upte s r (vpn vaddr + k))
       then [Tlb_Invalidate (vaddr + of_nat k * MOS_PAGE_SIZE)] else []) [0..<unat n_pages])"
proof -
  let ?w = "\<lparr>w_pts = s, w_data = msk, w_vaddr = vaddr, w_npages = n_pages\<rparr>"
  have step: "mask_step msk v e = (msk, if platform_pml1e_get_present e
      then platform_pml1e_set_flags e (platform_pml1e_get_flags e AND NOT msk) else e,
      if platform_pml1e_get_present e then [Tlb_Invalidate v] else [])" for v e
    by (simp add: mask_step_def)
  have "prepared (wo_readonly pagetable_do_mask_callbacks) r 0 (unat (w_npages ?w)) ?w"
    using prepared_start [OF assms] by (simp add: pagetable_do_mask_callbacks_def)
  then obtain w' where w': "pml5_traverse pagetable_do_mask_callbacks r ?w = Some w'"
    "walked mask_step r (unat n_pages) (3 * unat n_pages) ?w w'"
    using maskw.pml5_walked by fastforce
  then show ?thesis
    using pages_each [of mask_step msk _ _ vaddr "unat n_pages", OF step assms(2)]
    by (auto simp: mm_do_mask_flags_def walked_def fun_eq_iff)
qed

end
