(* ===== verification/PtUnmap.thy ===== *)
theory PtUnmap
  imports PtOps
begin

unbundle bit_operations_syntax

text \<open>
  Unmapping: the removal of the pages of a range and of the level-1 tables that the range covers, and what the two loops do when a
  table of the range is missing.\<close>

section \<open>Removing the tables of a range\<close>

text \<open>The entry of a page that is present.\<close>

definition upage :: "pts \<Rightarrow> u64 \<Rightarrow> nat \<Rightarrow> u64 option" where
  "upage s r x = (if platform_pml1e_get_present (upte s r x) then Some (upte s r x) else None)"

lemma upage_present: "upage s r x \<noteq> None \<longleftrightarrow> platform_pml1e_get_present (upte s r x)"
  by (simp add: upage_def)

lemma frame_of_upage: "frame_of s r x = (case upage s r x of None \<Rightarrow> 0 | Some e \<Rightarrow> platform_pml1e_get_pfn e)"
  by (simp add: frame_of_def upage_def Let_def)

definition in_pages :: "nat \<Rightarrow> nat \<Rightarrow> nat \<Rightarrow> bool" where
  "in_pages x n y \<longleftrightarrow> x \<le> y \<and> y < x + n"

text \<open>The tables of \<open>n\<close> pages were looked at and some of them freed, no page of which lies outside.\<close>

definition dwalked :: "u64 \<Rightarrow> nat \<Rightarrow> unit walk \<Rightarrow> unit walk \<Rightarrow> bool" where
  "dwalked r n w w' \<longleftrightarrow> pt_ok (w_pts w') r \<and> upage (w_pts w') r = upage (w_pts w) r \<and>
     w_vaddr w' = w_vaddr w + of_nat n * MOS_PAGE_SIZE \<and> w_npages w' = w_npages w - of_nat n \<and> pt_new (w_pts w') = pt_new (w_pts w) \<and>
     (\<forall>j \<le> 3. \<forall>y < UPAGES. j < 3 \<or> \<not> in_pages (vpn (w_vaddr w)) n y \<longrightarrow> tab (pt_mem (w_pts w')) r j y = tab (pt_mem (w_pts w)) r j y) \<and>
     (\<exists>ps. pt_log (w_pts w') = pt_log (w_pts w) @ map Table_Free ps \<and>
        (\<forall>p \<in> set ps. \<forall>y < UPAGES. tab (pt_mem (w_pts w)) r 3 y = Some p \<longrightarrow> in_pages (vpn (w_vaddr w)) n y))"

text \<open>The pages of the range have tables and are not mapped; it is too short for a table of level 2 to be freed.\<close>

definition dprepared :: "u64 \<Rightarrow> nat \<Rightarrow> unit walk \<Rightarrow> bool" where
  "dprepared r n w \<longleftrightarrow> pt_ok (w_pts w) r \<and> in_range w \<and> n \<le> unat (w_npages w) \<and> unat (w_npages w) < 2 ^ 18 \<and>
     (\<forall>y. in_pages (vpn (w_vaddr w)) n y \<longrightarrow> tab (pt_mem (w_pts w)) r 3 y \<noteq> None \<and> upage (w_pts w) r y = None)"

lemma dwalked_range:
  assumes "dwalked r n w w'" "in_range w" "n \<le> unat (w_npages w)"
  shows "in_range w'" "unat (w_npages w') = unat (w_npages w) - n" "vpn (w_vaddr w') = vpn (w_vaddr w) + n"
proof -
  have "w_vaddr w' = w_vaddr w + of_nat n * MOS_PAGE_SIZE" "w_npages w' = w_npages w - of_nat n"
    using assms(1) by (simp_all add: dwalked_def)
  then show "in_range w'" "unat (w_npages w') = unat (w_npages w) - n" "vpn (w_vaddr w') = vpn (w_vaddr w) + n"
    using advance_range [OF assms(2,3)] by blast+
qed

lemma dwalked_refl: "pt_ok (w_pts w) r \<Longrightarrow> dwalked r 0 w w"
  by (auto simp: dwalked_def intro: exI [of _ "[]"])

lemma dwalked_trans:
  assumes "dwalked r n w w1" "dwalked r n' w1 w2" "in_range w" "n \<le> unat (w_npages w)"
  shows "dwalked r (n + n') w w2"
proof -
  note v = dwalked_range(3) [OF assms(1,3,4)]
  obtain ps where ps: "pt_log (w_pts w1) = pt_log (w_pts w) @ map Table_Free ps"
    "\<And>p y. p \<in> set ps \<Longrightarrow> y < UPAGES \<Longrightarrow> tab (pt_mem (w_pts w)) r 3 y = Some p \<Longrightarrow> in_pages (vpn (w_vaddr w)) n y"
    using assms(1) unfolding dwalked_def by blast
  obtain qs where qs: "pt_log (w_pts w2) = pt_log (w_pts w1) @ map Table_Free qs"
    "\<And>p y. p \<in> set qs \<Longrightarrow> y < UPAGES \<Longrightarrow> tab (pt_mem (w_pts w1)) r 3 y = Some p \<Longrightarrow> in_pages (vpn (w_vaddr w1)) n' y"
    using assms(2) unfolding dwalked_def by blast
  have tab1: "tab (pt_mem (w_pts w1)) r j y = tab (pt_mem (w_pts w)) r j y" if "j \<le> 3" "y < UPAGES" "j < 3 \<or> \<not> in_pages (vpn (w_vaddr w)) n y" for j y
    using assms(1) that unfolding dwalked_def by blast
  have tab2: "tab (pt_mem (w_pts w2)) r j y = tab (pt_mem (w_pts w1)) r j y" if "j \<le> 3" "y < UPAGES" "j < 3 \<or> \<not> in_pages (vpn (w_vaddr w1)) n' y" for j y
    using assms(2) that unfolding dwalked_def by blast
  have split: "in_pages (vpn (w_vaddr w)) (n + n') y \<longleftrightarrow> in_pages (vpn (w_vaddr w)) n y \<or> in_pages (vpn (w_vaddr w1)) n' y" for y
    using v by (auto simp: in_pages_def)
  have "in_pages (vpn (w_vaddr w)) (n + n') y" if "p \<in> set (ps @ qs)" "y < UPAGES" "tab (pt_mem (w_pts w)) r 3 y = Some p" for p y
    using that ps(2) [of p y] qs(2) [of p y] tab1 [of 3 y] split by (cases "in_pages (vpn (w_vaddr w)) n y") auto
  moreover have "pt_log (w_pts w2) = pt_log (w_pts w) @ map Table_Free (ps @ qs)"
    using ps(1) qs(1) by simp
  ultimately have "\<exists>ps. pt_log (w_pts w2) = pt_log (w_pts w) @ map Table_Free ps \<and>
        (\<forall>p \<in> set ps. \<forall>y < UPAGES. tab (pt_mem (w_pts w)) r 3 y = Some p \<longrightarrow> in_pages (vpn (w_vaddr w)) (n + n') y)"
    by blast
  moreover have "\<forall>j \<le> 3. \<forall>y < UPAGES. j < 3 \<or> \<not> in_pages (vpn (w_vaddr w)) (n + n') y \<longrightarrow>
      tab (pt_mem (w_pts w2)) r j y = tab (pt_mem (w_pts w)) r j y"
    using tab1 tab2 split by metis
  ultimately show ?thesis
    using assms(1,2) by (simp add: dwalked_def algebra_simps)
qed

lemma dprepared_step:
  assumes "dprepared r n w" "dwalked r d w w'" "d + n' \<le> n"
  shows "dprepared r n' w'"
proof -
  have w: "in_range w" "d \<le> unat (w_npages w)"
    using assms(1,3) by (auto simp: dprepared_def)
  note R = dwalked_range [OF assms(2) w]
  have "tab (pt_mem (w_pts w')) r 3 y \<noteq> None \<and> upage (w_pts w') r y = None" if "in_pages (vpn (w_vaddr w')) n' y" for y
  proof -
    have y: "in_pages (vpn (w_vaddr w)) n y" "\<not> in_pages (vpn (w_vaddr w)) d y" "y < UPAGES"
      using that assms(1,3) R(3) w by (auto simp: in_pages_def dprepared_def in_range_def)
    then show ?thesis
      using assms(1,2) by (auto simp: dprepared_def dwalked_def)
  qed
  then show ?thesis
    using assms R by (auto simp: dprepared_def dwalked_def)
qed

text \<open>What the loop of a level does with the table of one of its entries.\<close>

definition clear_entry :: "u64 \<Rightarrow> nat \<Rightarrow> unit walk \<Rightarrow> unit walk option" where
  "clear_entry p i w = do {
     e \<leftarrow> read_entry (w_pts w) p i;
     s \<leftarrow> write_entry (w_pts w) p i (platform_pmlxe_set_present e False);
     Some (w\<lparr>w_pts := s\<rparr>) }"

definition destroys :: "u64 \<Rightarrow> nat \<Rightarrow> (u64 \<Rightarrow> unit walk \<Rightarrow> (unit walk \<times> bool) option) \<Rightarrow> bool" where
  "destroys r j destroy \<longleftrightarrow> (\<forall>p c w. w_npages w \<noteq> 0 \<longrightarrow> tab (pt_mem (w_pts w)) r j (vpn (w_vaddr w)) = Some p \<longrightarrow>
     tab (pt_mem (w_pts w)) r (Suc j) (vpn (w_vaddr w)) = Some c \<longrightarrow> dprepared r (covered (Suc j) w) w \<longrightarrow>
     (\<exists>w1 z w'. destroy c w = Some (w1, z) \<and> (if z then clear_entry p (tidx j (vpn (w_vaddr w))) w1 else Some w1) = Some w' \<and>
        dwalked r (covered (Suc j) w) w w'))"

subsection \<open>The tables of level 1\<close>

lemma tidx3_next:
  assumes "Suc k = 512 - tidx 3 x" "k \<noteq> 0"
  shows "k = 512 - tidx 3 (x + 1)" "tnum 3 (x + 1) = tnum 3 x"
proof -
  have "x mod 512 < 511"
    using assms by (simp add: tidx_def)
  then have "tidx 3 (x + 1) = tidx 3 x + 1" "tnum 3 (x + 1) = tnum 3 x"
    by (simp_all add: tidx_def tnum_def mod_Suc div_Suc)
  then show "k = 512 - tidx 3 (x + 1)" "tnum 3 (x + 1) = tnum 3 x"
    using assms(1) by simp_all
qed

lemma pml1_destroy_loop_skips:
  assumes "at_entry 3 r p k w" "dprepared r (min (unat (w_npages w)) k) w"
  shows "pml1_destroy_loop p k w = Some (w\<lparr>w_vaddr := w_vaddr w + of_nat (min (unat (w_npages w)) k) * MOS_PAGE_SIZE,
     w_npages := w_npages w - of_nat (min (unat (w_npages w)) k)\<rparr>)"
  using assms
proof (induction k arbitrary: w)
  case (Suc k)
  show ?case
  proof (cases "w_npages w = 0")
    case False
    let ?x = "vpn (w_vaddr w)" and ?s = "w_pts w"
    let ?w = "w\<lparr>w_vaddr := w_vaddr w + MOS_PAGE_SIZE, w_npages := w_npages w - 1\<rparr>"
    have n: "0 < unat (w_npages w)"
      using False by (simp add: unat_gt_0)
    have k: "Suc k = 512 - tidx 3 ?x" and p: "tab (pt_mem ?s) r 3 ?x = Some p"
      using Suc.prems(1) False by (auto simp: at_entry_def)
    have ok: "pt_wf (pt_mem ?s) r" "in_range w" and x: "?x < UPAGES"
      using Suc.prems(2) in_range_less [OF _ False] by (auto simp: dprepared_def pt_ok_def)
    obtain t where t: "pt_mem ?s p = Some t"
      using pt_wf_dom [OF ok(1) _ x p] by auto
    have "upage ?s r ?x = None"
      using Suc.prems(2) n by (auto simp: dprepared_def in_pages_def)
    then have e: "\<not> platform_pml1e_get_present (t (tidx 3 ?x))"
      using pte_table [OF p t] x by (auto simp: upage_def upte_def split: if_splits)
    note R = advance_range [OF ok(2), of 1 ?w]
    have r: "in_range ?w" "unat (w_npages ?w) = unat (w_npages w) - 1" "vpn (w_vaddr ?w) = ?x + 1"
      using R n by simp_all
    have "at_entry 3 r p k ?w"
      using tidx3_next [OF k] r(3) p tab_cong [of 3 "?x + 1" ?x "pt_mem ?s" r] by (auto simp: at_entry_def)
    moreover have "dprepared r (min (unat (w_npages ?w)) k) ?w"
    proof -
      have "in_pages ?x (min (unat (w_npages w)) (Suc k)) y" if "in_pages (?x + 1) (min (unat (w_npages ?w)) k) y" for y
        using that r(2) n by (auto simp: in_pages_def)
      then show ?thesis
        using Suc.prems(2) r n by (auto simp: dprepared_def)
    qed
    ultimately have "pml1_destroy_loop p k ?w = Some (?w\<lparr>w_vaddr := w_vaddr ?w + of_nat (min (unat (w_npages ?w)) k) * MOS_PAGE_SIZE,
       w_npages := w_npages ?w - of_nat (min (unat (w_npages ?w)) k)\<rparr>)"
      by (rule Suc.IH)
    moreover have "min (unat (w_npages w)) (Suc k) = Suc (min (unat (w_npages ?w)) k)"
      using r(2) n by simp
    ultimately show ?thesis
      using False t e by (simp add: read_entry_def mos_assert_def index_tidx PMLxE_NPAGES_def algebra_simps)
  qed simp
qed simp

lemma whole_table: "x mod 512 = 0 \<Longrightarrow> in_pages x 512 y \<longleftrightarrow> tnum 3 y = tnum 3 x"
  by (auto simp: in_pages_def tnum_def)

text \<open>A table of level 1 is freed and the entry that led to it cleared.\<close>

lemma free_table:
  assumes "dprepared r 512 w" "vpn (w_vaddr w) mod 512 = 0"
    "tab (pt_mem (w_pts w)) r 2 (vpn (w_vaddr w)) = Some p" "tab (pt_mem (w_pts w)) r 3 (vpn (w_vaddr w)) = Some c"
    and w1: "w1 = w\<lparr>w_vaddr := w_vaddr w + 512 * MOS_PAGE_SIZE, w_npages := w_npages w - 512, w_pts := destroy_page_table (w_pts w) c\<rparr>"
  shows "\<exists>w'. clear_entry p (tidx 2 (vpn (w_vaddr w))) w1 = Some w' \<and> dwalked r 512 w w'"
proof -
  let ?x = "vpn (w_vaddr w)" and ?s = "w_pts w" and ?m = "pt_mem (w_pts w)"
  have ok: "pt_ok ?s r" "pt_wf ?m r" "in_range w" "512 \<le> unat (w_npages w)"
    using assms(1) by (auto simp: dprepared_def pt_ok_def)
  have x: "?x < UPAGES"
    using ok(3,4) by (simp add: in_range_def)
  obtain t where t: "?m p = Some t"
    using pt_wf_dom [OF ok(2) _ x assms(3)] by auto
  have pc: "p \<noteq> c"
    using pt_wf_inj [OF ok(2) _ _ x x assms(3), of 3] assms(4) by auto
  let ?e = "platform_pmlxe_set_present (t (tidx 2 ?x)) False"
  define m' where "m' = ?m(c := None, p \<mapsto> t(tidx 2 ?x := ?e))"
  let ?s' = "?s\<lparr>pt_mem := m', pt_log := pt_log ?s @ [Table_Free c]\<rparr>"
  let ?w = "w\<lparr>w_pts := ?s', w_vaddr := w_vaddr w + 512 * MOS_PAGE_SIZE, w_npages := w_npages w - 512\<rparr>"
  have clear: "clear_entry p (tidx 2 ?x) w1 = Some ?w"
    using t pc by (simp add: clear_entry_def w1 destroy_page_table_def pm_record_def read_entry_def write_entry_def m'_def)
  note R = ok(2) x assms(3) t assms(4) no_link(1) m'_def
  have tab: "tab m' r j y = (if j = 3 \<and> in_pages ?x 512 y then None else tab ?m r j y)" if "j \<le> 3" "y < UPAGES" for j y
    using rem_tab [OF R that(2,1)] whole_table [OF assms(2)] by simp
  have "pt_ok ?s' r"
    using ok(1) rem_tab_wf [OF R] t by (auto simp: pt_ok_def m'_def)
  moreover have "upage ?s' r = upage ?s r"
  proof
    fix y
    have "upage ?s r y = None" if "in_pages ?x 512 y"
      using assms(1) that by (simp add: dprepared_def)
    moreover have "upte ?s' r y = (if in_pages ?x 512 y then 0 else upte ?s r y)"
      using rem_tab_pte [OF R, of y] whole_table [OF assms(2), of y] by (simp add: upte_def)
    ultimately show "upage ?s' r y = upage ?s r y"
      by (cases "in_pages ?x 512 y") (simp_all add: upage_def)
  qed
  moreover have "in_pages ?x 512 y" if "y < UPAGES" "tab ?m r 3 y = Some c" for y
    using pt_wf_inj [OF ok(2) _ _ that(1) x that(2) assms(4)] whole_table [OF assms(2)] by simp
  ultimately have "dwalked r 512 w ?w"
    using tab by (auto simp: dwalked_def intro!: exI [of _ "[c]"])
  then show ?thesis
    using clear by blast
qed

lemma pml1_destroys: "destroys r 2 pml1_destroy_range"
  unfolding destroys_def
proof (intro allI impI)
  fix p c and w :: "unit walk"
  let ?x = "vpn (w_vaddr w)" and ?n = "covered 3 w"
  assume "w_npages w \<noteq> 0" "tab (pt_mem (w_pts w)) r 2 ?x = Some p" "tab (pt_mem (w_pts w)) r (Suc 2) ?x = Some c"
    "dprepared r (covered (Suc 2) w) w"
  then have a: "tab (pt_mem (w_pts w)) r 2 ?x = Some p" "tab (pt_mem (w_pts w)) r 3 ?x = Some c" "dprepared r ?n w"
    by (simp_all add: numeral_eq_Suc)
  let ?w = "w\<lparr>w_vaddr := w_vaddr w + of_nat ?n * MOS_PAGE_SIZE, w_npages := w_npages w - of_nat ?n\<rparr>"
  define zap where "zap \<longleftrightarrow> ?x mod 512 = 0 \<and> 512 \<le> unat (w_npages w)"
  have n: "?n = min (unat (w_npages w)) (512 - tidx 3 ?x)"
    by (simp add: covered_def tidx_def)
  have "pml1_destroy_loop c (512 - tidx 3 ?x) w = Some ?w"
    using pml1_destroy_loop_skips [of r c "512 - tidx 3 ?x" w] a(2,3) by (simp add: n at_entry_def)
  then have call: "pml1_destroy_range c w = Some (zap_table zap c ?w)"
    by (simp add: zap_def pml1_destroy_range_def index_tidx PMLxE_NPAGES_def tidx_def word_le_nat_alt)
  have "\<exists>w1 z w'. pml1_destroy_range c w = Some (w1, z) \<and> (if z then clear_entry p (tidx 2 ?x) w1 else Some w1) = Some w' \<and> dwalked r ?n w w'"
  proof (cases zap)
    case True
    then have n: "?n = 512"
      by (simp add: covered_def zap_def)
    have prep: "dprepared r 512 w"
      using a(3) n by simp
    then obtain w' where "clear_entry p (tidx 2 ?x) (?w\<lparr>w_pts := destroy_page_table (w_pts w) c\<rparr>) = Some w'" "dwalked r 512 w w'"
      using free_table [OF prep _ a(1,2) refl] True n by (auto simp: zap_def)
    then show ?thesis
      using call True n by (auto simp: zap_table_def)
  next
    case False
    moreover have "dwalked r ?n w ?w"
      using a(3) by (auto simp: dwalked_def dprepared_def intro: exI [of _ "[]"])
    ultimately show ?thesis
      using call by (auto simp: zap_table_def)
  qed
  then show "\<exists>w1 z w'. pml1_destroy_range c w = Some (w1, z) \<and> (if z then clear_entry p (tidx 2 ?x) w1 else Some w1) = Some w' \<and>
      dwalked r (covered (Suc 2) w) w w'"
    by (simp add: numeral_eq_Suc)
qed

subsection \<open>The tables above\<close>

lemma pmlx_destroy_loop_walked:
  assumes "destroys r j destroy" "j \<le> 2" "at_entry j r p k w"
    "n = min (unat (w_npages w)) (k * 512 ^ (3 - j) - vpn (w_vaddr w) mod 512 ^ (3 - j))" "dprepared r n w"
  shows "\<exists>w'. pmlx_destroy_loop (4 - j) destroy p k w = Some w' \<and> dwalked r n w w'"
  using assms(3-5)
proof (induction k arbitrary: w n)
  case 0
  then show ?case
    by (auto simp: dprepared_def intro: dwalked_refl)
next
  case (Suc k)
  let ?B = "512 ^ (3 - j) :: nat" and ?x = "vpn (w_vaddr w)" and ?np = "unat (w_npages w)"
  have ok: "pt_ok (w_pts w) r" "in_range w"
    using Suc.prems(3) by (auto simp: dprepared_def)
  show ?case
  proof (cases "w_npages w = 0")
    case True
    then show ?thesis
      using dwalked_refl [OF ok(1)] Suc.prems by auto
  next
    case False
    then have np: "0 < ?np"
      by (simp add: unat_gt_0)
    have k: "Suc k = 512 - ?x div ?B mod 512" and p: "tab (pt_mem (w_pts w)) r j ?x = Some p"
      using Suc.prems(1) False by (auto simp: at_entry_def tidx_def)
    define n1 where "n1 = min ?np (?B - ?x mod ?B)"
    have B0: "0 < ?B" by simp
    note B = block_step [OF B0 k np, folded n1_def]
    have n: "n = n1 + min (?np - n1) (k * ?B - (?x + n1) mod ?B)"
      using B(2) Suc.prems(2) by simp
    have x: "?x < UPAGES"
      using in_range_less [OF ok(2) False] .
    have n1: "covered (Suc j) w = n1" "n1 \<le> ?np" "n1 \<le> n"
      unfolding n by (simp_all add: covered_def n1_def)
    have "tab (pt_mem (w_pts w)) r 3 ?x \<noteq> None"
      using Suc.prems(3) B(1) n1(3) by (auto simp: dprepared_def in_pages_def)
    then obtain c where c: "tab (pt_mem (w_pts w)) r (Suc j) ?x = Some c"
      using tab_down [of "pt_mem (w_pts w)" r "Suc j" ?x 3] assms(2) by (cases "tab (pt_mem (w_pts w)) r (Suc j) ?x") auto
    obtain t where t: "pt_mem (w_pts w) p = Some t"
      using pt_wf_dom [OF _ _ x p] ok(1) assms(2) by (auto simp: pt_ok_def)
    have e: "platform_pmlxe_get_present (t (tidx j ?x))" "platform_pmlxe_get_table (t (tidx j ?x)) = c"
      using c p t by (auto split: if_splits)
    have "dprepared r (covered (Suc j) w) w"
      unfolding n1(1) using Suc.prems(3) dprepared_step [OF _ dwalked_refl [OF ok(1)], of n n1] n1(3) by simp
    then obtain w1 z w2 where w2: "destroy c w = Some (w1, z)" "(if z then clear_entry p (tidx j ?x) w1 else Some w1) = Some w2"
      "dwalked r n1 w w2"
      using assms(1) False p c n1(1) unfolding destroys_def by metis
    have r2: "in_range w2" "unat (w_npages w2) = ?np - n1" "vpn (w_vaddr w2) = ?x + n1"
      using dwalked_range [OF w2(3) ok(2) n1(2)] by simp_all
    have step: "pmlx_destroy_loop (4 - j) destroy p (Suc k) w = pmlx_destroy_loop (4 - j) destroy p k w2"
    proof -
      have i: "pml_index (4 - j) (w_vaddr w) = tidx j ?x"
        using assms(2) pml_index_vpn [of "4 - j" "w_vaddr w"] by (simp add: tidx_def)
      show ?thesis
        using False t e w2(1,2) by (auto simp: read_entry_def i clear_entry_def Let_def Option.bind_eq_Some_conv split: if_splits)
    qed
    have at2: "at_entry j r p k w2"
    proof (cases "n1 = ?np \<or> k = 0")
      case True
      then show ?thesis
        using r2(2) by (auto simp: at_entry_def unat_eq_zero)
    next
      case more: False
      have "512 ^ (4 - j) = 512 * ?B"
        using assms(2) by (simp add: power_Suc [symmetric] del: power_Suc)
      then have "tnum j (?x + n1) = tnum j ?x" "k = 512 - tidx j (?x + n1)"
        using B(3) more by (simp_all add: tnum_def tidx_def)
      moreover have "tab (pt_mem (w_pts w2)) r j ?x = Some p"
        using w2(3) x p assms(2) by (auto simp: dwalked_def)
      ultimately show ?thesis
        using r2(3) tab_cong [of j "?x + n1" ?x] assms(2) by (simp add: at_entry_def)
    qed
    have p2: "dprepared r (n - n1) w2"
      using dprepared_step [OF Suc.prems(3) w2(3)] n1(3) by simp
    obtain w' where w': "pmlx_destroy_loop (4 - j) destroy p k w2 = Some w'" "dwalked r (n - n1) w2 w'"
      using Suc.IH [OF at2 _ p2] n r2 by auto
    then show ?thesis
      using step dwalked_trans [OF w2(3) w'(2) ok(2) n1(2)] n1(3) by simp
  qed
qed

lemma pmlx_destroy_table:
  assumes "destroys r j destroy" "j \<le> 2" "tab (pt_mem (w_pts w)) r j (vpn (w_vaddr w)) = Some p" "dprepared r (covered j w) w"
  shows "\<exists>w'. pmlx_destroy_loop (4 - j) destroy p (512 - pml_index (4 - j) (w_vaddr w)) w = Some w' \<and> dwalked r (covered j w) w w'"
proof -
  have "pml_index (4 - j) (w_vaddr w) = tidx j (vpn (w_vaddr w))"
    using assms(2) pml_index_vpn [of "4 - j" "w_vaddr w"] by (simp add: tidx_def)
  moreover have "at_entry j r p (512 - tidx j (vpn (w_vaddr w))) w"
    using assms(3) by (simp add: at_entry_def)
  ultimately show ?thesis
    using pmlx_destroy_loop_walked [OF assms(1,2) _ covered_rest [OF assms(2)] assms(4)] by simp
qed

text \<open>The tables of the upper levels stay, as the range is too short for them.\<close>

lemma destroys_keep:
  assumes "\<And>c w. unat (w_npages w) < 2 ^ 18 \<Longrightarrow> destroy' c w =
      do { w' \<leftarrow> pmlx_destroy_loop (4 - Suc j) destroy c (512 - pml_index (4 - Suc j) (w_vaddr w)) w; Some (w', False) }"
    "destroys r (Suc j) destroy" "Suc j \<le> 2"
  shows "destroys r j destroy'"
  unfolding destroys_def
proof (intro allI impI)
  fix p c and w :: "unit walk"
  assume a: "w_npages w \<noteq> 0" "tab (pt_mem (w_pts w)) r j (vpn (w_vaddr w)) = Some p"
    "tab (pt_mem (w_pts w)) r (Suc j) (vpn (w_vaddr w)) = Some c" "dprepared r (covered (Suc j) w) w"
  have "unat (w_npages w) < 2 ^ 18"
    using a(4) by (simp add: dprepared_def)
  moreover obtain w' where w': "pmlx_destroy_loop (4 - Suc j) destroy c (512 - pml_index (4 - Suc j) (w_vaddr w)) w = Some w'"
    "dwalked r (covered (Suc j) w) w w'"
    using pmlx_destroy_table [OF assms(2,3) a(3,4)] by blast
  ultimately have "destroy' c w = Some (w', False)"
    using assms(1) by simp
  then show "\<exists>w1 z w'. destroy' c w = Some (w1, z) \<and> (if z then clear_entry p (tidx j (vpn (w_vaddr w))) w1 else Some w1) = Some w' \<and>
      dwalked r (covered (Suc j) w) w w'"
    using w'(2) by (intro exI [of _ w'] exI [of _ False]) simp
qed

lemma pml2_destroys: "destroys r 1 pml2_destroy_range"
proof (rule destroys_keep [of _ 1 pml1_destroy_range])
  fix c and w :: "unit walk"
  assume "unat (w_npages w) < 2 ^ 18"
  then have "\<not> 512 * PMLxE_NPAGES 2 \<le> w_npages w"
    by (simp add: word_le_nat_alt PMLxE_NPAGES_def)
  then show "pml2_destroy_range c w =
      do { w' \<leftarrow> pmlx_destroy_loop (4 - Suc 1) pml1_destroy_range c (512 - pml_index (4 - Suc 1) (w_vaddr w)) w; Some (w', False) }"
    by (simp add: pml2_destroy_range_def zap_table_def)
qed (use pml1_destroys in \<open>simp_all add: numeral_2_eq_2\<close>)

lemma pml3_destroys: "destroys r 0 pml3_destroy_range"
proof (rule destroys_keep [of _ 0 pml2_destroy_range])
  fix c and w :: "unit walk"
  assume "unat (w_npages w) < 2 ^ 18"
  then have "\<not> 512 * PMLxE_NPAGES 3 \<le> w_npages w"
    by (simp add: word_le_nat_alt PMLxE_NPAGES_def)
  then show "pml3_destroy_range c w =
      do { w' \<leftarrow> pmlx_destroy_loop (4 - Suc 0) pml2_destroy_range c (512 - pml_index (4 - Suc 0) (w_vaddr w)) w; Some (w', False) }"
    by (simp add: pml3_destroy_range_def zap_table_def)
qed (use pml2_destroys in simp_all)

lemma covered_all: "in_range w \<Longrightarrow> covered 0 w = unat (w_npages w)"
  using vpn_less [of "w_vaddr w"] by (simp add: covered_def in_range_def UPAGES_def)

lemma pml5_destroy_walked:
  assumes "dprepared r (unat (w_npages w)) w"
  shows "\<exists>w' z. pml5_destroy_range r w = Some (w', z) \<and> dwalked r (unat (w_npages w)) w w'"
proof -
  have c: "covered 0 w = unat (w_npages w)"
    using assms covered_all [of w] by (simp add: dprepared_def)
  have "unat ((MOS_USER_END_VADDR + 1) div MOS_PAGE_SIZE) = 2 ^ 35"
    by (simp add: MOS_USER_END_VADDR_def unat_div)
  then have "w_npages w \<noteq> (MOS_USER_END_VADDR + 1) div MOS_PAGE_SIZE"
    using assms by (auto simp: dprepared_def)
  moreover obtain w' where "pmlx_destroy_loop 4 pml3_destroy_range r (512 - pml_index 4 (w_vaddr w)) w = Some w'"
    "dwalked r (unat (w_npages w)) w w'"
    using pmlx_destroy_table [OF pml3_destroys, of w r r] assms c by auto
  ultimately show ?thesis
    by (intro exI [of _ w'] exI [of _ False]) (simp add: pml5_destroy_range_def pml4_destroy_range_def zap_table_def)
qed

section \<open>Unmapping a range\<close>

lemma pages_unmap:
  assumes "vpn v + n \<le> UPAGES"
  shows "pages unmap_step n v (d, E, L) = (d, (\<lambda>x. if in_pages (vpn v) n x \<and> platform_pml1e_get_present (E x) then 0 else E x),
     L @ concat (map (\<lambda>k. if platform_pml1e_get_present (E (vpn v + k))
        then (if d then [Pmm_Unref (platform_pml1e_get_pfn (E (vpn v + k)))] else []) @ [Tlb_Invalidate (v + of_nat k * MOS_PAGE_SIZE)]
        else []) [0..<n]))"
proof -
  have "unmap_step d v e = (d, if platform_pml1e_get_present e then 0 else e, if platform_pml1e_get_present e
     then (if d then [Pmm_Unref (platform_pml1e_get_pfn e)] else []) @ [Tlb_Invalidate v] else [])" for v e
    by (simp add: unmap_step_def)
  note pages_each [of unmap_step d "\<lambda>e. if platform_pml1e_get_present e then 0 else e" "\<lambda>v e. if platform_pml1e_get_present e
     then (if d then [Pmm_Unref (platform_pml1e_get_pfn e)] else []) @ [Tlb_Invalidate v] else []", OF this assms]
  then show ?thesis
    by (auto simp: fun_eq_iff in_pages_def)
qed

text \<open>The calls that unmapping a range makes for its pages.\<close>

definition unmap_calls :: "pts \<Rightarrow> u64 \<Rightarrow> ptr_t \<Rightarrow> nat \<Rightarrow> bool \<Rightarrow> pm_call list" where
  "unmap_calls s r v n do_unref = concat (map (\<lambda>k. case upage s r (vpn v + k) of None \<Rightarrow> []
     | Some e \<Rightarrow> (if do_unref then [Pmm_Unref (platform_pml1e_get_pfn e)] else []) @ [Tlb_Invalidate (v + of_nat k * MOS_PAGE_SIZE)]) [0..<n])"

lemma unmap_walked:
  assumes "pt_ok s r" "vpn vaddr + unat n \<le> UPAGES" "\<forall>y. in_pages (vpn vaddr) (unat n) y \<longrightarrow> tab (pt_mem s) r 3 y \<noteq> None"
  shows "\<exists>w. pml5_traverse pagetable_do_unmap_callbacks r \<lparr>w_pts = s, w_data = u, w_vaddr = vaddr, w_npages = n\<rparr> = Some w \<and>
     pt_ok (w_pts w) r \<and> tab_le s (w_pts w) r \<and> pt_log (w_pts w) = pt_log s @ unmap_calls s r vaddr (unat n) u \<and>
     upage (w_pts w) r = (\<lambda>y. if in_pages (vpn vaddr) (unat n) y then None else upage s r y)"
proof -
  let ?w = "\<lparr>w_pts = s, w_data = u, w_vaddr = vaddr, w_npages = n\<rparr>"
  have "prepared (wo_readonly pagetable_do_unmap_callbacks) r 0 (unat (w_npages ?w)) ?w"
    using assms by (simp add: pagetable_do_unmap_callbacks_def prepared_def in_range_def in_pages_def)
  then obtain w where w: "pml5_traverse pagetable_do_unmap_callbacks r ?w = Some w"
    "walked unmap_step r (unat n) (3 * unat n) ?w w"
    using unmapw.pml5_walked by fastforce
  have e: "upte (w_pts w) r = (\<lambda>y. if in_pages (vpn vaddr) (unat n) y \<and> platform_pml1e_get_present (upte s r y) then 0 else upte s r y)"
    and l: "pt_log (w_pts w) = pt_log s @ unmap_calls s r vaddr (unat n) u"
    using w(2) pages_unmap [OF assms(2)] by (simp_all add: walked_def unmap_calls_def upage_def if_distrib [of "case_option _ _"] cong: if_cong)
  have "upage (w_pts w) r = (\<lambda>y. if in_pages (vpn vaddr) (unat n) y then None else upage s r y)"
    by (rule ext) (simp add: upage_def e)
  then show ?thesis
    using w l by (simp add: walked_def)
qed

lemma mm_do_unmap_ok:
  assumes "pt_ok s r" "vpn vaddr + unat n \<le> UPAGES" "unat n < 2 ^ 18" "\<forall>y. in_pages (vpn vaddr) (unat n) y \<longrightarrow> tab (pt_mem s) r 3 y \<noteq> None"
  shows "\<exists>s' ps. mm_do_unmap s r vaddr n u = Some s' \<and> pt_ok s' r \<and>
     upage s' r = (\<lambda>y. if in_pages (vpn vaddr) (unat n) y then None else upage s r y) \<and>
     pt_log s' = pt_log s @ unmap_calls s r vaddr (unat n) u @ map Table_Free ps \<and>
     (\<forall>p \<in> set ps. \<forall>y < UPAGES. tab (pt_mem s) r 3 y = Some p \<longrightarrow> in_pages (vpn vaddr) (unat n) y)"
proof -
  obtain w where w: "pml5_traverse pagetable_do_unmap_callbacks r \<lparr>w_pts = s, w_data = u, w_vaddr = vaddr, w_npages = n\<rparr> = Some w"
    "pt_ok (w_pts w) r" "tab_le s (w_pts w) r" "pt_log (w_pts w) = pt_log s @ unmap_calls s r vaddr (unat n) u"
    "upage (w_pts w) r = (\<lambda>y. if in_pages (vpn vaddr) (unat n) y then None else upage s r y)"
    using unmap_walked [OF assms(1,2,4)] by blast
  let ?w = "\<lparr>w_pts = w_pts w, w_data = (), w_vaddr = vaddr, w_npages = n\<rparr>"
  have le: "tab (pt_mem (w_pts w)) r 3 y = Some p" if "y < UPAGES" "tab (pt_mem s) r 3 y = Some p" for y p
    using tab_leD [OF w(3) _ that] by simp
  have "tab (pt_mem (w_pts w)) r 3 y \<noteq> None" if "in_pages (vpn vaddr) (unat n) y" for y
    using assms(2,4) that le [of y] by (fastforce simp: in_pages_def)
  then have "dprepared r (unat (w_npages ?w)) ?w"
    using assms(2,3) w(2,5) by (simp add: dprepared_def in_range_def)
  then obtain w' z where w': "pml5_destroy_range r ?w = Some (w', z)" "dwalked r (unat n) ?w w'"
    using pml5_destroy_walked [of r ?w] by auto
  obtain ps where ps: "pt_log (w_pts w') = pt_log (w_pts w) @ map Table_Free ps"
    "\<And>p y. p \<in> set ps \<Longrightarrow> y < UPAGES \<Longrightarrow> tab (pt_mem (w_pts w)) r 3 y = Some p \<Longrightarrow> in_pages (vpn vaddr) (unat n) y"
    using w'(2) unfolding dwalked_def by auto
  have "mm_do_unmap s r vaddr n u = Some (w_pts w')"
    using w(1) w'(1) by (simp add: mm_do_unmap_def)
  then show ?thesis
    using w'(2) w(4,5) ps le by (intro exI [of _ "w_pts w'"] exI [of _ ps]) (auto simp: dwalked_def)
qed

section \<open>Missing tables\<close>

lemma walk_skip_all:
  assumes "unat (w_npages w) \<le> 512" "512 \<le> unat k"
  shows "w_npages (walk_skip k w) = 0" "w_pts (walk_skip k w) = w_pts w"
proof -
  have "w_npages w \<le> k"
    using assms by (simp add: word_le_nat_alt)
  then show "w_npages (walk_skip k w) = 0" "w_pts (walk_skip k w) = w_pts w"
    by (simp_all add: walk_skip_def Let_def min_def)
qed

lemma loop_done: "w_npages w = 0 \<Longrightarrow> pmlx_loop l ro cb traverse p k w = Some w" "w_npages w' = 0 \<Longrightarrow> pmlx_destroy_loop l destroy p k w' = Some w'"
  by (cases k; simp)+

text \<open>A range of at most 512 pages that starts at a page without table: the loops take all of it for the span of one entry.\<close>

definition skips :: "'d walk \<Rightarrow> 'd walk option \<Rightarrow> bool" where
  "skips w o' \<longleftrightarrow> (\<exists>w'. o' = Some w' \<and> w_npages w' = 0 \<and> w_pts w' = w_pts w)"

definition no_table :: "u64 \<Rightarrow> 'd walk \<Rightarrow> bool" where
  "no_table r w \<longleftrightarrow> pt_wf (pt_mem (w_pts w)) r \<and> vpn (w_vaddr w) < UPAGES \<and> w_npages w \<noteq> 0 \<and> unat (w_npages w) \<le> 512 \<and>
     tab (pt_mem (w_pts w)) r 3 (vpn (w_vaddr w)) = None"

lemma npages_512: "j \<le> 2 \<Longrightarrow> 512 \<le> unat (PMLxE_NPAGES (4 - j))"
proof -
  assume "j \<le> 2"
  then have "j = 0 \<or> j = 1 \<or> j = 2" by arith
  then show ?thesis by (auto simp: PMLxE_NPAGES_def)
qed

lemma table_entry:
  assumes "no_table r w" "j \<le> 2" "tab (pt_mem (w_pts w)) r j (vpn (w_vaddr w)) = Some p"
  obtains t k where "pt_mem (w_pts w) p = Some t" "pml_index (4 - j) (w_vaddr w) = tidx j (vpn (w_vaddr w))"
    "512 - tidx j (vpn (w_vaddr w)) = Suc k"
    "tab (pt_mem (w_pts w)) r (Suc j) (vpn (w_vaddr w)) = (if platform_pmlxe_get_present (t (tidx j (vpn (w_vaddr w))))
       then Some (platform_pmlxe_get_table (t (tidx j (vpn (w_vaddr w))))) else None)"
proof -
  let ?x = "vpn (w_vaddr w)"
  have wf: "pt_wf (pt_mem (w_pts w)) r" and x: "?x < UPAGES"
    using assms(1) by (simp_all add: no_table_def)
  have "tidx j ?x < 512"
    by (simp add: tidx_def)
  then have "512 - tidx j ?x = Suc (511 - tidx j ?x)"
    by simp
  moreover have "pml_index (4 - j) (w_vaddr w) = tidx j ?x"
    using assms(2) pml_index_vpn [of "4 - j" "w_vaddr w"] by (simp add: tidx_def)
  ultimately show ?thesis
    using that tab_next [OF wf x assms(2,3)] by metis
qed

lemma pmlx_loop_skips:
  assumes "no_table r w" "j \<le> 2" "tab (pt_mem (w_pts w)) r j (vpn (w_vaddr w)) = Some p"
    "\<And>c. tab (pt_mem (w_pts w)) r (Suc j) (vpn (w_vaddr w)) = Some c \<Longrightarrow> skips w (traverse c w)"
  shows "skips w (pmlx_loop (4 - j) True (Some pmlxe_do_unmap_callback) traverse p (512 - pml_index (4 - j) (w_vaddr w)) w)"
proof -
  let ?x = "vpn (w_vaddr w)"
  obtain t k where t: "pt_mem (w_pts w) p = Some t" "pml_index (4 - j) (w_vaddr w) = tidx j ?x" "512 - tidx j ?x = Suc k"
    "tab (pt_mem (w_pts w)) r (Suc j) ?x = (if platform_pmlxe_get_present (t (tidx j ?x)) then Some (platform_pmlxe_get_table (t (tidx j ?x))) else None)"
    using table_entry [OF assms(1-3)] by blast
  have np: "w_npages w \<noteq> 0" "unat (w_npages w) \<le> 512"
    using assms(1) by (simp_all add: no_table_def)
  show ?thesis
  proof (cases "platform_pmlxe_get_present (t (tidx j ?x))")
    case True
    then obtain w' where "traverse (platform_pmlxe_get_table (t (tidx j ?x))) w = Some w'" "w_npages w' = 0" "w_pts w' = w_pts w"
      using assms(4) t(4) by (auto simp: skips_def)
    then show ?thesis
      using t np(1) True
      by (simp add: read_entry_def Let_def get_or_create_def walk_call_def pmlxe_do_unmap_callback_def loop_done skips_def)
  next
    case False
    then show ?thesis
      using t np walk_skip_all [OF np(2) npages_512 [OF assms(2)]] by (simp add: read_entry_def Let_def loop_done skips_def)
  qed
qed

lemma pmlx_destroy_loop_skips:
  assumes "no_table r w" "j \<le> 2" "tab (pt_mem (w_pts w)) r j (vpn (w_vaddr w)) = Some p"
    "\<And>c. tab (pt_mem (w_pts w)) r (Suc j) (vpn (w_vaddr w)) = Some c \<Longrightarrow> \<exists>w'. destroy c w = Some (w', False) \<and> skips w (Some w')"
  shows "skips w (pmlx_destroy_loop (4 - j) destroy p (512 - pml_index (4 - j) (w_vaddr w)) w)"
proof -
  let ?x = "vpn (w_vaddr w)"
  obtain t k where t: "pt_mem (w_pts w) p = Some t" "pml_index (4 - j) (w_vaddr w) = tidx j ?x" "512 - tidx j ?x = Suc k"
    "tab (pt_mem (w_pts w)) r (Suc j) ?x = (if platform_pmlxe_get_present (t (tidx j ?x)) then Some (platform_pmlxe_get_table (t (tidx j ?x))) else None)"
    using table_entry [OF assms(1-3)] by blast
  have np: "w_npages w \<noteq> 0" "unat (w_npages w) \<le> 512"
    using assms(1) by (simp_all add: no_table_def)
  show ?thesis
  proof (cases "platform_pmlxe_get_present (t (tidx j ?x))")
    case True
    then obtain w' where "destroy (platform_pmlxe_get_table (t (tidx j ?x))) w = Some (w', False)" "w_npages w' = 0" "w_pts w' = w_pts w"
      using assms(4) t(4) by (auto simp: skips_def)
    then show ?thesis
      using t np(1) True by (simp add: read_entry_def Let_def loop_done skips_def)
  next
    case False
    then show ?thesis
      using t np walk_skip_all [OF np(2) npages_512 [OF assms(2)]] by (simp add: read_entry_def Let_def loop_done skips_def)
  qed
qed

lemma unmap_skips:
  fixes w :: "bool walk"
  assumes "no_table r w"
  shows "skips w (pml5_traverse pagetable_do_unmap_callbacks r w)"
proof -
  let ?tab = "\<lambda>j. tab (pt_mem (w_pts w)) r j (vpn (w_vaddr w))" and ?o = pagetable_do_unmap_callbacks
  have 2: "skips w (pml2_traverse ?o p w)" if "?tab 2 = Some p" for p
  proof -
    have "?tab (Suc 2) = None"
      using assms by (simp add: no_table_def numeral_eq_Suc)
    then show ?thesis
      using pmlx_loop_skips [OF assms _ that, of "pml1_traverse ?o"] by (simp add: pml2_traverse_def pagetable_do_unmap_callbacks_def)
  qed
  have 1: "skips w (pml3_traverse ?o p w)" if "?tab 1 = Some p" for p
    using pmlx_loop_skips [OF assms _ that, of "pml2_traverse ?o"] 2
    by (simp add: pml3_traverse_def pagetable_do_unmap_callbacks_def numeral_2_eq_2)
  show ?thesis
    using pmlx_loop_skips [OF assms, of 0 r "pml3_traverse ?o"] 1
    by (simp add: pml5_traverse_def pml4_traverse_def pagetable_do_unmap_callbacks_def)
qed

lemma destroy_skips:
  assumes "no_table r w"
  shows "\<exists>w' z. pml5_destroy_range r w = Some (w', z) \<and> w_pts w' = w_pts w"
proof -
  let ?tab = "\<lambda>j. tab (pt_mem (w_pts w)) r j (vpn (w_vaddr w))"
  have "unat ((MOS_USER_END_VADDR + 1) div MOS_PAGE_SIZE) = 2 ^ 35"
    by (simp add: MOS_USER_END_VADDR_def unat_div)
  then have zap: "\<not> 512 * PMLxE_NPAGES 2 \<le> w_npages w" "\<not> 512 * PMLxE_NPAGES 3 \<le> w_npages w"
    "w_npages w \<noteq> (MOS_USER_END_VADDR + 1) div MOS_PAGE_SIZE"
    using assms by (auto simp: no_table_def word_le_nat_alt PMLxE_NPAGES_def)
  have 2: "\<exists>w'. pml2_destroy_range p w = Some (w', False) \<and> skips w (Some w')" if "?tab 2 = Some p" for p
  proof -
    have "?tab (Suc 2) = None"
      using assms by (simp add: no_table_def numeral_eq_Suc)
    then show ?thesis
      using pmlx_destroy_loop_skips [OF assms _ that, of pml1_destroy_range] zap(1)
      by (auto simp: pml2_destroy_range_def skips_def zap_table_def)
  qed
  have 1: "\<exists>w'. pml3_destroy_range p w = Some (w', False) \<and> skips w (Some w')" if "?tab 1 = Some p" for p
    using pmlx_destroy_loop_skips [OF assms _ that, of pml2_destroy_range] zap(2) 2
    by (auto simp: pml3_destroy_range_def skips_def zap_table_def numeral_2_eq_2)
  show ?thesis
    using pmlx_destroy_loop_skips [OF assms, of 0 r pml3_destroy_range] zap(3) 1
    by (auto simp: pml5_destroy_range_def pml4_destroy_range_def skips_def zap_table_def)
qed

section \<open>Properties\<close>

text \<open>An address space without pages, with ten frames for new tables.\<close>

definition empty_space :: pts where
  "empty_space = \<lparr>pt_mem = [1 \<mapsto> (\<lambda>i. 0)], pt_new = map of_nat [2..<12], pt_log = []\<rparr>"

lemma empty_space_tab: "tab (pt_mem empty_space) 1 j x = (if j = 0 then Some 1 else None)"
  using no_link(2) by (induction j) (auto simp: empty_space_def)

lemma empty_space_sizes: "length (pt_new empty_space) = 10" "pt_log empty_space = []"
  by (simp_all add: empty_space_def)

lemma empty_space_ok: "pt_ok empty_space 1"
proof -
  have "pt_wf (pt_mem empty_space) 1"
  proof (rule pt_wfI)
    fix i j x y p
    assume a: "i \<le> 3" "j \<le> 3" "x < UPAGES" "y < UPAGES" "tab (pt_mem empty_space) 1 i x = Some p" "tab (pt_mem empty_space) 1 j y = Some p"
    then show "i = j \<and> tnum j x = tnum j y"
      by (auto simp: empty_space_tab UPAGES_def split: if_splits)
  next
    fix j x p t
    assume "tab (pt_mem empty_space) 1 j x = Some p" "pt_mem empty_space p = Some t" "platform_pmlxe_get_present (t (tidx j x))"
    then show "\<not> platform_pmlxe_is_huge (t (tidx j x))"
      using no_link(2) by (auto simp: empty_space_tab empty_space_def split: if_splits)
  next
    fix j x p
    assume "tab (pt_mem empty_space) 1 j x = Some p"
    then have "p = 1"
      by (simp add: empty_space_tab split: if_splits)
    then show "p \<in> dom (pt_mem empty_space)"
      by (simp add: empty_space_def)
  qed
  moreover have "distinct (pt_new empty_space)" "\<forall>c \<in> set (pt_new empty_space). pt_mem empty_space c = None \<and> c < 2 ^ 40"
    by (simp_all add: empty_space_def upt_rec)
  ultimately show ?thesis
    by (simp add: pt_ok_def)
qed

lemma small_frames: "take_bit 40 (7 :: u64) = 7" "take_bit 40 (8 :: u64) = 8" "[0..<2] = [0, Suc 0]"
  by (simp_all add: upt_conv_Cons)

text \<open>
  C3: Mapping pages maps exactly the range. On the tables of a process that form a tree, with enough frames for the tables that
  may be missing, \<open>mm_do_map\<close> returns, the tables still form a tree, a lookup of an address in the range finds the frame of its
  page (the low 40 bits, which an entry can hold), and a lookup of every other address finds what it found before. For each page
  the processor's cached translation is invalidated, and the frame is referenced if the caller asked for it.\<close>

theorem mm_do_map_correct:
  assumes "pt_ok s r" "vpn vaddr + unat n \<le> UPAGES" "3 * unat n \<le> length (pt_new s)"
  shows "\<exists>s'. mm_do_map s r vaddr pfn n flags rc = Some s' \<and> pt_ok s' r \<and>
     (\<forall>v. vpn v < UPAGES \<longrightarrow> mm_do_get_pfn s' r v =
        (if in_pages (vpn vaddr) (unat n) (vpn v) then Some (take_bit 40 (pfn + of_nat (vpn v - vpn vaddr))) else mm_do_get_pfn s r v)) \<and>
     pt_log s' = pt_log s @ concat (map (\<lambda>k. Tlb_Invalidate (vaddr + of_nat k * MOS_PAGE_SIZE) #
       (if rc then [Pmm_Ref (pfn + of_nat k)] else [])) [0..<unat n])"
proof -
  obtain s' where s': "mm_do_map s r vaddr pfn n flags rc = Some s'" "pt_ok s' r"
     "upte s' r = (\<lambda>x. if vpn vaddr \<le> x \<and> x < vpn vaddr + unat n then mapped_entry flags (pfn + of_nat (x - vpn vaddr)) else upte s r x)"
     "pt_log s' = pt_log s @ concat (map (\<lambda>k. Tlb_Invalidate (vaddr + of_nat k * MOS_PAGE_SIZE) #
       (if rc then [Pmm_Ref (pfn + of_nat k)] else [])) [0..<unat n])"
    using mm_do_map_ok [OF assms] by blast
  have "frame_of s' r x = (if in_pages (vpn vaddr) (unat n) x then take_bit 40 (pfn + of_nat (x - vpn vaddr)) else frame_of s r x)" for x
    using mapped_entry_pfn by (simp add: frame_of_def s'(3) in_pages_def Let_def)
  then show ?thesis
    using s' assms(1) by (intro exI [of _ s']) (simp add: mm_do_get_pfn_frame)
qed

theorem mm_do_map_correct_witness:
  "\<exists>s'. mm_do_map empty_space 1 0x7FF000 7 2 VM_READ True = Some s' \<and> mm_do_get_pfn s' 1 0x7FF010 = Some 7 \<and>
     mm_do_get_pfn s' 1 0x800010 = Some 8 \<and> mm_do_get_pfn s' 1 0x801000 = Some 0 \<and>
     pt_log s' = [Tlb_Invalidate 0x7FF000, Pmm_Ref 7, Tlb_Invalidate 0x800000, Pmm_Ref 8]"
proof -
  have v: "vpn 0x7FF000 = 2047" "vpn 0x7FF010 = 2047" "vpn 0x800010 = 2048" "vpn 0x801000 = 2049"
    by (simp_all add: vpn_def)
  have "mm_do_get_pfn empty_space 1 0x801000 = Some 0"
    using mm_do_get_pfn_frame [OF empty_space_ok, of "0x801000"] v by (simp add: UPAGES_def frame_of_def upte_def pte_def empty_space_tab)
  moreover obtain s' where s': "mm_do_map empty_space 1 0x7FF000 7 2 VM_READ True = Some s'"
    "\<forall>v. vpn v < UPAGES \<longrightarrow> mm_do_get_pfn s' 1 v =
       (if in_pages 2047 2 (vpn v) then Some (take_bit 40 (7 + of_nat (vpn v - 2047))) else mm_do_get_pfn empty_space 1 v)"
    "pt_log s' = [Tlb_Invalidate 0x7FF000, Pmm_Ref 7, Tlb_Invalidate 0x800000, Pmm_Ref 8]"
    using mm_do_map_correct [OF empty_space_ok, of "0x7FF000" 2 7 VM_READ True] v
    by (auto simp: UPAGES_def empty_space_sizes small_frames(3) MOS_PAGE_SIZE_def cong: if_cong)
  ultimately show ?thesis
    using s'(2) v small_frames(1,2) by (intro exI [of _ s']) (simp add: UPAGES_def in_pages_def)
qed

text \<open>
  C4: Unmapping pages unmaps exactly the range. On the tables of a process, for a range below 1 GB whose pages all have tables,
  \<open>mm_do_unmap\<close> returns, the tables still form a tree, a lookup in the range finds nothing and a lookup of every other address
  finds what it found before. Each page that was mapped, and no other, has its cached translation invalidated and its frame
  released once; then tables are freed, none of which holds a page outside the range.\<close>

theorem mm_do_unmap_correct:
  assumes "pt_ok s r" "vpn vaddr + unat n \<le> UPAGES" "unat n < 2 ^ 18" "\<forall>y. in_pages (vpn vaddr) (unat n) y \<longrightarrow> tab (pt_mem s) r 3 y \<noteq> None"
  shows "\<exists>s' ps. mm_do_unmap s r vaddr n u = Some s' \<and> pt_ok s' r \<and>
     (\<forall>v. vpn v < UPAGES \<longrightarrow> mm_do_get_pfn s' r v = (if in_pages (vpn vaddr) (unat n) (vpn v) then Some 0 else mm_do_get_pfn s r v)) \<and>
     pt_log s' = pt_log s @ unmap_calls s r vaddr (unat n) u @ map Table_Free ps \<and>
     (\<forall>p \<in> set ps. \<forall>y < UPAGES. tab (pt_mem s) r 3 y = Some p \<longrightarrow> in_pages (vpn vaddr) (unat n) y)"
proof -
  obtain s' ps where s': "mm_do_unmap s r vaddr n u = Some s'" "pt_ok s' r"
     "upage s' r = (\<lambda>y. if in_pages (vpn vaddr) (unat n) y then None else upage s r y)"
     "pt_log s' = pt_log s @ unmap_calls s r vaddr (unat n) u @ map Table_Free ps"
     "\<forall>p \<in> set ps. \<forall>y < UPAGES. tab (pt_mem s) r 3 y = Some p \<longrightarrow> in_pages (vpn vaddr) (unat n) y"
    using mm_do_unmap_ok [OF assms] by blast
  have "frame_of s' r x = (if in_pages (vpn vaddr) (unat n) x then 0 else frame_of s r x)" for x
    by (simp add: frame_of_upage s'(3))
  then show ?thesis
    using s' assms(1) by (intro exI [of _ s'] exI [of _ ps]) (simp add: mm_do_get_pfn_frame)
qed

lemma upte_table: "platform_pml1e_get_present (upte s r x) \<Longrightarrow> tab (pt_mem s) r 3 x \<noteq> None"
  by (cases "tab (pt_mem s) r 3 x") (simp_all add: upte_def pte_def split: if_splits)

theorem mm_do_unmap_correct_witness:
  "\<exists>s s' ps. mm_do_map empty_space 1 0x7FF000 7 2 VM_READ False = Some s \<and> mm_do_unmap s 1 0x7FF000 2 True = Some s' \<and>
     mm_do_get_pfn s' 1 0x800010 = Some 0 \<and>
     pt_log s' = pt_log s @ [Pmm_Unref 7, Tlb_Invalidate 0x7FF000, Pmm_Unref 8, Tlb_Invalidate 0x800000] @ map Table_Free ps"
proof -
  have v: "vpn 0x7FF000 = 2047" "vpn 0x800010 = 2048" and n: "unat (2 :: u64) = 2"
    by (simp_all add: vpn_def)
  obtain s where s: "mm_do_map empty_space 1 0x7FF000 7 2 VM_READ False = Some s" "pt_ok s 1"
    "upte s 1 = (\<lambda>x. if 2047 \<le> x \<and> x < 2047 + 2 then mapped_entry VM_READ (7 + of_nat (x - 2047)) else upte empty_space 1 x)"
    using mm_do_map_ok [OF empty_space_ok, of "0x7FF000" 2 7 VM_READ False] v n by (auto simp: UPAGES_def empty_space_sizes cong: if_cong)
  have t: "\<forall>y. in_pages 2047 2 y \<longrightarrow> tab (pt_mem s) 1 3 y \<noteq> None"
    using upte_table [of s 1] s(3) mapped_entry_pfn(1) by (auto simp: in_pages_def)
  have calls: "unmap_calls s 1 0x7FF000 2 True = [Pmm_Unref 7, Tlb_Invalidate 0x7FF000, Pmm_Unref 8, Tlb_Invalidate 0x800000]"
    using mapped_entry_pfn by (simp add: unmap_calls_def v upage_def s(3) small_frames MOS_PAGE_SIZE_def)
  show ?thesis
    using mm_do_unmap_correct [OF s(2), of "0x7FF000" 2 True] s(1) v n t calls by (fastforce simp: UPAGES_def in_pages_def)
qed

text \<open>
  C38: Pages behind a missing table stay mapped. If the first page of a range of at most 512 pages has no level-1 table,
  \<open>mm_do_unmap\<close> changes nothing: an absent entry is taken to span the next 512 pages (or more), wherever in its span the range
  starts, so the pages of the range that lie in the following table are passed over and remain mapped.\<close>

theorem mm_do_unmap_passes_over:
  assumes "pt_ok s r" "vpn vaddr < UPAGES" "unat n \<le> 512" "tab (pt_mem s) r 3 (vpn vaddr) = None"
  shows "mm_do_unmap s r vaddr n u = Some s"
proof (cases "n = 0")
  case True
  then show ?thesis
    by (auto simp: mm_do_unmap_def pml5_traverse_def pml4_traverse_def pml5_destroy_range_def pml4_destroy_range_def loop_done zap_table_def
        MOS_USER_END_VADDR_def word_unat_eq_iff unat_div)
next
  case False
  let ?w = "\<lparr>w_pts = s, w_data = u, w_vaddr = vaddr, w_npages = n\<rparr>" and ?v = "\<lparr>w_pts = s, w_data = (), w_vaddr = vaddr, w_npages = n\<rparr>"
  have "no_table r ?w" "no_table r ?v"
    using assms False by (simp_all add: no_table_def pt_ok_def)
  then show ?thesis
    using unmap_skips destroy_skips [of r ?v] by (fastforce simp: mm_do_unmap_def skips_def)
qed

text \<open>An address space with one page, page 2048, the first of its table.\<close>

definition table_link :: "u64 \<Rightarrow> u64" where
  "table_link c = platform_pmlxe_set_table (platform_pmlxe_set_present 0 True) c"

definition one_page :: pts where
  "one_page = \<lparr>pt_mem = [1 \<mapsto> (\<lambda>i. 0)(0 := table_link 2), 2 \<mapsto> (\<lambda>i. 0)(0 := table_link 3), 3 \<mapsto> (\<lambda>i. 0)(4 := table_link 4),
     4 \<mapsto> (\<lambda>i. 0)(0 := mapped_entry VM_READ 7)], pt_new = [], pt_log = []\<rparr>"

lemma table_link: "c < 2 ^ 40 \<Longrightarrow> platform_pmlxe_get_present (table_link c)" "c < 2 ^ 40 \<Longrightarrow> platform_pmlxe_get_table (table_link c) = c"
  "c < 2 ^ 40 \<Longrightarrow> \<not> platform_pmlxe_is_huge (table_link c)"
  using new_link [of c 0] by (simp_all add: table_link_def)

lemma one_page_tab: "tab (pt_mem one_page) 1 3 2047 = None" "tab (pt_mem one_page) 1 3 2048 = Some 4"
proof -
  have i: "tidx 0 2047 = 0" "tidx (Suc 0) 2047 = 0" "tidx (Suc (Suc 0)) 2047 = 3" "tidx 0 2048 = 0" "tidx (Suc 0) 2048 = 0"
    "tidx (Suc (Suc 0)) 2048 = 4"
    by (simp_all add: tidx_def)
  have m: "pt_mem one_page 1 = Some ((\<lambda>i. 0)(0 := table_link 2))" "pt_mem one_page 2 = Some ((\<lambda>i. 0)(0 := table_link 3))"
    "pt_mem one_page 3 = Some ((\<lambda>i. 0)(4 := table_link 4))"
    by (simp_all add: one_page_def)
  show "tab (pt_mem one_page) 1 3 2047 = None" "tab (pt_mem one_page) 1 3 2048 = Some 4"
    unfolding numeral_3_eq_3 tab.simps i
    using table_link [of 2] table_link [of 3] table_link [of 4] no_link(2) m by simp_all
qed

lemma one_page_ok: "pt_ok one_page 1"
proof -
  let ?Z = "\<lambda>i :: nat. 0 :: u64"
  define m1 where "m1 = (pt_mem empty_space)(2 \<mapsto> ?Z, 1 \<mapsto> ?Z(tidx 0 2048 := table_link 2))"
  define m2 where "m2 = m1(3 \<mapsto> ?Z, 2 \<mapsto> ?Z(tidx 1 2048 := table_link 3))"
  define m3 where "m3 = m2(4 \<mapsto> ?Z, 3 \<mapsto> ?Z(tidx 2 2048 := table_link 4))"
  have x: "2048 < UPAGES"
    by (simp add: UPAGES_def)
  note link = table_link [of 2] table_link [of 3] table_link [of 4] no_link(2)
  have 1: "can_add (pt_mem empty_space) 1 0 2048 1 ?Z 2 (table_link 2)"
    using empty_space_ok x link by (simp add: can_add_def pt_ok_def) (simp add: empty_space_def)
  have w1: "pt_wf m1 1" and t1: "tab m1 1 1 2048 = Some 2"
    using add_tab_wf [OF 1] add_tab [OF x _ 1 m1_def, of 1] by (simp_all add: m1_def)
  have 2: "can_add m1 1 1 2048 2 ?Z 3 (table_link 3)"
    using w1 t1 x link by (simp add: can_add_def) (simp add: m1_def empty_space_def)
  have w2: "pt_wf m2 1" and t2: "tab m2 1 2 2048 = Some 3"
    using add_tab_wf [OF 2] add_tab [OF x _ 2 m2_def, of 2] by (simp_all add: m2_def)
  have 3: "can_add m2 1 2 2048 3 ?Z 4 (table_link 4)"
    using w2 t2 x link by (simp add: can_add_def) (simp add: m2_def m1_def empty_space_def)
  have w3: "pt_wf m3 1" and t3: "tab m3 1 3 2048 = Some 4" and m: "m3 4 = Some ?Z"
    using add_tab_wf [OF 3] add_tab [OF x _ 3 m3_def, of 3] by (simp_all add: m3_def)
  have "m3(4 \<mapsto> ?Z(tidx 3 2048 := mapped_entry VM_READ 7)) = pt_mem one_page"
    by (auto simp: fun_eq_iff m3_def m2_def m1_def empty_space_def one_page_def tidx_def)
  then show ?thesis
    using link_write(2) [OF w3 x _ t3 m, of "mapped_entry VM_READ 7"] by (simp add: pt_ok_def one_page_def)
qed

theorem mm_do_unmap_passes_over_witness:
  "mm_do_get_pfn one_page 1 0x800000 = Some 7 \<and> mm_do_unmap one_page 1 0x7FF000 2 True = Some one_page"
proof -
  have v: "vpn 0x7FF000 = 2047" "vpn 0x800000 = 2048"
    by (simp_all add: vpn_def)
  have "upte one_page 1 2048 = mapped_entry VM_READ 7"
    by (simp add: upte_def UPAGES_def pte_def one_page_tab) (simp add: one_page_def tidx_def)
  then have "mm_do_get_pfn one_page 1 0x800000 = Some 7"
    using mm_do_get_pfn_frame [OF one_page_ok, of "0x800000"] v mapped_entry_pfn by (simp add: UPAGES_def frame_of_def small_frames)
  then show ?thesis
    using mm_do_unmap_passes_over [OF one_page_ok, of "0x7FF000" 2 True] v one_page_tab(1) by (simp add: UPAGES_def)
qed

text \<open>
  C37: Taking flags away from a range. \<open>mm_do_mask_flags\<close> returns with the tables a tree, every address keeps its frame, and no page
  becomes present or absent. A present page of the range loses exactly the flags of the mask (read access cannot be taken away) and
  its cached translation is invalidated; the entries of all other pages stay as they are.\<close>

theorem mm_do_mask_flags_correct:
  assumes "pt_ok s r" "vpn vaddr + unat n \<le> UPAGES" "3 * unat n \<le> length (pt_new s)"
  shows "\<exists>s'. mm_do_mask_flags s r vaddr n msk = Some s' \<and> pt_ok s' r \<and>
     (\<forall>v. vpn v < UPAGES \<longrightarrow> mm_do_get_pfn s' r v = mm_do_get_pfn s r v) \<and>
     (\<forall>x. if in_pages (vpn vaddr) (unat n) x
        then map_option platform_pml1e_get_flags (upage s' r x) = map_option (\<lambda>e. (platform_pml1e_get_flags e AND NOT msk) OR VM_READ) (upage s r x)
        else upage s' r x = upage s r x) \<and>
     pt_log s' = pt_log s @ concat (map (\<lambda>k. if upage s r (vpn vaddr + k) \<noteq> None
       then [Tlb_Invalidate (vaddr + of_nat k * MOS_PAGE_SIZE)] else []) [0..<unat n])"
proof -
  obtain s' where s': "mm_do_mask_flags s r vaddr n msk = Some s'" "pt_ok s' r"
     "upte s' r = (\<lambda>x. if vpn vaddr \<le> x \<and> x < vpn vaddr + unat n \<and> platform_pml1e_get_present (upte s r x)
       then platform_pml1e_set_flags (upte s r x) (platform_pml1e_get_flags (upte s r x) AND NOT msk) else upte s r x)"
     "pt_log s' = pt_log s @ concat (map (\<lambda>k. if platform_pml1e_get_present (upte s r (vpn vaddr + k))
       then [Tlb_Invalidate (vaddr + of_nat k * MOS_PAGE_SIZE)] else []) [0..<unat n])"
    using mm_do_mask_flags_ok [OF assms] by blast
  have "frame_of s' r x = frame_of s r x" for x
    by (simp add: frame_of_def s'(3) pml1e_flagged Let_def)
  moreover have "if in_pages (vpn vaddr) (unat n) x
      then map_option platform_pml1e_get_flags (upage s' r x) = map_option (\<lambda>e. (platform_pml1e_get_flags e AND NOT msk) OR VM_READ) (upage s r x)
      else upage s' r x = upage s r x" for x
    by (simp add: upage_def s'(3) pml1e_flagged(1) pml1e_masked in_pages_def)
  moreover have "pt_log s' = pt_log s @ concat (map (\<lambda>k. if upage s r (vpn vaddr + k) \<noteq> None
       then [Tlb_Invalidate (vaddr + of_nat k * MOS_PAGE_SIZE)] else []) [0..<unat n])"
    using upage_present [of s r] by (simp add: s'(4))
  ultimately show ?thesis
    using s'(1,2) assms(1) by (intro exI [of _ s']) (simp add: mm_do_get_pfn_frame)
qed

theorem mm_do_mask_flags_correct_witness:
  "\<exists>s s'. mm_do_map empty_space 1 0x7FF000 7 1 (VM_READ OR VM_WRITE) False = Some s \<and> mm_do_mask_flags s 1 0x7FF000 1 VM_WRITE = Some s' \<and>
     mm_do_get_pfn s' 1 0x7FF000 = Some 7 \<and> map_option platform_pml1e_get_flags (upage s' 1 2047) = Some VM_READ"
proof -
  have v: "vpn 0x7FF000 = 2047"
    by (simp add: vpn_def)
  obtain s where s: "mm_do_map empty_space 1 0x7FF000 7 1 (VM_READ OR VM_WRITE) False = Some s" "pt_ok s 1"
    "upte s 1 = (\<lambda>x. if 2047 \<le> x \<and> x < 2048 then mapped_entry (VM_READ OR VM_WRITE) (7 + of_nat (x - 2047)) else upte empty_space 1 x)"
    "length (pt_new empty_space) \<le> length (pt_new s) + 3"
    using mm_do_map_ok [OF empty_space_ok, of "0x7FF000" 1 7 "VM_READ OR VM_WRITE" False] v
    by (auto simp: UPAGES_def empty_space_sizes cong: if_cong)
  have "mm_do_get_pfn s 1 0x7FF000 = Some 7"
    using mm_do_get_pfn_frame [OF s(2), of "0x7FF000"] v mapped_entry_pfn by (simp add: UPAGES_def frame_of_def s(3) small_frames)
  moreover have "map_option (\<lambda>e. (platform_pml1e_get_flags e AND NOT VM_WRITE) OR VM_READ) (upage s 1 2047) = Some VM_READ"
    using mapped_entry_pfn by (simp add: upage_def s(3) VM_READ_def VM_WRITE_def)
  moreover obtain s' where s': "mm_do_mask_flags s 1 0x7FF000 1 VM_WRITE = Some s'"
    "\<forall>v. vpn v < UPAGES \<longrightarrow> mm_do_get_pfn s' 1 v = mm_do_get_pfn s 1 v"
    "\<forall>x. if in_pages 2047 1 x
        then map_option platform_pml1e_get_flags (upage s' 1 x) = map_option (\<lambda>e. (platform_pml1e_get_flags e AND NOT VM_WRITE) OR VM_READ) (upage s 1 x)
        else upage s' 1 x = upage s 1 x"
    using mm_do_mask_flags_correct [OF s(2), of "0x7FF000" 1 VM_WRITE] s(4) v by (auto simp: UPAGES_def empty_space_sizes)
  ultimately have "map_option platform_pml1e_get_flags (upage s' 1 2047) = Some VM_READ" "mm_do_get_pfn s' 1 0x7FF000 = Some 7"
    using spec [OF s'(3), of 2047] v by (simp_all add: in_pages_def UPAGES_def del: not_None_eq)
  then show ?thesis
    using s(1) s'(1) by blast
qed

end
