(* ===== verification/Dentry.thy ===== *)
theory Dentry
  imports Strings
begin

text \<open>
  The directory entry cache of the virtual file system (\<^verbatim>\<open>dentry_utils.c\<close>, \<^verbatim>\<open>dentry.c\<close>, \<^verbatim>\<open>mount.c\<close>, and \<^verbatim>\<open>dentry_create\<close> of
  \<^verbatim>\<open>vfs_utils.c\<close> with the tree functions it uses): reference counts along the way to the root, mount points, and the resolution of
  paths.

  Directory entries, inodes and superblocks (of which only the file system is kept) are maps from addresses; an address that is not in the map has been freed or
  was never allocated, and an access to it fails.  Names and paths are byte strings without their terminator.  \<^verbatim>\<open>strtok_r\<close> over a
  path is the list of its \<^const>\<open>tokens\<close>.  The operations of file systems other than tmpfs are arguments.\<close>

section \<open>Data\<close>

type_synonym dptr = nat
type_synonym iptr = nat
type_synonym name = "u8 list"

definition PATH_DELIM :: u8 where
  "PATH_DELIM = 47"

datatype file_type = FILE_TYPE_REGULAR | FILE_TYPE_DIRECTORY | FILE_TYPE_SYMLINK | FILE_TYPE_CHAR_DEVICE | FILE_TYPE_BLOCK_DEVICE
  | FILE_TYPE_NAMED_PIPE | FILE_TYPE_SOCKET | FILE_TYPE_UNKNOWN

text \<open>The operations that an inode refers to: none, those of tmpfs, or those of another file system.\<close>

datatype inode_ops = No_Ops | Tmpfs_Dir_Ops | Tmpfs_Symlink_Ops | Foreign_Ops nat

datatype file_ops = No_File_Ops | Tmpfs_File_Ops | Foreign_File_Ops nat

datatype vfs_error = ENOENT | EINVAL | EEXIST | EISDIR | ENOTDIR | ENAMETOOLONG | EBADF | EACCES | EROFS | ENOTSUP | EBUSY | EIO

record inode =
  i_ino :: u64
  i_type :: file_type
  i_perm :: u16
  i_size :: u64
  i_uid :: u32
  i_gid :: u32
  i_sticky :: bool
  i_suid :: bool
  i_sgid :: bool
  i_nlinks :: int
  i_accessed :: u64
  i_created :: u64
  i_modified :: u64
  i_refcount :: nat
  i_super :: nat
  i_ops :: inode_ops
  i_file_ops :: file_ops
  i_symlink_target :: "name option"

record dentry =
  d_parent :: "dptr option"
  d_children :: "dptr list"
  d_refcount :: nat
  d_inode :: "iptr option"
  d_name :: "name option"
  d_super :: nat
  d_is_mountpoint :: bool

record mount =
  m_root :: dptr
  m_mountpoint :: dptr
  m_super :: nat
  m_fs :: nat

record vfs =
  v_dentries :: "dptr \<rightharpoonup> dentry"
  v_inodes :: "iptr \<rightharpoonup> inode"
  v_mounts :: "dptr \<rightharpoonup> mount"
  v_root :: "dptr option"
  v_supers :: "nat \<rightharpoonup> nat"
  v_tmpfs_inode_count :: u64
  v_next :: nat

text \<open>The operations of the other file systems; \<^const>\<open>None\<close> is a null pointer in the table of operations.\<close>

record foreign_ops =
  fo_lookup :: "nat \<Rightarrow> (vfs \<Rightarrow> iptr \<Rightarrow> dptr \<Rightarrow> (vfs \<times> bool) option) option"
  fo_readlink :: "nat \<Rightarrow> (vfs \<Rightarrow> dptr \<Rightarrow> nat \<Rightarrow> name option) option"
  fo_newfile :: "nat \<Rightarrow> (vfs \<Rightarrow> iptr \<Rightarrow> dptr \<Rightarrow> file_type \<Rightarrow> u16 \<Rightarrow> (vfs \<times> bool) option) option"
  fo_symlink :: "nat \<Rightarrow> (vfs \<Rightarrow> iptr \<Rightarrow> dptr \<Rightarrow> name \<Rightarrow> (vfs \<times> bool) option) option"
  fo_mkdir :: "nat \<Rightarrow> (vfs \<Rightarrow> iptr \<Rightarrow> dptr \<Rightarrow> u16 \<Rightarrow> (vfs \<times> bool) option) option"
  fo_rmdir :: "nat \<Rightarrow> (vfs \<Rightarrow> iptr \<Rightarrow> dptr \<Rightarrow> (vfs \<times> bool) option) option"

definition RESOLVE_EXPECT_FILE :: u32 where "RESOLVE_EXPECT_FILE = 1"
definition RESOLVE_EXPECT_DIR :: u32 where "RESOLVE_EXPECT_DIR = 2"
definition RESOLVE_SYMLINK_NOFOLLOW :: u32 where "RESOLVE_SYMLINK_NOFOLLOW = 4"
definition RESOLVE_EXPECT_EXIST :: u32 where "RESOLVE_EXPECT_EXIST = 8"
definition RESOLVE_EXPECT_NONEXIST :: u32 where "RESOLVE_EXPECT_NONEXIST = 16"

text \<open>Access to an object by its address.\<close>

definition dget :: "vfs \<Rightarrow> dptr \<Rightarrow> dentry option" where
  "dget s d = v_dentries s d"

definition dset :: "vfs \<Rightarrow> dptr \<Rightarrow> dentry \<Rightarrow> vfs" where
  "dset s d x = s\<lparr>v_dentries := (v_dentries s)(d \<mapsto> x)\<rparr>"

definition iget :: "vfs \<Rightarrow> iptr \<Rightarrow> inode option" where
  "iget s i = v_inodes s i"

definition iset :: "vfs \<Rightarrow> iptr \<Rightarrow> inode \<Rightarrow> vfs" where
  "iset s i x = s\<lparr>v_inodes := (v_inodes s)(i \<mapsto> x)\<rparr>"

text \<open>The type of the inode behind a directory entry; an entry without inode is a null pointer here.\<close>

definition dentry_type :: "vfs \<Rightarrow> dptr \<Rightarrow> file_type option" where
  "dentry_type s d = do { x \<leftarrow> dget s d; i \<leftarrow> d_inode x; n \<leftarrow> iget s i; Some (i_type n) }"

section \<open>Trees\<close>

definition tree_add_child :: "vfs \<Rightarrow> dptr \<Rightarrow> dptr \<Rightarrow> vfs option" where
  "tree_add_child s parent child = do {
     c \<leftarrow> dget s child;
     mos_assert (d_parent c = None);
     let s = dset s child (c\<lparr>d_parent := Some parent, d_children := []\<rparr>);
     p \<leftarrow> dget s parent;
     Some (dset s parent (p\<lparr>d_children := d_children p @ [child]\<rparr>)) }"

definition tree_remove :: "vfs \<Rightarrow> dptr \<Rightarrow> vfs option" where
  "tree_remove s child = do {
     c \<leftarrow> dget s child;
     case d_parent c of
       None \<Rightarrow> Some s
     | Some parent \<Rightarrow> do {
         p \<leftarrow> dget s parent;
         Some (dset s parent (p\<lparr>d_children := remove1 child (d_children p)\<rparr>)) } }"

definition dentry_create :: "vfs \<Rightarrow> nat \<Rightarrow> dptr option \<Rightarrow> name option \<Rightarrow> (vfs \<times> dptr) option" where
  "dentry_create s sb parent nm = do {
     let d = v_next s;
     let s = dset (s\<lparr>v_next := d + 1\<rparr>) d \<lparr>d_parent = None, d_children = [], d_refcount = 0, d_inode = None, d_name = nm,
       d_super = sb, d_is_mountpoint = False\<rparr>;
     case parent of
       None \<Rightarrow> Some (s, d)
     | Some p \<Rightarrow> do {
         s \<leftarrow> tree_add_child s p d;
         x \<leftarrow> dget s d;
         y \<leftarrow> dget s p;
         Some (dset s d (x\<lparr>d_super := d_super y\<rparr>), d) } }"

section \<open>Mount points\<close>

definition dentry_get_mount :: "vfs \<Rightarrow> dptr \<Rightarrow> mount option option" where
  "dentry_get_mount s d = do {
     x \<leftarrow> dget s d;
     if \<not> d_is_mountpoint x then Some None
     else (case v_mounts s d of
         None \<Rightarrow> Some None
       | Some m \<Rightarrow> do { mos_assert (m_mountpoint m = d); Some (Some m) }) }"

text \<open>The root of the file system that is mounted on an entry.\<close>

definition mounted_root :: "vfs \<Rightarrow> dptr \<Rightarrow> dptr option" where
  "mounted_root s d = do { m \<leftarrow> dentry_get_mount s d; m \<leftarrow> m; Some (m_root m) }"

fun find_mountpoint :: "vfs \<Rightarrow> dptr \<Rightarrow> dptr list \<Rightarrow> dptr option option" where
  "find_mountpoint s d [] = Some None"
| "find_mountpoint s d (c # cs) = do {
     x \<leftarrow> dget s c;
     if d_is_mountpoint x then do {
       r \<leftarrow> mounted_root s c;
       if r = d then Some (Some c) else find_mountpoint s d cs }
     else find_mountpoint s d cs }"

definition dentry_root_get_mountpoint :: "vfs \<Rightarrow> dptr \<Rightarrow> dptr option option" where
  "dentry_root_get_mountpoint s d = do {
     x \<leftarrow> dget s d;
     mos_assert (d_name x = None);
     if v_root s = Some d then Some (Some d)
     else do {
       parent \<leftarrow> d_parent x;
       p \<leftarrow> dget s parent;
       find_mountpoint s d (d_children p) } }"

definition dentry_ref :: "vfs \<Rightarrow> dptr \<Rightarrow> vfs option" where
  "dentry_ref s d = do {
     x \<leftarrow> dget s d;
     mos_assert (d_inode x \<noteq> None);
     Some (dset s d (x\<lparr>d_refcount := d_refcount x + 1\<rparr>)) }"

definition dentry_mount :: "vfs \<Rightarrow> dptr \<Rightarrow> dptr \<Rightarrow> nat \<Rightarrow> (vfs \<times> bool) option" where
  "dentry_mount s mountpoint root fs = do {
     x \<leftarrow> dget s root;
     mos_assert (d_name x = None);
     mos_assert (d_parent x = None);
     s \<leftarrow> dentry_ref s root;
     x \<leftarrow> dget s root;
     mp \<leftarrow> dget s mountpoint;
     let s = dset s root (x\<lparr>d_parent := d_parent mp\<rparr>);
     mp \<leftarrow> dget s mountpoint;
     let s = dset s mountpoint (mp\<lparr>d_is_mountpoint := True\<rparr>);
     x \<leftarrow> dget s root;
     i \<leftarrow> d_inode x;
     n \<leftarrow> iget s i;
     let old = v_mounts s mountpoint;
     let s = s\<lparr>v_mounts := (v_mounts s)(mountpoint \<mapsto> \<lparr>m_root = root, m_mountpoint = mountpoint, m_super = i_super n, m_fs = fs\<rparr>)\<rparr>;
     Some (s, old = None) }"

definition dentry_unmount :: "vfs \<Rightarrow> dptr \<Rightarrow> (vfs \<times> dptr option) option" where
  "dentry_unmount s root = do {
     mp \<leftarrow> dentry_root_get_mountpoint s root;
     mp \<leftarrow> mp;
     m \<leftarrow> dentry_get_mount s mp;
     case m of
       None \<Rightarrow> Some (s, None)
     | Some m \<Rightarrow> do {
         let mountpoint = m_mountpoint m;
         let s = s\<lparr>v_mounts := (v_mounts s)(mountpoint := None)\<rparr>;
         x \<leftarrow> dget s mountpoint;
         Some (dset s mountpoint (x\<lparr>d_is_mountpoint := False\<rparr>), Some mountpoint) } }"

section \<open>Reference counts\<close>

text \<open>The loop of \<^verbatim>\<open>dentry_ref_up_to\<close>; \<^const>\<open>None\<close> for \<open>cur\<close> is the null pointer behind a root, which fails.\<close>

partial_function (option) ref_up_loop :: "vfs \<Rightarrow> dptr option \<Rightarrow> dptr \<Rightarrow> vfs option" where
  "ref_up_loop s cur root =
     (if cur = Some root then Some s
      else do {
        c \<leftarrow> cur;
        s \<leftarrow> dentry_ref s c;
        x \<leftarrow> dget s c;
        if d_name x = None then do {
          mp \<leftarrow> dentry_root_get_mountpoint s c;
          mp \<leftarrow> mp;
          s \<leftarrow> dentry_ref s mp;
          y \<leftarrow> dget s mp;
          ref_up_loop s (d_parent y) root }
        else ref_up_loop s (d_parent x) root })"

definition dentry_ref_up_to :: "vfs \<Rightarrow> dptr \<Rightarrow> dptr \<Rightarrow> vfs option" where
  "dentry_ref_up_to s d root = do {
     s \<leftarrow> ref_up_loop s (Some d) root;
     dentry_ref s root }"

text \<open>The count of a mount point is lowered without a test, so it wraps around at 0.\<close>

definition dec_count :: "nat \<Rightarrow> nat" where
  "dec_count r = (if r = 0 then 2 ^ 64 - 1 else r - 1)"

definition dentry_unref_one_norelease :: "vfs \<Rightarrow> dptr option \<Rightarrow> (vfs \<times> bool) option" where
  "dentry_unref_one_norelease s d = (case d of
       None \<Rightarrow> Some (s, False)
     | Some d \<Rightarrow> do {
         x \<leftarrow> dget s d;
         if d_refcount x = 0 then Some (s, False)
         else do {
           let s = dset s d (x\<lparr>d_refcount := d_refcount x - 1\<rparr>);
           if d_name x = None \<and> v_root s \<noteq> Some d then do {
             mp \<leftarrow> dentry_root_get_mountpoint s d;
             case mp of
               None \<Rightarrow> Some (s, True)
             | Some m \<Rightarrow> do {
                 y \<leftarrow> dget s m;
                 Some (dset s m (y\<lparr>d_refcount := dec_count (d_refcount y)\<rparr>), True) } }
           else Some (s, True) } })"

fun sum_refcounts :: "vfs \<Rightarrow> dptr list \<Rightarrow> nat option" where
  "sum_refcounts s [] = Some 0"
| "sum_refcounts s (c # cs) = do { x \<leftarrow> dget s c; r \<leftarrow> sum_refcounts s cs; Some (d_refcount x + r) }"

definition dentry_check_refstat :: "vfs \<Rightarrow> dptr \<Rightarrow> unit option" where
  "dentry_check_refstat s d = do {
     x \<leftarrow> dget s d;
     let expected = (if v_root s \<noteq> Some d then (if d_is_mountpoint x then 1 else 0) + (if d_name x = None then 1 else 0) else 1);
     r \<leftarrow> sum_refcounts s (d_children x);
     mos_assert (expected + r \<le> d_refcount x) }"

definition dentry_try_release :: "vfs \<Rightarrow> dptr \<Rightarrow> vfs option" where
  "dentry_try_release s d = do {
     x \<leftarrow> dget s d;
     mos_assert (d_refcount x = 0);
     if d_inode x = None \<and> d_children x = [] then do {
       s \<leftarrow> tree_remove s d;
       Some (s\<lparr>v_dentries := (v_dentries s)(d := None)\<rparr>) }
     else Some s }"

partial_function (option) dentry_unref :: "vfs \<Rightarrow> dptr option \<Rightarrow> vfs option" where
  "dentry_unref s d = do {
     (s, lowered) \<leftarrow> dentry_unref_one_norelease s d;
     if \<not> lowered then Some s
     else do {
       d \<leftarrow> d;
       dentry_check_refstat s d;
       x \<leftarrow> dget s d;
       s \<leftarrow> dentry_unref s (d_parent x);
       x \<leftarrow> dget s d;
       if d_refcount x = 0 then dentry_try_release s d else Some s } }"

text \<open>The path of an entry: what is written to the buffer of the given size, without terminator, and the result.\<close>

partial_function (option) path_loop :: "vfs \<Rightarrow> dptr option \<Rightarrow> dptr \<Rightarrow> name \<Rightarrow> name option" where
  "path_loop s current root path =
     (if current = Some root then Some path
      else do {
        c \<leftarrow> current;
        x \<leftarrow> dget s c;
        c \<leftarrow> (if d_name x = None then do { mp \<leftarrow> dentry_root_get_mountpoint s c; mp } else Some c);
        x \<leftarrow> dget s c;
        nm \<leftarrow> d_name x;
        path_loop s (d_parent x) root (nm @ [PATH_DELIM] @ path) })"

definition dentry_path :: "vfs \<Rightarrow> dptr option \<Rightarrow> dptr \<Rightarrow> nat \<Rightarrow> (int \<times> name option) option" where
  "dentry_path s d root sz = (case d of
       None \<Rightarrow> Some (0, None)
     | Some d \<Rightarrow>
         if sz < 2 then Some (- 1, None)
         else if d = root then Some (1, Some [PATH_DELIM])
         else do {
           x \<leftarrow> dget s d;
           d \<leftarrow> (if d_name x = None then do { mp \<leftarrow> dentry_root_get_mountpoint s d; mp } else Some d);
           x \<leftarrow> dget s d;
           nm \<leftarrow> d_name x;
           path \<leftarrow> path_loop s (d_parent x) root nm;
           if length path + 1 > sz then Some (- 1, None)
           else Some (int (length path + 1), Some (take (sz - 1) (PATH_DELIM # path))) })"

section \<open>Path resolution\<close>

definition path_is_absolute :: "name \<Rightarrow> bool" where
  "path_is_absolute path \<longleftrightarrow> path \<noteq> [] \<and> hd path = PATH_DELIM"

definition is_dot :: "name \<Rightarrow> bool" where
  "is_dot seg \<longleftrightarrow> seg = [46] \<or> seg = [46, 47]"

definition is_dotdot :: "name \<Rightarrow> bool" where
  "is_dotdot seg \<longleftrightarrow> seg = [46, 46] \<or> seg = [46, 46, 47]"

fun find_child :: "vfs \<Rightarrow> name \<Rightarrow> dptr list \<Rightarrow> dptr option option" where
  "find_child s nm [] = Some None"
| "find_child s nm (c # cs) = do {
     x \<leftarrow> dget s c;
     cn \<leftarrow> d_name x;
     if cn = nm then Some (Some c) else find_child s nm cs }"

text \<open>\<^verbatim>\<open>inode->ops->lookup\<close> and \<^verbatim>\<open>inode->ops->readlink\<close>; tmpfs has no lookup of its own.\<close>

definition lookup_op :: "foreign_ops \<Rightarrow> inode_ops \<Rightarrow> (vfs \<Rightarrow> iptr \<Rightarrow> dptr \<Rightarrow> (vfs \<times> bool) option) option" where
  "lookup_op fo t = (case t of Foreign_Ops n \<Rightarrow> fo_lookup fo n | _ \<Rightarrow> None)"

definition dentry_get_child :: "foreign_ops \<Rightarrow> vfs \<Rightarrow> dptr \<Rightarrow> name \<Rightarrow> (vfs \<times> dptr) option" where
  "dentry_get_child fo s parent nm = do {
     p \<leftarrow> dget s parent;
     found \<leftarrow> find_child s nm (d_children p);
     (s, d) \<leftarrow> (case found of Some c \<Rightarrow> Some (s, c) | None \<Rightarrow> dentry_create s (d_super p) (Some parent) (Some nm));
     x \<leftarrow> dget s d;
     if d_inode x \<noteq> None then do { s \<leftarrow> dentry_ref s d; Some (s, d) }
     else do {
       p \<leftarrow> dget s parent;
       case d_inode p of
         None \<Rightarrow> Some (s, d)
       | Some i \<Rightarrow> do {
           n \<leftarrow> iget s i;
           case lookup_op fo (i_ops n) of
             None \<Rightarrow> Some (s, d)
           | Some lookup \<Rightarrow> do {
               (s, there) \<leftarrow> lookup s i d;
               if there then do { s \<leftarrow> dentry_ref s d; Some (s, d) } else Some (s, d) } } } }"

text \<open>
  Following a symbolic link and resolving the rest of a path call each other.  The functions on one path take the function that
  follows a link as argument; \<^verbatim>\<open>dentry_resolve_follow_symlink\<close> ties the knot with the number of nested calls that fit on the kernel
  stack, and with no room left the kernel overruns its stack.\<close>

type_synonym follow = "vfs \<Rightarrow> dptr \<Rightarrow> u32 \<Rightarrow> (vfs \<times> (vfs_error + dptr)) option"

text \<open>The loop of \<^verbatim>\<open>dentry_lookup_parent\<close> over the segments of the path.\<close>

fun lookup_segments :: "foreign_ops \<Rightarrow> follow \<Rightarrow> dptr \<Rightarrow> bool \<Rightarrow> vfs \<Rightarrow> dptr \<Rightarrow> name list \<Rightarrow> (vfs \<times> (vfs_error + dptr \<times> name option)) option" where
  "lookup_segments fo follow root ends_with_slash s parent [] = Some (s, Inr (parent, None))"
| "lookup_segments fo follow root ends_with_slash s parent [seg] = do {
     t \<leftarrow> dentry_type s parent;
     let leaf = (if ends_with_slash then seg @ [PATH_DELIM] else seg);
     if t = FILE_TYPE_SYMLINK then do {
       (s, real) \<leftarrow> follow s parent (or RESOLVE_EXPECT_EXIST RESOLVE_EXPECT_DIR);
       s \<leftarrow> dentry_unref s (Some parent);
       Some (s, map_sum id (\<lambda>d. (d, Some leaf)) real) }
     else Some (s, Inr (parent, Some leaf)) }"
| "lookup_segments fo follow root ends_with_slash s parent (seg # next # segs) =
     (if is_dot seg then lookup_segments fo follow root ends_with_slash s parent (next # segs)
      else if is_dotdot seg then
        (if parent = root then lookup_segments fo follow root ends_with_slash s parent (next # segs)
         else do {
           x \<leftarrow> dget s parent;
           let up = d_parent x;
           (s, lowered) \<leftarrow> dentry_unref_one_norelease s (Some parent);
           mos_assert lowered;
           up \<leftarrow> up;
           y \<leftarrow> dget s up;
           up \<leftarrow> (if d_is_mountpoint y then do { mp \<leftarrow> dentry_root_get_mountpoint s up; mp } else Some up);
           lookup_segments fo follow root ends_with_slash s up (next # segs) })
      else do {
        (s, child) \<leftarrow> dentry_get_child fo s parent seg;
        x \<leftarrow> dget s child;
        if d_inode x = None then do {
          s \<leftarrow> dentry_try_release s child;
          s \<leftarrow> dentry_unref s (Some parent);
          Some (s, Inl ENOENT) }
        else if d_is_mountpoint x then do {
          r \<leftarrow> mounted_root s child;
          s \<leftarrow> dentry_ref s r;
          lookup_segments fo follow root ends_with_slash s r (next # segs) }
        else lookup_segments fo follow root ends_with_slash s child (next # segs) })"

definition dentry_lookup_parent ::
  "foreign_ops \<Rightarrow> follow \<Rightarrow> vfs \<Rightarrow> dptr \<Rightarrow> dptr \<Rightarrow> name \<Rightarrow> (vfs \<times> (vfs_error + dptr \<times> name option)) option" where
  "dentry_lookup_parent fo follow s base_dir root_dir path = do {
     let parent = (if path_is_absolute path then root_dir else base_dir);
     x \<leftarrow> dget s parent;
     parent \<leftarrow> (if d_is_mountpoint x then mounted_root s parent else Some parent);
     s \<leftarrow> dentry_ref_up_to s parent root_dir;
     lookup_segments fo follow root_dir (path \<noteq> [] \<and> List.last path = PATH_DELIM) s parent (tokens (\<lambda>c. c = PATH_DELIM) path) }"

text \<open>\<^verbatim>\<open>dentry_resolve_handle_last_segment\<close>: the entry or the error, and whether a symbolic link was followed.\<close>

definition handle_last_segment ::
  "foreign_ops \<Rightarrow> follow \<Rightarrow> vfs \<Rightarrow> dptr \<Rightarrow> name \<Rightarrow> u32 \<Rightarrow> (vfs \<times> (vfs_error + dptr) \<times> bool) option" where
  "handle_last_segment fo follow s parent leaf flags = do {
     let ends_with_slash = (leaf \<noteq> [] \<and> List.last leaf = PATH_DELIM);
     let leaf = (if ends_with_slash then butlast leaf else leaf);
     if ends_with_slash \<and> \<not> has_flag flags RESOLVE_EXPECT_DIR then Some (s, Inl EINVAL, False)
     else if is_dot leaf then Some (s, Inr parent, False)
     else if is_dotdot leaf then
       (if v_root s = Some parent then Some (s, Inr parent, False)
        else do {
          x \<leftarrow> dget s parent;
          let up = d_parent x;
          (s, lowered) \<leftarrow> dentry_unref_one_norelease s (Some parent);
          mos_assert lowered;
          up \<leftarrow> up;
          y \<leftarrow> dget s up;
          up \<leftarrow> (if d_is_mountpoint y then do { mp \<leftarrow> dentry_root_get_mountpoint s up; mp } else Some up);
          Some (s, Inr up, False) })
     else do {
       (s, child) \<leftarrow> dentry_get_child fo s parent leaf;
       x \<leftarrow> dget s child;
       case d_inode x of
         None \<Rightarrow>
           if has_flag flags RESOLVE_EXPECT_NONEXIST
           then Some (dset s child (x\<lparr>d_refcount := d_refcount x + 1\<rparr>), Inr child, False)
           else do { s \<leftarrow> dentry_try_release s child; Some (s, Inl ENOENT, False) }
       | Some i \<Rightarrow> do {
           mos_assert (d_refcount x > 0);
           if has_flag flags RESOLVE_EXPECT_NONEXIST \<and> \<not> has_flag flags RESOLVE_EXPECT_EXIST
           then do { s \<leftarrow> dentry_unref s (Some child); Some (s, Inl EEXIST, False) }
           else do {
             n \<leftarrow> iget s i;
             if i_type n = FILE_TYPE_SYMLINK then
               (if has_flag flags RESOLVE_SYMLINK_NOFOLLOW then Some (s, Inr child, False)
                else do {
                  (s, target) \<leftarrow> follow s child flags;
                  (s, lowered) \<leftarrow> dentry_unref_one_norelease s (Some child);
                  mos_assert lowered;
                  Some (s, target, True) })
             else if i_type n = FILE_TYPE_DIRECTORY then
               (if \<not> has_flag flags RESOLVE_EXPECT_DIR then do {
                  (s, lowered) \<leftarrow> dentry_unref_one_norelease s (Some child);
                  mos_assert lowered;
                  Some (s, Inl EISDIR, False) }
                else if d_is_mountpoint x then do {
                  r \<leftarrow> mounted_root s child;
                  s \<leftarrow> dentry_ref s r;
                  Some (s, Inr r, False) }
                else Some (s, Inr child, False))
             else if \<not> has_flag flags RESOLVE_EXPECT_FILE then do {
               (s, lowered) \<leftarrow> dentry_unref_one_norelease s (Some child);
               mos_assert lowered;
               Some (s, Inl ENOTDIR, False) }
             else Some (s, Inr child, False) } } } }"

definition tmpfs_i_readlink :: "vfs \<Rightarrow> dptr \<Rightarrow> nat \<Rightarrow> name option" where
  "tmpfs_i_readlink s d buflen = do {
     x \<leftarrow> dget s d;
     i \<leftarrow> d_inode x;
     n \<leftarrow> iget s i;
     t \<leftarrow> i_symlink_target n;
     Some (take buflen t) }"

definition readlink_op :: "foreign_ops \<Rightarrow> inode_ops \<Rightarrow> (vfs \<Rightarrow> dptr \<Rightarrow> nat \<Rightarrow> name option) option" where
  "readlink_op fo t = (case t of Tmpfs_Symlink_Ops \<Rightarrow> Some tmpfs_i_readlink | Foreign_Ops n \<Rightarrow> fo_readlink fo n | _ \<Rightarrow> None)"

primrec follow_symlink :: "nat \<Rightarrow> foreign_ops \<Rightarrow> nat \<Rightarrow> follow" where
  "follow_symlink 0 fo path_max s link flags = None"
| "follow_symlink (Suc stack) fo path_max s link flags = do {
     x \<leftarrow> dget s link;
     i \<leftarrow> d_inode x;
     n \<leftarrow> iget s i;
     mos_assert (i_type n = FILE_TYPE_SYMLINK);
     readlink \<leftarrow> readlink_op fo (i_ops n);
     target \<leftarrow> readlink s link path_max;
     if target = [] then Some (s, Inl ENOENT)
     else if length target = path_max then Some (s, Inl ENAMETOOLONG)
     else do {
       up \<leftarrow> d_parent x;
       root \<leftarrow> v_root s;
       (s, r) \<leftarrow> dentry_lookup_parent fo (follow_symlink stack fo path_max) s up root target;
       case r of
         Inl e \<Rightarrow> Some (s, Inl e)
       | Inr (parent, leaf) \<Rightarrow> do {
           leaf \<leftarrow> leaf;
           (s, child, symlink) \<leftarrow> handle_last_segment fo (follow_symlink stack fo path_max) s parent leaf flags;
           s \<leftarrow> (if isl child \<or> symlink then dentry_unref s (Some parent) else Some s);
           Some (s, child) } } }"

definition dentry_get ::
  "nat \<Rightarrow> foreign_ops \<Rightarrow> nat \<Rightarrow> vfs \<Rightarrow> dptr \<Rightarrow> dptr option \<Rightarrow> name \<Rightarrow> u32 \<Rightarrow> (vfs \<times> (vfs_error + dptr)) option" where
  "dentry_get stack fo path_max s starting_dir root_dir path flags = (case root_dir of
       None \<Rightarrow> Some (s, Inl ENOENT)
     | Some root \<Rightarrow> do {
         (s, r) \<leftarrow> dentry_lookup_parent fo (follow_symlink stack fo path_max) s starting_dir root path;
         case r of
           Inl e \<Rightarrow> Some (s, Inl e)
         | Inr (parent, None) \<Rightarrow> do {
             mos_assert (parent = starting_dir);
             if \<not> has_flag flags RESOLVE_EXPECT_DIR then do {
               s \<leftarrow> dentry_unref s (Some parent);
               Some (s, Inl EISDIR) }
             else Some (s, Inr parent) }
         | Inr (parent, Some leaf) \<Rightarrow> do {
             (s, child, symlink) \<leftarrow> handle_last_segment fo (follow_symlink stack fo path_max) s parent leaf flags;
             s \<leftarrow> (if isl child \<or> symlink then dentry_unref s (Some parent) else Some s);
             Some (s, child) } })"

end
