(* ===== verification/Vfs.thy ===== *)
theory Vfs
  imports Dentry
begin

text \<open>
  The virtual file system on top of the directory entry cache (\<^verbatim>\<open>vfs.c\<close>, \<^verbatim>\<open>inode.c\<close>) and the file system in memory, tmpfs
  (\<^verbatim>\<open>tmpfs.c\<close>): opening, listing, creating and removing files and directories, mounting, and the working directory.  Reading and
  writing the contents of files is in \<^verbatim>\<open>FileIo\<close>.\<close>

section \<open>Inodes\<close>

definition inode_init :: "nat \<Rightarrow> u64 \<Rightarrow> file_type \<Rightarrow> inode" where
  "inode_init sb ino type = \<lparr>i_ino = ino, i_type = type, i_perm = 0, i_size = 0, i_uid = 0, i_gid = 0, i_sticky = False, i_suid = False,
     i_sgid = False, i_nlinks = 1, i_accessed = 0, i_created = 0, i_modified = 0, i_refcount = 1, i_super = sb, i_ops = No_Ops,
     i_file_ops = No_File_Ops, i_symlink_target = None\<rparr>"

definition inode_create :: "vfs \<Rightarrow> nat \<Rightarrow> u64 \<Rightarrow> file_type \<Rightarrow> vfs \<times> iptr" where
  "inode_create s sb ino type = (iset (s\<lparr>v_next := v_next s + 1\<rparr>) (v_next s) (inode_init sb ino type), v_next s)"

definition inode_ref :: "vfs \<Rightarrow> iptr option \<Rightarrow> vfs option" where
  "inode_ref s i = do {
     i \<leftarrow> i;
     n \<leftarrow> iget s i;
     Some (iset s i (n\<lparr>i_refcount := i_refcount n + 1\<rparr>)) }"

text \<open>An inode whose last reference goes is dropped by its superblock, or freed when that has no function for it, as in tmpfs.\<close>

definition inode_unref :: "(nat \<Rightarrow> (vfs \<Rightarrow> iptr \<Rightarrow> vfs option) option) \<Rightarrow> vfs \<Rightarrow> iptr option \<Rightarrow> vfs option" where
  "inode_unref drop_inode s i = do {
     i \<leftarrow> i;
     n \<leftarrow> iget s i;
     mos_assert (i_refcount n > 0);
     let s = iset s i (n\<lparr>i_refcount := i_refcount n - 1\<rparr>);
     if i_refcount n = 1
     then (case drop_inode (i_super n) of Some f \<Rightarrow> f s i | None \<Rightarrow> Some (s\<lparr>v_inodes := (v_inodes s)(i := None)\<rparr>))
     else Some s }"

definition dentry_detach_inode :: "(nat \<Rightarrow> (vfs \<Rightarrow> iptr \<Rightarrow> vfs option) option) \<Rightarrow> vfs \<Rightarrow> dptr \<Rightarrow> vfs option" where
  "dentry_detach_inode drop_inode s d = do {
     x \<leftarrow> dget s d;
     mos_assert (d_inode x \<noteq> None);
     mos_assert (d_refcount x = 1);
     s \<leftarrow> inode_unref drop_inode s (d_inode x);
     x \<leftarrow> dget s d;
     Some (dset s d (x\<lparr>d_inode := None\<rparr>)) }"

section \<open>tmpfs\<close>

definition PERM_EXEC :: u16 where "PERM_EXEC = 0x49"

definition tmpfs_default_mode :: u16 where
  "tmpfs_default_mode = or (or 0x124 0x92) PERM_EXEC"

definition tmpfs_create_inode :: "vfs \<Rightarrow> nat \<Rightarrow> file_type \<Rightarrow> u16 \<Rightarrow> (vfs \<times> iptr) option" where
  "tmpfs_create_inode s sb type perm = do {
     let count = v_tmpfs_inode_count s + 1;
     let i = v_next s;
     let n = (inode_init sb count type)\<lparr>i_perm := perm\<rparr>;
     n \<leftarrow> (case type of
         FILE_TYPE_DIRECTORY \<Rightarrow> Some (n\<lparr>i_ops := Tmpfs_Dir_Ops\<rparr>)
       | FILE_TYPE_SYMLINK \<Rightarrow> Some (n\<lparr>i_ops := Tmpfs_Symlink_Ops\<rparr>)
       | FILE_TYPE_REGULAR \<Rightarrow> Some (n\<lparr>i_file_ops := Tmpfs_File_Ops\<rparr>)
       | _ \<Rightarrow> None);
     Some (iset (s\<lparr>v_next := i + 1, v_tmpfs_inode_count := count\<rparr>) i n, i) }"

text \<open>Mounting; the file system has the number 0.\<close>

definition tmpfs_fsop_mount :: "vfs \<Rightarrow> name \<Rightarrow> name option \<Rightarrow> (vfs \<times> dptr option) option" where
  "tmpfs_fsop_mount s dev options =
     (if dev \<noteq> [110, 111, 110, 101] then Some (s, None)
      else if options \<noteq> None \<and> options \<noteq> Some [] \<and> options \<noteq> Some [100, 101, 102, 97, 117, 108, 116, 115] then Some (s, None)
      else do {
        let sb = v_next s;
        let s = s\<lparr>v_next := sb + 1, v_supers := (v_supers s)(sb \<mapsto> 0)\<rparr>;
        (s, d) \<leftarrow> dentry_create s sb None None;
        (s, i) \<leftarrow> tmpfs_create_inode s sb FILE_TYPE_DIRECTORY tmpfs_default_mode;
        x \<leftarrow> dget s d;
        Some (dset s d (x\<lparr>d_inode := Some i\<rparr>), Some d) })"

definition tmpfs_mknod_impl :: "vfs \<Rightarrow> iptr \<Rightarrow> dptr \<Rightarrow> file_type \<Rightarrow> u16 \<Rightarrow> (vfs \<times> bool) option" where
  "tmpfs_mknod_impl s dir d type perm = do {
     n \<leftarrow> iget s dir;
     (s, i) \<leftarrow> tmpfs_create_inode s (i_super n) type perm;
     x \<leftarrow> dget s d;
     Some (dset s d (x\<lparr>d_inode := Some i\<rparr>), True) }"

definition tmpfs_i_create :: "vfs \<Rightarrow> iptr \<Rightarrow> dptr \<Rightarrow> file_type \<Rightarrow> u16 \<Rightarrow> (vfs \<times> bool) option" where
  "tmpfs_i_create s dir d type perm = tmpfs_mknod_impl s dir d type perm"

definition tmpfs_i_link :: "vfs \<Rightarrow> dptr \<Rightarrow> iptr \<Rightarrow> dptr \<Rightarrow> (vfs \<times> bool) option" where
  "tmpfs_i_link s old dir new = do {
     x \<leftarrow> dget s old;
     i \<leftarrow> d_inode x;
     n \<leftarrow> iget s i;
     mos_assert (i_type n \<noteq> FILE_TYPE_DIRECTORY);
     let s = iset s i (n\<lparr>i_nlinks := i_nlinks n + 1\<rparr>);
     y \<leftarrow> dget s new;
     Some (dset s new (y\<lparr>d_inode := Some i\<rparr>), True) }"

definition tmpfs_i_symlink :: "vfs \<Rightarrow> iptr \<Rightarrow> dptr \<Rightarrow> name \<Rightarrow> (vfs \<times> bool) option" where
  "tmpfs_i_symlink s dir d target = do {
     (s, created) \<leftarrow> tmpfs_mknod_impl s dir d FILE_TYPE_SYMLINK tmpfs_default_mode;
     x \<leftarrow> dget s d;
     i \<leftarrow> d_inode x;
     n \<leftarrow> iget s i;
     Some (iset s i (n\<lparr>i_symlink_target := Some target\<rparr>), created) }"

definition tmpfs_i_unlink :: "vfs \<Rightarrow> iptr \<Rightarrow> dptr \<Rightarrow> (vfs \<times> bool) option" where
  "tmpfs_i_unlink s dir d = do {
     x \<leftarrow> dget s d;
     i \<leftarrow> d_inode x;
     n \<leftarrow> iget s i;
     let n = n\<lparr>i_nlinks := i_nlinks n - 1\<rparr>;
     let s = iset s i n;
     if i_nlinks n = 0 \<and> i_type n = FILE_TYPE_DIRECTORY then Some (s, False)
     else do {
       let s = (if i_nlinks n = 0 then s\<lparr>v_inodes := (v_inodes s)(i := None)\<rparr> else s);
       Some (dset s d (x\<lparr>d_inode := None\<rparr>), True) } }"

definition tmpfs_i_mkdir :: "vfs \<Rightarrow> iptr \<Rightarrow> dptr \<Rightarrow> u16 \<Rightarrow> (vfs \<times> bool) option" where
  "tmpfs_i_mkdir s dir d perm = tmpfs_mknod_impl s dir d FILE_TYPE_DIRECTORY perm"

definition tmpfs_i_rmdir :: "vfs \<Rightarrow> iptr \<Rightarrow> dptr \<Rightarrow> (vfs \<times> bool) option" where
  "tmpfs_i_rmdir s dir d = do {
     x \<leftarrow> dget s d;
     i \<leftarrow> d_inode x;
     n \<leftarrow> iget s i;
     mos_assert (i_type n = FILE_TYPE_DIRECTORY);
     mos_assert (i_nlinks n = 1);
     let s = s\<lparr>v_inodes := (v_inodes s)(i := None)\<rparr>;
     Some (dset s d (x\<lparr>d_inode := None\<rparr>), True) }"

definition tmpfs_i_rename :: "vfs \<Rightarrow> iptr \<Rightarrow> dptr \<Rightarrow> iptr \<Rightarrow> dptr \<Rightarrow> (vfs \<times> bool) option" where
  "tmpfs_i_rename s old_dir old new_dir new = do {
     x \<leftarrow> dget s old;
     y \<leftarrow> dget s new;
     let s = dset s new (y\<lparr>d_inode := d_inode x\<rparr>);
     x \<leftarrow> dget s old;
     Some (dset s old (x\<lparr>d_inode := None\<rparr>), True) }"

text \<open>The operations behind an inode.\<close>

definition newfile_op :: "foreign_ops \<Rightarrow> inode_ops \<Rightarrow> (vfs \<Rightarrow> iptr \<Rightarrow> dptr \<Rightarrow> file_type \<Rightarrow> u16 \<Rightarrow> (vfs \<times> bool) option) option" where
  "newfile_op fo t = (case t of Tmpfs_Dir_Ops \<Rightarrow> Some tmpfs_i_create | Foreign_Ops n \<Rightarrow> fo_newfile fo n | _ \<Rightarrow> None)"

definition symlink_op :: "foreign_ops \<Rightarrow> inode_ops \<Rightarrow> (vfs \<Rightarrow> iptr \<Rightarrow> dptr \<Rightarrow> name \<Rightarrow> (vfs \<times> bool) option) option" where
  "symlink_op fo t = (case t of Tmpfs_Dir_Ops \<Rightarrow> Some tmpfs_i_symlink | Foreign_Ops n \<Rightarrow> fo_symlink fo n | _ \<Rightarrow> None)"

definition mkdir_op :: "foreign_ops \<Rightarrow> inode_ops \<Rightarrow> (vfs \<Rightarrow> iptr \<Rightarrow> dptr \<Rightarrow> u16 \<Rightarrow> (vfs \<times> bool) option) option" where
  "mkdir_op fo t = (case t of Tmpfs_Dir_Ops \<Rightarrow> Some tmpfs_i_mkdir | Foreign_Ops n \<Rightarrow> fo_mkdir fo n | _ \<Rightarrow> None)"

definition rmdir_op :: "foreign_ops \<Rightarrow> inode_ops \<Rightarrow> (vfs \<Rightarrow> iptr \<Rightarrow> dptr \<Rightarrow> (vfs \<times> bool) option) option" where
  "rmdir_op fo t = (case t of Tmpfs_Dir_Ops \<Rightarrow> Some tmpfs_i_rmdir | Foreign_Ops n \<Rightarrow> fo_rmdir fo n | _ \<Rightarrow> None)"

section \<open>System calls\<close>

definition OPEN_READ :: u32 where "OPEN_READ = 1"
definition OPEN_WRITE :: u32 where "OPEN_WRITE = 2"
definition OPEN_EXECUTE :: u32 where "OPEN_EXECUTE = 4"
definition OPEN_NO_FOLLOW :: u32 where "OPEN_NO_FOLLOW = 8"
definition OPEN_CREATE :: u32 where "OPEN_CREATE = 16"
definition OPEN_DIR :: u32 where "OPEN_DIR = 64"
definition FSTATAT_NOFOLLOW :: u32 where "FSTATAT_NOFOLLOW = 2"
definition FSTATAT_FILE :: u32 where "FSTATAT_FILE = 4"

record dirent =
  e_ino :: u64
  e_name :: name
  e_type :: file_type

record listdir_state =
  ls_entries :: "dirent list"
  ls_read_offset :: nat

record vfile =
  f_dentry :: dptr
  f_is_dir :: bool
  f_readable :: bool
  f_writable :: bool
  f_seekable :: bool
  f_executable :: bool
  f_mmapable :: bool
  f_listdir :: "listdir_state option"

text \<open>
  The state of the system calls: the entries, the open files, the working directory of the current process, which is missing while
  no process runs, and the registered file systems.  The number of calls that fit on the stack, the longest path, the other file
  systems and their \<^verbatim>\<open>open\<close>, \<^verbatim>\<open>mount\<close> and \<^verbatim>\<open>unmount\<close> are the environment.\<close>

record kfs =
  k_vfs :: vfs
  k_files :: "nat \<rightharpoonup> vfile"
  k_cwd :: "dptr option"
  k_fs_list :: "(name \<times> nat) list"

record env =
  n_stack :: nat
  n_path_max :: nat
  n_foreign :: foreign_ops
  n_open :: "nat \<Rightarrow> vfs \<Rightarrow> iptr \<Rightarrow> bool \<Rightarrow> bool"
  n_mount :: "nat \<Rightarrow> vfs \<Rightarrow> name \<Rightarrow> name option \<Rightarrow> (vfs \<times> dptr option) option"
  n_unmount :: "nat \<Rightarrow> (vfs \<Rightarrow> dptr \<Rightarrow> vfs option) option"
  n_iterate :: "nat \<Rightarrow> (vfs \<Rightarrow> dptr \<Rightarrow> dirent list) option"

definition resolve :: "env \<Rightarrow> kfs \<Rightarrow> vfs_error + dptr option \<Rightarrow> name \<Rightarrow> u32 \<Rightarrow> (kfs \<times> (vfs_error + dptr)) option" where
  "resolve env k base path flags = do {
     b \<leftarrow> (case base of Inr (Some b) \<Rightarrow> Some b | _ \<Rightarrow> None);
     (s, r) \<leftarrow> dentry_get (n_stack env) (n_foreign env) (n_path_max env) (k_vfs k) b (v_root (k_vfs k)) path flags;
     Some (k\<lparr>k_vfs := s\<rparr>, r) }"

text \<open>
  The directory that a relative path starts from.  \<open>fd\<close> is the answer of the descriptor table: the working directory, or the file
  behind a descriptor, if there is one.  A bad descriptor gives an error pointer, which the callers take for an address.\<close>

datatype dir_fd = CWD | FD "nat option"

definition dentry_from_fd :: "kfs \<Rightarrow> dir_fd \<Rightarrow> (vfs_error + dptr option) option" where
  "dentry_from_fd k fd = (case fd of
       CWD \<Rightarrow> Some (Inr (case k_cwd k of Some d \<Rightarrow> Some d | None \<Rightarrow> v_root (k_vfs k)))
     | FD f \<Rightarrow> do {
         mos_assert (k_cwd k \<noteq> None);
         case f of
           None \<Rightarrow> Some (Inl EBADF)
         | Some f \<Rightarrow> do { x \<leftarrow> k_files k f; Some (Inr (Some (f_dentry x))) } })"

definition base_of :: "kfs \<Rightarrow> dir_fd \<Rightarrow> name \<Rightarrow> (vfs_error + dptr option) option" where
  "base_of k fd path = (if path_is_absolute path then Some (Inr (v_root (k_vfs k))) else dentry_from_fd k fd)"

definition unref :: "kfs \<Rightarrow> dptr \<Rightarrow> kfs option" where
  "unref k d = do { s \<leftarrow> dentry_unref (k_vfs k) (Some d); Some (k\<lparr>k_vfs := s\<rparr>) }"

definition vfs_verify_permissions :: "vfs \<Rightarrow> dptr \<Rightarrow> bool \<Rightarrow> bool option" where
  "vfs_verify_permissions s d execute = do {
     x \<leftarrow> dget s d;
     i \<leftarrow> d_inode x;
     n \<leftarrow> iget s i;
     Some (\<not> (execute \<and> and (i_perm n) PERM_EXEC = 0)) }"

definition vfs_do_open :: "env \<Rightarrow> kfs \<Rightarrow> vfs_error + dptr option \<Rightarrow> name \<Rightarrow> u32 \<Rightarrow> (kfs \<times> (vfs_error + nat option)) option" where
  "vfs_do_open env k base path flags =
     (if base = Inr None then Some (k, Inr None)
      else do {
        let may_create = has_flag flags OPEN_CREATE;
        let resolve_flags = or RESOLVE_EXPECT_FILE
          (or (if has_flag flags OPEN_NO_FOLLOW then RESOLVE_SYMLINK_NOFOLLOW else 0)
          (or (if may_create then or RESOLVE_EXPECT_EXIST RESOLVE_EXPECT_NONEXIST else RESOLVE_EXPECT_EXIST)
              (if has_flag flags OPEN_DIR then RESOLVE_EXPECT_DIR else 0)));
        (k, r) \<leftarrow> resolve env k base path resolve_flags;
        case r of
          Inl e \<Rightarrow> Some (k, Inl e)
        | Inr d \<Rightarrow> do {
            x \<leftarrow> dget (k_vfs k) d;
            (k, created, readonly) \<leftarrow> (if may_create \<and> d_inode x = None then do {
                parent \<leftarrow> d_parent x;
                p \<leftarrow> dget (k_vfs k) parent;
                i \<leftarrow> d_inode p;
                n \<leftarrow> iget (k_vfs k) i;
                mos_assert (i_ops n \<noteq> No_Ops);
                case newfile_op (n_foreign env) (i_ops n) of
                  None \<Rightarrow> do { k \<leftarrow> unref k d; Some (k, False, True) }
                | Some newfile \<Rightarrow> do {
                    (s, _) \<leftarrow> newfile (k_vfs k) i d FILE_TYPE_REGULAR 0x1B6;
                    Some (k\<lparr>k_vfs := s\<rparr>, True, False) } }
              else Some (k, False, False));
            if readonly then Some (k, Inl EROFS)
            else do {
              allowed \<leftarrow> vfs_verify_permissions (k_vfs k) d (has_flag flags OPEN_EXECUTE);
              if \<not> allowed then Some (k, Inl EACCES)
              else do {
                x \<leftarrow> dget (k_vfs k) d;
                i \<leftarrow> d_inode x;
                n \<leftarrow> iget (k_vfs k) i;
                let is_dir = (i_type n = FILE_TYPE_DIRECTORY);
                let opened = (case i_file_ops n of Foreign_File_Ops m \<Rightarrow> n_open env m (k_vfs k) i created | _ \<Rightarrow> True);
                if \<not> opened then Some (k, Inl ENOTSUP)
                else do {
                  let f = v_next (k_vfs k);
                  Some (k\<lparr>k_vfs := (k_vfs k)\<lparr>v_next := f + 1\<rparr>,
                    k_files := (k_files k)(f \<mapsto> \<lparr>f_dentry = d, f_is_dir = is_dir, f_readable = has_flag flags OPEN_READ \<or> is_dir,
                      f_writable = has_flag flags OPEN_WRITE, f_seekable = \<not> is_dir, f_executable = has_flag flags OPEN_EXECUTE,
                      f_mmapable = (i_type n = FILE_TYPE_REGULAR), f_listdir = None\<rparr>)\<rparr>, Inr (Some f)) } } } } })"

definition vfs_openat :: "env \<Rightarrow> kfs \<Rightarrow> dir_fd \<Rightarrow> name \<Rightarrow> u32 \<Rightarrow> (kfs \<times> (vfs_error + nat option)) option" where
  "vfs_openat env k fd path flags = do {
     base \<leftarrow> base_of k fd path;
     vfs_do_open env k base path flags }"

text \<open>Closing a file; what the flush and release functions of other file systems do is left out.\<close>

definition vfs_io_ops_close :: "kfs \<Rightarrow> nat \<Rightarrow> kfs option" where
  "vfs_io_ops_close k f = do {
     x \<leftarrow> k_files k f;
     k \<leftarrow> unref k (f_dentry x);
     Some (k\<lparr>k_files := (k_files k)(f := None)\<rparr>) }"

definition vfs_find_filesystem :: "kfs \<Rightarrow> name \<Rightarrow> nat option" where
  "vfs_find_filesystem k nm = map_of (k_fs_list k) nm"

definition vfs_register_filesystem :: "kfs \<Rightarrow> name \<Rightarrow> nat \<Rightarrow> kfs" where
  "vfs_register_filesystem k nm fs = k\<lparr>k_fs_list := k_fs_list k @ [(nm, fs)]\<rparr>"

definition fs_mount :: "env \<Rightarrow> nat \<Rightarrow> vfs \<Rightarrow> name \<Rightarrow> name option \<Rightarrow> (vfs \<times> dptr option) option" where
  "fs_mount env fs s dev options = (if fs = 0 then tmpfs_fsop_mount s dev options else n_mount env fs s dev options)"

definition vfs_mount :: "env \<Rightarrow> kfs \<Rightarrow> name \<Rightarrow> name \<Rightarrow> name \<Rightarrow> name option \<Rightarrow> (kfs \<times> vfs_error option) option" where
  "vfs_mount env k device path fs options = (case vfs_find_filesystem k fs of
       None \<Rightarrow> Some (k, Some EINVAL)
     | Some real_fs \<Rightarrow>
         if path = [PATH_DELIM] then
           (if v_root (k_vfs k) \<noteq> None then Some (k, Some EBUSY)
            else do {
              (s, root) \<leftarrow> fs_mount env real_fs (k_vfs k) device options;
              let s = s\<lparr>v_root := root\<rparr>;
              case root of
                None \<Rightarrow> Some (k\<lparr>k_vfs := s\<rparr>, Some EIO)
              | Some r \<Rightarrow> do {
                  x \<leftarrow> dget s r;
                  mos_assert (d_name x = None);
                  (s, mounted) \<leftarrow> dentry_mount s r r real_fs;
                  mos_assert mounted;
                  Some (k\<lparr>k_vfs := s\<rparr>, None) } })
         else do {
           base \<leftarrow> base_of k CWD path;
           (k, r) \<leftarrow> resolve env k base path (or RESOLVE_EXPECT_DIR RESOLVE_EXPECT_EXIST);
           case r of
             Inl e \<Rightarrow> Some (k, Some e)
           | Inr mountpoint \<Rightarrow> do {
               x \<leftarrow> dget (k_vfs k) mountpoint;
               if d_is_mountpoint x then do { k \<leftarrow> unref k mountpoint; Some (k, Some EBUSY) }
               else do {
                 (s, root) \<leftarrow> fs_mount env real_fs (k_vfs k) device options;
                 case root of
                   None \<Rightarrow> Some (k\<lparr>k_vfs := s\<rparr>, Some EIO)
                 | Some r \<Rightarrow> do {
                     (s, mounted) \<leftarrow> dentry_mount s mountpoint r real_fs;
                     if \<not> mounted then Some (k\<lparr>k_vfs := s\<rparr>, Some EIO)
                     else do {
                       x \<leftarrow> dget s mountpoint;
                       y \<leftarrow> dget s r;
                       mos_assert (d_refcount x = d_refcount y);
                       Some (k\<lparr>k_vfs := s\<rparr>, None) } } } } })"

definition vfs_unmount :: "env \<Rightarrow> kfs \<Rightarrow> name \<Rightarrow> (kfs \<times> vfs_error option) option" where
  "vfs_unmount env k path = do {
     (k, r) \<leftarrow> resolve env k (Inr (v_root (k_vfs k))) path (or RESOLVE_EXPECT_DIR RESOLVE_EXPECT_EXIST);
     case r of
       Inl e \<Rightarrow> Some (k, Some e)
     | Inr root \<Rightarrow> do {
         x \<leftarrow> dget (k_vfs k) root;
         if d_refcount x \<noteq> 2 then do {
           dentry_check_refstat (k_vfs k) root;
           Some (k, Some EBUSY) }
         else do {
           k \<leftarrow> unref k root;
           (s, mp) \<leftarrow> dentry_unmount (k_vfs k) root;
           case mp of
             None \<Rightarrow> Some (k\<lparr>k_vfs := s\<rparr>, Some EIO)
           | Some mp \<Rightarrow> do {
               x \<leftarrow> dget s root;
               y \<leftarrow> dget s mp;
               mos_assert (d_refcount x = d_refcount y \<and> d_refcount y = 1);
               fs \<leftarrow> v_supers s (d_super x);
               s \<leftarrow> (case n_unmount env fs of
                   Some unmount \<Rightarrow> unmount s root
                 | None \<Rightarrow> do {
                     (s, lowered) \<leftarrow> dentry_unref_one_norelease s (Some root);
                     mos_assert lowered;
                     Some s });
               x \<leftarrow> dget s root;
               mos_assert (d_refcount x = 0);
               if v_root s = Some root then Some (k\<lparr>k_vfs := s\<lparr>v_root := None\<rparr>\<rparr>, None)
               else do {
                 s \<leftarrow> dentry_unref s (Some mp);
                 Some (k\<lparr>k_vfs := s\<rparr>, None) } } } } }"

text \<open>The information about a file is its inode; only the fields that \<^verbatim>\<open>vfs_copy_stat\<close> copies are returned.\<close>

record file_stat =
  st_ino :: u64
  st_type :: file_type
  st_perm :: u16
  st_size :: u64
  st_uid :: u32
  st_gid :: u32
  st_sticky :: bool
  st_suid :: bool
  st_sgid :: bool
  st_nlinks :: int
  st_accessed :: u64
  st_modified :: u64
  st_created :: u64

definition vfs_copy_stat :: "inode \<Rightarrow> file_stat" where
  "vfs_copy_stat n = \<lparr>st_ino = i_ino n, st_type = i_type n, st_perm = i_perm n, st_size = i_size n, st_uid = i_uid n, st_gid = i_gid n,
     st_sticky = i_sticky n, st_suid = i_suid n, st_sgid = i_sgid n, st_nlinks = i_nlinks n, st_accessed = i_accessed n,
     st_modified = i_modified n, st_created = i_created n\<rparr>"

definition stat_dentry :: "vfs \<Rightarrow> dptr \<Rightarrow> file_stat option" where
  "stat_dentry s d = do { x \<leftarrow> dget s d; i \<leftarrow> d_inode x; n \<leftarrow> iget s i; Some (vfs_copy_stat n) }"

definition vfs_fstatat :: "env \<Rightarrow> kfs \<Rightarrow> dir_fd \<Rightarrow> name \<Rightarrow> u32 \<Rightarrow> (kfs \<times> (vfs_error + file_stat)) option" where
  "vfs_fstatat env k fd path flags =
     (if has_flag flags FSTATAT_FILE then (case fd of
         FD (Some f) \<Rightarrow> do {
           x \<leftarrow> k_files k f;
           st \<leftarrow> stat_dentry (k_vfs k) (f_dentry x);
           Some (k, Inr st) }
       | _ \<Rightarrow> Some (k, Inl EBADF))
      else do {
        base \<leftarrow> base_of k fd path;
        (k, r) \<leftarrow> resolve env k base path (or (or (or RESOLVE_EXPECT_FILE RESOLVE_EXPECT_DIR) RESOLVE_EXPECT_EXIST)
          (if has_flag flags FSTATAT_NOFOLLOW then RESOLVE_SYMLINK_NOFOLLOW else 0));
        case r of
          Inl e \<Rightarrow> Some (k, Inl e)
        | Inr d \<Rightarrow> do {
            st \<leftarrow> stat_dentry (k_vfs k) d;
            k \<leftarrow> unref k d;
            Some (k, Inr st) } })"

definition vfs_readlinkat :: "env \<Rightarrow> kfs \<Rightarrow> dir_fd \<Rightarrow> name \<Rightarrow> nat \<Rightarrow> (kfs \<times> (vfs_error + name)) option" where
  "vfs_readlinkat env k fd path sz = do {
     base \<leftarrow> base_of k fd path;
     (k, r) \<leftarrow> resolve env k base path (or RESOLVE_SYMLINK_NOFOLLOW (or RESOLVE_EXPECT_EXIST RESOLVE_EXPECT_FILE));
     case r of
       Inl e \<Rightarrow> Some (k, Inl e)
     | Inr d \<Rightarrow> do {
         x \<leftarrow> dget (k_vfs k) d;
         i \<leftarrow> d_inode x;
         n \<leftarrow> iget (k_vfs k) i;
         if i_type n \<noteq> FILE_TYPE_SYMLINK then do { k \<leftarrow> unref k d; Some (k, Inl EINVAL) }
         else do {
           readlink \<leftarrow> readlink_op (n_foreign env) (i_ops n);
           t \<leftarrow> readlink (k_vfs k) d sz;
           k \<leftarrow> unref k d;
           Some (k, if length t \<ge> sz then Inl ENAMETOOLONG else Inr t) } } }"

definition vfs_symlink :: "env \<Rightarrow> kfs \<Rightarrow> name \<Rightarrow> name \<Rightarrow> (kfs \<times> vfs_error option) option" where
  "vfs_symlink env k path target = do {
     base \<leftarrow> base_of k CWD path;
     (k, r) \<leftarrow> resolve env k base path RESOLVE_EXPECT_NONEXIST;
     case r of
       Inl e \<Rightarrow> Some (k, Some e)
     | Inr d \<Rightarrow> do {
         x \<leftarrow> dget (k_vfs k) d;
         parent \<leftarrow> d_parent x;
         p \<leftarrow> dget (k_vfs k) parent;
         i \<leftarrow> d_inode p;
         n \<leftarrow> iget (k_vfs k) i;
         symlink \<leftarrow> symlink_op (n_foreign env) (i_ops n);
         (s, created) \<leftarrow> symlink (k_vfs k) i d target;
         k \<leftarrow> unref (k\<lparr>k_vfs := s\<rparr>) d;
         Some (k, if created then None else Some EIO) } }"

text \<open>\<^verbatim>\<open>vfs_mkdir\<close> returns 0 also when the file system cannot make directories.\<close>

definition vfs_mkdir :: "env \<Rightarrow> kfs \<Rightarrow> name \<Rightarrow> (kfs \<times> vfs_error option) option" where
  "vfs_mkdir env k path = do {
     base \<leftarrow> base_of k CWD path;
     (k, r) \<leftarrow> resolve env k base path RESOLVE_EXPECT_NONEXIST;
     case r of
       Inl e \<Rightarrow> Some (k, Some e)
     | Inr d \<Rightarrow> do {
         x \<leftarrow> dget (k_vfs k) d;
         parent \<leftarrow> d_parent x;
         p \<leftarrow> dget (k_vfs k) parent;
         case d_inode p of
           None \<Rightarrow> do { k \<leftarrow> unref k d; Some (k, None) }
         | Some i \<Rightarrow> do {
             n \<leftarrow> iget (k_vfs k) i;
             case mkdir_op (n_foreign env) (i_ops n) of
               None \<Rightarrow> do { k \<leftarrow> unref k d; Some (k, None) }
             | Some mkdir \<Rightarrow> do {
                 (s, created) \<leftarrow> mkdir (k_vfs k) i d (i_perm n);
                 k \<leftarrow> unref (k\<lparr>k_vfs := s\<rparr>) d;
                 Some (k, if created then None else Some EIO) } } } }"

definition vfs_rmdir :: "env \<Rightarrow> kfs \<Rightarrow> name \<Rightarrow> (kfs \<times> vfs_error option) option" where
  "vfs_rmdir env k path = do {
     base \<leftarrow> base_of k CWD path;
     (k, r) \<leftarrow> resolve env k base path (or RESOLVE_EXPECT_EXIST RESOLVE_EXPECT_DIR);
     case r of
       Inl e \<Rightarrow> Some (k, Some e)
     | Inr d \<Rightarrow> do {
         x \<leftarrow> dget (k_vfs k) d;
         parent \<leftarrow> d_parent x;
         p \<leftarrow> dget (k_vfs k) parent;
         case d_inode p of
           None \<Rightarrow> do { k \<leftarrow> unref k d; Some (k, Some ENOTSUP) }
         | Some i \<Rightarrow> do {
             n \<leftarrow> iget (k_vfs k) i;
             case rmdir_op (n_foreign env) (i_ops n) of
               None \<Rightarrow> do { k \<leftarrow> unref k d; Some (k, Some ENOTSUP) }
             | Some rmdir \<Rightarrow> do {
                 (s, removed) \<leftarrow> rmdir (k_vfs k) i d;
                 k \<leftarrow> unref (k\<lparr>k_vfs := s\<rparr>) d;
                 Some (k, if removed then None else Some EIO) } } } }"

definition vfs_chdir :: "env \<Rightarrow> kfs \<Rightarrow> name \<Rightarrow> (kfs \<times> vfs_error option) option" where
  "vfs_chdir env k path = do {
     base \<leftarrow> base_of k CWD path;
     (k, r) \<leftarrow> resolve env k base path (or RESOLVE_EXPECT_EXIST RESOLVE_EXPECT_DIR);
     case r of
       Inl e \<Rightarrow> Some (k, Some e)
     | Inr d \<Rightarrow> do {
         old \<leftarrow> dentry_from_fd k CWD;
         k \<leftarrow> (case old of Inr (Some c) \<Rightarrow> unref k c | _ \<Rightarrow> Some k);
         mos_assert (k_cwd k \<noteq> None);
         Some (k\<lparr>k_cwd := Some d\<rparr>, None) } }"

definition vfs_getcwd :: "kfs \<Rightarrow> nat \<Rightarrow> (int \<times> name option) option" where
  "vfs_getcwd k sz = do {
     cwd \<leftarrow> dentry_from_fd k CWD;
     root \<leftarrow> v_root (k_vfs k);
     case cwd of Inr d \<Rightarrow> dentry_path (k_vfs k) d root sz | Inl e \<Rightarrow> None }"

definition vfs_fchmodat :: "env \<Rightarrow> kfs \<Rightarrow> dir_fd \<Rightarrow> name \<Rightarrow> u16 \<Rightarrow> (kfs \<times> vfs_error option) option" where
  "vfs_fchmodat env k fd path perm = do {
     base \<leftarrow> base_of k fd path;
     (k, r) \<leftarrow> resolve env k base path (or RESOLVE_EXPECT_EXIST (or RESOLVE_EXPECT_FILE RESOLVE_EXPECT_DIR));
     case r of
       Inl e \<Rightarrow> Some (k, Some e)
     | Inr d \<Rightarrow> do {
         x \<leftarrow> dget (k_vfs k) d;
         i \<leftarrow> d_inode x;
         n \<leftarrow> iget (k_vfs k) i;
         k \<leftarrow> unref (k\<lparr>k_vfs := iset (k_vfs k) i (n\<lparr>i_perm := perm\<rparr>)\<rparr>) d;
         Some (k, None) } }"

section \<open>Listing directories\<close>

fun vfs_generic_iterate_dir :: "vfs \<Rightarrow> dptr list \<Rightarrow> dirent list option" where
  "vfs_generic_iterate_dir s [] = Some []"
| "vfs_generic_iterate_dir s (c # cs) = do {
     x \<leftarrow> dget s c;
     case d_inode x of
       None \<Rightarrow> vfs_generic_iterate_dir s cs
     | Some i \<Rightarrow> do {
         n \<leftarrow> iget s i;
         nm \<leftarrow> d_name x;
         es \<leftarrow> vfs_generic_iterate_dir s cs;
         Some (\<lparr>e_ino = i_ino n, e_name = nm, e_type = i_type n\<rparr> # es) } }"

definition vfs_populate_listdir_buf :: "env \<Rightarrow> vfs \<Rightarrow> dptr \<Rightarrow> dirent list option" where
  "vfs_populate_listdir_buf env s dir = do {
     x \<leftarrow> dget s dir;
     parent \<leftarrow> (case d_parent x of None \<Rightarrow> v_root s | Some p \<Rightarrow> Some p);
     p \<leftarrow> dget s parent;
     pi \<leftarrow> d_inode p;
     pn \<leftarrow> iget s pi;
     i \<leftarrow> d_inode x;
     n \<leftarrow> iget s i;
     es \<leftarrow> (case i_ops n of
         Foreign_Ops m \<Rightarrow> (case n_iterate env m of Some it \<Rightarrow> Some (it s dir) | None \<Rightarrow> vfs_generic_iterate_dir s (d_children x))
       | _ \<Rightarrow> vfs_generic_iterate_dir s (d_children x));
     Some (\<lparr>e_ino = i_ino n, e_name = [46], e_type = FILE_TYPE_DIRECTORY\<rparr> #
       \<lparr>e_ino = i_ino pn, e_name = [46, 46], e_type = FILE_TYPE_DIRECTORY\<rparr> # es) }"

text \<open>The size of a record in the user's buffer: \<^verbatim>\<open>d_ino\<close>, \<^verbatim>\<open>d_off\<close>, \<^verbatim>\<open>d_reclen\<close>, \<^verbatim>\<open>d_type\<close>, the name and its terminator.\<close>

definition entry_size :: "dirent \<Rightarrow> nat" where
  "entry_size e = 8 + 8 + 2 + 1 + length (e_name e) + 1"

fun copy_entries :: "nat \<Rightarrow> nat \<Rightarrow> dirent list \<Rightarrow> dirent list" where
  "copy_entries sz copied [] = []"
| "copy_entries sz copied (e # es) = (if copied + entry_size e > sz then [] else e # copy_entries sz (copied + entry_size e) es)"

text \<open>One call of \<^verbatim>\<open>vfs_list_dir\<close>: the records that it writes to the buffer, of which it returns the total size.\<close>

definition vfs_list_dir :: "env \<Rightarrow> kfs \<Rightarrow> nat \<Rightarrow> nat \<Rightarrow> (kfs \<times> dirent list) option" where
  "vfs_list_dir env k f sz = do {
     x \<leftarrow> k_files k f;
     t \<leftarrow> dentry_type (k_vfs k) (f_dentry x);
     if t \<noteq> FILE_TYPE_DIRECTORY then Some (k, [])
     else do {
       st \<leftarrow> (case f_listdir x of
           Some st \<Rightarrow> Some st
         | None \<Rightarrow> do {
             es \<leftarrow> vfs_populate_listdir_buf env (k_vfs k) (f_dentry x);
             Some \<lparr>ls_entries = es, ls_read_offset = 0\<rparr> });
       let out = copy_entries sz 0 (List.drop (ls_read_offset st) (ls_entries st));
       let st = st\<lparr>ls_read_offset := ls_read_offset st + length out\<rparr>;
       Some (k\<lparr>k_files := (k_files k)(f \<mapsto> x\<lparr>f_listdir := Some st\<rparr>)\<rparr>, out) } }"

end
