(* ===== verification/DentryRefs.thy ===== *)
theory DentryRefs
  imports Dentry "HOL-Library.Sublist"
begin

text \<open>
  Reference counts of directory entries.  An entry that is in use holds a reference on every entry on its way to the root, its
  \<open>chain\<close>; taking and dropping a reference adds and subtracts one along the chain.  The counts of a state with more references are
  those of the state \<open>bump s f\<close>, where \<open>f\<close> says how many were added to each entry.\<close>

section \<open>States with the same tree\<close>

definition same_tree :: "vfs \<Rightarrow> vfs \<Rightarrow> bool" where
  "same_tree s t \<longleftrightarrow> v_root s = v_root t \<and> v_mounts s = v_mounts t \<and>
     (\<forall>d. map_option (\<lambda>x. (d_parent x, d_children x, d_name x, d_is_mountpoint x)) (dget s d) =
          map_option (\<lambda>x. (d_parent x, d_children x, d_name x, d_is_mountpoint x)) (dget t d))"

lemma same_tree_cases:
  assumes "same_tree s t"
  obtains "dget s d = None" "dget t d = None"
    | x y where "dget s d = Some x" "dget t d = Some y" "d_parent y = d_parent x" "d_children y = d_children x" "d_name y = d_name x"
      "d_is_mountpoint y = d_is_mountpoint x"
proof -
  have "map_option (\<lambda>x. (d_parent x, d_children x, d_name x, d_is_mountpoint x)) (dget s d) =
      map_option (\<lambda>x. (d_parent x, d_children x, d_name x, d_is_mountpoint x)) (dget t d)"
    using assms by (simp add: same_tree_def)
  then show ?thesis
    using that by (cases "dget s d"; cases "dget t d") auto
qed

lemma same_tree_sym: "same_tree s t \<Longrightarrow> same_tree t s"
  by (simp add: same_tree_def)

lemma same_tree_mounts:
  assumes "same_tree s t"
  shows "dentry_get_mount t d = dentry_get_mount s d" "mounted_root t d = mounted_root s d"
proof -
  have "v_mounts t = v_mounts s"
    using assms by (simp add: same_tree_def)
  then show m: "dentry_get_mount t d = dentry_get_mount s d"
    by (cases d rule: same_tree_cases [OF assms]) (simp_all add: dentry_get_mount_def)
  show "mounted_root t d = mounted_root s d"
    by (simp add: mounted_root_def m)
qed

lemma same_tree_find:
  assumes "same_tree s t"
  shows "find_mountpoint t d cs = find_mountpoint s d cs" "find_child t nm cs = find_child s nm cs"
proof (induction cs)
  case (Cons c cs)
  {
    case 1
    then show ?case
      using Cons same_tree_mounts [OF assms] by (cases c rule: same_tree_cases [OF assms]) (simp_all cong: if_cong)
  next
    case 2
    then show ?case
      using Cons by (cases c rule: same_tree_cases [OF assms]) (simp_all cong: if_cong)
  }
qed simp_all

lemma same_tree_mountpoint:
  assumes "same_tree s t"
  shows "dentry_root_get_mountpoint t d = dentry_root_get_mountpoint s d"
proof -
  have f: "(do { p \<leftarrow> dget t q; find_mountpoint t d (d_children p) }) = (do { p \<leftarrow> dget s q; find_mountpoint s d (d_children p) })" for q
    by (cases q rule: same_tree_cases [OF assms]) (simp_all add: same_tree_find [OF assms])
  have "v_root t = v_root s"
    using assms by (simp add: same_tree_def)
  then show ?thesis
    by (cases d rule: same_tree_cases [OF assms]) (simp_all add: dentry_root_get_mountpoint_def f)
qed

lemmas same_tree_simps = same_tree_mounts same_tree_find same_tree_mountpoint

section \<open>Counting\<close>

definition bump :: "vfs \<Rightarrow> (dptr \<Rightarrow> nat) \<Rightarrow> vfs" where
  "bump s f = s\<lparr>v_dentries := (\<lambda>d. map_option (\<lambda>x. x\<lparr>d_refcount := d_refcount x + f d\<rparr>) (v_dentries s d))\<rparr>"

lemma dget_bump: "dget (bump s f) d = map_option (\<lambda>x. x\<lparr>d_refcount := d_refcount x + f d\<rparr>) (dget s d)"
  by (simp add: dget_def bump_def)

lemma bump_fields [simp]: "v_inodes (bump s f) = v_inodes s" "v_mounts (bump s f) = v_mounts s" "v_root (bump s f) = v_root s"
  "v_supers (bump s f) = v_supers s" "v_tmpfs_inode_count (bump s f) = v_tmpfs_inode_count s" "v_next (bump s f) = v_next s"
  "iget (bump s f) i = iget s i"
  by (simp_all add: bump_def iget_def)

lemma bump_bump [simp]: "bump (bump s f) g = bump s (\<lambda>d. f d + g d)"
  by (simp add: bump_def option.map_comp comp_def add.assoc)

lemma bump_0 [simp]: "bump s (\<lambda>d. 0) = s"
  by (simp add: bump_def option.map_ident)

lemma bump_next: "bump (s\<lparr>v_next := n\<rparr>) f = (bump s f)\<lparr>v_next := n\<rparr>"
  by (simp add: bump_def)

lemma dset_bump:
  "dget s d = Some x \<Longrightarrow> dset (bump s f) d (x\<lparr>d_refcount := d_refcount x + k\<rparr>) = bump s (f(d := k))"
  by (auto simp: dset_def bump_def dget_def fun_eq_iff)

lemma dentry_type_bump [simp]: "dentry_type (bump s f) d = dentry_type s d"
  by (cases "dget s d") (simp_all add: dentry_type_def dget_bump)

lemma same_tree_bump: "same_tree s (bump s f)"
proof -
  have "map_option (\<lambda>x. (d_parent x, d_children x, d_name x, d_is_mountpoint x)) (dget s d) =
      map_option (\<lambda>x. (d_parent x, d_children x, d_name x, d_is_mountpoint x)) (dget (bump s f) d)" for d
    by (cases "dget s d") (simp_all add: dget_bump)
  then show ?thesis
    by (simp add: same_tree_def)
qed

lemmas bump_tree [simp] = same_tree_simps [OF same_tree_bump]

lemma dentry_ref_bump:
  assumes "dget s d = Some x" "d_inode x \<noteq> None"
  shows "dentry_ref (bump s f) d = Some (bump s (f(d := f d + 1)))"
  using assms dset_bump [OF assms(1), of f "f d + 1"] by (simp add: dentry_ref_def dget_bump add.assoc)

section \<open>Chains\<close>

inductive chain :: "vfs \<Rightarrow> dptr \<Rightarrow> dptr \<Rightarrow> dptr list \<Rightarrow> bool" for s r where
  chain_root: "dget s r = Some x \<Longrightarrow> d_name x = None \<Longrightarrow> d_parent x = None \<Longrightarrow> chain s r r [r]"
| chain_named: "d \<noteq> r \<Longrightarrow> dget s d = Some x \<Longrightarrow> d_name x = Some nm \<Longrightarrow> d_parent x = Some p \<Longrightarrow> chain s r p ds \<Longrightarrow> chain s r d (d # ds)"
| chain_mounted: "d \<noteq> r \<Longrightarrow> dget s d = Some x \<Longrightarrow> d_name x = None \<Longrightarrow> d_parent x = Some p \<Longrightarrow> dentry_root_get_mountpoint s d = Some (Some m) \<Longrightarrow>
    m \<noteq> r \<Longrightarrow> dget s m = Some y \<Longrightarrow> d_name y = Some nm \<Longrightarrow> d_parent y = Some p \<Longrightarrow> chain s r p ds \<Longrightarrow> chain s r d (d # m # ds)"

inductive_cases chain_cases: "chain s r d ds"

lemma chain_hd: "chain s r d ds \<Longrightarrow> \<exists>ds'. ds = d # ds'"
  by (auto elim: chain_cases)

lemma chain_not_Nil: "chain s r d ds \<Longrightarrow> ds \<noteq> []"
  by (auto elim: chain_cases)

lemma chain_unique: "chain s r d ds \<Longrightarrow> chain s r d ds' \<Longrightarrow> ds' = ds"
proof (induction arbitrary: ds' rule: chain.induct)
  case (chain_root x)
  from chain_root.prems show ?case
    by (cases rule: chain.cases) auto
next
  case (chain_named d x nm p ds)
  from chain_named.prems show ?case
    by (cases rule: chain.cases) (use chain_named.hyps in \<open>auto dest: chain_named.IH\<close>)
next
  case (chain_mounted d x p m y nm ds)
  from chain_mounted.prems show ?case
    by (cases rule: chain.cases) (use chain_mounted.hyps in \<open>auto dest: chain_mounted.IH\<close>)
qed

text \<open>The entries of a chain have shorter chains.\<close>

lemma chain_suffix: "chain s r d ds \<Longrightarrow> e \<in> set ds \<Longrightarrow> \<exists>es. chain s r e es \<and> suffix es ds"
proof (induction rule: chain.induct)
  case (chain_root x)
  then show ?case
    using chain.chain_root [OF chain_root.hyps] by auto
next
  case (chain_named d x nm p ds)
  then show ?case
    using chain.chain_named [OF chain_named.hyps] by (cases "e = d") (auto intro: suffix_ConsI)
next
  case (chain_mounted d x p m y nm ds)
  have "chain s r d (d # m # ds)" "chain s r m (m # ds)"
    using chain.chain_mounted [OF chain_mounted.hyps] chain.chain_named [OF chain_mounted.hyps(6-10)] .
  then show ?case
    using chain_mounted.IH chain_mounted.prems by (cases "e = d"; cases "e = m") (auto intro: suffix_ConsI)
qed

lemma chain_member:
  assumes "chain s r d ds" "e \<in> set ds"
  shows "\<exists>es. chain s r e es \<and> length es \<le> length ds"
  using chain_suffix [OF assms] suffix_length_le by blast

lemma chain_above:
  assumes "chain s r d ds" "c \<in> set ds" "c \<noteq> r" "dget s c = Some y" "d_parent y = Some e" "d_name y \<noteq> None"
  shows "\<exists>es. chain s r e es \<and> suffix (c # es) ds \<and> e \<in> set ds"
proof -
  obtain cs where cs: "chain s r c cs" "suffix cs ds"
    using chain_suffix [OF assms(1,2)] by blast
  then obtain es where es: "cs = c # es" "chain s r e es"
    using assms(3-6) by (auto elim: chain_cases)
  then have "e \<in> set ds"
    using cs(2) chain_hd set_mono_suffix by fastforce
  then show ?thesis
    using cs es by blast
qed

lemma chain_one_child:
  assumes "chain s r d ds" "b \<in> set ds" "b \<noteq> r" "dget s b = Some x" "d_parent x = Some e" "d_name x \<noteq> None"
    "c \<in> set ds" "c \<noteq> r" "dget s c = Some y" "d_parent y = Some e" "d_name y \<noteq> None"
  shows "b = c"
proof -
  obtain es where es: "chain s r e es" "suffix (b # es) ds"
    using chain_above [OF assms(1-6)] by blast
  obtain es' where es': "chain s r e es'" "suffix (c # es') ds"
    using chain_above [OF assms(1,7-11)] by blast
  have "es' = es"
    using chain_unique es(1) es'(1) by blast
  then show ?thesis
    using es(2) es'(2) by (auto simp: suffix_def append_eq_append_conv2 Cons_eq_append_conv)
qed

lemma chain_distinct: "chain s r d ds \<Longrightarrow> distinct ds"
proof (induction rule: chain.induct)
  case (chain_named d x nm p ds)
  have "d \<notin> set ds"
  proof
    assume "d \<in> set ds"
    then obtain es where "chain s r d es" "length es \<le> length ds"
      using chain_member [OF chain_named.hyps(5)] by blast
    then show False
      using chain_unique [OF chain.chain_named [OF chain_named.hyps]] by fastforce
  qed
  then show ?case
    using chain_named.IH by simp
next
  case (chain_mounted d x p m y nm ds)
  have m: "chain s r m (m # ds)"
    using chain.chain_named [OF chain_mounted.hyps(6-10)] .
  have "m \<notin> set ds" "d \<notin> set ds"
    using chain_member [OF chain_mounted.hyps(10)] chain_unique [OF m] chain_unique [OF chain.chain_mounted [OF chain_mounted.hyps]]
    by fastforce+
  moreover have "d \<noteq> m"
    using chain_mounted.hyps by auto
  ultimately show ?case
    using chain_mounted.IH by simp
qed simp

lemma same_tree_chain:
  assumes "same_tree s t"
  shows "chain t r d ds \<longleftrightarrow> chain s r d ds"
proof -
  have "chain v r d ds" if "chain u r d ds" "same_tree u v" for u v
    using that(1)
  proof (induction rule: chain.induct)
    case (chain_root x)
    then show ?case
      by (cases r rule: same_tree_cases [OF that(2)]) (auto intro: chain.chain_root)
  next
    case (chain_named d x nm p ds)
    then show ?case
      by (cases d rule: same_tree_cases [OF that(2)]) (auto intro: chain.chain_named)
  next
    case (chain_mounted d x p m y nm ds)
    then show ?case
      by (cases d rule: same_tree_cases [OF that(2)]; cases m rule: same_tree_cases [OF that(2)])
        (auto intro: chain.chain_mounted simp: same_tree_mountpoint [OF that(2)])
  qed
  then show ?thesis
    using assms same_tree_sym by blast
qed

lemmas chain_bump = same_tree_chain [OF same_tree_bump]

section \<open>References along a chain\<close>

abbreviation cnt :: "dptr list \<Rightarrow> dptr \<Rightarrow> nat" where
  "cnt ds \<equiv> count_list ds"

lemma cnt_not_in: "d \<notin> set ds \<Longrightarrow> cnt ds d = 0"
  by (simp add: count_list_0_iff)

lemma cnt_distinct: "distinct ds \<Longrightarrow> cnt ds d = (if d \<in> set ds then 1 else 0)"
  by (induction ds) auto

lemma upd_cnt: "(\<lambda>x. f x + cnt (d # ds) x) = (\<lambda>x. (f(d := f d + 1)) x + cnt ds x)"
  by (auto simp: fun_eq_iff)

lemma ref_up_loop_chain:
  assumes "chain s r d ds" "\<forall>e \<in> set ds. \<forall>x. dget s e = Some x \<longrightarrow> d_inode x \<noteq> None"
  shows "ref_up_loop (bump s f) (Some d) r = Some (bump s (\<lambda>x. f x + cnt (butlast ds) x))"
  using assms
proof (induction arbitrary: f rule: chain.induct)
  case (chain_root x)
  then show ?case
    by (subst ref_up_loop.simps) simp
next
  case (chain_named d x nm p ds)
  note ne = chain_not_Nil [OF chain_named.hyps(5)]
  have "dentry_ref (bump s f) d = Some (bump s (f(d := f d + 1)))"
    using dentry_ref_bump chain_named.prems chain_named.hyps(2) by simp
  then show ?case
    using chain_named.hyps chain_named.prems chain_named.IH [of "f(d := f d + 1)"]
    by (subst ref_up_loop.simps) (simp add: dget_bump ne upd_cnt del: count_list.simps fun_upd_apply)
next
  case (chain_mounted d x p m y nm ds)
  note ne = chain_not_Nil [OF chain_mounted.hyps(10)]
  let ?f = "f(d := f d + 1)"
  have "dentry_ref (bump s f) d = Some (bump s ?f)" "dentry_ref (bump s ?f) m = Some (bump s (?f(m := ?f m + 1)))"
    using dentry_ref_bump chain_mounted.prems chain_mounted.hyps(2,7) by simp_all
  then show ?case
    using chain_mounted.hyps chain_mounted.prems chain_mounted.IH [of "?f(m := ?f m + 1)"]
    by (subst ref_up_loop.simps) (simp add: dget_bump ne upd_cnt del: count_list.simps fun_upd_apply)
qed

lemma chain_last: "chain s r d ds \<Longrightarrow> ds = butlast ds @ [r]"
proof (induction rule: chain.induct)
  case (chain_named d x nm p ds)
  then show ?case
    using chain_hd [OF chain_named.hyps(5)] by auto
next
  case (chain_mounted d x p m y nm ds)
  then show ?case
    using chain_hd [OF chain_mounted.hyps(10)] by auto
qed simp

lemma chain_in_dom: "chain s r d ds \<Longrightarrow> \<exists>x. dget s d = Some x"
  by (auto elim: chain_cases)

lemma chain_root_in_dom: "chain s r d ds \<Longrightarrow> \<exists>x. dget s r = Some x \<and> d_name x = None \<and> d_parent x = None"
  by (induction rule: chain.induct) auto

lemma dentry_ref_up_to_chain:
  assumes "chain s r d ds" "\<forall>e \<in> set ds. \<forall>x. dget s e = Some x \<longrightarrow> d_inode x \<noteq> None"
  shows "dentry_ref_up_to s d r = Some (bump s (cnt ds))"
proof -
  obtain x where x: "dget s r = Some x"
    using chain_root_in_dom [OF assms(1)] by blast
  have "r \<in> set ds"
    by (subst chain_last [OF assms(1)]) simp
  then have i: "d_inode x \<noteq> None"
    using assms(2) x by blast
  have "cnt ds = (cnt (butlast ds))(r := cnt (butlast ds) r + 1)"
    by (subst chain_last [OF assms(1)]) (auto simp: fun_eq_iff count_list_append)
  then show ?thesis
    using i ref_up_loop_chain [OF assms, where f = "\<lambda>_. 0"] dentry_ref_bump [OF x i, of "cnt (butlast ds)"]
    by (simp add: dentry_ref_up_to_def)
qed

text \<open>Dropping one reference of the first entry of a chain; the first part of the chain is the entry, with its mount point if it is a
  mounted root.\<close>

inductive chain_step :: "vfs \<Rightarrow> dptr \<Rightarrow> dptr \<Rightarrow> dptr list \<Rightarrow> dptr \<Rightarrow> dptr list \<Rightarrow> bool" for s r where
  step_named: "d \<noteq> r \<Longrightarrow> dget s d = Some x \<Longrightarrow> d_name x = Some nm \<Longrightarrow> d_parent x = Some p \<Longrightarrow> chain s r p ds \<Longrightarrow> chain_step s r d [d] p ds"
| step_mounted: "d \<noteq> r \<Longrightarrow> dget s d = Some x \<Longrightarrow> d_name x = None \<Longrightarrow> d_parent x = Some p \<Longrightarrow> dentry_root_get_mountpoint s d = Some (Some m) \<Longrightarrow>
    m \<noteq> r \<Longrightarrow> dget s m = Some y \<Longrightarrow> d_name y = Some nm \<Longrightarrow> d_parent y = Some p \<Longrightarrow> chain s r p ds \<Longrightarrow> chain_step s r d [d, m] p ds"

lemma chain_stepE:
  assumes "chain s r d ds" "d \<noteq> r"
  obtains us p rest where "ds = us @ rest" "chain_step s r d us p rest" "chain s r p rest"
  using assms(1)
proof (cases rule: chain.cases)
  case (chain_named x nm p rest)
  then show ?thesis
    using that [of "[d]" rest p] chain_step.step_named [of d r s x nm p rest] by simp
next
  case (chain_mounted x p m y nm rest)
  then show ?thesis
    using that [of "[d, m]" rest p] chain_step.step_mounted [of d r s x p m y nm rest] by simp
qed (use assms(2) in simp)

lemma chain_step_chain: "chain_step s r d us p rest \<Longrightarrow> chain s r d (us @ rest)"
  by (auto elim!: chain_step.cases intro: chain.intros)

lemma unref_one_step:
  assumes "chain_step s r d us p rest" "v_root s = Some r"
  shows "dentry_unref_one_norelease (bump s (\<lambda>x. f x + cnt us x)) (Some d) = Some (bump s f, True)"
  using assms(1)
proof cases
  case (step_named x nm)
  have "dset (bump s (\<lambda>x. f x + cnt [d] x)) d (x\<lparr>d_refcount := d_refcount x + f d\<rparr>) = bump s f"
    using dset_bump [OF step_named(3), of "\<lambda>x. f x + cnt [d] x" "f d"] by (auto simp: fun_eq_iff intro!: arg_cong [of _ _ "bump s"])
  then show ?thesis
    using step_named by (simp add: dentry_unref_one_norelease_def dget_bump Let_def)
next
  case (step_mounted x m y nm)
  have dm: "d \<noteq> m"
    using step_mounted by auto
  let ?f = "\<lambda>x. f x + cnt [m] x"
  have "dset (bump s (\<lambda>x. f x + cnt [d, m] x)) d (x\<lparr>d_refcount := d_refcount x + f d\<rparr>) = bump s ?f"
    using dset_bump [OF step_mounted(3), of "\<lambda>x. f x + cnt [d, m] x" "f d"] dm by (auto simp: fun_eq_iff intro!: arg_cong [of _ _ "bump s"])
  moreover have "dset (bump s ?f) m (y\<lparr>d_refcount := d_refcount y + f m\<rparr>) = bump s f"
    using dset_bump [OF step_mounted(8), of ?f "f m"] by (auto simp: fun_eq_iff intro!: arg_cong [of _ _ "bump s"])
  ultimately show ?thesis
    using step_mounted dm assms(2) by (simp add: dentry_unref_one_norelease_def dget_bump Let_def dec_count_def)
qed

text \<open>What dropping a reference needs of an entry: it has an inode, its children name it as their parent, and it has references enough
  for them.\<close>

definition good :: "vfs \<Rightarrow> dptr \<Rightarrow> bool" where
  "good s e \<longleftrightarrow> (\<exists>x. dget s e = Some x \<and> d_inode x \<noteq> None \<and> dentry_check_refstat s e = Some () \<and> distinct (d_children x) \<and>
     (\<forall>c \<in> set (d_children x). \<exists>y. dget s c = Some y \<and> d_parent y = Some e \<and> d_name y \<noteq> None))"

lemma sum_refcounts_bump_0:
  "(\<forall>c \<in> set cs. f c = 0) \<Longrightarrow> sum_refcounts (bump s f) cs = sum_refcounts s cs"
proof (induction cs)
  case (Cons c cs)
  then show ?case
    by (cases "dget s c") (simp_all add: dget_bump)
qed simp

lemma check_refstat_bump_0:
  assumes "dget s e = Some x" "f e = 0" "\<forall>c \<in> set (d_children x). f c = 0"
  shows "dentry_check_refstat (bump s f) e = dentry_check_refstat s e"
  using assms sum_refcounts_bump_0 [OF assms(3), of s] by (simp add: dentry_check_refstat_def dget_bump)

text \<open>The children of an entry are not on its way to the root.\<close>

lemma child_not_in_chain:
  assumes "chain s r d ds" "dget s c = Some y" "d_parent y = Some d" "d_name y \<noteq> None" "c \<in> set ds"
  shows False
proof -
  obtain es where es: "chain s r c es" "length es \<le> length ds"
    using chain_member [OF assms(1,5)] by blast
  have "c \<noteq> r"
    using chain_root_in_dom [OF assms(1)] assms(2-4) by auto
  then have "chain s r c (c # ds)"
    using assms by (auto intro: chain.chain_named)
  then show False
    using chain_unique [OF es(1)] es(2) by fastforce
qed

lemma check_refstat_above:
  assumes "chain_step s r d us p rest" "good s d"
  shows "dentry_check_refstat (bump s (cnt rest)) d = Some ()"
proof -
  obtain x where x: "dget s d = Some x" "dentry_check_refstat s d = Some ()"
      "\<forall>c \<in> set (d_children x). \<exists>y. dget s c = Some y \<and> d_parent y = Some d \<and> d_name y \<noteq> None"
    using assms(2) by (auto simp: good_def)
  have ch: "chain s r d (us @ rest)"
    using chain_step_chain [OF assms(1)] .
  have "d \<notin> set rest"
    using chain_distinct [OF ch] assms(1) by (auto elim!: chain_step.cases)
  moreover have "\<forall>c \<in> set (d_children x). c \<notin> set rest"
    using child_not_in_chain [OF ch] x(3) by fastforce
  ultimately show ?thesis
    using check_refstat_bump_0 [OF x(1), of "cnt rest"] x(2) by (simp add: cnt_not_in)
qed

lemma dentry_unref_None [simp]: "dentry_unref s None = Some s"
  by (subst dentry_unref.simps) (simp add: dentry_unref_one_norelease_def)

lemma try_release_kept:
  assumes "dget s d = Some x" "d_inode x \<noteq> None" "d_refcount x = 0"
  shows "dentry_try_release s d = Some s"
  using assms by (auto simp: dentry_try_release_def)

text \<open>Dropping a reference restores the counts of the whole chain.\<close>

lemma dentry_unref_chain:
  assumes "chain s r d ds" "v_root s = Some r" "\<forall>e \<in> set ds. good s e"
  shows "dentry_unref (bump s (cnt ds)) (Some d) = Some s"
  using assms(1,3)
proof (induction "length ds" arbitrary: d ds rule: less_induct)
  case less
  have "good s d"
    using less.prems chain_hd by fastforce
  then obtain x where x: "dget s d = Some x" "d_inode x \<noteq> None" "dentry_check_refstat s d = Some ()"
    by (auto simp: good_def)
  have fin: "d_refcount x = 0 \<longrightarrow> dentry_try_release s d = Some s"
    using try_release_kept [OF x(1,2)] by simp
  show ?case
  proof (cases "d = r")
    case True
    then have ds: "ds = [r]" and p: "d_parent x = None"
      using less.prems(1) x(1) by (auto elim: chain_cases)
    have "(cnt [r])(r := 0) = (\<lambda>_. 0)"
      by auto
    then have "dset (bump s (cnt [r])) r x = s"
      using dset_bump [of s r x "cnt [r]" 0] x(1) True by simp
    then have "dentry_unref_one_norelease (bump s (cnt [r])) (Some r) = Some (s, True)"
      using x(1) True assms(2) by (simp add: dentry_unref_one_norelease_def dget_bump Let_def)
    then show ?thesis
      using x True p fin by (subst dentry_unref.simps) (simp add: ds)
  next
    case False
    then obtain us p rest where st: "ds = us @ rest" "chain_step s r d us p rest" "chain s r p rest"
      using chain_stepE [OF less.prems(1)] by blast
    have up: "d_parent x = Some p" "us \<noteq> []"
      using st(2) x(1) by (auto elim!: chain_step.cases)
    have one: "dentry_unref_one_norelease (bump s (cnt ds)) (Some d) = Some (bump s (cnt rest), True)"
      using unref_one_step [OF st(2) assms(2), of "cnt rest"] by (simp add: st(1) count_list_append [abs_def] add.commute)
    have "dentry_unref (bump s (cnt rest)) (Some p) = Some s"
      using less.hyps [OF _ st(3)] less.prems(2) up(2) by (simp add: st(1))
    then show ?thesis
      using one check_refstat_above [OF st(2) \<open>good s d\<close>] x up fin
      by (subst dentry_unref.simps) (simp add: dget_bump)
  qed
qed

text \<open>An entry that is in use keeps every count large enough.\<close>

lemma sum_refcounts_bump:
  "sum_refcounts (bump s f) cs = map_option (\<lambda>n. n + sum_list (map f cs)) (sum_refcounts s cs)"
proof (induction cs)
  case (Cons c cs)
  then show ?case
    by (cases "dget s c"; cases "sum_refcounts s cs") (simp_all add: dget_bump)
qed simp

lemma sum_list_one:
  "distinct cs \<Longrightarrow> (\<And>b c. b \<in> set cs \<Longrightarrow> c \<in> set cs \<Longrightarrow> f b \<noteq> 0 \<Longrightarrow> f c \<noteq> 0 \<Longrightarrow> b = c) \<Longrightarrow> (\<And>c. f c \<le> (1::nat)) \<Longrightarrow>
    sum_list (map f cs) \<le> (if \<exists>c \<in> set cs. f c \<noteq> 0 then 1 else 0)"
proof (induction cs)
  case (Cons c cs)
  have "f b = 0" if "f c \<noteq> 0" "b \<in> set cs" for b
    using Cons.prems(1,2) that by (metis distinct.simps(2) list.set_intros(1,2))
  then have "f c \<noteq> 0 \<longrightarrow> sum_list (map f cs) = 0 \<and> f c = 1"
    using Cons.prems(3) [of c] by (auto simp: sum_list_eq_0_iff)
  moreover have "sum_list (map f cs) \<le> (if \<exists>c \<in> set cs. f c \<noteq> 0 then 1 else 0)"
    using Cons by simp
  ultimately show ?case
    by (cases "f c = 0") (simp_all split: if_splits)
qed simp

lemma good_bump:
  assumes "chain s r d ds" "good s e"
  shows "good (bump s (cnt ds)) e"
proof -
  obtain x where x: "dget s e = Some x" "d_inode x \<noteq> None" "dentry_check_refstat s e = Some ()" "distinct (d_children x)"
      and kids: "\<forall>c \<in> set (d_children x). \<exists>y. dget s c = Some y \<and> d_parent y = Some e \<and> d_name y \<noteq> None"
    using assms(2) by (auto simp: good_def)
  have r: "c \<noteq> r" if "c \<in> set (d_children x)" for c
    using chain_root_in_dom [OF assms(1)] kids that by fastforce
  have "sum_list (map (cnt ds) (d_children x)) \<le> (if \<exists>c \<in> set (d_children x). cnt ds c \<noteq> 0 then 1 else 0)"
  proof (rule sum_list_one [OF x(4)])
    fix b c assume "b \<in> set (d_children x)" "c \<in> set (d_children x)" "cnt ds b \<noteq> 0" "cnt ds c \<noteq> 0"
    then show "b = c"
      using chain_one_child [OF assms(1)] kids r by (metis cnt_not_in)
  qed (simp add: cnt_distinct [OF chain_distinct [OF assms(1)]])
  also have "\<dots> \<le> cnt ds e"
  proof (cases "\<exists>c \<in> set (d_children x). cnt ds c \<noteq> 0")
    case True
    then obtain c y where "c \<in> set (d_children x)" "c \<in> set ds" "dget s c = Some y" "d_parent y = Some e" "d_name y \<noteq> None"
      using kids cnt_not_in by metis
    then have "e \<in> set ds"
      using chain_above [OF assms(1)] r by blast
    then show ?thesis
      using True by (simp add: cnt_distinct [OF chain_distinct [OF assms(1)]])
  qed simp
  finally have "dentry_check_refstat (bump s (cnt ds)) e = Some ()"
    using x by (auto simp: dentry_check_refstat_def dget_bump sum_refcounts_bump mos_assert_def Option.bind_eq_Some_conv split: if_splits)
  then show ?thesis
    using x kids by (fastforce simp: good_def dget_bump)
qed

end
