(* ===== verification/DentryWalk.thy ===== *)
theory DentryWalk
  imports DentryRefs
begin

text \<open>
  What a path names, and that path resolution finds it.  The specification walks the tree of entries and has no reference counts and
  no memory; \<^verbatim>\<open>dentry_get\<close> gives its answer and takes exactly the references of the entry that it returns.  Only entries of file
  systems without a lookup of their own, like tmpfs, are considered.\<close>

section \<open>Specification\<close>

definition name_of :: "vfs \<Rightarrow> dptr \<Rightarrow> name option" where
  "name_of s d = do { x \<leftarrow> dget s d; d_name x }"

definition child_of :: "vfs \<Rightarrow> dptr \<Rightarrow> name \<Rightarrow> dptr option" where
  "child_of s d nm = do { x \<leftarrow> dget s d; List.find (\<lambda>c. name_of s c = Some nm) (d_children x) }"

definition enter :: "vfs \<Rightarrow> dptr \<Rightarrow> dptr" where
  "enter s d = (case mounted_root s d of Some r \<Rightarrow> r | None \<Rightarrow> d)"

definition parent_of :: "vfs \<Rightarrow> dptr \<Rightarrow> dptr" where
  "parent_of s d = (case dget s d of None \<Rightarrow> d | Some x \<Rightarrow> (case d_parent x of None \<Rightarrow> d | Some p \<Rightarrow> p))"

definition link_of :: "vfs \<Rightarrow> dptr \<Rightarrow> name option" where
  "link_of s d = do {
     x \<leftarrow> dget s d; i \<leftarrow> d_inode x; n \<leftarrow> iget s i;
     if i_type n = FILE_TYPE_SYMLINK \<and> i_ops n = Tmpfs_Symlink_Ops \<and> d_parent x \<noteq> None then i_symlink_target n else None }"

text \<open>
  A path names an entry, or a name that is missing in a directory, or, when it should be missing, a name that the directory has
  already.\<close>

datatype place = Found dptr | Missing dptr name | Clash dptr

type_synonym follows = "vfs \<Rightarrow> dptr \<Rightarrow> u32 \<Rightarrow> (vfs_error + place) option"

fun walk :: "follows \<Rightarrow> bool \<Rightarrow> vfs \<Rightarrow> dptr \<Rightarrow> name list \<Rightarrow> (vfs_error + dptr \<times> name option) option" where
  "walk f slash s cur [] = Some (Inr (cur, None))"
| "walk f slash s cur [seg] =
     (let leaf = (if slash then seg @ [PATH_DELIM] else seg) in
      if dentry_type s cur = Some FILE_TYPE_SYMLINK then
        (case f s cur (or RESOLVE_EXPECT_EXIST RESOLVE_EXPECT_DIR) of
           Some (Inl e) \<Rightarrow> Some (Inl e)
         | Some (Inr (Found d)) \<Rightarrow> Some (Inr (d, Some leaf))
         | _ \<Rightarrow> None)
      else Some (Inr (cur, Some leaf)))"
| "walk f slash s cur (seg # next # segs) =
     (if is_dot seg then walk f slash s cur (next # segs)
      else if is_dotdot seg then walk f slash s (parent_of s cur) (next # segs)
      else (case child_of s cur seg of
          None \<Rightarrow> Some (Inl ENOENT)
        | Some c \<Rightarrow> walk f slash s (enter s c) (next # segs)))"

text \<open>The last segment, from whose end a slash is taken, names an entry of its directory.\<close>

definition child_place :: "follows \<Rightarrow> vfs \<Rightarrow> dptr \<Rightarrow> name \<Rightarrow> u32 \<Rightarrow> (vfs_error + place) option" where
  "child_place f s cur nm flags = (case child_of s cur nm of
       None \<Rightarrow> if has_flag flags RESOLVE_EXPECT_NONEXIST then Some (Inr (Missing cur nm)) else Some (Inl ENOENT)
     | Some c \<Rightarrow>
         if has_flag flags RESOLVE_EXPECT_NONEXIST \<and> \<not> has_flag flags RESOLVE_EXPECT_EXIST then Some (Inr (Clash cur))
         else if dentry_type s c = Some FILE_TYPE_SYMLINK then
           (if has_flag flags RESOLVE_SYMLINK_NOFOLLOW then Some (Inr (Found c)) else f s c flags)
         else if dentry_type s c = Some FILE_TYPE_DIRECTORY then
           (if has_flag flags RESOLVE_EXPECT_DIR then Some (Inr (Found (enter s c))) else Some (Inl EISDIR))
         else if has_flag flags RESOLVE_EXPECT_FILE then Some (Inr (Found c)) else Some (Inl ENOTDIR))"

definition leaf_slash :: "name \<Rightarrow> bool" where
  "leaf_slash leaf \<longleftrightarrow> leaf \<noteq> [] \<and> List.last leaf = PATH_DELIM"

definition leaf_name :: "name \<Rightarrow> name" where
  "leaf_name leaf = (if leaf_slash leaf then butlast leaf else leaf)"

definition last_place :: "follows \<Rightarrow> vfs \<Rightarrow> dptr \<Rightarrow> name \<Rightarrow> u32 \<Rightarrow> (vfs_error + place) option" where
  "last_place f s cur leaf flags =
     (if leaf_slash leaf \<and> \<not> has_flag flags RESOLVE_EXPECT_DIR then Some (Inl EINVAL)
      else if is_dot (leaf_name leaf) then Some (Inr (Found cur))
      else if is_dotdot (leaf_name leaf) then Some (Inr (Found (parent_of s cur)))
      else child_place f s cur (leaf_name leaf) flags)"

text \<open>The first segments of a path, and all of it.\<close>

definition walk_path :: "follows \<Rightarrow> vfs \<Rightarrow> dptr \<Rightarrow> dptr \<Rightarrow> name \<Rightarrow> (vfs_error + dptr \<times> name option) option" where
  "walk_path f s r base path =
     walk f (path \<noteq> [] \<and> List.last path = PATH_DELIM) s (enter s (if path_is_absolute path then r else base))
       (tokens (\<lambda>c. c = PATH_DELIM) path)"

primrec link_place :: "nat \<Rightarrow> nat \<Rightarrow> dptr \<Rightarrow> follows" where
  "link_place 0 path_max r s link flags = None"
| "link_place (Suc n) path_max r s link flags = do {
     target \<leftarrow> link_of s link;
     let target = take path_max target;
     if target = [] then Some (Inl ENOENT)
     else if length target = path_max then Some (Inl ENAMETOOLONG)
     else do {
       w \<leftarrow> walk_path (link_place n path_max r) s r (parent_of s link) target;
       case w of
         Inl e \<Rightarrow> Some (Inl e)
       | Inr (p, None) \<Rightarrow> None
       | Inr (p, Some leaf) \<Rightarrow> last_place (link_place n path_max r) s p leaf flags } }"

definition path_place :: "nat \<Rightarrow> nat \<Rightarrow> vfs \<Rightarrow> dptr \<Rightarrow> dptr \<Rightarrow> name \<Rightarrow> u32 \<Rightarrow> (vfs_error + place) option" where
  "path_place n path_max s r base path flags = do {
     w \<leftarrow> walk_path (link_place n path_max r) s r base path;
     case w of
       Inl e \<Rightarrow> Some (Inl e)
     | Inr (p, None) \<Rightarrow> if p \<noteq> base then None else if has_flag flags RESOLVE_EXPECT_DIR then Some (Inr (Found p)) else Some (Inl EISDIR)
     | Inr (p, Some leaf) \<Rightarrow> last_place (link_place n path_max r) s p leaf flags }"

section \<open>The tree of entries\<close>

text \<open>
  In a good state every entry has an inode of a file system without lookup, a way to the root, and distinct names for its children,
  which are exactly the named entries below it.  A mount point other than the root has no children, and the mounted root leads back
  to it.\<close>

definition mount_ok :: "vfs \<Rightarrow> dptr \<Rightarrow> dptr \<Rightarrow> dentry \<Rightarrow> bool" where
  "mount_ok s r d x \<longleftrightarrow>
     (if d = r then mounted_root s r = Some r
      else d_name x \<noteq> None \<and> d_children x = [] \<and>
        (\<exists>m y. mounted_root s d = Some m \<and> m \<noteq> r \<and> dget s m = Some y \<and> d_name y = None \<and> d_parent y = d_parent x \<and>
          dentry_root_get_mountpoint s m = Some (Some d)))"

definition dentry_ok :: "vfs \<Rightarrow> dptr \<Rightarrow> dptr \<Rightarrow> dentry \<Rightarrow> bool" where
  "dentry_ok s r d x \<longleftrightarrow> d < v_next s \<and> good s d \<and> (\<exists>ds. chain s r d ds) \<and>
     (\<exists>i n. d_inode x = Some i \<and> iget s i = Some n \<and> i < v_next s \<and> (\<forall>m. i_ops n \<noteq> Foreign_Ops m)) \<and>
     inj_on (name_of s) (set (d_children x)) \<and>
     (d_name x \<noteq> None \<longrightarrow> (\<exists>p y. d_parent x = Some p \<and> dget s p = Some y \<and> d \<in> set (d_children y))) \<and>
     (d_is_mountpoint x \<longrightarrow> mount_ok s r d x)"

definition vfs_ok :: "vfs \<Rightarrow> dptr \<Rightarrow> bool" where
  "vfs_ok s r \<longleftrightarrow> v_root s = Some r \<and> dget s r \<noteq> None \<and> (\<forall>d x. dget s d = Some x \<longrightarrow> dentry_ok s r d x)"

text \<open>The specification and the shape of the tree do not depend on reference counts and free addresses.\<close>

lemma next_dget [simp]: "dget (s\<lparr>v_next := n\<rparr>) d = dget s d" "iget (s\<lparr>v_next := n\<rparr>) i = iget s i"
  by (simp_all add: dget_def iget_def)

lemma same_tree_next: "same_tree s (s\<lparr>v_next := n\<rparr>)"
  by (simp add: same_tree_def)

lemmas next_tree [simp] = same_tree_simps [OF same_tree_next] same_tree_chain [OF same_tree_next]

lemma next_sum [simp]: "sum_refcounts (s\<lparr>v_next := n\<rparr>) cs = sum_refcounts s cs"
  by (induction cs) (simp_all cong: if_cong)

lemma next_good [simp]: "good (s\<lparr>v_next := n\<rparr>) d = good s d"
  by (simp add: good_def dentry_check_refstat_def cong: if_cong)

lemma same_tree_names:
  assumes "same_tree s t"
  shows "name_of t = name_of s" "child_of t d nm = child_of s d nm" "enter t d = enter s d" "parent_of t d = parent_of s d"
proof -
  show n: "name_of t = name_of s"
  proof
    show "name_of t d = name_of s d" for d
      by (cases d rule: same_tree_cases [OF assms]) (simp_all add: name_of_def)
  qed
  show "child_of t d nm = child_of s d nm" "parent_of t d = parent_of s d"
    by (cases d rule: same_tree_cases [OF assms]; simp add: child_of_def parent_of_def n)+
qed (simp add: enter_def same_tree_mounts [OF assms])

lemmas next_names = same_tree_names [OF same_tree_next]
lemmas bump_names [simp] = same_tree_names [OF same_tree_bump]

lemma vfs_ok_next: "vfs_ok s r \<Longrightarrow> v_next s \<le> n \<Longrightarrow> vfs_ok (s\<lparr>v_next := n\<rparr>) r"
  by (fastforce simp: vfs_ok_def dentry_ok_def mount_ok_def next_names)

lemma link_of_bump [simp]: "link_of (bump s f) d = link_of s d"
  by (cases "dget s d") (simp_all add: link_of_def dget_bump)

lemma walk_bump: "(\<And>d fl. f (bump s g) d fl = f s d fl) \<Longrightarrow> walk f slash (bump s g) cur segs = walk f slash s cur segs"
  by (induction f slash s cur segs rule: walk.induct) (simp_all cong: if_cong option.case_cong)

lemma last_place_bump: "(\<And>d fl. f (bump s g) d fl = f s d fl) \<Longrightarrow> last_place f (bump s g) cur leaf flags = last_place f s cur leaf flags"
  by (simp add: last_place_def child_place_def cong: if_cong option.case_cong)

lemma link_place_bump [simp]: "link_place n path_max r (bump s g) link flags = link_place n path_max r s link flags"
proof (induction n arbitrary: link flags)
  case (Suc n)
  note walk_bump [where f = "link_place n path_max r", OF Suc] last_place_bump [where f = "link_place n path_max r", OF Suc]
  then show ?case
    by (simp add: walk_path_def cong: if_cong option.case_cong sum.case_cong)
qed simp

lemma vfs_ok_bump:
  assumes "vfs_ok s r" "chain s r d ds"
  shows "vfs_ok (bump s (cnt ds)) r"
proof -
  have "dentry_ok (bump s (cnt ds)) r e (x\<lparr>d_refcount := k\<rparr>)" if "dget s e = Some x" for e x k
  proof -
    have ok: "dentry_ok s r e x"
      using assms(1) that by (simp add: vfs_ok_def)
    have "d_is_mountpoint x \<longrightarrow> mount_ok (bump s (cnt ds)) r e (x\<lparr>d_refcount := k\<rparr>)"
      using ok by (fastforce simp: dentry_ok_def mount_ok_def dget_bump)
    moreover have "d_name x \<noteq> None \<longrightarrow> (\<exists>p y. d_parent x = Some p \<and> dget (bump s (cnt ds)) p = Some y \<and> e \<in> set (d_children y))"
      using ok by (fastforce simp: dentry_ok_def dget_bump)
    ultimately show ?thesis
      using ok good_bump [OF assms(2), of e] by (auto simp: dentry_ok_def chain_bump)
  qed
  then show ?thesis
    using assms(1) by (auto simp: vfs_ok_def dget_bump)
qed

section \<open>One step\<close>

lemma vfs_okD:
  assumes "vfs_ok s r" "dget s d = Some x"
  shows "dentry_ok s r d x"
  using assms by (simp add: vfs_ok_def)

lemma vfs_ok_good:
  assumes "vfs_ok s r" "chain s r d ds" "e \<in> set ds"
  shows "good s e"
proof -
  obtain x where "dget s e = Some x"
    using chain_suffix [OF assms(2,3)] chain_in_dom by blast
  then show ?thesis
    using vfs_okD [OF assms(1)] by (simp add: dentry_ok_def)
qed

lemma vfs_ok_root: "vfs_ok s r \<Longrightarrow> v_root s = Some r"
  by (simp add: vfs_ok_def)

lemma vfs_ok_chain:
  assumes "vfs_ok s r" "dget s d = Some x"
  obtains ds where "chain s r d ds"
  using vfs_okD [OF assms] by (auto simp: dentry_ok_def)

lemma vfs_ok_inode:
  assumes "vfs_ok s r" "dget s d = Some x"
  obtains i n where "d_inode x = Some i" "iget s i = Some n" "\<forall>m. i_ops n \<noteq> Foreign_Ops m" "dentry_type s d = Some (i_type n)"
proof -
  obtain i n where "d_inode x = Some i" "iget s i = Some n" "\<forall>m. i_ops n \<noteq> Foreign_Ops m"
    using vfs_okD [OF assms] by (auto simp: dentry_ok_def)
  moreover from this have "dentry_type s d = Some (i_type n)"
    using assms(2) by (simp add: dentry_type_def)
  ultimately show ?thesis
    by (rule that)
qed

lemma vfs_ok_has_inode: "vfs_ok s r \<Longrightarrow> dget s d = Some x \<Longrightarrow> d_inode x \<noteq> None"
  using vfs_okD [of s r d x] by (auto simp: dentry_ok_def)

lemma vfs_ok_parent:
  assumes "vfs_ok s r" "dget s d = Some x" "d_parent x = Some p"
  obtains y ds where "dget s p = Some y" "chain s r p ds"
proof -
  obtain ds where "chain s r d ds"
    by (rule vfs_ok_chain [OF assms(1,2)])
  then obtain ps where "chain s r p ps"
    using assms(2,3) by (auto elim: chain_cases)
  then show ?thesis
    using that chain_in_dom by blast
qed

lemma unref_ok:
  assumes "vfs_ok s r" "chain s r d ds"
  shows "dentry_unref (bump s (cnt ds)) (Some d) = Some s"
  using assms dentry_unref_chain [OF assms(2) vfs_ok_root [OF assms(1)]] vfs_ok_good [OF assms] by blast

text \<open>Going up.\<close>

lemma root_parent: "chain s r d ds \<Longrightarrow> parent_of s r = r"
  using chain_root_in_dom by (fastforce simp: parent_of_def)

lemma up_step:
  assumes "vfs_ok s r" "chain s r d ds" "d \<noteq> r"
  obtains x p y rest where "dget s d = Some x" "d_parent x = Some p" "parent_of s d = p" "dget s p = Some y" "chain s r p rest"
    "dentry_unref_one_norelease (bump s (cnt ds)) (Some d) = Some (bump s (cnt rest), True)"
    "d_is_mountpoint y \<longrightarrow> p = r"
proof -
  obtain us p rest where st: "ds = us @ rest" "chain_step s r d us p rest" "chain s r p rest"
    using chain_stepE [OF assms(2,3)] by blast
  have one: "dentry_unref_one_norelease (bump s (cnt ds)) (Some d) = Some (bump s (cnt rest), True)"
    using unref_one_step [OF st(2) vfs_ok_root [OF assms(1)], of "cnt rest"] by (simp add: st(1) count_list_append [abs_def] add.commute)
  obtain e z nm where e: "dget s e = Some z" "d_name z = Some nm" "d_parent z = Some p"
    using st(2) by (auto elim!: chain_step.cases)
  then obtain y where y: "dget s p = Some y" "e \<in> set (d_children y)"
    using vfs_okD [OF assms(1) e(1)] by (auto simp: dentry_ok_def)
  have mp: "d_is_mountpoint y \<longrightarrow> p = r"
    using vfs_okD [OF assms(1) y(1)] y(2) by (auto simp: dentry_ok_def mount_ok_def split: if_splits)
  obtain x where x: "dget s d = Some x" "d_parent x = Some p"
    using st(2) by (auto elim!: chain_step.cases)
  then have "parent_of s d = p"
    by (simp add: parent_of_def)
  then show ?thesis
    using that x y(1) st(3) one mp by blast
qed

lemma root_mountpoint:
  assumes "vfs_ok s r"
  shows "dentry_root_get_mountpoint s r = Some (Some r)"
proof -
  obtain x where x: "dget s r = Some x"
    using assms by (auto simp: vfs_ok_def)
  then obtain ds where "chain s r r ds"
    by (rule vfs_ok_chain [OF assms])
  then have "d_name x = None"
    using chain_root_in_dom x by fastforce
  then show ?thesis
    using x vfs_ok_root [OF assms] by (simp add: dentry_root_get_mountpoint_def)
qed

text \<open>Going down.\<close>

lemma find_child_find:
  assumes "\<forall>c \<in> set cs. \<exists>y. dget s c = Some y \<and> d_name y \<noteq> None"
  shows "find_child s nm cs = Some (List.find (\<lambda>c. name_of s c = Some nm) cs)"
  using assms by (induction cs) (auto simp: name_of_def)

lemma children_named:
  assumes "vfs_ok s r" "dget s d = Some x"
  shows "\<forall>c \<in> set (d_children x). \<exists>y. dget s c = Some y \<and> d_parent y = Some d \<and> d_name y \<noteq> None"
  using vfs_okD [OF assms] assms(2) by (auto simp: dentry_ok_def good_def)

lemma find_child_of:
  assumes "vfs_ok s r" "dget s d = Some x"
  shows "find_child s nm (d_children x) = Some (child_of s d nm)"
  using find_child_find [of "d_children x" s nm] children_named [OF assms] assms(2) by (fastforce simp: child_of_def)

lemma child_step:
  assumes "vfs_ok s r" "chain s r d ds" "child_of s d nm = Some c"
  obtains y where "dget s c = Some y" "d_parent y = Some d" "d_name y = Some nm" "c \<noteq> r" "chain s r c (c # ds)"
proof -
  obtain x where x: "dget s d = Some x" "c \<in> set (d_children x)" "name_of s c = Some nm"
    using assms(3) by (auto simp: child_of_def Option.bind_eq_Some_conv find_Some_iff)
  obtain y where y: "dget s c = Some y" "d_parent y = Some d" "d_name y = Some nm"
    using children_named [OF assms(1) x(1)] x(2,3) by (auto simp: name_of_def)
  have "c \<noteq> r"
    using chain_root_in_dom [OF assms(2)] y by auto
  then show ?thesis
    using that y chain.chain_named [OF _ y(1,3,2) assms(2)] by blast
qed

lemma enter_step:
  assumes "vfs_ok s r" "chain s r c ds" "dget s c = Some y" "d_is_mountpoint y" "c \<noteq> r"
  obtains z where "mounted_root s c = Some (enter s c)" "dget s (enter s c) = Some z" "d_inode z \<noteq> None" "chain s r (enter s c) (enter s c # ds)"
proof -
  obtain m z where m: "mounted_root s c = Some m" "m \<noteq> r" "dget s m = Some z" "d_name z = None" "d_parent z = d_parent y"
      "dentry_root_get_mountpoint s m = Some (Some c)" "d_name y \<noteq> None"
    using vfs_okD [OF assms(1,3)] assms(4,5) by (auto simp: dentry_ok_def mount_ok_def)
  obtain nm p rest where c: "ds = c # rest" "d_name y = Some nm" "d_parent y = Some p" "chain s r p rest"
    using assms(2,3,5) m(7) by (auto elim: chain_cases)
  have e: "enter s c = m"
    using m(1) by (simp add: enter_def)
  have "chain s r m (m # c # rest)"
    using chain.chain_mounted [OF m(2,3,4) _ m(6) assms(5,3) c(2,3,4)] m(5) c(3) by simp
  moreover have "d_inode z \<noteq> None"
    using vfs_okD [OF assms(1) m(3)] by (auto simp: dentry_ok_def)
  ultimately show ?thesis
    using that m(1,3) c(1) e by blast
qed

lemma enter_plain: "dget s d = Some x \<Longrightarrow> \<not> d_is_mountpoint x \<Longrightarrow> enter s d = d"
  by (simp add: enter_def mounted_root_def dentry_get_mount_def)

lemma enter_root:
  assumes "vfs_ok s r"
  shows "enter s r = r"
proof -
  obtain x where x: "dget s r = Some x"
    using assms by (auto simp: vfs_ok_def)
  show ?thesis
    using vfs_okD [OF assms x] enter_plain [OF x] by (cases "d_is_mountpoint x") (auto simp: dentry_ok_def mount_ok_def enter_def)
qed

lemma cnt_Cons: "cnt (c # ds) = (cnt ds)(c := cnt ds c + 1)"
  by auto

lemma get_child_found:
  assumes "vfs_ok s r" "chain s r d ds" "child_of s d nm = Some c"
  shows "dentry_get_child fo (bump s (cnt ds)) d nm = Some (bump s (cnt (c # ds)), c)"
proof -
  obtain y where y: "dget s c = Some y"
    using child_step [OF assms] by blast
  obtain x where x: "dget s d = Some x"
    using chain_in_dom [OF assms(2)] by blast
  have i: "d_inode y \<noteq> None"
    by (rule vfs_ok_has_inode [OF assms(1) y])
  show ?thesis
    using find_child_of [OF assms(1) x] assms(3) x y i dentry_ref_bump [OF y i, of "cnt ds"]
    by (simp add: dentry_get_child_def dget_bump cnt_Cons del: count_list.simps fun_upd_apply)
qed

text \<open>A new entry without inode, and that it leaves no trace when it is released.\<close>

definition add_entry :: "vfs \<Rightarrow> dptr \<Rightarrow> name \<Rightarrow> vfs" where
  "add_entry s p nm = s\<lparr>v_next := v_next s + 1, v_dentries := (\<lambda>d.
     if d = v_next s then map_option (\<lambda>y. \<lparr>d_parent = Some p, d_children = [], d_refcount = 0, d_inode = None, d_name = Some nm,
       d_super = d_super y, d_is_mountpoint = False\<rparr>) (v_dentries s p)
     else if d = p then map_option (\<lambda>y. y\<lparr>d_children := d_children y @ [v_next s]\<rparr>) (v_dentries s p)
     else v_dentries s d)\<rparr>"

lemma dget_add_entry: "dget (add_entry s p nm) d =
    (if d = v_next s then map_option (\<lambda>y. \<lparr>d_parent = Some p, d_children = [], d_refcount = 0, d_inode = None, d_name = Some nm,
       d_super = d_super y, d_is_mountpoint = False\<rparr>) (dget s p)
     else if d = p then map_option (\<lambda>y. y\<lparr>d_children := d_children y @ [v_next s]\<rparr>) (dget s p)
     else dget s d)"
  by (simp add: dget_def add_entry_def)

lemma add_entry_fields [simp]: "v_inodes (add_entry s p nm) = v_inodes s" "v_mounts (add_entry s p nm) = v_mounts s"
  "v_root (add_entry s p nm) = v_root s" "v_supers (add_entry s p nm) = v_supers s" "v_next (add_entry s p nm) = Suc (v_next s)"
  "v_tmpfs_inode_count (add_entry s p nm) = v_tmpfs_inode_count s" "iget (add_entry s p nm) i = iget s i"
  by (simp_all add: add_entry_def iget_def)

lemma vfs_ok_fresh:
  assumes "vfs_ok s r"
  shows "dget s (v_next s) = None"
  using vfs_okD [OF assms, of "v_next s"] by (cases "dget s (v_next s)") (auto simp: dentry_ok_def)

lemma chain_old: "vfs_ok s r \<Longrightarrow> chain s r d ds \<Longrightarrow> v_next s \<notin> set ds"
  using chain_member chain_in_dom vfs_ok_fresh by (metis option.distinct(1))

lemma create_add_entry:
  assumes "dget s p = Some x" "dget s (v_next s) = None"
  shows "dentry_create s sb (Some p) (Some nm) = Some (add_entry s p nm, v_next s)"
proof -
  have "p \<noteq> v_next s"
    using assms by auto
  then obtain t where t: "dentry_create s sb (Some p) (Some nm) = Some (t, v_next s)" "v_next t = v_next s + 1" "v_inodes t = v_inodes s"
      "v_mounts t = v_mounts s" "v_root t = v_root s" "v_supers t = v_supers s" "v_tmpfs_inode_count t = v_tmpfs_inode_count s"
      "\<And>d. v_dentries t d = v_dentries (add_entry s p nm) d" "vfs.more t = vfs.more s"
    using assms by (simp add: dentry_create_def tree_add_child_def Let_def dget_def dset_def add_entry_def)
  then have "t = add_entry s p nm"
    by (intro vfs.equality) (auto simp: add_entry_def)
  then show ?thesis
    using t(1) by simp
qed

lemma add_entry_bump: "f (v_next s) = 0 \<Longrightarrow> add_entry (bump s f) p nm = bump (add_entry s p nm) f"
  by (intro vfs.equality; cases "v_dentries s p") (auto simp: add_entry_def bump_def fun_eq_iff)

lemma get_child_missing:
  assumes "vfs_ok s r" "chain s r d ds" "child_of s d nm = None"
  shows "dentry_get_child fo (bump s (cnt ds)) d nm = Some (bump (add_entry s d nm) (cnt ds), v_next s)"
proof -
  obtain x where x: "dget s d = Some x"
    using chain_in_dom [OF assms(2)] by blast
  obtain i n where i: "d_inode x = Some i" "iget s i = Some n" "\<forall>m. i_ops n \<noteq> Foreign_Ops m"
    using vfs_ok_inode [OF assms(1) x] by blast
  have "dentry_create (bump s (cnt ds)) sb (Some d) (Some nm) = Some (bump (add_entry s d nm) (cnt ds), v_next s)" for sb
    using create_add_entry [of "bump s (cnt ds)" d] x vfs_ok_fresh [OF assms(1)] chain_old [OF assms(1,2)]
    by (simp add: dget_bump add_entry_bump cnt_not_in)
  moreover have "lookup_op fo (i_ops n) = None"
    using i(3) by (cases "i_ops n") (simp_all add: lookup_op_def)
  moreover have "d \<noteq> v_next s"
    using x vfs_ok_fresh [OF assms(1)] by auto
  ultimately show ?thesis
    using find_child_of [OF assms(1) x] assms(3) x i by (simp add: dentry_get_child_def dget_bump dget_add_entry)
qed

lemma release_missing:
  assumes "vfs_ok s r" "dget s d = Some x" "f (v_next s) = 0"
  shows "dentry_try_release (bump (add_entry s d nm) f) (v_next s) = Some (bump (s\<lparr>v_next := v_next s + 1\<rparr>) f)"
proof -
  have "d \<noteq> v_next s" "v_next s \<notin> set (d_children x)"
    using assms(2) vfs_ok_fresh [OF assms(1)] children_named [OF assms(1,2)] by fastforce+
  then show ?thesis
    using assms vfs_ok_fresh [OF assms(1)]
    by (auto simp: dentry_try_release_def tree_remove_def dget_bump dget_def add_entry_def dset_def bump_def fun_eq_iff remove1_append)
qed

text \<open>The chains of the other entries stay.\<close>

lemma mounted_root_add_entry:
  assumes "d \<noteq> v_next s"
  shows "mounted_root (add_entry s p nm) d = mounted_root s d"
proof -
  have "dentry_get_mount (add_entry s p nm) d = dentry_get_mount s d"
    using assms by (cases "dget s d"; cases "d = p") (simp_all add: dentry_get_mount_def dget_add_entry)
  then show ?thesis
    by (simp add: mounted_root_def)
qed

lemma add_entry_old:
  assumes "dget s e = Some x" "e \<noteq> v_next s"
  shows "\<exists>y. dget (add_entry s p nm) e = Some y \<and> d_name y = d_name x \<and> d_parent y = d_parent x \<and> d_is_mountpoint y = d_is_mountpoint x"
  using assms by (cases "e = p") (simp_all add: dget_add_entry)

lemma find_mountpoint_add_entry:
  assumes "v_next s \<notin> set cs" "find_mountpoint s d cs = Some (Some m)"
  shows "find_mountpoint (add_entry s p nm) d (cs @ rest) = Some (Some m)"
  using assms
proof (induction cs)
  case (Cons c cs)
  then have c: "mounted_root (add_entry s p nm) c = mounted_root s c" "c \<noteq> v_next s"
    by (simp_all add: mounted_root_add_entry)
  obtain x where x: "dget s c = Some x"
    using Cons.prems(2) by (auto simp: Option.bind_eq_Some_conv)
  then obtain y where y: "dget (add_entry s p nm) c = Some y" "d_is_mountpoint y = d_is_mountpoint x"
    using add_entry_old [OF x c(2)] by blast
  then show ?case
    using Cons x c by (auto simp: Option.bind_eq_Some_conv split: if_splits)
qed simp

lemma mountpoint_add_entry:
  assumes "vfs_ok s r" "dentry_root_get_mountpoint s d = Some (Some m)" "dget s p = Some z"
  shows "dentry_root_get_mountpoint (add_entry s p nm) d = Some (Some m)"
proof -
  obtain x where x: "dget s d = Some x" "d_name x = None"
    using assms(2) by (auto simp: dentry_root_get_mountpoint_def Option.bind_eq_Some_conv)
  have d: "d \<noteq> v_next s"
    using x vfs_ok_fresh [OF assms(1)] by auto
  then obtain x' where x': "dget (add_entry s p nm) d = Some x'" "d_name x' = None" "d_parent x' = d_parent x"
    using add_entry_old [OF x(1)] x(2) by fastforce
  show ?thesis
  proof (cases "v_root s = Some d")
    case True
    then show ?thesis
      using assms(2) x x' by (simp add: dentry_root_get_mountpoint_def)
  next
    case False
    then obtain q y where q: "d_parent x = Some q" "dget s q = Some y" "find_mountpoint s d (d_children y) = Some (Some m)"
      using assms(2) x by (auto simp: dentry_root_get_mountpoint_def Option.bind_eq_Some_conv)
    have n: "v_next s \<notin> set (d_children y)" "q \<noteq> v_next s"
      using children_named [OF assms(1) q(2)] q(2) vfs_ok_fresh [OF assms(1)] by fastforce+
    obtain y' rest where y': "dget (add_entry s p nm) q = Some y'" "d_children y' = d_children y @ rest"
      using q(2) n(2) by (cases "q = p") (auto simp: dget_add_entry)
    then show ?thesis
      using False x' q find_mountpoint_add_entry [OF n(1) q(3)] by (simp add: dentry_root_get_mountpoint_def)
  qed
qed

lemma chain_add_entry:
  assumes "chain s r d ds" "vfs_ok s r" "dget s p = Some z"
  shows "chain (add_entry s p nm) r d ds"
proof -
  have old: "\<exists>x'. dget (add_entry s p nm) e = Some x' \<and> d_name x' = d_name x \<and> d_parent x' = d_parent x" if "dget s e = Some x" for e x
    using add_entry_old [OF that] that vfs_ok_fresh [OF assms(2)] by fastforce
  show ?thesis
    using assms(1)
  proof (induction rule: chain.induct)
    case (chain_root x)
    then show ?case
      using old [of r x] by (auto intro: chain.chain_root)
  next
    case (chain_named d x nm' q ds)
    then show ?case
      using old [of d x] by (auto intro: chain.chain_named)
  next
    case (chain_mounted d x q m y nm' ds)
    then show ?case
      using old [of d x] old [of m y] mountpoint_add_entry [OF assms(2) chain_mounted.hyps(5) assms(3)]
      by (auto intro: chain.chain_mounted)
  qed
qed

lemma sum_refcounts_add_entry:
  "v_next s \<notin> set cs \<Longrightarrow> sum_refcounts (add_entry s p nm) cs = sum_refcounts s cs"
proof (induction cs)
  case (Cons c cs)
  then show ?case
    by (cases "dget s c") (auto simp: dget_add_entry)
qed simp

lemma sum_refcounts_append:
  "sum_refcounts s (cs @ ds) = do { m \<leftarrow> sum_refcounts s cs; n \<leftarrow> sum_refcounts s ds; Some (m + n) }"
proof (induction cs)
  case (Cons c cs)
  then show ?case
    by (cases "dget s c"; cases "sum_refcounts s cs"; cases "sum_refcounts s ds") simp_all
next
  case Nil
  then show ?case
    by (cases "sum_refcounts s ds") simp_all
qed

lemma good_add_entry:
  assumes "vfs_ok s r" "dget s e = Some x" "dget s p = Some z"
  shows "good (add_entry s p nm) e"
proof -
  have g: "dentry_check_refstat s e = Some ()" "d_inode x \<noteq> None" "distinct (d_children x)"
    using vfs_okD [OF assms(1,2)] assms(2) by (auto simp: dentry_ok_def good_def)
  have n: "e \<noteq> v_next s" "v_next s \<notin> set (d_children x)" "p \<noteq> v_next s"
    using assms(2,3) children_named [OF assms(1,2)] vfs_ok_fresh [OF assms(1)] by fastforce+
  obtain k where k: "sum_refcounts s (d_children x) = Some k"
    using g(1) assms(2) by (auto simp: dentry_check_refstat_def Option.bind_eq_Some_conv)
  have kids: "\<exists>y. dget (add_entry s p nm) c = Some y \<and> d_parent y = Some e \<and> d_name y \<noteq> None" if "c \<in> set (d_children x)" for c
    using children_named [OF assms(1,2)] that n(2) by (fastforce simp: dget_add_entry)
  show ?thesis
  proof (cases "e = p")
    case True
    have "sum_refcounts (add_entry s p nm) (d_children x @ [v_next s]) = Some k"
      using k assms(3) sum_refcounts_add_entry [OF n(2), of p nm] by (simp add: sum_refcounts_append dget_add_entry)
    then show ?thesis
      using True n g k kids assms(2) by (auto simp: good_def dentry_check_refstat_def dget_add_entry)
  next
    case False
    then show ?thesis
      using n g kids assms(2) sum_refcounts_add_entry [OF n(2), of p nm]
      by (auto simp: good_def dentry_check_refstat_def dget_add_entry)
  qed
qed

section \<open>Resolution refines the specification\<close>

text \<open>
  What a state becomes with an answer: an error leaves no trace but the next free address, an entry is held together with its
  way to the root, and a missing name becomes a new entry without inode.  Names that clash are treated below.\<close>

definition clash :: "vfs_error + place \<Rightarrow> bool" where
  "clash out \<longleftrightarrow> (\<exists>p. out = Inr (Clash p))"

definition placed :: "vfs \<Rightarrow> dptr \<Rightarrow> vfs_error + place \<Rightarrow> vfs \<times> (vfs_error + dptr) \<Rightarrow> bool" where
  "placed s r out res \<longleftrightarrow> (case out of
       Inl e \<Rightarrow> \<exists>n \<ge> v_next s. res = (s\<lparr>v_next := n\<rparr>, Inl e)
     | Inr (Found d) \<Rightarrow> \<exists>ds. chain s r d ds \<and> res = (bump s (cnt ds), Inr d)
     | Inr (Missing p nm) \<Rightarrow> \<exists>ds. chain s r p ds \<and> res = (bump (add_entry s p nm) (cnt (v_next s # ds)), Inr (v_next s))
     | Inr (Clash p) \<Rightarrow> False)"

definition parked :: "vfs \<Rightarrow> dptr \<Rightarrow> vfs_error + dptr \<times> name option \<Rightarrow> vfs \<Rightarrow> bool" where
  "parked s r out s' \<longleftrightarrow> (case out of
       Inl e \<Rightarrow> \<exists>n \<ge> v_next s. s' = s\<lparr>v_next := n\<rparr>
     | Inr (p, leaf) \<Rightarrow> \<exists>ds. chain s r p ds \<and> s' = bump s (cnt ds))"

lemma placed_simps [simp]:
  "placed s r (Inl e) res \<longleftrightarrow> (\<exists>n \<ge> v_next s. res = (s\<lparr>v_next := n\<rparr>, Inl e))"
  "placed s r (Inr (Found d)) res \<longleftrightarrow> (\<exists>ds. chain s r d ds \<and> res = (bump s (cnt ds), Inr d))"
  "placed s r (Inr (Missing p nm)) res \<longleftrightarrow> (\<exists>ds. chain s r p ds \<and> res = (bump (add_entry s p nm) (cnt (v_next s # ds)), Inr (v_next s)))"
  by (simp_all add: placed_def del: count_list.simps)

lemma parked_simps [simp]: "parked s r (Inl e) s' \<longleftrightarrow> (\<exists>n \<ge> v_next s. s' = s\<lparr>v_next := n\<rparr>)"
  "parked s r (Inr (p, leaf)) s' \<longleftrightarrow> (\<exists>ds. chain s r p ds \<and> s' = bump s (cnt ds))"
  by (simp_all add: parked_def)

definition follows_ok :: "dptr \<Rightarrow> follow \<Rightarrow> follows \<Rightarrow> bool" where
  "follows_ok r follow f \<longleftrightarrow> (\<forall>s g link flags. f (bump s g) link flags = f s link flags) \<and>
     (\<forall>s link flags out. vfs_ok s r \<longrightarrow> dget s link \<noteq> None \<longrightarrow> f s link flags = Some out \<longrightarrow> \<not> clash out \<longrightarrow>
       (\<exists>res. follow s link flags = Some res \<and> placed s r out res))"

lemma follows_okD:
  assumes "follows_ok r follow f" "vfs_ok s r" "chain s r link ds" "f s link flags = Some out" "\<not> clash out"
  obtains res where "follow (bump s (cnt ds)) link flags = Some res" "placed (bump s (cnt ds)) r out res"
proof -
  have "dget (bump s (cnt ds)) link \<noteq> None" "f (bump s (cnt ds)) link flags = Some out"
    using chain_in_dom [OF assms(3)] assms(1,4) by (auto simp: dget_bump follows_ok_def)
  then show ?thesis
    using that assms(1,5) vfs_ok_bump [OF assms(2,3)] unfolding follows_ok_def by blast
qed

lemma bump_commute: "bump (bump s f) g = bump (bump s g) f"
  by (simp add: add.commute)

text \<open>Dropping a reference while another entry is held.\<close>

lemma unref_held:
  assumes "vfs_ok s r" "chain s r d ds" "chain s r e es"
  shows "dentry_unref (bump (bump s (cnt ds)) (cnt es)) (Some d) = Some (bump s (cnt es))"
  using unref_ok [OF vfs_ok_bump [OF assms(1,3)], of d ds] assms(2) by (simp add: chain_bump add.commute)

lemma unref_next:
  assumes "vfs_ok s r" "chain s r d ds" "v_next s \<le> n"
  shows "dentry_unref ((bump s (cnt ds))\<lparr>v_next := n\<rparr>) (Some d) = Some (s\<lparr>v_next := n\<rparr>)"
  using unref_ok [OF vfs_ok_next [OF assms(1,3)], of d ds] assms(2) by (simp add: bump_next)

lemma walk_link_ok:
  assumes "follows_ok r follow f" "vfs_ok s r" "chain s r cur ds" "walk f slash s cur [seg] = Some out"
  shows "\<exists>s'. lookup_segments fo follow r slash (bump s (cnt ds)) cur [seg] = Some (s', out) \<and> parked s r out s'"
proof -
  obtain x where x: "dget s cur = Some x"
    using chain_in_dom [OF assms(3)] by blast
  obtain i n where "d_inode x = Some i" "iget s i = Some n" "\<forall>m. i_ops n \<noteq> Foreign_Ops m" and t: "dentry_type s cur = Some (i_type n)"
    by (rule vfs_ok_inode [OF assms(2) x])
  show ?thesis
  proof (cases "i_type n = FILE_TYPE_SYMLINK")
    case False
    then show ?thesis
      using assms(3,4) t by (auto simp: Let_def)
  next
    case True
    let ?fl = "or RESOLVE_EXPECT_EXIST RESOLVE_EXPECT_DIR"
    obtain w where w: "f s cur ?fl = Some w"
      using assms(4) t True by (auto simp: Let_def split: option.splits)
    have "\<not> clash w"
      using assms(4) t True w by (auto simp: clash_def Let_def)
    then obtain res where res: "follow (bump s (cnt ds)) cur ?fl = Some res" "placed (bump s (cnt ds)) r w res"
      by (rule follows_okD [OF assms(1-3) w])
    show ?thesis
    proof (cases w)
      case (Inl e)
      then obtain k where k: "v_next s \<le> k" "res = ((bump s (cnt ds))\<lparr>v_next := k\<rparr>, Inl e)"
        using res(2) by auto
      have "out = Inl e"
        using assms(4) t True w Inl by (simp add: Let_def)
      then show ?thesis
        using t True res(1) k unref_next [OF assms(2,3) k(1)] by auto
    next
      case (Inr pl)
      then obtain d where d: "pl = Found d" "out = Inr (d, Some (if slash then seg @ [PATH_DELIM] else seg))"
        using assms(4) t True w by (auto simp: Let_def split: place.splits)
      then obtain es where es: "chain s r d es" "res = (bump (bump s (cnt ds)) (cnt es), Inr d)"
        using res(2) Inr by (auto simp: chain_bump)
      then show ?thesis
        using t True res(1) d unref_held [OF assms(2,3) es(1)] by (auto simp: Let_def simp del: bump_bump)
    qed
  qed
qed

lemma enter_child_ok:
  assumes "vfs_ok s r" "chain s r c ds" "dget s c = Some y" "c \<noteq> r"
  obtains es where "chain s r (enter s c) es"
    "d_is_mountpoint y \<longrightarrow> mounted_root s c = Some (enter s c) \<and> dentry_ref (bump s (cnt ds)) (enter s c) = Some (bump s (cnt es))"
    "\<not> d_is_mountpoint y \<longrightarrow> enter s c = c \<and> es = ds"
proof (cases "d_is_mountpoint y")
  case True
  obtain z where z: "mounted_root s c = Some (enter s c)" "dget s (enter s c) = Some z" "d_inode z \<noteq> None" "chain s r (enter s c) (enter s c # ds)"
    by (rule enter_step [OF assms(1-3) True assms(4)])
  have "dentry_ref (bump s (cnt ds)) (enter s c) = Some (bump s (cnt (enter s c # ds)))"
    using dentry_ref_bump [OF z(2,3)] by (simp only: cnt_Cons)
  then show ?thesis
    using that [of "enter s c # ds"] True z by blast
next
  case False
  then show ?thesis
    using that [of ds] enter_plain [OF assms(3)] assms(2) by simp
qed

lemma lookup_ok:
  assumes "follows_ok r follow f" "vfs_ok s r" "chain s r cur ds" "walk f slash s cur segs = Some out"
  shows "\<exists>s'. lookup_segments fo follow r slash (bump s (cnt ds)) cur segs = Some (s', out) \<and> parked s r out s'"
  using assms
proof (induction f slash s cur segs arbitrary: ds rule: walk.induct)
  case (1 f slash s cur)
  then show ?case
    by auto
next
  case (2 f slash s cur seg)
  then show ?case
    by (intro walk_link_ok)
next
  case (3 f slash s cur seg nxt segs)
  note ok = \<open>vfs_ok s r\<close> and ch = \<open>chain s r cur ds\<close>
  consider "is_dot seg" | "\<not> is_dot seg" "is_dotdot seg" | "\<not> is_dot seg" "\<not> is_dotdot seg" "child_of s cur seg = None"
    | c where "\<not> is_dot seg" "\<not> is_dotdot seg" "child_of s cur seg = Some c"
    by blast
  then show ?case
  proof cases
    case 1
    then show ?thesis
      using 3 by simp
  next
    case 2
    show ?thesis
    proof (cases "cur = r")
      case True
      then show ?thesis
        using 2 3 root_parent [OF ch] by simp
    next
      case False
      obtain x p y rest where up: "dget s cur = Some x" "d_parent x = Some p" "parent_of s cur = p" "dget s p = Some y" "chain s r p rest"
          "dentry_unref_one_norelease (bump s (cnt ds)) (Some cur) = Some (bump s (cnt rest), True)" "d_is_mountpoint y \<longrightarrow> p = r"
        by (rule up_step [OF ok ch False])
      then show ?thesis
        using 2 3 False root_mountpoint [OF ok] by (cases "d_is_mountpoint y") (auto simp: dget_bump)
    qed
  next
    case c: 3
    obtain x where x: "dget s cur = Some x"
      using chain_in_dom [OF ch] by blast
    have new: "dget (bump (add_entry s cur seg) (cnt ds)) (v_next s) = Some \<lparr>d_parent = Some cur, d_children = [], d_refcount = 0,
        d_inode = None, d_name = Some seg, d_super = d_super x, d_is_mountpoint = False\<rparr>"
      using x chain_old [OF ok ch] by (simp add: dget_bump dget_add_entry cnt_not_in)
    have "dentry_unref (bump (s\<lparr>v_next := v_next s + 1\<rparr>) (cnt ds)) (Some cur) = Some (s\<lparr>v_next := v_next s + 1\<rparr>)"
      using unref_next [OF ok ch, of "v_next s + 1"] by (simp add: bump_next)
    then show ?thesis
      using 3 c get_child_missing [OF ok ch c(3)] new release_missing [OF ok x, of "cnt ds" seg] chain_old [OF ok ch]
      by (auto simp: cnt_not_in intro!: exI [of _ "Suc (v_next s)"])
  next
    case (4 c)
    obtain y where y: "dget s c = Some y" "c \<noteq> r" "chain s r c (c # ds)"
      using child_step [OF ok ch 4(3)] by blast
    have i: "d_inode y \<noteq> None"
      by (rule vfs_ok_has_inode [OF ok y(1)])
    obtain es where es: "chain s r (enter s c) es"
      "d_is_mountpoint y \<longrightarrow> mounted_root s c = Some (enter s c) \<and> dentry_ref (bump s (cnt (c # ds))) (enter s c) = Some (bump s (cnt es))"
      "\<not> d_is_mountpoint y \<longrightarrow> enter s c = c \<and> es = c # ds"
      by (rule enter_child_ok [OF ok y(3,1,2)])
    have "\<exists>s'. lookup_segments fo follow r slash (bump s (cnt es)) (enter s c) (nxt # segs) = Some (s', out) \<and> parked s r out s'"
      using 3 4 es(1) by simp
    then show ?thesis
      using 4 get_child_found [OF ok ch 4(3)] y(1) i es(2,3) by (cases "d_is_mountpoint y") (auto simp: dget_bump simp del: count_list.simps)
  qed
qed

text \<open>The last segment, with the reference on the parent dropped unless it belongs to the result.\<close>

definition finish :: "foreign_ops \<Rightarrow> follow \<Rightarrow> vfs \<Rightarrow> dptr \<Rightarrow> name \<Rightarrow> u32 \<Rightarrow> (vfs \<times> (vfs_error + dptr)) option" where
  "finish fo follow s parent leaf flags = do {
     (s, child, symlink) \<leftarrow> handle_last_segment fo follow s parent leaf flags;
     s \<leftarrow> (if isl child \<or> symlink then dentry_unref s (Some parent) else Some s);
     Some (s, child) }"

lemma unref_one_child:
  assumes "vfs_ok s r" "chain s r cur ds" "child_of s cur nm = Some c"
  shows "dentry_unref_one_norelease (bump s (\<lambda>x. g x + cnt (c # ds) x)) (Some c) = Some (bump s (\<lambda>x. g x + cnt ds x), True)"
proof -
  obtain y where y: "dget s c = Some y" "d_parent y = Some cur" "d_name y = Some nm" "c \<noteq> r"
    using child_step [OF assms] by blast
  have "(\<lambda>x. g x + cnt (c # ds) x) = (\<lambda>x. (g x + cnt ds x) + cnt [c] x)"
    by auto
  then show ?thesis
    using unref_one_step [OF step_named [OF y(4,1,3,2) assms(2)] vfs_ok_root [OF assms(1)], of "\<lambda>x. g x + cnt ds x"] by simp
qed

text \<open>The new entry of a missing name is held like any other.\<close>

lemma missing_chain:
  assumes "vfs_ok s r" "chain s r p es"
  shows "chain (add_entry s p nm) r (v_next s) (v_next s # es)"
proof -
  obtain z where z: "dget s p = Some z"
    using chain_in_dom [OF assms(2)] by blast
  show ?thesis
    using chain_add_entry [OF assms(2,1) z] z vfs_ok_fresh [OF assms(1)] assms(1)
    by (intro chain.chain_named) (auto simp: dget_add_entry vfs_ok_def)
qed

lemma missing_good:
  assumes "vfs_ok s r" "chain s r p es" "dget s e = Some w"
  shows "good (bump (add_entry s p nm) (cnt (v_next s # es))) e"
proof -
  obtain z where z: "dget s p = Some z"
    using chain_in_dom [OF assms(2)] by blast
  show ?thesis
    by (rule good_bump [OF missing_chain [OF assms(1,2)] good_add_entry [OF assms(1,3) z]])
qed

lemma missing_held:
  fixes nm' :: name
  assumes "vfs_ok s r" "chain s r cur ds" "child_of s cur nm = Some c" "chain s r p es"
  defines "u \<equiv> bump (add_entry s p nm') (cnt (v_next s # es))"
  shows "dentry_unref_one_norelease (bump u (cnt (c # ds))) (Some c) = Some (bump u (cnt ds), True)"
    "dentry_unref (bump u (cnt ds)) (Some cur) = Some u"
proof -
  obtain y where y: "dget s c = Some y" "d_parent y = Some cur" "d_name y = Some nm" "c \<noteq> r" "chain s r c (c # ds)"
    by (rule child_step [OF assms(1-3)])
  obtain z where z: "dget s p = Some z"
    using chain_in_dom [OF assms(4)] by blast
  have u: "chain u r cur ds" "v_root u = Some r"
    using chain_add_entry [OF assms(2,1) z] vfs_ok_root [OF assms(1)] by (simp_all add: chain_bump u_def)
  obtain y' where y': "dget u c = Some y'" "d_name y' = Some nm" "d_parent y' = Some cur"
    using add_entry_old [OF y(1), of p nm'] y chain_old [OF assms(1) y(5)] by (auto simp: dget_bump u_def)
  have "(\<lambda>x. cnt ds x + cnt [c] x) = cnt (c # ds)"
    by auto
  then show "dentry_unref_one_norelease (bump u (cnt (c # ds))) (Some c) = Some (bump u (cnt ds), True)"
    using unref_one_step [OF step_named [OF y(4) y' u(1)] u(2), of "cnt ds"] by simp
  have "good u e" if "e \<in> set ds" for e
    using vfs_ok_good [OF assms(1,2) that] missing_good [OF assms(1,4), of e] by (auto simp: good_def [of s] u_def)
  then show "dentry_unref (bump u (cnt ds)) (Some cur) = Some u"
    using dentry_unref_chain [OF u] by blast
qed

lemma finish_link:
  assumes "follows_ok r follow f" "vfs_ok s r" "chain s r cur ds" "child_of s cur nm = Some c" "f s c flags = Some out" "\<not> clash out"
  obtains t target u where "follow (bump s (cnt (c # ds))) c flags = Some (t, target)"
    "dentry_unref_one_norelease t (Some c) = Some (u, True)" "\<exists>s'. dentry_unref u (Some cur) = Some s' \<and> placed s r out (s', target)"
proof -
  obtain y where y: "dget s c = Some y" "d_parent y = Some cur" "d_name y = Some nm" "c \<noteq> r" "chain s r c (c # ds)"
    by (rule child_step [OF assms(2-4)])
  obtain res where res: "follow (bump s (cnt (c # ds))) c flags = Some res" "placed (bump s (cnt (c # ds))) r out res"
    by (rule follows_okD [OF assms(1,2) y(5) assms(5,6)])
  show ?thesis
  proof (cases out)
    case (Inl e)
    then obtain k where k: "v_next s \<le> k" "res = ((bump s (cnt (c # ds)))\<lparr>v_next := k\<rparr>, Inl e)"
      using res(2) by (auto simp del: count_list.simps)
    let ?s = "s\<lparr>v_next := k\<rparr>"
    have ch: "child_of ?s cur nm = Some c"
      using assms(4) by (simp add: child_of_def next_names)
    have "dentry_unref_one_norelease (bump ?s (cnt (c # ds))) (Some c) = Some (bump ?s (cnt ds), True)"
      using unref_one_child [OF vfs_ok_next [OF assms(2) k(1)] _ ch, of ds "\<lambda>_. 0"] assms(3) by (simp del: count_list.simps)
    moreover have "dentry_unref (bump ?s (cnt ds)) (Some cur) = Some ?s"
      using unref_next [OF assms(2,3) k(1)] by (simp add: bump_next)
    ultimately show ?thesis
      using that [of "bump ?s (cnt (c # ds))" "Inl e" "bump ?s (cnt ds)"] res(1) k Inl
      by (auto simp: bump_next simp del: count_list.simps)
  next
    case (Inr pl)
    show ?thesis
    proof (cases pl)
      case (Found d)
      then obtain es where es: "chain s r d es" "res = (bump (bump s (cnt (c # ds))) (cnt es), Inr d)"
        using res(2) Inr by (auto simp: chain_bump simp del: count_list.simps bump_bump)
      have "dentry_unref_one_norelease (bump (bump s (cnt (c # ds))) (cnt es)) (Some c) = Some (bump (bump s (cnt ds)) (cnt es), True)"
        using unref_one_child [OF assms(2-4), of "cnt es"] by (simp add: add.commute del: count_list.simps)
      then show ?thesis
        using that res(1) es Inr Found unref_held [OF assms(2,3) es(1)] by (auto simp del: count_list.simps bump_bump)
    next
      case (Missing p nm')
      have N: "v_next s \<notin> set (c # ds)"
        by (rule chain_old [OF assms(2) y(5)])
      obtain es where es: "chain s r p es"
          "res = (bump (add_entry (bump s (cnt (c # ds))) p nm') (cnt (v_next s # es)), Inr (v_next s))"
        using res(2) Inr Missing by (auto simp: chain_bump simp del: count_list.simps bump_bump)
      let ?a = "add_entry s p nm'" let ?u = "bump ?a (cnt (v_next s # es))"
      have res': "res = (bump ?u (cnt (c # ds)), Inr (v_next s))"
        using es(2) add_entry_bump [of "cnt (c # ds)" s p nm'] cnt_not_in [OF N]
        by (simp add: bump_commute [of ?a] del: count_list.simps bump_bump)
      show ?thesis
        using that res(1) res' Inr Missing es(1) missing_held [OF assms(2-4) es(1), of nm'] by (auto simp del: count_list.simps bump_bump)
    qed (use assms(6) Inr in \<open>simp add: clash_def\<close>)
  qed
qed

definition leaf_plain :: "name \<Rightarrow> u32 \<Rightarrow> bool" where
  "leaf_plain leaf flags \<longleftrightarrow> \<not> (leaf_slash leaf \<and> \<not> has_flag flags RESOLVE_EXPECT_DIR) \<and>
     \<not> is_dot (leaf_name leaf) \<and> \<not> is_dotdot (leaf_name leaf)"

lemma last_place_plain: "leaf_plain leaf flags \<Longrightarrow> last_place f s cur leaf flags = child_place f s cur (leaf_name leaf) flags"
  by (auto simp: last_place_def leaf_plain_def)

lemma leaf_fold: "(leaf \<noteq> [] \<and> List.last leaf = PATH_DELIM) = leaf_slash leaf" "(if leaf_slash leaf then butlast leaf else leaf) = leaf_name leaf"
  by (simp_all add: leaf_slash_def leaf_name_def)

lemmas handle_last_segment_fold = handle_last_segment_def [unfolded Let_def leaf_fold]

lemma next_id [simp]: "s\<lparr>v_next := v_next s\<rparr> = s" for s :: vfs
  by simp

lemma finish_dots:
  assumes "vfs_ok s r" "chain s r cur ds" "last_place f s cur leaf flags = Some out" "\<not> leaf_plain leaf flags"
  shows "\<exists>res. finish fo follow (bump s (cnt ds)) cur leaf flags = Some res \<and> placed s r out res"
proof -
  have root: "v_root s = Some r"
    by (rule vfs_ok_root [OF assms(1)])
  consider "leaf_slash leaf" "\<not> has_flag flags RESOLVE_EXPECT_DIR"
    | "\<not> (leaf_slash leaf \<and> \<not> has_flag flags RESOLVE_EXPECT_DIR)" "is_dot (leaf_name leaf)"
    | "\<not> (leaf_slash leaf \<and> \<not> has_flag flags RESOLVE_EXPECT_DIR)" "\<not> is_dot (leaf_name leaf)" "is_dotdot (leaf_name leaf)"
    using assms(4) by (auto simp: leaf_plain_def)
  then show ?thesis
  proof cases
    case 1
    then show ?thesis
      using assms(3) unref_ok [OF assms(1,2)]
      by (auto simp: finish_def handle_last_segment_fold last_place_def intro!: exI [of _ "v_next s"])
  next
    case 2
    then show ?thesis
      using assms(2,3) by (auto simp: finish_def handle_last_segment_fold last_place_def intro!: exI [of _ ds])
  next
    case 3
    show ?thesis
    proof (cases "cur = r")
      case True
      then show ?thesis
        using 3 assms(2,3) root root_parent [OF assms(2)]
        by (auto simp: finish_def handle_last_segment_fold last_place_def intro!: exI [of _ ds])
    next
      case False
      obtain x p y rest where up: "dget s cur = Some x" "d_parent x = Some p" "parent_of s cur = p" "dget s p = Some y" "chain s r p rest"
          "dentry_unref_one_norelease (bump s (cnt ds)) (Some cur) = Some (bump s (cnt rest), True)" "d_is_mountpoint y \<longrightarrow> p = r"
        by (rule up_step [OF assms(1,2) False])
      have "handle_last_segment fo follow (bump s (cnt ds)) cur leaf flags = Some (bump s (cnt rest), Inr p, False)"
        using 3 False root up root_mountpoint [OF assms(1)]
        by (cases "d_is_mountpoint y") (auto simp: handle_last_segment_fold dget_bump)
      moreover have "out = Inr (Found p)"
        using 3 assms(3) up(3) by (auto simp: last_place_def)
      ultimately show ?thesis
        using up(5) by (auto simp: finish_def)
    qed
  qed
qed

lemma finish_missing:
  assumes "vfs_ok s r" "chain s r cur ds" "last_place f s cur leaf flags = Some out" "leaf_plain leaf flags"
    "child_of s cur (leaf_name leaf) = None"
  shows "\<exists>res. finish fo follow (bump s (cnt ds)) cur leaf flags = Some res \<and> placed s r out res"
proof -
  obtain x where x: "dget s cur = Some x"
    using chain_in_dom [OF assms(2)] by blast
  let ?nm = "leaf_name leaf" let ?a = "add_entry s cur ?nm"
  let ?e = "\<lparr>d_parent = Some cur, d_children = [], d_refcount = 0, d_inode = None, d_name = Some ?nm, d_super = d_super x, d_is_mountpoint = False\<rparr>"
  have N: "cnt ds (v_next s) = 0"
    using chain_old [OF assms(1,2)] by (rule cnt_not_in)
  have e: "dget ?a (v_next s) = Some ?e"
    using x by (simp add: dget_add_entry)
  have get: "dentry_get_child fo (bump s (cnt ds)) cur ?nm = Some (bump ?a (cnt ds), v_next s)"
    by (rule get_child_missing [OF assms(1,2,5)])
  show ?thesis
  proof (cases "has_flag flags RESOLVE_EXPECT_NONEXIST")
    case True
    have "dset (bump ?a (cnt ds)) (v_next s) (?e\<lparr>d_refcount := d_refcount ?e + 1\<rparr>) = bump ?a (cnt (v_next s # ds))"
      using dset_bump [OF e, of "cnt ds" 1] N by (simp only: cnt_Cons) simp
    then have "finish fo follow (bump s (cnt ds)) cur leaf flags = Some (bump ?a (cnt (v_next s # ds)), Inr (v_next s))"
      using True assms(4) get e N by (auto simp: finish_def handle_last_segment_fold leaf_plain_def dget_bump simp del: count_list.simps)
    moreover have "out = Inr (Missing cur ?nm)"
      using True assms(3-5) by (auto simp: last_place_plain child_place_def)
    ultimately show ?thesis
      using assms(2) by (auto simp del: count_list.simps)
  next
    case False
    have "dentry_unref (bump (s\<lparr>v_next := v_next s + 1\<rparr>) (cnt ds)) (Some cur) = Some (s\<lparr>v_next := v_next s + 1\<rparr>)"
      using unref_next [OF assms(1,2), of "v_next s + 1"] by (simp add: bump_next)
    then have "finish fo follow (bump s (cnt ds)) cur leaf flags = Some (s\<lparr>v_next := v_next s + 1\<rparr>, Inl ENOENT)"
      using False assms(4) get e N release_missing [OF assms(1) x, of "cnt ds" ?nm]
      by (auto simp: finish_def handle_last_segment_fold leaf_plain_def dget_bump)
    moreover have "out = Inl ENOENT"
      using False assms(3-5) by (auto simp: last_place_plain child_place_def)
    ultimately show ?thesis
      by (auto intro!: exI [of _ "Suc (v_next s)"])
  qed
qed

lemma handle_found:
  assumes "leaf_plain leaf flags" "dentry_get_child fo s cur (leaf_name leaf) = Some (s', c)" "dget s' c = Some x" "d_inode x = Some i"
    "iget s' i = Some n" "0 < d_refcount x" "\<not> (has_flag flags RESOLVE_EXPECT_NONEXIST \<and> \<not> has_flag flags RESOLVE_EXPECT_EXIST)"
  shows "handle_last_segment fo follow s cur leaf flags =
    (if i_type n = FILE_TYPE_SYMLINK then
       (if has_flag flags RESOLVE_SYMLINK_NOFOLLOW then Some (s', Inr c, False)
        else do {
          (s, target) \<leftarrow> follow s' c flags;
          (s, lowered) \<leftarrow> dentry_unref_one_norelease s (Some c);
          mos_assert lowered;
          Some (s, target, True) })
     else if i_type n = FILE_TYPE_DIRECTORY then
       (if \<not> has_flag flags RESOLVE_EXPECT_DIR then do {
          (s, lowered) \<leftarrow> dentry_unref_one_norelease s' (Some c);
          mos_assert lowered;
          Some (s, Inl EISDIR, False) }
        else if d_is_mountpoint x then do {
          r \<leftarrow> mounted_root s' c;
          s \<leftarrow> dentry_ref s' r;
          Some (s, Inr r, False) }
        else Some (s', Inr c, False))
     else if \<not> has_flag flags RESOLVE_EXPECT_FILE then do {
       (s, lowered) \<leftarrow> dentry_unref_one_norelease s' (Some c);
       mos_assert lowered;
       Some (s, Inl ENOTDIR, False) }
     else Some (s', Inr c, False))"
  using assms by (auto simp: handle_last_segment_fold leaf_plain_def)

lemma finish_found:
  assumes "follows_ok r follow f" "vfs_ok s r" "chain s r cur ds" "last_place f s cur leaf flags = Some out" "leaf_plain leaf flags"
    "child_of s cur (leaf_name leaf) = Some c" "\<not> clash out"
  shows "\<exists>res. finish fo follow (bump s (cnt ds)) cur leaf flags = Some res \<and> placed s r out res"
proof -
  obtain y where y: "dget s c = Some y" "c \<noteq> r" "chain s r c (c # ds)"
    using child_step [OF assms(2,3,6)] by blast
  obtain i n where i: "d_inode y = Some i" "iget s i = Some n" "\<forall>m. i_ops n \<noteq> Foreign_Ops m" and t: "dentry_type s c = Some (i_type n)"
    by (rule vfs_ok_inode [OF assms(2) y(1)])
  have nonexist: "\<not> (has_flag flags RESOLVE_EXPECT_NONEXIST \<and> \<not> has_flag flags RESOLVE_EXPECT_EXIST)"
    using assms(4,6,7) by (auto simp: last_place_plain [OF assms(5)] child_place_def clash_def split: if_splits)
  have out: "(if i_type n = FILE_TYPE_SYMLINK then
       (if has_flag flags RESOLVE_SYMLINK_NOFOLLOW then Some (Inr (Found c)) else f s c flags)
     else if i_type n = FILE_TYPE_DIRECTORY then
       (if has_flag flags RESOLVE_EXPECT_DIR then Some (Inr (Found (enter s c))) else Some (Inl EISDIR))
     else if has_flag flags RESOLVE_EXPECT_FILE then Some (Inr (Found c)) else Some (Inl ENOTDIR)) = Some out"
    using assms(4,6) t nonexist by (auto simp: last_place_plain [OF assms(5)] child_place_def split: if_splits)
  let ?s = "bump s (cnt (c # ds))"
  have h: "dget ?s c = Some (y\<lparr>d_refcount := d_refcount y + cnt (c # ds) c\<rparr>)" "d_inode (y\<lparr>d_refcount := d_refcount y + cnt (c # ds) c\<rparr>) = Some i"
      "iget ?s i = Some n" "0 < d_refcount (y\<lparr>d_refcount := d_refcount y + cnt (c # ds) c\<rparr>)"
    using y(1) i by (simp_all add: dget_bump)
  note handle = handle_found [OF assms(5) get_child_found [OF assms(2,3,6)] h nonexist]
  have err: "dentry_unref_one_norelease ?s (Some c) = Some (bump s (cnt ds), True)"
    using unref_one_child [OF assms(2,3,6), of "\<lambda>_. 0"] by (simp del: count_list.simps)
  note unref = unref_ok [OF assms(2,3)]
  consider (link) "i_type n = FILE_TYPE_SYMLINK" "\<not> has_flag flags RESOLVE_SYMLINK_NOFOLLOW"
    | (dir) "i_type n = FILE_TYPE_DIRECTORY" "has_flag flags RESOLVE_EXPECT_DIR"
    | (found) "handle_last_segment fo follow (bump s (cnt ds)) cur leaf flags = Some (?s, Inr c, False)" "out = Inr (Found c)"
    | (error) e where "handle_last_segment fo follow (bump s (cnt ds)) cur leaf flags = Some (bump s (cnt ds), Inl e, False)" "out = Inl e"
    using out handle [where follow = follow] err by (cases "i_type n") (auto split: if_splits simp del: count_list.simps)
  then show ?thesis
  proof cases
    case link
    then have "f s c flags = Some out"
      using out by simp
    from finish_link [OF assms(1-3,6) this assms(7)] obtain t target u where
        "follow ?s c flags = Some (t, target)" "dentry_unref_one_norelease t (Some c) = Some (u, True)"
        "\<exists>s'. dentry_unref u (Some cur) = Some s' \<and> placed s r out (s', target)"
      by blast
    then show ?thesis
      using link by (auto simp: finish_def handle simp del: count_list.simps)
  next
    case dir
    obtain es where es: "chain s r (enter s c) es"
      "d_is_mountpoint y \<longrightarrow> mounted_root s c = Some (enter s c) \<and> dentry_ref ?s (enter s c) = Some (bump s (cnt es))"
      "\<not> d_is_mountpoint y \<longrightarrow> enter s c = c \<and> es = c # ds"
      by (rule enter_child_ok [OF assms(2) y(3,1,2)])
    then show ?thesis
      using dir out by (cases "d_is_mountpoint y") (auto simp: finish_def handle simp del: count_list.simps)
  next
    case found
    then show ?thesis
      using y(3) by (auto simp: finish_def simp del: count_list.simps)
  next
    case error
    then show ?thesis
      using unref by (auto simp: finish_def intro!: exI [of _ "v_next s"])
  qed
qed

lemma finish_ok:
  assumes "follows_ok r follow f" "vfs_ok s r" "chain s r cur ds" "last_place f s cur leaf flags = Some out" "\<not> clash out"
  shows "\<exists>res. finish fo follow (bump s (cnt ds)) cur leaf flags = Some res \<and> placed s r out res"
  using finish_dots [OF assms(2-4)] finish_missing [OF assms(2-4)] finish_found [OF assms(1-4) _ _ assms(5)] by blast

text \<open>
  A name that should be missing and is not: the entry is dropped with its whole way to the root, so the directory has lost its
  reference when it is dropped once more.\<close>

lemma finish_clash:
  assumes "vfs_ok s r" "chain s r cur ds" "leaf_plain leaf flags" "child_of s cur (leaf_name leaf) = Some c"
    "has_flag flags RESOLVE_EXPECT_NONEXIST" "\<not> has_flag flags RESOLVE_EXPECT_EXIST"
  shows "finish fo follow (bump s (cnt ds)) cur leaf flags = map_option (\<lambda>t. (t, Inl EEXIST)) (dentry_unref s (Some cur))"
proof -
  obtain y where y: "dget s c = Some y" "chain s r c (c # ds)"
    using child_step [OF assms(1,2,4)] by blast
  obtain i where i: "d_inode y = Some i"
    using vfs_ok_has_inode [OF assms(1) y(1)] by blast
  have "handle_last_segment fo follow (bump s (cnt ds)) cur leaf flags = Some (s, Inl EEXIST, False)"
    using get_child_found [OF assms(1,2,4), of fo] unref_ok [OF assms(1) y(2)] assms(3,5,6) y(1) i
    by (auto simp: handle_last_segment_fold leaf_plain_def dget_bump simp del: count_list.simps) (simp_all add: count_list.simps)
  then show ?thesis
    by (cases "dentry_unref s (Some cur)") (simp_all add: finish_def)
qed

lemma link_no_clash:
  assumes "\<not> (has_flag flags RESOLVE_EXPECT_NONEXIST \<and> \<not> has_flag flags RESOLVE_EXPECT_EXIST)"
  shows "link_place n path_max r s link flags \<noteq> Some (Inr (Clash p))"
proof (induction n arbitrary: link)
  case (Suc n)
  have "last_place (link_place n path_max r) s cur leaf flags \<noteq> Some (Inr (Clash p))" for cur leaf
    using Suc assms by (auto simp: last_place_def child_place_def split: option.splits)
  then show ?case
    by (auto simp: Option.bind_eq_Some_conv Let_def split: sum.splits option.splits)
qed simp

lemma walked_cases:
  assumes "do { w \<leftarrow> W; case w of Inl e \<Rightarrow> A e | Inr (p, None) \<Rightarrow> B p | Inr (p, Some leaf) \<Rightarrow> C p leaf } = Some out"
  obtains e where "W = Some (Inl e)" "A e = Some out" | p where "W = Some (Inr (p, None))" "B p = Some out"
    | p leaf where "W = Some (Inr (p, Some leaf))" "C p leaf = Some out"
proof -
  obtain w where w: "W = Some w"
    using assms by (auto simp: Option.bind_eq_Some_conv)
  show ?thesis
  proof (cases w)
    case (Inl e)
    then show ?thesis
      using that(1) assms w by simp
  next
    case (Inr q)
    obtain p leaf where q: "q = (p, leaf)"
      by (cases q)
    show ?thesis
      using that(2,3) [of p] assms w Inr q by (cases leaf) simp_all
  qed
qed

lemma path_clash:
  assumes "path_place n path_max s r base path flags = Some (Inr (Clash p))"
  obtains leaf c where "walk_path (link_place n path_max r) s r base path = Some (Inr (p, Some leaf))" "leaf_plain leaf flags"
    "child_of s p (leaf_name leaf) = Some c" "has_flag flags RESOLVE_EXPECT_NONEXIST" "\<not> has_flag flags RESOLVE_EXPECT_EXIST"
proof -
  obtain q leaf where q: "walk_path (link_place n path_max r) s r base path = Some (Inr (q, Some leaf))"
      "last_place (link_place n path_max r) s q leaf flags = Some (Inr (Clash p))"
    using assms by (auto simp: path_place_def elim!: walked_cases split: if_splits)
  then have plain: "leaf_plain leaf flags"
    by (auto simp: last_place_def leaf_plain_def split: if_splits)
  then show ?thesis
    using that q link_no_clash [of flags n path_max r s _ p]
    by (auto simp: last_place_plain child_place_def split: option.splits if_splits)
qed

text \<open>Whole paths.\<close>

lemma enter_ok:
  assumes "vfs_ok s r" "dget s b = Some y"
  shows "(if d_is_mountpoint y then mounted_root s b else Some b) = Some (enter s b) \<and> (\<exists>ds. chain s r (enter s b) ds)"
proof -
  obtain bs where bs: "chain s r b bs"
    by (rule vfs_ok_chain [OF assms])
  show ?thesis
  proof (cases "d_is_mountpoint y \<and> b \<noteq> r")
    case True
    then obtain z where "mounted_root s b = Some (enter s b)" "dget s (enter s b) = Some z" "d_inode z \<noteq> None"
        "chain s r (enter s b) (enter s b # bs)"
      using enter_step [OF assms(1) bs assms(2)] by metis
    then show ?thesis
      using True by auto
  next
    case False
    then show ?thesis
      using enter_plain [OF assms(2)] enter_root [OF assms(1)] bs vfs_okD [OF assms] by (auto simp: dentry_ok_def mount_ok_def)
  qed
qed

lemma lookup_parent_ok:
  assumes "follows_ok r follow f" "vfs_ok s r" "dget s base = Some x" "walk_path f s r base path = Some out"
  shows "\<exists>s'. dentry_lookup_parent fo follow s base r path = Some (s', out) \<and> parked s r out s'"
proof -
  let ?b = "if path_is_absolute path then r else base"
  obtain y where y: "dget s ?b = Some y"
    using assms(2,3) by (cases "path_is_absolute path") (auto simp: vfs_ok_def)
  then obtain ds where e: "(if d_is_mountpoint y then mounted_root s ?b else Some ?b) = Some (enter s ?b)" "chain s r (enter s ?b) ds"
    using enter_ok [OF assms(2)] by blast
  have "dentry_ref_up_to s (enter s ?b) r = Some (bump s (cnt ds))"
    using dentry_ref_up_to_chain [OF e(2)] vfs_ok_has_inode [OF assms(2)] by blast
  then show ?thesis
    using lookup_ok [OF assms(1,2) e(2)] assms(4) y e(1) by (simp add: dentry_lookup_parent_def walk_path_def Let_def)
qed

text \<open>A symbolic link names what its target names from the directory of the link.\<close>

lemma readlink_ok:
  assumes "link_of s link = Some t"
  obtains x i n p where "dget s link = Some x" "d_inode x = Some i" "iget s i = Some n" "i_type n = FILE_TYPE_SYMLINK"
    "readlink_op fo (i_ops n) = Some tmpfs_i_readlink" "tmpfs_i_readlink s link k = Some (take k t)" "d_parent x = Some p" "parent_of s link = p"
proof -
  obtain x i n p where "dget s link = Some x" "d_inode x = Some i" "iget s i = Some n" "i_type n = FILE_TYPE_SYMLINK"
      "i_ops n = Tmpfs_Symlink_Ops" "d_parent x = Some p" "i_symlink_target n = Some t"
    using assms by (auto simp: link_of_def Option.bind_eq_Some_conv split: if_splits)
  then show ?thesis
    using that by (simp add: readlink_op_def tmpfs_i_readlink_def parent_of_def)
qed

lemma link_ok: "follows_ok r (follow_symlink n fo path_max) (link_place n path_max r)"
proof (induction n)
  case 0
  then show ?case
    by (simp add: follows_ok_def)
next
  case (Suc n)
  have "\<exists>res. follow_symlink (Suc n) fo path_max s link flags = Some res \<and> placed s r out res"
    if ok: "vfs_ok s r" and out: "link_place (Suc n) path_max r s link flags = Some out" and nc: "\<not> clash out" for s link flags out
  proof -
    obtain t where t: "link_of s link = Some t"
      using out by (auto simp: Option.bind_eq_Some_conv)
    obtain x i m p where l: "dget s link = Some x" "d_inode x = Some i" "iget s i = Some m" "i_type m = FILE_TYPE_SYMLINK"
        "readlink_op fo (i_ops m) = Some tmpfs_i_readlink" "tmpfs_i_readlink s link path_max = Some (take path_max t)"
        "d_parent x = Some p" "parent_of s link = p"
      by (rule readlink_ok [OF t])
    let ?t = "take path_max t"
    show ?thesis
    proof (cases "?t = [] \<or> length ?t = path_max")
      case True
      then show ?thesis
        using out t l by (auto simp: Let_def intro!: exI [of _ "v_next s"])
    next
      case False
      obtain y where y: "dget s p = Some y"
        using vfs_ok_parent [OF ok l(1,7)] by blast
      obtain w where w: "walk_path (link_place n path_max r) s r p ?t = Some w"
        using out t False l(8) by (auto simp: Let_def Option.bind_eq_Some_conv)
      obtain s' where s': "dentry_lookup_parent fo (follow_symlink n fo path_max) s p r ?t = Some (s', w)" "parked s r w s'"
        using lookup_parent_ok [OF Suc ok y w] by blast
      show ?thesis
      proof (cases w)
        case (Inl e)
        then show ?thesis
          using out t l w s' False vfs_ok_root [OF ok] by (auto simp: Let_def)
      next
        case (Inr q)
        then obtain cur leaf where q: "w = Inr (cur, Some leaf)" "last_place (link_place n path_max r) s cur leaf flags = Some out"
          using out t l(8) w False by (cases q) (auto simp: Let_def split: option.splits)
        obtain ds where ds: "chain s r cur ds" "s' = bump s (cnt ds)"
          using s'(2) q(1) by auto
        then show ?thesis
          using finish_ok [OF Suc ok ds(1) q(2) nc, of fo] s'(1) q(1) l False vfs_ok_root [OF ok] by (simp add: finish_def Let_def)
      qed
    qed
  qed
  then show ?case
    by (simp add: follows_ok_def del: link_place.simps follow_symlink.simps)
qed

lemma dentry_get_ok:
  assumes "vfs_ok s r" "dget s base = Some x" "path_place n path_max s r base path flags = Some out" "\<not> clash out"
  shows "\<exists>res. dentry_get n fo path_max s base (Some r) path flags = Some res \<and> placed s r out res"
proof -
  obtain w where w: "walk_path (link_place n path_max r) s r base path = Some w"
    using assms(3) by (auto simp: path_place_def Option.bind_eq_Some_conv)
  obtain s' where s': "dentry_lookup_parent fo (follow_symlink n fo path_max) s base r path = Some (s', w)" "parked s r w s'"
    using lookup_parent_ok [OF link_ok assms(1,2) w] by blast
  consider e where "w = Inl e" | cur where "w = Inr (cur, None)" | cur leaf where "w = Inr (cur, Some leaf)"
    by (cases w) (auto, metis option.exhaust)
  then show ?thesis
  proof cases
    case 1
    then show ?thesis
      using assms(3) w s' by (auto simp: dentry_get_def path_place_def)
  next
    case 2
    then obtain ds where ds: "chain s r cur ds" "s' = bump s (cnt ds)"
      using s'(2) by auto
    then show ?thesis
      using assms(3) w s'(1) 2 unref_ok [OF assms(1) ds(1)]
      by (auto simp: dentry_get_def path_place_def split: if_splits intro!: exI [of _ "v_next s"])
  next
    case 3
    then obtain ds where ds: "chain s r cur ds" "s' = bump s (cnt ds)"
      using s'(2) by auto
    then show ?thesis
      using finish_ok [OF link_ok assms(1) ds(1), of n path_max leaf flags out fo] assms(3,4) w s'(1) 3
      by (simp add: dentry_get_def path_place_def finish_def)
  qed
qed

lemma dentry_get_clash:
  assumes "vfs_ok s r" "dget s base = Some x" "path_place n path_max s r base path flags = Some (Inr (Clash p))"
  shows "dentry_get n fo path_max s base (Some r) path flags = map_option (\<lambda>t. (t, Inl EEXIST)) (dentry_unref s (Some p))"
proof -
  obtain leaf c where w: "walk_path (link_place n path_max r) s r base path = Some (Inr (p, Some leaf))"
    and c: "leaf_plain leaf flags" "child_of s p (leaf_name leaf) = Some c" "has_flag flags RESOLVE_EXPECT_NONEXIST"
      "\<not> has_flag flags RESOLVE_EXPECT_EXIST"
    by (rule path_clash [OF assms(3)])
  obtain s' where s': "dentry_lookup_parent fo (follow_symlink n fo path_max) s base r path = Some (s', Inr (p, Some leaf))"
      "parked s r (Inr (p, Some leaf)) s'"
    using lookup_parent_ok [OF link_ok assms(1,2) w] by blast
  then obtain ds where ds: "chain s r p ds" "s' = bump s (cnt ds)"
    by auto
  then show ?thesis
    using finish_clash [OF assms(1) ds(1) c, of fo "follow_symlink n fo path_max"] s'(1) by (simp add: dentry_get_def finish_def)
qed

section \<open>The path of an entry\<close>

text \<open>The loop that collects the names on the way to the root ends there, so \<^verbatim>\<open>dentry_path\<close> returns for every entry.\<close>

lemma path_loop_returns: "chain s r d ds \<Longrightarrow> \<exists>path. path_loop s (Some d) r acc = Some path"
proof (induction arbitrary: acc rule: chain.induct)
  case (chain_root x)
  then show ?case
    by (subst path_loop.simps) simp
next
  case (chain_named d x nm p ds)
  then show ?case
    by (subst path_loop.simps) simp
next
  case (chain_mounted d x p m y nm ds)
  then show ?case
    by (subst path_loop.simps) simp
qed

lemma dentry_path_returns:
  assumes "vfs_ok s r" "dget s d = Some x"
  shows "\<exists>n buf. dentry_path s (Some d) r sz = Some (n, buf)"
proof (cases "d = r")
  case False
  obtain ds where "chain s r d ds"
    by (rule vfs_ok_chain [OF assms])
  then show ?thesis
  proof (cases rule: chain.cases)
    case (chain_named y nm p rest)
    then show ?thesis
      using False path_loop_returns [OF chain_named(6), of nm] by (auto simp: dentry_path_def)
  next
    case (chain_mounted y p m z nm rest)
    then show ?thesis
      using False path_loop_returns [OF chain_mounted(11), of nm] by (auto simp: dentry_path_def)
  qed (use False in simp)
qed (simp add: dentry_path_def)

end
