(* ===== verification/VfsTree.thy ===== *)
theory VfsTree
  imports Vfs DentryWalk
begin

text \<open>
  The system calls on the tree of entries: making a directory adds one entry and keeps the tree in order, and the new directory is
  found under the path that it was made with.\<close>

section \<open>New nodes\<close>

text \<open>The inode that tmpfs makes, and the state after it has been attached to an entry.\<close>

definition tmpfs_node :: "nat \<Rightarrow> u64 \<Rightarrow> file_type \<Rightarrow> u16 \<Rightarrow> inode" where
  "tmpfs_node sb ino type perm = (inode_init sb ino type)\<lparr>i_perm := perm,
     i_ops := (case type of FILE_TYPE_DIRECTORY \<Rightarrow> Tmpfs_Dir_Ops | FILE_TYPE_SYMLINK \<Rightarrow> Tmpfs_Symlink_Ops | _ \<Rightarrow> No_Ops),
     i_file_ops := (if type = FILE_TYPE_REGULAR then Tmpfs_File_Ops else No_File_Ops)\<rparr>"

definition attach :: "vfs \<Rightarrow> dptr \<Rightarrow> inode \<Rightarrow> vfs" where
  "attach s d n = s\<lparr>v_next := v_next s + 1, v_tmpfs_inode_count := i_ino n, v_inodes := (v_inodes s)(v_next s \<mapsto> n),
     v_dentries := (\<lambda>e. if e = d then map_option (\<lambda>x. x\<lparr>d_inode := Some (v_next s)\<rparr>) (v_dentries s d) else v_dentries s e)\<rparr>"

definition grown :: "vfs \<Rightarrow> dptr \<Rightarrow> name \<Rightarrow> inode \<Rightarrow> vfs" where
  "grown s p nm n = attach (add_entry s p nm) (v_next s) n"

lemma dget_attach: "dget (attach s d n) e = (if e = d then map_option (\<lambda>x. x\<lparr>d_inode := Some (v_next s)\<rparr>) (dget s d) else dget s e)"
  by (simp add: dget_def attach_def)

lemma attach_fields [simp]: "v_root (attach s d n) = v_root s" "v_mounts (attach s d n) = v_mounts s" "v_next (attach s d n) = v_next s + 1"
  "v_supers (attach s d n) = v_supers s" "iget (attach s d n) i = (if i = v_next s then Some n else iget s i)"
  by (simp_all add: attach_def iget_def)

lemma same_tree_attach: "same_tree s (attach s d n)"
proof -
  have "map_option (\<lambda>x. (d_parent x, d_children x, d_name x, d_is_mountpoint x)) (dget s e) =
      map_option (\<lambda>x. (d_parent x, d_children x, d_name x, d_is_mountpoint x)) (dget (attach s d n) e)" for e
    by (cases "dget s e"; cases "e = d") (simp_all add: dget_attach)
  then show ?thesis
    by (simp add: same_tree_def)
qed

lemma sum_refcounts_attach [simp]: "sum_refcounts (attach s d n) cs = sum_refcounts s cs"
proof (induction cs)
  case (Cons c cs)
  then show ?case
    by (cases "dget s c") (auto simp: dget_attach)
qed simp

lemma attach_bump: "attach (bump s f) d n = bump (attach s d n) f"
  by (intro vfs.equality; cases "v_dentries s d") (auto simp: attach_def bump_def fun_eq_iff)

lemma tmpfs_mknod_attach:
  assumes "iget s i = Some m" "dget s d = Some x" "type \<in> {FILE_TYPE_DIRECTORY, FILE_TYPE_SYMLINK, FILE_TYPE_REGULAR}"
  shows "tmpfs_mknod_impl s i d type perm = Some (attach s d (tmpfs_node (i_super m) (v_tmpfs_inode_count s + 1) type perm), True)"
proof -
  let ?n = "tmpfs_node (i_super m) (v_tmpfs_inode_count s + 1) type perm"
  have c: "tmpfs_create_inode s (i_super m) type perm =
      Some (iset (s\<lparr>v_next := v_next s + 1, v_tmpfs_inode_count := v_tmpfs_inode_count s + 1\<rparr>) (v_next s) ?n, v_next s)"
    using assms(3) by (auto simp: tmpfs_create_inode_def tmpfs_node_def inode_init_def Let_def)
  have "i_ino ?n = v_tmpfs_inode_count s + 1"
    by (simp add: tmpfs_node_def inode_init_def)
  then have "dset (iset (s\<lparr>v_next := v_next s + 1, v_tmpfs_inode_count := v_tmpfs_inode_count s + 1\<rparr>) (v_next s) ?n) d (x\<lparr>d_inode := Some (v_next s)\<rparr>) =
      attach s d ?n"
    using assms(2) by (intro vfs.equality) (auto simp: attach_def dset_def iset_def dget_def fun_eq_iff)
  then show ?thesis
    using assms(1,2) c by (simp add: tmpfs_mknod_impl_def dget_def iset_def)
qed

text \<open>The tree stays in order.\<close>

lemma grown_old:
  assumes "vfs_ok s r" "dget s e = Some x"
  shows "dget (grown s p nm n) e = Some (if e = p then x\<lparr>d_children := d_children x @ [v_next s]\<rparr> else x)"
proof -
  have "e \<noteq> v_next s"
    using assms(2) vfs_ok_fresh [OF assms(1)] by auto
  then show ?thesis
    using assms(2) by (auto simp: grown_def dget_attach dget_add_entry)
qed

lemma grown_new:
  assumes "dget s p = Some y"
  shows "dget (grown s p nm n) (v_next s) = Some \<lparr>d_parent = Some p, d_children = [], d_refcount = 0, d_inode = Some (v_next s + 1),
    d_name = Some nm, d_super = d_super y, d_is_mountpoint = False\<rparr>"
  using assms by (simp add: grown_def dget_attach dget_add_entry)

lemma grown_only:
  assumes "dget (grown s p nm n) e = Some x" "e \<noteq> v_next s"
  obtains y where "dget s e = Some y"
  using assms by (auto simp: grown_def dget_attach dget_add_entry split: if_splits)

lemma grown_chain: "vfs_ok s r \<Longrightarrow> chain s r p ds \<Longrightarrow> chain s r e es \<Longrightarrow> chain (grown s p nm n) r e es"
  using chain_add_entry chain_in_dom same_tree_chain [OF same_tree_attach] by (metis grown_def)

lemma grown_new_chain: "vfs_ok s r \<Longrightarrow> chain s r p ds \<Longrightarrow> chain (grown s p nm n) r (v_next s) (v_next s # ds)"
  using missing_chain same_tree_chain [OF same_tree_attach] by (metis grown_def)

lemma grown_good:
  assumes "vfs_ok s r" "dget s p = Some z" "dget s e = Some x"
  shows "good (grown s p nm n) e"
proof -
  have "good (add_entry s p nm) e"
    by (rule good_add_entry [OF assms(1,3,2)])
  moreover have "e \<noteq> v_next s"
    using assms(3) vfs_ok_fresh [OF assms(1)] by auto
  ultimately show ?thesis
    by (fastforce simp: good_def grown_def dentry_check_refstat_def dget_attach)
qed

lemma grown_name:
  assumes "dget s p = Some z"
  shows "name_of (grown s p nm n) e = (if e = v_next s then Some nm else name_of s e)"
  using assms by (auto simp: name_of_def grown_def dget_attach dget_add_entry)

lemma find_snoc: "List.find P (xs @ [x]) = (case List.find P xs of Some y \<Rightarrow> Some y | None \<Rightarrow> if P x then Some x else None)"
  by (induction xs) auto

lemma grown_child:
  assumes "vfs_ok s r" "dget s p = Some z" "dget s d = Some x" "child_of s p nm = None"
  shows "child_of (grown s p nm n) d m = (if d = p \<and> m = nm then Some (v_next s) else child_of s d m)"
proof -
  have "c \<noteq> v_next s" if "c \<in> set (d_children x)" for c
    using that children_named [OF assms(1,3)] vfs_ok_fresh [OF assms(1)] by fastforce
  then have "List.find (\<lambda>c. name_of (grown s p nm n) c = Some m) (d_children x) = List.find (\<lambda>c. name_of s c = Some m) (d_children x)"
    by (intro find_cong) (simp_all add: grown_name [OF assms(2)])
  then show ?thesis
    using assms(3,4) grown_old [OF assms(1,3), of p nm n]
    by (auto simp: child_of_def grown_name [OF assms(2)] find_snoc split: option.splits)
qed

lemma grown_enter:
  assumes "vfs_ok s r" "dget s d = Some x"
  shows "mounted_root (grown s p nm n) d = mounted_root s d" "enter (grown s p nm n) d = enter s d" "parent_of (grown s p nm n) d = parent_of s d"
proof -
  have "d \<noteq> v_next s"
    using assms(2) vfs_ok_fresh [OF assms(1)] by auto
  then show "mounted_root (grown s p nm n) d = mounted_root s d"
    by (simp add: grown_def same_tree_mounts [OF same_tree_attach] mounted_root_add_entry)
  then show "enter (grown s p nm n) d = enter s d"
    by (simp add: enter_def)
  show "parent_of (grown s p nm n) d = parent_of s d"
    using assms(2) grown_old [OF assms, of p nm n] by (simp add: parent_of_def)
qed

lemma grown_inode:
  assumes "vfs_ok s r" "dget s d = Some x"
  shows "dentry_type (grown s p nm n) d = dentry_type s d" "link_of (grown s p nm n) d = link_of s d"
proof -
  obtain i m where i: "d_inode x = Some i" "iget s i = Some m" "i < v_next s"
    using vfs_okD [OF assms] by (auto simp: dentry_ok_def)
  then have "iget (grown s p nm n) i = Some m"
    by (simp add: grown_def)
  then show "dentry_type (grown s p nm n) d = dentry_type s d" "link_of (grown s p nm n) d = link_of s d"
    using i assms(2) grown_old [OF assms, of p nm n] by (auto simp: dentry_type_def link_of_def)
qed

lemma mount_ok_grown:
  assumes "vfs_ok s r" "dget s p = Some z" "dget s d = Some x" "d_is_mountpoint x" "d = p \<longrightarrow> d = r"
  shows "mount_ok (grown s p nm n) r d (if d = p then x\<lparr>d_children := d_children x @ [v_next s]\<rparr> else x)"
proof -
  have ok: "mount_ok s r d x"
    using vfs_okD [OF assms(1,3)] assms(4) by (simp add: dentry_ok_def)
  show ?thesis
  proof (cases "d = r")
    case True
    then show ?thesis
      using ok grown_enter(1) [OF assms(1,3)] by (simp add: mount_ok_def)
  next
    case False
    then obtain m y where m: "mounted_root s d = Some m" "m \<noteq> r" "dget s m = Some y" "d_name y = None" "d_parent y = d_parent x"
        "dentry_root_get_mountpoint s m = Some (Some d)" "d_name x \<noteq> None" "d_children x = []"
      using ok by (auto simp: mount_ok_def)
    have "dentry_root_get_mountpoint (grown s p nm n) m = Some (Some d)"
      using mountpoint_add_entry [OF assms(1) m(6) assms(2)] by (simp add: grown_def same_tree_mountpoint [OF same_tree_attach])
    then show ?thesis
      using False assms(5) m grown_enter(1) [OF assms(1,3), of p nm n] grown_old [OF assms(1) m(3), of p nm n] by (auto simp: mount_ok_def)
  qed
qed

lemma grown_next: "v_next (grown s p nm n) = v_next s + 2" "v_root (grown s p nm n) = v_root s"
  by (simp_all add: grown_def)

lemma grown_names_inj:
  assumes "vfs_ok s r" "dget s p = Some z" "child_of s p nm = None" "dget s e = Some x"
  shows "inj_on (name_of (grown s p nm n)) (set (d_children (if e = p then x\<lparr>d_children := d_children x @ [v_next s]\<rparr> else x)))"
proof -
  have kids: "v_next s \<notin> set (d_children x)"
    using children_named [OF assms(1,4)] vfs_ok_fresh [OF assms(1)] by fastforce
  have "e = p \<Longrightarrow> Some nm \<notin> name_of s ` set (d_children x)"
    using assms(3,4) by (auto simp: child_of_def find_None_iff)
  moreover have same: "name_of (grown s p nm n) c = name_of s c" if "c \<in> set (d_children x)" for c
    using that kids grown_name [OF assms(2), of nm n c] by auto
  have "inj_on (name_of s) (set (d_children x))"
    using vfs_okD [OF assms(1,4)] by (simp add: dentry_ok_def)
  then have "inj_on (name_of (grown s p nm n)) (set (d_children x))"
    by (subst inj_on_cong [of _ _ "name_of s"]) (auto simp: same)
  moreover have "name_of (grown s p nm n) ` set (d_children x) = name_of s ` set (d_children x)"
    by (intro image_cong) (simp_all add: same)
  ultimately show ?thesis
    using kids by (auto simp: inj_on_insert grown_name [OF assms(2)])
qed

lemma grown_parent:
  assumes "vfs_ok s r" "dget s e = Some x" "d_name x \<noteq> None"
  shows "\<exists>q y. d_parent x = Some q \<and> dget (grown s p nm n) q = Some y \<and> e \<in> set (d_children y)"
proof -
  obtain q y where "d_parent x = Some q" "dget s q = Some y" "e \<in> set (d_children y)"
    using vfs_okD [OF assms(1,2)] assms(3) by (auto simp: dentry_ok_def)
  then show ?thesis
    using grown_old [OF assms(1), of q y p nm n] by auto
qed

lemma dentry_ok_grown:
  assumes "vfs_ok s r" "dget s p = Some z" "child_of s p nm = None" "d_is_mountpoint z \<longrightarrow> p = r" "dget s e = Some x"
  shows "dentry_ok (grown s p nm n) r e (if e = p then x\<lparr>d_children := d_children x @ [v_next s]\<rparr> else x)"
proof -
  let ?t = "grown s p nm n"
  obtain ds where ds: "chain s r p ds"
    by (rule vfs_ok_chain [OF assms(1,2)])
  have ok: "dentry_ok s r e x"
    by (rule vfs_okD [OF assms(1,5)])
  obtain i m where "d_inode x = Some i" "iget s i = Some m" "i < v_next s" "\<forall>k. i_ops m \<noteq> Foreign_Ops k"
    using ok by (auto simp: dentry_ok_def)
  moreover from this have "iget ?t i = Some m" "i < v_next ?t"
    by (simp_all add: grown_def)
  moreover obtain es where "chain s r e es"
    by (rule vfs_ok_chain [OF assms(1,5)])
  moreover from this have "chain ?t r e es"
    by (rule grown_chain [OF assms(1) ds])
  moreover have "e < v_next ?t" "good ?t e"
    using ok grown_next grown_good [OF assms(1,2,5)] by (auto simp: dentry_ok_def)
  moreover have "d_is_mountpoint x \<longrightarrow> mount_ok ?t r e (if e = p then x\<lparr>d_children := d_children x @ [v_next s]\<rparr> else x)"
    using mount_ok_grown [OF assms(1,2,5)] assms(2,4,5) by auto
  ultimately show ?thesis
    using grown_names_inj [OF assms(1-3,5)] grown_parent [OF assms(1,5)] by (auto simp: dentry_ok_def)
qed

lemma vfs_ok_grown:
  assumes "vfs_ok s r" "dget s p = Some z" "child_of s p nm = None" "d_is_mountpoint z \<longrightarrow> p = r" "\<forall>m. i_ops n \<noteq> Foreign_Ops m"
  shows "vfs_ok (grown s p nm n) r"
proof -
  let ?t = "grown s p nm n"
  obtain ds where ds: "chain s r p ds"
    by (rule vfs_ok_chain [OF assms(1,2)])
  have r: "v_root s = Some r" "r \<noteq> v_next s"
    using assms(1) vfs_ok_fresh [OF assms(1)] by (auto simp: vfs_ok_def)
  have new: "dentry_ok ?t r (v_next s) x" if "dget ?t (v_next s) = Some x" for x
    using that grown_new [OF assms(2), of nm n] grown_new_chain [OF assms(1) ds, of nm n] assms(5) grown_old [OF assms(1,2), of p nm n] r
    by (auto simp: dentry_ok_def good_def dentry_check_refstat_def grown_def)
  have "dentry_ok ?t r e x" if e: "dget ?t e = Some x" for e x
  proof (cases "e = v_next s")
    case False
    then obtain y where y: "dget s e = Some y"
      by (rule grown_only [OF e])
    then show ?thesis
      using e grown_old [OF assms(1) y, of p nm n] dentry_ok_grown [OF assms(1-4) y, of n] by simp
  qed (use new e in simp)
  moreover have "dget ?t r \<noteq> None"
    using assms(1) grown_old [OF assms(1)] by (auto simp: vfs_ok_def)
  ultimately show ?thesis
    using r(1) by (simp add: vfs_ok_def grown_next)
qed

text \<open>Paths that named an entry still do.\<close>

lemma child_in_dom:
  assumes "vfs_ok s r" "dget s d = Some x" "child_of s d nm = Some c"
  shows "\<exists>y. dget s c = Some y"
proof -
  obtain ds where "chain s r d ds"
    by (rule vfs_ok_chain [OF assms(1,2)])
  then show ?thesis
    using child_step [OF assms(1) _ assms(3)] by blast
qed

lemma enter_in_dom:
  assumes "vfs_ok s r" "dget s d = Some x"
  shows "\<exists>y. dget s (enter s d) = Some y"
  using enter_ok [OF assms] chain_in_dom by blast

lemma parent_in_dom:
  assumes "vfs_ok s r" "dget s d = Some x"
  shows "\<exists>y. dget s (parent_of s d) = Some y"
proof (cases "d_parent x")
  case (Some p)
  then show ?thesis
    using vfs_ok_parent [OF assms Some] assms(2) by (auto simp: parent_of_def)
qed (use assms in \<open>simp add: parent_of_def\<close>)

definition still_found :: "vfs \<Rightarrow> vfs \<Rightarrow> follows \<Rightarrow> bool" where
  "still_found s t f \<longleftrightarrow> (\<forall>link flags d. dget s link \<noteq> None \<longrightarrow> f s link flags = Some (Inr (Found d)) \<longrightarrow>
     f t link flags = Some (Inr (Found d)) \<and> dget s d \<noteq> None)"

lemma walk_grown:
  assumes "vfs_ok s r" "dget s p = Some z" "child_of s p nm = None" "still_found s (grown s p nm n) f"
    "dget s cur \<noteq> None" "walk f slash s cur segs = Some (Inr (q, leaf))"
  shows "walk f slash (grown s p nm n) cur segs = Some (Inr (q, leaf)) \<and> dget s q \<noteq> None"
  using assms
proof (induction f slash s cur segs rule: walk.induct)
  case (1 f slash s cur)
  then show ?case
    by simp
next
  case (2 f slash s cur seg)
  obtain x where "dget s cur = Some x"
    using 2 by auto
  then show ?case
    using 2 grown_inode(1) [OF 2(1), of cur x p nm n]
    by (auto simp: Let_def still_found_def split: if_splits option.splits sum.splits place.splits)
next
  case more: (3 f slash s cur seg nxt segs)
  note ok = more.prems(1) and gc = grown_child [OF more.prems(1,2) _ more.prems(3)]
  obtain x where x: "dget s cur = Some x"
    using more.prems(5) by auto
  consider "is_dot seg" | "\<not> is_dot seg" "is_dotdot seg" | c where "\<not> is_dot seg" "\<not> is_dotdot seg" "child_of s cur seg = Some c"
    using more.prems(6) by (cases "child_of s cur seg") (auto split: if_splits)
  then show ?case
  proof cases
    case 1
    then show ?thesis
      using more.IH(1) [OF 1 more.prems(1-5)] more.prems(6) by simp
  next
    case 2
    then show ?thesis
      using more.IH(2) [OF 2 more.prems(1-4)] more.prems(6) grown_enter(3) [OF ok x] parent_in_dom [OF ok x] by simp
  next
    case (3 c)
    obtain y where y: "dget s c = Some y"
      using child_in_dom [OF ok x 3(3)] by blast
    have "child_of (grown s p nm n) cur seg = Some c"
      using gc [OF x, of n seg] more.prems(3) 3(3) by auto
    then show ?thesis
      using 3 more.IH(3) [OF 3 more.prems(1-4)] more.prems(6) grown_enter(2) [OF ok y] enter_in_dom [OF ok y] by simp
  qed
qed

lemma last_place_grown:
  assumes "vfs_ok s r" "dget s p = Some z" "child_of s p nm = None" "still_found s (grown s p nm n) f"
    "dget s cur = Some x" "last_place f s cur leaf flags = Some (Inr (Found d))"
  shows "last_place f (grown s p nm n) cur leaf flags = Some (Inr (Found d)) \<and> dget s d \<noteq> None"
proof (cases "leaf_plain leaf flags")
  case False
  then show ?thesis
    using assms(5,6) parent_in_dom [OF assms(1,5)] grown_enter(3) [OF assms(1,5)]
    by (auto simp: leaf_plain_def last_place_def split: if_splits)
next
  case True
  let ?nm = "leaf_name leaf"
  have here: "child_place f s cur ?nm flags = Some (Inr (Found d))"
    using assms(6) last_place_plain [OF True] by simp
  then obtain c where c: "child_of s cur ?nm = Some c"
    by (auto simp: child_place_def split: option.splits if_splits)
  then obtain y where y: "dget s c = Some y"
    using child_in_dom [OF assms(1,5)] by blast
  have "child_of (grown s p nm n) cur ?nm = Some c"
    using grown_child [OF assms(1,2,5,3), of n ?nm] c assms(3) by auto
  then have "child_place f (grown s p nm n) cur ?nm flags = Some (Inr (Found d)) \<and> dget s d \<noteq> None"
    using here c y grown_inode(1) [OF assms(1) y, of p nm n] grown_enter(2) [OF assms(1) y, of p nm n] enter_in_dom [OF assms(1) y] assms(4)
    by (auto simp: child_place_def still_found_def split: if_splits)
  then show ?thesis
    using last_place_plain [OF True] by simp
qed

lemma walk_path_grown:
  assumes "vfs_ok s r" "dget s p = Some z" "child_of s p nm = None" "still_found s (grown s p nm n) f"
    "dget s base = Some x" "walk_path f s r base path = Some (Inr (q, leaf))"
  shows "walk_path f (grown s p nm n) r base path = Some (Inr (q, leaf)) \<and> dget s q \<noteq> None"
proof -
  let ?b = "if path_is_absolute path then r else base"
  obtain y where y: "dget s ?b = Some y"
    using assms(1,5) by (cases "path_is_absolute path") (auto simp: vfs_ok_def)
  show ?thesis
    using walk_grown [OF assms(1-4)] assms(6) enter_in_dom [OF assms(1) y] grown_enter(2) [OF assms(1) y] by (simp add: walk_path_def)
qed

lemma link_place_grown:
  assumes "vfs_ok s r" "dget s p = Some z" "child_of s p nm = None"
  shows "still_found s (grown s p nm n) (link_place k path_max r)"
proof (induction k)
  case 0
  then show ?case
    by (simp add: still_found_def)
next
  case (Suc k)
  have "link_place (Suc k) path_max r (grown s p nm n) link flags = Some (Inr (Found d)) \<and> dget s d \<noteq> None"
    if l: "dget s link = Some x" "link_place (Suc k) path_max r s link flags = Some (Inr (Found d))" for link flags d x
  proof -
    obtain t where t: "link_of s link = Some t" "take path_max t \<noteq> []" "length (take path_max t) \<noteq> path_max"
      using l(2) by (auto simp: Option.bind_eq_Some_conv Let_def split: if_splits)
    obtain y where y: "dget s (parent_of s link) = Some y"
      using parent_in_dom [OF assms(1) l(1)] by blast
    obtain q leaf where q: "walk_path (link_place k path_max r) s r (parent_of s link) (take path_max t) = Some (Inr (q, Some leaf))"
        "last_place (link_place k path_max r) s q leaf flags = Some (Inr (Found d))"
      using l(2) t by (auto simp: Let_def simp del: length_take elim!: walked_cases)
    note w = walk_path_grown [OF assms Suc y q(1)]
    then obtain qx where "dget s q = Some qx"
      by blast
    then show ?thesis
      using last_place_grown [OF assms Suc _ q(2)] t w grown_inode(2) [OF assms(1) l(1)] grown_enter(3) [OF assms(1) l(1)]
      by (simp add: Let_def)
  qed
  then show ?case
    by (auto simp: still_found_def simp del: link_place.simps)
qed

text \<open>A path that named nothing names the new entry.\<close>

lemma missing_path:
  assumes "path_place k path_max s r base path RESOLVE_EXPECT_NONEXIST = Some (Inr (Missing p nm))"
  obtains leaf where "walk_path (link_place k path_max r) s r base path = Some (Inr (p, Some leaf))" "leaf_name leaf = nm" "\<not> leaf_slash leaf"
    "\<not> is_dot nm" "\<not> is_dotdot nm" "child_of s p nm = None"
proof -
  have flags: "has_flag RESOLVE_EXPECT_NONEXIST RESOLVE_EXPECT_NONEXIST" "\<not> has_flag RESOLVE_EXPECT_NONEXIST RESOLVE_EXPECT_DIR"
      "\<not> has_flag RESOLVE_EXPECT_NONEXIST RESOLVE_EXPECT_EXIST"
    by (simp_all add: has_flag_def RESOLVE_EXPECT_NONEXIST_def RESOLVE_EXPECT_DIR_def RESOLVE_EXPECT_EXIST_def)
  obtain q leaf where q: "walk_path (link_place k path_max r) s r base path = Some (Inr (q, Some leaf))"
      "last_place (link_place k path_max r) s q leaf RESOLVE_EXPECT_NONEXIST = Some (Inr (Missing p nm))"
    using assms by (auto simp: path_place_def elim!: walked_cases split: if_splits)
  then show ?thesis
    using that flags by (auto simp: last_place_def child_place_def split: if_splits option.splits)
qed

lemma new_path:
  assumes "vfs_ok s r" "dget s p = Some z" "dget s base = Some x"
    "path_place k path_max s r base path RESOLVE_EXPECT_NONEXIST = Some (Inr (Missing p nm))"
    "i_type n = FILE_TYPE_DIRECTORY" "has_flag flags RESOLVE_EXPECT_DIR" "\<not> has_flag flags RESOLVE_EXPECT_NONEXIST"
  shows "path_place k path_max (grown s p nm n) r base path flags = Some (Inr (Found (v_next s)))"
proof -
  let ?t = "grown s p nm n"
  obtain leaf where l: "walk_path (link_place k path_max r) s r base path = Some (Inr (p, Some leaf))" "leaf_name leaf = nm" "\<not> leaf_slash leaf"
      "\<not> is_dot nm" "\<not> is_dotdot nm" "child_of s p nm = None"
    by (rule missing_path [OF assms(4)])
  have "walk_path (link_place k path_max r) ?t r base path = Some (Inr (p, Some leaf))"
    using walk_path_grown [OF assms(1,2) l(6) link_place_grown [OF assms(1,2) l(6)] assms(3) l(1)] by blast
  moreover have "child_of ?t p nm = Some (v_next s)"
    using grown_child [OF assms(1,2,2) l(6)] by simp
  moreover have "dentry_type ?t (v_next s) = Some FILE_TYPE_DIRECTORY" "enter ?t (v_next s) = v_next s"
    using grown_new [OF assms(2), of nm n] assms(5) enter_plain [OF grown_new [OF assms(2), of nm n]] by (auto simp: dentry_type_def grown_def)
  ultimately show ?thesis
    using l assms(6,7) by (simp add: path_place_def last_place_def child_place_def)
qed

section \<open>System calls\<close>

lemma resolve_ok:
  assumes "vfs_ok (k_vfs k) r" "dget (k_vfs k) base = Some x" "path_place (n_stack env) (n_path_max env) (k_vfs k) r base path flags = Some out"
    "\<not> clash out"
  obtains s res where "resolve env k (Inr (Some base)) path flags = Some (k\<lparr>k_vfs := s\<rparr>, res)" "placed (k_vfs k) r out (s, res)"
  using dentry_get_ok [OF assms, of "n_foreign env"] vfs_ok_root [OF assms(1)] by (auto simp: resolve_def)

lemma mkdir_grown:
  assumes "vfs_ok (k_vfs k) r" "base_of k CWD path = Some (Inr (Some base))" "dget (k_vfs k) base = Some x"
    "path_place (n_stack env) (n_path_max env) (k_vfs k) r base path RESOLVE_EXPECT_NONEXIST = Some (Inr (Missing p nm))"
    "enter (k_vfs k) p = p" "dget (k_vfs k) p = Some y" "d_inode y = Some i" "iget (k_vfs k) i = Some n" "i_ops n = Tmpfs_Dir_Ops"
  defines "t \<equiv> grown (k_vfs k) p nm (tmpfs_node (i_super n) (v_tmpfs_inode_count (k_vfs k) + 1) FILE_TYPE_DIRECTORY (i_perm n))"
  shows "vfs_mkdir env k path = Some (k\<lparr>k_vfs := t\<rparr>, None) \<and> vfs_ok t r"
proof -
  let ?s = "k_vfs k" let ?a = "add_entry ?s p nm" let ?N = "v_next ?s"
  let ?n = "tmpfs_node (i_super n) (v_tmpfs_inode_count ?s + 1) FILE_TYPE_DIRECTORY (i_perm n)"
  have free: "child_of ?s p nm = None"
    by (rule missing_path [OF assms(4)])
  obtain s1 res where s1: "resolve env k (Inr (Some base)) path RESOLVE_EXPECT_NONEXIST = Some (k\<lparr>k_vfs := s1\<rparr>, res)"
      "placed ?s r (Inr (Missing p nm)) (s1, res)"
    by (rule resolve_ok [OF assms(1,3,4)]) (simp_all add: clash_def)
  then obtain ds where ds: "chain ?s r p ds" "s1 = bump ?a (cnt (?N # ds))" "res = Inr ?N"
    by (auto simp del: count_list.simps)
  have "p \<noteq> ?N"
    using assms(6) vfs_ok_fresh [OF assms(1)] by auto
  then obtain px nx where e: "dget s1 p = Some px" "d_inode px = Some i" "dget s1 ?N = Some nx" "d_parent nx = Some p" "iget s1 i = Some n"
      "v_tmpfs_inode_count s1 = v_tmpfs_inode_count ?s"
    using assms(6-8) ds(2) by (auto simp: dget_bump dget_add_entry)
  have mk: "tmpfs_i_mkdir s1 i ?N (i_perm n) = Some (bump t (cnt (?N # ds)), True)"
    using tmpfs_mknod_attach [OF e(5,3), of FILE_TYPE_DIRECTORY "i_perm n"] e(6) attach_bump [of ?a "cnt (?N # ds)" ?N ?n]
    by (simp add: tmpfs_i_mkdir_def ds(2) t_def grown_def del: count_list.simps)
  have "d_is_mountpoint y \<longrightarrow> p = r"
    using vfs_okD [OF assms(1,6)] assms(5,6) by (auto simp: dentry_ok_def mount_ok_def enter_def split: if_splits)
  moreover have "\<forall>m. i_ops ?n \<noteq> Foreign_Ops m"
    by (simp add: tmpfs_node_def)
  ultimately have ok: "vfs_ok t r"
    unfolding t_def by (intro vfs_ok_grown [OF assms(1,6) free])
  have "chain t r ?N (?N # ds)"
    unfolding t_def by (rule grown_new_chain [OF assms(1) ds(1)])
  then have "dentry_unref (bump t (cnt (?N # ds))) (Some ?N) = Some t"
    by (rule unref_ok [OF ok])
  then show ?thesis
    using s1(1) ds(3) e mk assms(2,9) ok by (simp add: vfs_mkdir_def mkdir_op_def unref_def del: count_list.simps)
qed

lemma fstatat_found:
  assumes "vfs_ok (k_vfs k) r" "base_of k fd path = Some (Inr (Some base))" "dget (k_vfs k) base = Some x" "\<not> has_flag flags FSTATAT_FILE"
    "path_place (n_stack env) (n_path_max env) (k_vfs k) r base path
       (or (or (or RESOLVE_EXPECT_FILE RESOLVE_EXPECT_DIR) RESOLVE_EXPECT_EXIST) (if has_flag flags FSTATAT_NOFOLLOW then RESOLVE_SYMLINK_NOFOLLOW else 0)) =
     Some (Inr (Found d))" "stat_dentry (k_vfs k) d = Some st"
  shows "vfs_fstatat env k fd path flags = Some (k, Inr st)"
proof -
  obtain s res where s: "resolve env k (Inr (Some base)) path (or (or (or RESOLVE_EXPECT_FILE RESOLVE_EXPECT_DIR) RESOLVE_EXPECT_EXIST)
        (if has_flag flags FSTATAT_NOFOLLOW then RESOLVE_SYMLINK_NOFOLLOW else 0)) = Some (k\<lparr>k_vfs := s\<rparr>, res)"
      "placed (k_vfs k) r (Inr (Found d)) (s, res)"
    by (rule resolve_ok [OF assms(1,3,5)]) (simp_all add: clash_def)
  then obtain ds where ds: "chain (k_vfs k) r d ds" "s = bump (k_vfs k) (cnt ds)" "res = Inr d"
    by auto
  have "stat_dentry s d = Some st"
    using assms(6) ds(2) by (cases "dget (k_vfs k) d") (simp_all add: stat_dentry_def dget_bump)
  then show ?thesis
    using s(1) ds unref_ok [OF assms(1) ds(1)] assms(2,4) by (simp add: vfs_fstatat_def unref_def)
qed

text \<open>
  A directory whose references are all accounted for by its children and its place in the mount tree, and which is not the root of
  a mounted file system other than that of the system.\<close>

definition own_refs :: "vfs \<Rightarrow> dptr \<Rightarrow> dentry \<Rightarrow> nat" where
  "own_refs s d x = (if v_root s \<noteq> Some d then (if d_is_mountpoint x then 1 else 0) + (if d_name x = None then 1 else 0) else 1)"

definition tight :: "vfs \<Rightarrow> dptr \<Rightarrow> bool" where
  "tight s d = (case dget s d of None \<Rightarrow> False | Some x \<Rightarrow> 0 < d_refcount x \<and> (v_root s = Some d \<or> d_name x \<noteq> None) \<and>
     (case sum_refcounts s (d_children x) of None \<Rightarrow> False | Some m \<Rightarrow> d_refcount x = own_refs s d x + m))"

lemma sum_refcounts_other: "d \<notin> set cs \<Longrightarrow> sum_refcounts (dset s d x) cs = sum_refcounts s cs"
  by (induction cs) (simp_all add: dget_def dset_def)

lemma unref_tight:
  assumes "tight s d" "\<And>x. dget s d = Some x \<Longrightarrow> d \<notin> set (d_children x)"
  shows "dentry_unref s (Some d) = None"
proof -
  obtain x m where x: "dget s d = Some x" "0 < d_refcount x" "v_root s = Some d \<or> d_name x \<noteq> None" "sum_refcounts s (d_children x) = Some m"
      "d_refcount x = own_refs s d x + m"
    using assms(1) by (auto simp: tight_def split: option.splits)
  let ?t = "dset s d (x\<lparr>d_refcount := d_refcount x - 1\<rparr>)"
  have one: "dentry_unref_one_norelease s (Some d) = Some (?t, True)"
    using x(1-3) by (auto simp: dentry_unref_one_norelease_def Let_def dset_def)
  have "dget ?t d = Some (x\<lparr>d_refcount := d_refcount x - 1\<rparr>)" "v_root ?t = v_root s"
    by (simp_all add: dget_def dset_def)
  moreover have "sum_refcounts ?t (d_children x) = Some m"
    using x(4) assms(2) [OF x(1)] by (simp add: sum_refcounts_other)
  ultimately have "dentry_check_refstat ?t d = None"
    using x(2,5) by (auto simp: dentry_check_refstat_def own_refs_def Let_def mos_assert_def split: if_splits)
  then show ?thesis
    using one by (subst dentry_unref.simps) simp
qed

text \<open>The file system after tmpfs was mounted on the root.\<close>

definition root_inode :: inode where
  "root_inode = (inode_init 0 1 FILE_TYPE_DIRECTORY)\<lparr>i_perm := tmpfs_default_mode, i_ops := Tmpfs_Dir_Ops\<rparr>"

definition root_vfs :: vfs where
  "root_vfs = \<lparr>v_dentries = [1 \<mapsto> \<lparr>d_parent = None, d_children = [], d_refcount = 1, d_inode = Some 2, d_name = None, d_super = 0,
       d_is_mountpoint = True\<rparr>],
     v_inodes = [2 \<mapsto> root_inode], v_mounts = [1 \<mapsto> \<lparr>m_root = 1, m_mountpoint = 1, m_super = 0, m_fs = 0\<rparr>], v_root = Some 1,
     v_supers = [0 \<mapsto> 0], v_tmpfs_inode_count = 1, v_next = 3\<rparr>"

definition no_vfs :: vfs where
  "no_vfs = \<lparr>v_dentries = Map.empty, v_inodes = Map.empty, v_mounts = Map.empty, v_root = None, v_supers = Map.empty, v_tmpfs_inode_count = 0,
     v_next = 0\<rparr>"

lemma mount_root:
  assumes "k_vfs k = no_vfs" "vfs_find_filesystem k fs = Some 0"
  shows "vfs_mount env k [110, 111, 110, 101] [PATH_DELIM] fs None = Some (k\<lparr>k_vfs := root_vfs\<rparr>, None)"
  using assms by (simp add: vfs_mount_def no_vfs_def root_vfs_def root_inode_def fs_mount_def tmpfs_fsop_mount_def Let_def dentry_create_def dset_def dget_def
    tmpfs_create_inode_def iset_def iget_def inode_init_def dentry_mount_def dentry_ref_def
    numeral_2_eq_2 numeral_3_eq_3)

lemma root_vfs_dget: "dget root_vfs d = Some x \<longleftrightarrow> d = 1 \<and> x = \<lparr>d_parent = None, d_children = [], d_refcount = 1, d_inode = Some 2,
    d_name = None, d_super = 0, d_is_mountpoint = True\<rparr>"
  by (auto simp: root_vfs_def dget_def)

lemma root_vfs_ok: "vfs_ok root_vfs 1"
proof -
  have r: "v_root root_vfs = Some 1" "iget root_vfs 2 = Some root_inode" "v_next root_vfs = 3" "mounted_root root_vfs 1 = Some 1"
    by (simp_all add: root_vfs_def iget_def mounted_root_def dentry_get_mount_def dget_def)
  have "chain root_vfs 1 1 [1]"
    by (rule chain_root [OF root_vfs_dget [THEN iffD2, OF conjI, OF refl refl]]) simp_all
  moreover have "good root_vfs 1"
    using r(1) by (simp add: good_def root_vfs_dget dentry_check_refstat_def) (simp add: root_vfs_def dget_def)
  moreover have "i_ops root_inode \<noteq> Foreign_Ops m" for m
    by (simp add: root_inode_def)
  ultimately show ?thesis
    using r by (auto simp: vfs_ok_def dentry_ok_def root_vfs_dget mount_ok_def)
qed

definition plain_env :: env where
  "plain_env = \<lparr>n_stack = 4, n_path_max = 16, n_foreign = \<lparr>fo_lookup = Map.empty, fo_readlink = Map.empty, fo_newfile = Map.empty,
     fo_symlink = Map.empty, fo_mkdir = Map.empty, fo_rmdir = Map.empty\<rparr>, n_open = (\<lambda>_ _ _ _. True), n_mount = (\<lambda>_ s _ _. Some (s, None)),
     n_unmount = Map.empty, n_iterate = Map.empty\<rparr>"

definition root_kfs :: kfs where
  "root_kfs = \<lparr>k_vfs = root_vfs, k_files = Map.empty, k_cwd = None, k_fs_list = []\<rparr>"

lemma root_place: "path_place 4 16 root_vfs 1 1 [47, 97] RESOLVE_EXPECT_NONEXIST = Some (Inr (Missing 1 [97]))"
  by code_simp

section \<open>Properties\<close>



text \<open>
  C8: \<^verbatim>\<open>vfs_mkdir\<close> makes a directory.  If the tree is in order and the path names something that is missing in a directory of
  tmpfs that no mount hides, the call succeeds, the tree is in order afterwards with every reference dropped, only the directory has
  got one more entry and all other entries are as before, and \<^verbatim>\<open>vfs_fstatat\<close> then finds an empty directory with the permissions of
  its parent under the same path, and changes nothing.\<close>

theorem vfs_mkdir_correct:
  assumes "vfs_ok (k_vfs k) r" "base_of k CWD path = Some (Inr (Some base))" "dget (k_vfs k) base = Some x"
    "path_place (n_stack env) (n_path_max env) (k_vfs k) r base path RESOLVE_EXPECT_NONEXIST = Some (Inr (Missing p nm))"
    "enter (k_vfs k) p = p" "dget (k_vfs k) p = Some y" "d_inode y = Some i" "iget (k_vfs k) i = Some n" "i_ops n = Tmpfs_Dir_Ops"
  shows "\<exists>t d st. vfs_mkdir env k path = Some (k\<lparr>k_vfs := t\<rparr>, None) \<and> vfs_ok t r \<and> d = v_next (k_vfs k) \<and>
    dget t p = Some (y\<lparr>d_children := d_children y @ [d]\<rparr>) \<and> (\<forall>e. e \<noteq> p \<longrightarrow> e \<noteq> d \<longrightarrow> dget t e = dget (k_vfs k) e) \<and>
    child_of t p nm = Some d \<and> st_type st = FILE_TYPE_DIRECTORY \<and> st_perm st = i_perm n \<and> st_nlinks st = 1 \<and>
    vfs_fstatat env (k\<lparr>k_vfs := t\<rparr>) CWD path 0 = Some (k\<lparr>k_vfs := t\<rparr>, Inr st)"
proof -
  let ?s = "k_vfs k" let ?n = "tmpfs_node (i_super n) (v_tmpfs_inode_count ?s + 1) FILE_TYPE_DIRECTORY (i_perm n)"
  let ?t = "grown ?s p nm ?n" let ?fl = "or (or RESOLVE_EXPECT_FILE RESOLVE_EXPECT_DIR) RESOLVE_EXPECT_EXIST"
  have mk: "vfs_mkdir env k path = Some (k\<lparr>k_vfs := ?t\<rparr>, None)" "vfs_ok ?t r"
    using mkdir_grown [OF assms] by auto
  have free: "child_of ?s p nm = None"
    by (rule missing_path [OF assms(4)])
  have ty: "i_type ?n = FILE_TYPE_DIRECTORY"
    by (simp add: tmpfs_node_def inode_init_def)
  have place: "path_place (n_stack env) (n_path_max env) ?t r base path ?fl = Some (Inr (Found (v_next ?s)))"
    by (rule new_path [OF assms(1,6,3,4) ty])
      (simp_all add: has_flag_def RESOLVE_EXPECT_FILE_def RESOLVE_EXPECT_DIR_def RESOLVE_EXPECT_EXIST_def RESOLVE_EXPECT_NONEXIST_def)
  have base: "base_of (k\<lparr>k_vfs := ?t\<rparr>) CWD path = Some (Inr (Some base))"
    using assms(2) by (auto simp: base_of_def dentry_from_fd_def grown_next split: if_splits option.splits)
  have stat: "stat_dentry ?t (v_next ?s) = Some (vfs_copy_stat ?n)"
    using grown_new [OF assms(6), of nm ?n] by (simp add: stat_dentry_def grown_def)
  obtain bx where bx: "dget ?t base = Some bx"
    using grown_old [OF assms(1,3)] by blast
  have "vfs_fstatat env (k\<lparr>k_vfs := ?t\<rparr>) CWD path 0 = Some (k\<lparr>k_vfs := ?t\<rparr>, Inr (vfs_copy_stat ?n))"
    using fstatat_found [of "k\<lparr>k_vfs := ?t\<rparr>" r CWD path base bx 0 env "v_next ?s"] mk(2) base bx place stat
    by (simp add: has_flag_def)
  moreover have "dget ?t e = dget ?s e" if "e \<noteq> p" "e \<noteq> v_next ?s" for e
    using that by (simp add: grown_def dget_attach dget_add_entry)
  moreover have "st_type (vfs_copy_stat ?n) = FILE_TYPE_DIRECTORY" "st_perm (vfs_copy_stat ?n) = i_perm n" "st_nlinks (vfs_copy_stat ?n) = 1"
    by (simp_all add: vfs_copy_stat_def tmpfs_node_def inode_init_def)
  moreover have "dget ?t p = Some (y\<lparr>d_children := d_children y @ [v_next ?s]\<rparr>)" "child_of ?t p nm = Some (v_next ?s)"
    using grown_old [OF assms(1,6)] grown_child [OF assms(1,6,6) free] by simp_all
  ultimately show ?thesis
    using mk by blast
qed

theorem vfs_mkdir_correct_witness:
  "path_place 4 16 root_vfs 1 1 [47, 97] RESOLVE_EXPECT_NONEXIST = Some (Inr (Missing 1 [97])) \<and>
   (\<exists>t st. vfs_mkdir plain_env root_kfs [47, 97] = Some (root_kfs\<lparr>k_vfs := t\<rparr>, None) \<and> vfs_ok t 1 \<and> child_of t 1 [97] = Some 3 \<and>
     st_type st = FILE_TYPE_DIRECTORY \<and> vfs_fstatat plain_env (root_kfs\<lparr>k_vfs := t\<rparr>) CWD [47, 97] 0 = Some (root_kfs\<lparr>k_vfs := t\<rparr>, Inr st))"
proof -
  have k: "k_vfs root_kfs = root_vfs" "n_stack plain_env = 4" "n_path_max plain_env = 16" "v_next root_vfs = 3" "enter root_vfs 1 = 1"
      "iget root_vfs 2 = Some root_inode" "i_ops root_inode = Tmpfs_Dir_Ops" "base_of root_kfs CWD [47, 97] = Some (Inr (Some 1))"
    by (simp_all add: root_kfs_def plain_env_def root_vfs_def root_inode_def iget_def enter_def mounted_root_def dentry_get_mount_def dget_def
        base_of_def path_is_absolute_def PATH_DELIM_def)
  note d = root_vfs_dget [THEN iffD2, OF conjI, OF refl refl]
  show ?thesis
    using vfs_mkdir_correct [where k = root_kfs and env = plain_env and path = "[47, 97]", unfolded k,
        OF root_vfs_ok refl d root_place k(5) d _ k(6,7)] root_place by auto
qed

text \<open>
  C39: \<^verbatim>\<open>vfs_mkdir\<close> of a name that exists brings the system down.  Resolution drops the references of the existing entry with those on its
  way to the root, and then once more those of the directory.  If the directory has no references but those that its children and
  mounts account for, which holds of the root when nothing is open in it, the reference check fails.\<close>

theorem vfs_mkdir_existing_panics:
  assumes "vfs_ok (k_vfs k) r" "base_of k CWD path = Some (Inr (Some base))" "dget (k_vfs k) base = Some x"
    "walk_path (link_place (n_stack env) (n_path_max env) r) (k_vfs k) r base path = Some (Inr (p, Some leaf))"
    "\<not> leaf_slash leaf" "\<not> is_dot leaf" "\<not> is_dotdot leaf" "child_of (k_vfs k) p leaf = Some c" "tight (k_vfs k) p"
  shows "vfs_mkdir env k path = None"
proof -
  let ?s = "k_vfs k"
  have flags: "leaf_name leaf = leaf" "has_flag RESOLVE_EXPECT_NONEXIST RESOLVE_EXPECT_NONEXIST"
      "\<not> has_flag RESOLVE_EXPECT_NONEXIST RESOLVE_EXPECT_EXIST"
    using assms(5) by (simp_all add: leaf_name_def has_flag_def RESOLVE_EXPECT_NONEXIST_def RESOLVE_EXPECT_EXIST_def)
  then have place: "path_place (n_stack env) (n_path_max env) ?s r base path RESOLVE_EXPECT_NONEXIST = Some (Inr (Clash p))"
    using assms(4-8) by (simp add: path_place_def last_place_def child_place_def)
  have "dentry_unref ?s (Some p) = None"
  proof (rule unref_tight [OF assms(9)])
    fix z assume z: "dget ?s p = Some z"
    then obtain ds where ds: "chain ?s r p ds"
      by (rule vfs_ok_chain [OF assms(1)])
    then show "p \<notin> set (d_children z)"
      using children_named [OF assms(1) z] child_not_in_chain [OF ds] chain_hd [OF ds] by fastforce
  qed
  then show ?thesis
    using dentry_get_clash [OF assms(1,3) place, of "n_foreign env"] assms(2) vfs_ok_root [OF assms(1)]
    by (simp add: vfs_mkdir_def resolve_def)
qed

theorem vfs_mkdir_existing_panics_witness:
  "\<exists>t. vfs_mkdir plain_env root_kfs [47, 97] = Some (root_kfs\<lparr>k_vfs := t\<rparr>, None) \<and> tight t 1 \<and>
     vfs_mkdir plain_env (root_kfs\<lparr>k_vfs := t\<rparr>) [47, 97] = None"
proof -
  have k: "k_vfs root_kfs = root_vfs" "n_stack plain_env = 4" "n_path_max plain_env = 16" "v_next root_vfs = 3" "enter root_vfs 1 = 1"
      "iget root_vfs 2 = Some root_inode" "i_ops root_inode = Tmpfs_Dir_Ops" "base_of root_kfs CWD [47, 97] = Some (Inr (Some 1))"
    by (simp_all add: root_kfs_def plain_env_def root_vfs_def root_inode_def iget_def enter_def mounted_root_def dentry_get_mount_def dget_def
        base_of_def path_is_absolute_def PATH_DELIM_def)
  note d = root_vfs_dget [THEN iffD2, OF conjI, OF refl refl]
  let ?t = "grown root_vfs 1 [97] (tmpfs_node (i_super root_inode) (v_tmpfs_inode_count root_vfs + 1) FILE_TYPE_DIRECTORY (i_perm root_inode))"
  have mk: "vfs_mkdir plain_env root_kfs [47, 97] = Some (root_kfs\<lparr>k_vfs := ?t\<rparr>, None)" "vfs_ok ?t 1"
    using mkdir_grown [where k = root_kfs and env = plain_env and path = "[47, 97]", unfolded k,
        OF root_vfs_ok refl d root_place k(5) d _ k(6,7)] by auto
  have "walk_path (link_place 4 16 1) ?t 1 1 [47, 97] = Some (Inr (1, Some [97]))" "child_of ?t 1 [97] = Some 3" "tight ?t 1"
    by code_simp+
  moreover have "base_of (root_kfs\<lparr>k_vfs := ?t\<rparr>) CWD [47, 97] = Some (Inr (Some 1))"
    by (simp add: base_of_def path_is_absolute_def PATH_DELIM_def grown_next root_vfs_def)
  moreover obtain x where "dget ?t 1 = Some x"
    using grown_old [OF root_vfs_ok d] by blast
  ultimately show ?thesis
    using vfs_mkdir_existing_panics [where k = "root_kfs\<lparr>k_vfs := ?t\<rparr>" and env = plain_env and path = "[47, 97]" and r = 1 and leaf = "[97]"] mk k
    by (auto simp: leaf_slash_def PATH_DELIM_def is_dot_def is_dotdot_def)
qed

end
