(* ===== verification/FileIo.thy ===== *)
theory FileIo
  imports Io
begin

text \<open>
  Reading and writing files through the page cache (\<^verbatim>\<open>page_cache.c\<close>, the generic functions of \<^verbatim>\<open>vfs_utils.c\<close>, and the operations of
  an open file in \<^verbatim>\<open>vfs.c\<close>).  The cache of an inode maps page numbers to the contents of the pages, of 4096 bytes each; where
  a page that is not in the cache comes from is an argument, whose answer may be an error code or, with \<^const>\<open>None\<close>, a failure
  of the kernel; a null pointer is not among its answers.  Offsets are words of 64 bits; \<^verbatim>\<open>MAX(offset, 0)\<close> reads them as signed numbers.\<close>

section \<open>Page cache\<close>

type_synonym page = "u8 list"
type_synonym fill = "u64 \<Rightarrow> (u64 + page) option"

record icache =
  ic_pages :: "u64 \<rightharpoonup> page"
  ic_size :: u64

definition pagecache_get_page_for_read :: "fill \<Rightarrow> icache \<Rightarrow> u64 \<Rightarrow> (icache \<times> (u64 + page)) option" where
  "pagecache_get_page_for_read fill c pgoff = (case ic_pages c pgoff of
       Some p \<Rightarrow> Some (c, Inr p)
     | None \<Rightarrow> do {
         r \<leftarrow> fill pgoff;
         case r of
           Inl e \<Rightarrow> Some (c, Inl e)
         | Inr p \<Rightarrow> Some (c\<lparr>ic_pages := (ic_pages c)(pgoff \<mapsto> p)\<rparr>, Inr p) })"

definition pagecache_get_page_for_write :: "fill \<Rightarrow> icache \<Rightarrow> u64 \<Rightarrow> (icache \<times> (u64 + page)) option" where
  "pagecache_get_page_for_write fill c pgoff = pagecache_get_page_for_read fill c pgoff"

definition inpage_size :: "u64 \<Rightarrow> u64 \<Rightarrow> u64" where
  "inpage_size offset bytes_left = min (MOS_PAGE_SIZE - offset mod MOS_PAGE_SIZE) bytes_left"

lemma inpage_size_le: "inpage_size offset bytes_left \<le> bytes_left"
  by (simp add: inpage_size_def)

lemma inpage_size_pos:
  assumes "bytes_left \<noteq> 0"
  shows "inpage_size offset bytes_left \<noteq> 0"
proof -
  have "offset mod MOS_PAGE_SIZE < MOS_PAGE_SIZE"
    by (rule word_mod_less_divisor) (simp add: MOS_PAGE_SIZE_def)
  then have "MOS_PAGE_SIZE - offset mod MOS_PAGE_SIZE \<noteq> 0"
    by auto
  then show ?thesis
    using assms by (simp add: inpage_size_def min_def)
qed

lemma inpage_decreases:
  assumes "bytes_left \<noteq> 0"
  shows "unat (bytes_left - inpage_size offset bytes_left) < unat bytes_left"
  using inpage_size_pos [OF assms, of offset] inpage_size_le [of offset bytes_left] assms
  by (simp add: unat_sub unat_gt_0)

text \<open>The loop of \<^verbatim>\<open>vfs_read_pagecache\<close>; \<open>buf\<close> is what has been copied so far.\<close>

function read_pages :: "fill \<Rightarrow> icache \<Rightarrow> u8 list \<Rightarrow> u64 \<Rightarrow> u64 \<Rightarrow> (icache \<times> u8 list \<times> u64) option" where
  "read_pages fill c buf bytes_left offset =
     (if bytes_left = 0 then Some (c, buf, of_nat (length buf))
      else do {
        (c, page) \<leftarrow> pagecache_get_page_for_read fill c (offset div MOS_PAGE_SIZE);
        case page of
          Inl e \<Rightarrow> Some (c, buf, e)
        | Inr p \<Rightarrow> read_pages fill c (buf @ take (unat (inpage_size offset bytes_left)) (List.drop (unat (offset mod MOS_PAGE_SIZE)) p))
            (bytes_left - inpage_size offset bytes_left) (offset + inpage_size offset bytes_left) })"
  by auto
termination
  by (relation "measure (\<lambda>(_, _, _, bytes_left, _). unat bytes_left)") (auto simp: inpage_decreases)

definition vfs_read_pagecache :: "fill \<Rightarrow> icache \<Rightarrow> u64 \<Rightarrow> u64 \<Rightarrow> (icache \<times> u8 list \<times> u64) option" where
  "vfs_read_pagecache fill c sz offset = read_pages fill c [] sz offset"

text \<open>
  The write callbacks of tmpfs.  \<^verbatim>\<open>simple_page_write_begin\<close> tests the page for a null pointer only, so an error code is taken for
  the address of a page, and the copy to it fails.\<close>

definition simple_page_write_begin :: "fill \<Rightarrow> icache \<Rightarrow> u64 \<Rightarrow> (icache \<times> page) option" where
  "simple_page_write_begin fill c offset = do {
     (c, page) \<leftarrow> pagecache_get_page_for_write fill c (offset div MOS_PAGE_SIZE);
     case page of Inl e \<Rightarrow> None | Inr p \<Rightarrow> Some (c, p) }"

definition simple_page_write_end :: "icache \<Rightarrow> u64 \<Rightarrow> u64 \<Rightarrow> icache" where
  "simple_page_write_end c offset sz = (if offset + sz > ic_size c then c\<lparr>ic_size := offset + sz\<rparr> else c)"

function write_pages :: "fill \<Rightarrow> icache \<Rightarrow> u8 list \<Rightarrow> u64 \<Rightarrow> u64 \<Rightarrow> icache option" where
  "write_pages fill c buf bytes_left offset =
     (if bytes_left = 0 then Some c
      else do {
        (c, p) \<leftarrow> simple_page_write_begin fill c offset;
        let at = unat (offset mod MOS_PAGE_SIZE);
        let n = unat (inpage_size offset bytes_left);
        let p = take at p @ take n buf @ List.drop (at + n) p;
        let c = c\<lparr>ic_pages := (ic_pages c)(offset div MOS_PAGE_SIZE \<mapsto> p)\<rparr>;
        let c = simple_page_write_end c offset (inpage_size offset bytes_left);
        write_pages fill c (List.drop n buf) (bytes_left - inpage_size offset bytes_left) (offset + inpage_size offset bytes_left) })"
  by auto
termination
  by (relation "measure (\<lambda>(_, _, _, bytes_left, _). unat bytes_left)") (auto simp: inpage_decreases)

definition vfs_write_pagecache :: "fill \<Rightarrow> icache \<Rightarrow> u8 list \<Rightarrow> u64 \<Rightarrow> u64 \<Rightarrow> (icache \<times> u64) option" where
  "vfs_write_pagecache fill c buf total_size offset = do {
     c \<leftarrow> write_pages fill c buf total_size offset;
     Some (c, total_size) }"

text \<open>tmpfs gives an empty page for every page that was not written; without free memory it uses a null pointer.\<close>

definition tmpfs_fill_cache :: "(u64 \<Rightarrow> bool) \<Rightarrow> fill" where
  "tmpfs_fill_cache free pgoff = (if free pgoff then Some (Inr (replicate 4096 0)) else None)"

section \<open>Open files\<close>

definition vfs_generic_read :: "fill \<Rightarrow> icache \<Rightarrow> u64 \<Rightarrow> u64 \<Rightarrow> (icache \<times> u8 list \<times> u64) option" where
  "vfs_generic_read fill c sz offset = vfs_read_pagecache fill c (min sz (ic_size c - offset)) offset"

definition vfs_generic_write :: "fill \<Rightarrow> icache \<Rightarrow> u8 list \<Rightarrow> u64 \<Rightarrow> u64 \<Rightarrow> (icache \<times> u64) option" where
  "vfs_generic_write fill c buf sz offset = vfs_write_pagecache fill c buf sz offset"

record open_file =
  fo_cache :: icache
  fo_offset :: u64

definition IS_ERR_VALUE :: "u64 \<Rightarrow> bool" where
  "IS_ERR_VALUE x \<longleftrightarrow> x \<ge> - 4095"

definition vfs_io_ops_read :: "fill \<Rightarrow> open_file \<Rightarrow> u64 \<Rightarrow> (open_file \<times> u8 list \<times> u64) option" where
  "vfs_io_ops_read fill f count = do {
     (c, bytes, ret) \<leftarrow> vfs_generic_read fill (fo_cache f) count (fo_offset f);
     let f = f\<lparr>fo_cache := c\<rparr>;
     let f = (if IS_ERR_VALUE ret then f else if ret \<noteq> - 1 then f\<lparr>fo_offset := fo_offset f + ret\<rparr> else f);
     Some (f, bytes, ret) }"

definition vfs_io_ops_write :: "fill \<Rightarrow> open_file \<Rightarrow> u8 list \<Rightarrow> u64 \<Rightarrow> (open_file \<times> u64) option" where
  "vfs_io_ops_write fill f buf count = do {
     (c, ret) \<leftarrow> vfs_generic_write fill (fo_cache f) buf count (fo_offset f);
     let f = f\<lparr>fo_cache := c\<rparr>;
     let f = (if IS_ERR_VALUE ret then f else f\<lparr>fo_offset := fo_offset f + ret\<rparr>);
     Some (f, ret) }"

definition max_zero :: "u64 \<Rightarrow> u64" where
  "max_zero x = (if sint x > 0 then x else 0)"

definition vfs_io_ops_seek :: "open_file \<Rightarrow> u64 \<Rightarrow> io_seek_whence \<Rightarrow> open_file \<times> u64" where
  "vfs_io_ops_seek f offset whence = (
     let f = (case whence of
         IO_SEEK_SET \<Rightarrow> f\<lparr>fo_offset := max_zero offset\<rparr>
       | IO_SEEK_CURRENT \<Rightarrow> f\<lparr>fo_offset := max_zero (fo_offset f + offset)\<rparr>
       | IO_SEEK_END \<Rightarrow> f\<lparr>fo_offset := max_zero (ic_size (fo_cache f) + offset)\<rparr>
       | _ \<Rightarrow> f)
     in (f, fo_offset f))"

declare read_pages.simps [simp del] write_pages.simps [simp del]

section \<open>The contents of a file\<close>

text \<open>The byte at a position; what was never written is zero.\<close>

definition file_byte :: "icache \<Rightarrow> nat \<Rightarrow> u8" where
  "file_byte c i = (case ic_pages c (of_nat (i div 4096)) of Some p \<Rightarrow> p ! (i mod 4096) | None \<Rightarrow> 0)"

definition cache_ok :: "icache \<Rightarrow> bool" where
  "cache_ok c \<longleftrightarrow> (\<forall>k p. ic_pages c k = Some p \<longrightarrow> length p = 4096)"

abbreviation zero_fill :: fill where
  "zero_fill \<equiv> tmpfs_fill_cache (\<lambda>_. True)"

lemma page_index:
  fixes offset :: u64
  assumes "i < 2 ^ 64"
  shows "of_nat (i div 4096) = offset div MOS_PAGE_SIZE \<longleftrightarrow> i div 4096 = unat offset div 4096"
proof -
  have "i div 4096 < 2 ^ 64"
    using assms by (rule le_less_trans [OF div_le_dividend])
  then have "unat (of_nat (i div 4096) :: u64) = i div 4096"
    by (simp add: unat_of_nat take_bit_eq_mod)
  then show ?thesis
    by (auto simp: word_unat_eq_iff unat_div)
qed

lemma get_page_ok:
  assumes "cache_ok c"
  obtains c' p where "pagecache_get_page_for_read zero_fill c (offset div MOS_PAGE_SIZE) = Some (c', Inr p)" "cache_ok c'" "ic_size c' = ic_size c"
    "ic_pages c' (offset div MOS_PAGE_SIZE) = Some p" "length p = 4096" "\<And>i. file_byte c' i = file_byte c i"
proof (cases "ic_pages c (offset div MOS_PAGE_SIZE)")
  case None
  let ?c = "c\<lparr>ic_pages := (ic_pages c)(offset div MOS_PAGE_SIZE \<mapsto> replicate 4096 0)\<rparr>"
  have "cache_ok ?c" "file_byte ?c i = file_byte c i" for i
    using assms None by (auto simp: cache_ok_def file_byte_def)
  then show ?thesis
    using that [of ?c "replicate 4096 0"] None by (simp add: pagecache_get_page_for_read_def tmpfs_fill_cache_def)
next
  case (Some p)
  then show ?thesis
    using that [of c p] assms by (simp add: pagecache_get_page_for_read_def cache_ok_def)
qed

lemma unat_inpage: "unat (inpage_size offset n) = min (4096 - unat offset mod 4096) (unat n)" "unat (offset mod MOS_PAGE_SIZE) = unat offset mod 4096"
proof -
  show m: "unat (offset mod MOS_PAGE_SIZE) = unat offset mod 4096"
    by (simp add: unat_mod)
  have "offset mod MOS_PAGE_SIZE \<le> MOS_PAGE_SIZE"
    by (simp add: word_le_nat_alt m mod_le_divisor less_imp_le)
  then have "unat (MOS_PAGE_SIZE - offset mod MOS_PAGE_SIZE) = 4096 - unat offset mod 4096"
    by (simp add: unat_sub m)
  then show "unat (inpage_size offset n) = min (4096 - unat offset mod 4096) (unat n)"
    by (simp add: inpage_size_def unat_min)
qed

text \<open>One step of the loops moves both the offset and the number of bytes that are left.\<close>

lemma inpage_step:
  assumes "unat offset + unat n < 2 ^ 64" "m = unat (inpage_size offset n)"
  shows "unat (offset + inpage_size offset n) = unat offset + m" "unat (n - inpage_size offset n) = unat n - m" "m \<le> unat n"
    "unat offset mod 4096 + m \<le> 4096"
proof -
  show m: "m \<le> unat n" "unat offset mod 4096 + m \<le> 4096"
    unfolding assms(2) unat_inpage by (simp_all add: min_def) linarith
  show "unat (offset + inpage_size offset n) = unat offset + m" "unat (n - inpage_size offset n) = unat n - m"
    using assms m inpage_size_le [of offset n] by (simp_all add: unat_sub unat_add_fits)
qed

lemma div_in_page:
  fixes a j :: nat
  assumes "a mod 4096 + j < 4096"
  shows "(a + j) div 4096 = a div 4096" "(a + j) mod 4096 = a mod 4096 + j"
proof -
  have e: "a + j = a mod 4096 + j + 4096 * (a div 4096)"
    using div_mult_mod_eq [of a 4096] by linarith
  show "(a + j) div 4096 = a div 4096" "(a + j) mod 4096 = a mod 4096 + j"
    using assms by (simp_all only: e div_mult_self2 mod_mult_self2) simp_all
qed

lemma file_byte_in_page:
  assumes "ic_pages c (offset div MOS_PAGE_SIZE) = Some p" "j < 4096 - unat offset mod 4096"
  shows "file_byte c (unat offset + j) = p ! (unat offset mod 4096 + j)"
proof -
  have "(unat offset + j) div 4096 = unat offset div 4096" "(unat offset + j) mod 4096 = unat offset mod 4096 + j"
    using div_in_page [of "unat offset" j] assms(2) by simp_all
  moreover have "of_nat (unat offset div 4096) = offset div MOS_PAGE_SIZE"
    using arg_cong [OF unat_div [of offset MOS_PAGE_SIZE], of "of_nat :: nat \<Rightarrow> u64"] by simp
  ultimately show ?thesis
    using assms(1) by (simp add: file_byte_def)
qed

lemma read_pages_ok:
  assumes "cache_ok c" "unat offset + unat n < 2 ^ 64"
  shows "\<exists>c'. read_pages zero_fill c buf n offset =
      Some (c', buf @ map (file_byte c) [unat offset..<unat offset + unat n], of_nat (length buf + unat n)) \<and>
    cache_ok c' \<and> ic_size c' = ic_size c \<and> (\<forall>i. file_byte c' i = file_byte c i)"
  using assms
proof (induction "unat n" arbitrary: c buf n offset rule: less_induct)
  case less
  show ?case
  proof (cases "n = 0")
    case True
    then show ?thesis
      using less.prems by (subst read_pages.simps) simp
  next
    case False
    obtain c1 p where c1: "pagecache_get_page_for_read zero_fill c (offset div MOS_PAGE_SIZE) = Some (c1, Inr p)" "cache_ok c1" "ic_size c1 = ic_size c"
        "ic_pages c1 (offset div MOS_PAGE_SIZE) = Some p" "length p = 4096" "\<And>i. file_byte c1 i = file_byte c i"
      using get_page_ok [OF less.prems(1)] by blast
    define m where "m = unat (inpage_size offset n)"
    note st = inpage_step [OF less.prems(2) m_def]
    let ?chunk = "take m (List.drop (unat offset mod 4096) p)"
    have chunk: "?chunk = map (file_byte c) [unat offset..<unat offset + m]"
    proof (rule nth_equalityI)
      fix j assume "j < length ?chunk"
      then show "?chunk ! j = map (file_byte c) [unat offset..<unat offset + m] ! j"
        using file_byte_in_page [OF c1(4), of j] c1(5,6) st(4) by simp
    qed (use c1(5) st(4) in simp)
    have "unat (n - inpage_size offset n) < unat n"
      by (rule inpage_decreases [OF False])
    then obtain c2 where "read_pages zero_fill c1 (buf @ ?chunk) (n - inpage_size offset n) (offset + inpage_size offset n) =
        Some (c2, (buf @ ?chunk) @ map (file_byte c1) [unat offset + m..<unat offset + m + (unat n - m)], of_nat (length (buf @ ?chunk) + (unat n - m)))"
        "cache_ok c2" "ic_size c2 = ic_size c1" "\<forall>i. file_byte c2 i = file_byte c1 i"
      using less.hyps [of "n - inpage_size offset n" c1 "offset + inpage_size offset n" "buf @ ?chunk"] c1(2) st less.prems(2) by auto
    moreover have "[unat offset..<unat offset + m] @ [unat offset + m..<unat offset + m + (unat n - m)] = [unat offset..<unat offset + unat n]"
      using st(3) upt_add_eq_append [of "unat offset" "unat offset + m" "unat n - m"] by simp
    moreover have "file_byte c1 = file_byte c" "length ?chunk = m"
      using c1(5,6) st(4) by auto
    ultimately show ?thesis
      using False c1 st(3) by (subst read_pages.simps) (simp add: m_def [symmetric] unat_inpage(2) chunk map_append [symmetric] del: map_append)
  qed
qed

text \<open>Writing changes exactly the bytes of the range.\<close>

lemma file_byte_patch:
  assumes "ic_pages c (offset div MOS_PAGE_SIZE) = Some p" "length p = 4096" "i < 2 ^ 64" "unat offset mod 4096 + m \<le> 4096" "m \<le> length buf"
    "c' = c\<lparr>ic_pages := (ic_pages c)(offset div MOS_PAGE_SIZE \<mapsto>
       take (unat offset mod 4096) p @ take m buf @ List.drop (unat offset mod 4096 + m) p), ic_size := sz\<rparr>"
  shows "file_byte c' i = (if unat offset \<le> i \<and> i < unat offset + m then buf ! (i - unat offset) else file_byte c i)"
proof (cases "i div 4096 = unat offset div 4096")
  case False
  have "\<not> (unat offset \<le> i \<and> i < unat offset + m)"
  proof
    assume "unat offset \<le> i \<and> i < unat offset + m"
    then obtain j where "i = unat offset + j" "j < m"
      by (metis le_Suc_ex nat_add_left_cancel_less)
    then show False
      using False assms(4) div_in_page(1) [of "unat offset" j] by simp
  qed
  then show ?thesis
    using False page_index [OF assms(3), of offset] by (auto simp: file_byte_def assms(6))
next
  case True
  have i: "i = unat offset div 4096 * 4096 + i mod 4096" "unat offset = unat offset div 4096 * 4096 + unat offset mod 4096"
    using True div_mult_mod_eq [of i 4096] div_mult_mod_eq [of "unat offset" 4096] by simp_all
  let ?a = "unat offset mod 4096"
  have r: "unat offset \<le> i \<and> i < unat offset + m \<longleftrightarrow> ?a \<le> i mod 4096 \<and> i mod 4096 < ?a + m" "i - unat offset = i mod 4096 - ?a"
    using i by linarith+
  have "(take ?a p @ take m buf @ List.drop (?a + m) p) ! (i mod 4096) =
      (if ?a \<le> i mod 4096 \<and> i mod 4096 < ?a + m then buf ! (i mod 4096 - ?a) else p ! (i mod 4096))"
    using assms(2,4,5) by (auto simp: nth_append)
  then show ?thesis
    using True page_index [OF assms(3), of offset] assms(1) by (simp add: file_byte_def assms(6) r)
qed

lemma write_pages_ok:
  assumes "cache_ok c" "unat offset + unat n < 2 ^ 64" "unat n = length buf"
  shows "\<exists>c'. write_pages zero_fill c buf n offset = Some c' \<and> cache_ok c' \<and>
    unat (ic_size c') = (if n = 0 then unat (ic_size c) else max (unat (ic_size c)) (unat offset + unat n)) \<and>
    (\<forall>i < 2 ^ 64. file_byte c' i = (if unat offset \<le> i \<and> i < unat offset + unat n then buf ! (i - unat offset) else file_byte c i))"
  using assms
proof (induction "unat n" arbitrary: c buf n offset rule: less_induct)
  case less
  show ?case
  proof (cases "n = 0")
    case True
    then show ?thesis
      using less.prems by (subst write_pages.simps) auto
  next
    case False
    obtain c1 p where c1: "pagecache_get_page_for_read zero_fill c (offset div MOS_PAGE_SIZE) = Some (c1, Inr p)" "cache_ok c1" "ic_size c1 = ic_size c"
        "ic_pages c1 (offset div MOS_PAGE_SIZE) = Some p" "length p = 4096" "\<And>i. file_byte c1 i = file_byte c i"
      using get_page_ok [OF less.prems(1)] by blast
    define m where "m = unat (inpage_size offset n)"
    note st = inpage_step [OF less.prems(2) m_def]
    have m: "m \<noteq> 0"
      using inpage_size_pos [OF False] by (simp add: m_def unat_eq_zero)
    let ?p = "take (unat offset mod 4096) p @ take m buf @ List.drop (unat offset mod 4096 + m) p"
    let ?c = "simple_page_write_end (c1\<lparr>ic_pages := (ic_pages c1)(offset div MOS_PAGE_SIZE \<mapsto> ?p)\<rparr>) offset (inpage_size offset n)"
    obtain sz where c2: "?c = c1\<lparr>ic_pages := (ic_pages c1)(offset div MOS_PAGE_SIZE \<mapsto> ?p), ic_size := sz\<rparr>"
        "unat sz = max (unat (ic_size c)) (unat offset + m)"
    proof (cases "offset + inpage_size offset n > ic_size c")
      case True
      then show ?thesis
        using that [of "offset + inpage_size offset n"] c1(3) st(1) by (simp add: simple_page_write_end_def word_less_nat_alt)
    next
      case False
      then show ?thesis
        using that [of "ic_size c"] c1(3) st(1) by (simp add: simple_page_write_end_def word_less_nat_alt)
    qed
    have len: "m \<le> length buf"
      using st(3) less.prems(3) by simp
    have ok: "cache_ok ?c"
      using c1(2,5) st(4) len by (auto simp: c2(1) cache_ok_def)
    note patch = file_byte_patch [OF c1(4,5) _ st(4) len c2(1)]
    obtain c' where c': "write_pages zero_fill ?c (List.drop m buf) (n - inpage_size offset n) (offset + inpage_size offset n) = Some c'" "cache_ok c'"
        "unat (ic_size c') = (if unat n = m then unat sz else max (unat sz) (unat offset + unat n))"
        "\<forall>i < 2 ^ 64. file_byte c' i = (if unat offset + m \<le> i \<and> i < unat offset + unat n then List.drop m buf ! (i - (unat offset + m)) else file_byte ?c i)"
    proof -
      have left: "n - inpage_size offset n = 0 \<longleftrightarrow> unat n = m"
        using st(2,3) by (simp add: unat_eq_zero [symmetric])
      have "unat (offset + inpage_size offset n) + unat (n - inpage_size offset n) < 2 ^ 64" "unat (n - inpage_size offset n) = length (List.drop m buf)"
        using st less.prems(2,3) by simp_all
      from less.hyps [OF inpage_decreases [OF False, of offset] ok this] show ?thesis
        using that st left c2(1) by fastforce
    qed
    have "write_pages zero_fill c buf n offset = Some c'"
      using False c1(1) c'(1) by (subst write_pages.simps)
        (simp add: simple_page_write_begin_def pagecache_get_page_for_write_def Let_def unat_inpage(2) m_def [symmetric])
    moreover have "unat (ic_size c') = max (unat (ic_size c)) (unat offset + unat n)"
      using c'(3) c2(2) st(3) by (auto split: if_splits)
    moreover have "file_byte c' i = (if unat offset \<le> i \<and> i < unat offset + unat n then buf ! (i - unat offset) else file_byte c i)" if "i < 2 ^ 64" for i
      using c'(4) that patch [OF that] c1(6) st(3) len less.prems(3) by auto
    ultimately show ?thesis
      using False c'(2) by auto
  qed
qed

section \<open>A file is an array of bytes with a position\<close>

record bytes_file =
  bf_data :: "u8 list"
  bf_pos :: nat

datatype file_call = Read u64 | Write "u8 list" | Seek u64 io_seek_whence

definition put_bytes :: "nat \<Rightarrow> u8 list \<Rightarrow> u8 list \<Rightarrow> u8 list" where
  "put_bytes pos bs data = take pos (data @ replicate (pos - length data) 0) @ bs @ List.drop (pos + length bs) data"

fun bytes_call :: "bytes_file \<Rightarrow> file_call \<Rightarrow> bytes_file \<times> u8 list \<times> u64" where
  "bytes_call b (Read n) = (let bs = take (unat n) (List.drop (bf_pos b) (bf_data b)) in
     (b\<lparr>bf_pos := bf_pos b + length bs\<rparr>, bs, of_nat (length bs)))"
| "bytes_call b (Write bs) = (if bs = [] then (b, [], 0) else
     (b\<lparr>bf_data := put_bytes (bf_pos b) bs (bf_data b), bf_pos := bf_pos b + length bs\<rparr>, [], of_nat (length bs)))"
| "bytes_call b (Seek offset whence) = (let b = (case whence of
       IO_SEEK_SET \<Rightarrow> b\<lparr>bf_pos := nat (sint offset)\<rparr>
     | IO_SEEK_CURRENT \<Rightarrow> b\<lparr>bf_pos := nat (int (bf_pos b) + sint offset)\<rparr>
     | IO_SEEK_END \<Rightarrow> b\<lparr>bf_pos := nat (int (length (bf_data b)) + sint offset)\<rparr>
     | _ \<Rightarrow> b) in (b, [], of_nat (bf_pos b)))"

text \<open>Calls that keep all positions below the largest signed number, and do not read behind the end of the file.\<close>

fun call_fits :: "bytes_file \<Rightarrow> file_call \<Rightarrow> bool" where
  "call_fits b (Read n) \<longleftrightarrow> bf_pos b \<le> length (bf_data b)"
| "call_fits b (Write bs) \<longleftrightarrow> bf_pos b + length bs < 2 ^ 63"
| "call_fits b (Seek offset whence) \<longleftrightarrow> int (bf_pos (fst (bytes_call b (Seek offset whence)))) < 2 ^ 63"

fun do_call :: "fill \<Rightarrow> open_file \<Rightarrow> file_call \<Rightarrow> (open_file \<times> u8 list \<times> u64) option" where
  "do_call fill f (Read n) = vfs_io_ops_read fill f n"
| "do_call fill f (Write bs) = do { (f, ret) \<leftarrow> vfs_io_ops_write fill f bs (of_nat (length bs)); Some (f, [], ret) }"
| "do_call fill f (Seek offset whence) = (let (f, ret) = vfs_io_ops_seek f offset whence in Some (f, [], ret))"

definition bytes_of :: "open_file \<Rightarrow> bytes_file" where
  "bytes_of f = \<lparr>bf_data = map (file_byte (fo_cache f)) [0..<unat (ic_size (fo_cache f))], bf_pos = unat (fo_offset f)\<rparr>"

definition file_ok :: "open_file \<Rightarrow> bool" where
  "file_ok f \<longleftrightarrow> cache_ok (fo_cache f) \<and> unat (ic_size (fo_cache f)) < 2 ^ 63 \<and> unat (fo_offset f) < 2 ^ 63 \<and>
     (\<forall>i < 2 ^ 64. unat (ic_size (fo_cache f)) \<le> i \<longrightarrow> file_byte (fo_cache f) i = 0)"

lemma sint_small:
  assumes "unat (x :: u64) < 2 ^ 63"
  shows "sint x = int (unat x)"
proof -
  have "int (unat x) < int (2 ^ 63)"
    using assms by (simp only: of_nat_less_iff)
  moreover have "- (2 ^ 63) \<le> uint x"
    by (rule order_trans [OF _ unsigned_greater_eq]) simp
  ultimately have "signed_take_bit 63 (uint x) = uint x"
    by (intro signed_take_bit_int_eq_self) simp_all
  then show ?thesis
    by (simp add: sint_uint)
qed

lemma unat_max_zero: "unat (max_zero x) = nat (sint x)"
proof (cases "sint x > 0")
  case True
  have "sint x < 2 ^ 63"
    using sint_lt [of x] by simp
  then have "uint x = sint x"
    using True uint_sint [of x] by (simp add: take_bit_int_eq_self)
  then show ?thesis
    using True by (simp add: max_zero_def unat_eq_nat_uint)
qed (simp add: max_zero_def)

lemma sint_add_small:
  assumes "unat (x :: u64) < 2 ^ 63" "int (unat x) + sint y < 2 ^ 63"
  shows "sint (x + y) = int (unat x) + sint y"
proof -
  have "- (2 ^ 63) \<le> sint y" "0 \<le> int (unat x)"
    using sint_ge [of y] by simp_all
  then have "- (2 ^ 63) \<le> int (unat x) + sint y"
    by linarith
  then show ?thesis
    using assms sint_small [OF assms(1)] by (simp add: sint_word_add signed_take_bit_int_eq_self)
qed

lemma not_err:
  assumes "unat x < 2 ^ 63"
  shows "\<not> IS_ERR_VALUE x" "x \<noteq> - 1"
proof -
  have "unat (- 4095 :: u64) = 18446744073709547521" "unat (- 1 :: u64) = 18446744073709551615"
    by (simp_all add: unsigned_minus_1_eq_mask mask_eq_exp_minus_1)
  then show "\<not> IS_ERR_VALUE x" "x \<noteq> - 1"
    using assms by (auto simp: IS_ERR_VALUE_def word_le_nat_alt)
qed

lemma seek_refines:
  assumes "file_ok f" "call_fits (bytes_of f) (Seek offset whence)" "vfs_io_ops_seek f offset whence = (f', ret)"
  shows "file_ok f' \<and> (bytes_of f', [], ret) = bytes_call (bytes_of f) (Seek offset whence)"
proof -
  have p: "unat (fo_offset f) < 2 ^ 63" "unat (ic_size (fo_cache f)) < 2 ^ 63"
    using assms(1) by (auto simp: file_ok_def)
  let ?b = "fst (bytes_call (bytes_of f) (Seek offset whence))"
  have c: "fo_cache f' = fo_cache f" "ret = fo_offset f'"
    using assms(3) by (auto simp: vfs_io_ops_seek_def Let_def split: io_seek_whence.splits)
  have o: "unat (fo_offset f') = bf_pos ?b"
    using assms(2,3) p sint_add_small [OF p(1), of offset] sint_add_small [OF p(2), of offset]
    by (auto simp: vfs_io_ops_seek_def Let_def bytes_of_def unat_max_zero split: io_seek_whence.splits)
  have b: "bf_data ?b = bf_data (bytes_of f)" "bytes_call (bytes_of f) (Seek offset whence) = (?b, [], of_nat (bf_pos ?b))"
    by (simp_all add: Let_def split: io_seek_whence.splits)
  have "file_ok f'"
    using assms(1,2) c(1) o by (simp add: file_ok_def)
  moreover have "bytes_of f' = ?b"
    using b(1) c(1) o by (simp add: bytes_of_def del: bytes_call.simps)
  moreover have "ret = of_nat (bf_pos ?b)"
    using c(2) o [symmetric] by simp
  ultimately show ?thesis
    using b(2) by simp
qed

lemma read_refines:
  assumes "file_ok f" "call_fits (bytes_of f) (Read n)"
  shows "\<exists>f' bs ret. vfs_io_ops_read zero_fill f n = Some (f', bs, ret) \<and> file_ok f' \<and> (bytes_of f', bs, ret) = bytes_call (bytes_of f) (Read n)"
proof -
  let ?c = "fo_cache f" let ?o = "fo_offset f" let ?n = "min n (ic_size ?c - ?o)"
  have ok: "cache_ok ?c" "unat (ic_size ?c) < 2 ^ 63" "unat ?o \<le> unat (ic_size ?c)"
    using assms by (auto simp: file_ok_def bytes_of_def)
  then have n: "unat ?n = min (unat n) (unat (ic_size ?c) - unat ?o)"
    by (simp add: unat_min unat_sub word_le_nat_alt)
  then have range: "unat ?o + unat ?n < 2 ^ 64" "unat ?o + unat ?n \<le> unat (ic_size ?c)" "unat ?n < 2 ^ 63"
    using ok by auto
  obtain c' where c': "vfs_generic_read zero_fill ?c n ?o = Some (c', map (file_byte ?c) [unat ?o..<unat ?o + unat ?n], ?n)"
      "cache_ok c'" "ic_size c' = ic_size ?c" "\<forall>i. file_byte c' i = file_byte ?c i"
    using read_pages_ok [OF ok(1) range(1), of "[]"] by (auto simp: vfs_generic_read_def vfs_read_pagecache_def)
  let ?f = "f\<lparr>fo_cache := c', fo_offset := ?o + ?n\<rparr>"
  have r: "vfs_io_ops_read zero_fill f n = Some (?f, map (file_byte ?c) [unat ?o..<unat ?o + unat ?n], ?n)"
    using c'(1) not_err [OF range(3)] by (simp add: vfs_io_ops_read_def Let_def)
  have o: "unat (?o + ?n) = unat ?o + unat ?n"
    using range(1) by (simp add: unat_add_fits)
  have "take (unat n) (List.drop (unat ?o) (map (file_byte ?c) [0..<unat (ic_size ?c)])) = map (file_byte ?c) [unat ?o..<unat ?o + unat ?n]"
    using ok(3) n range(2) by (auto simp: min_def drop_map take_map)
  moreover have "file_byte c' = file_byte ?c"
    using c'(4) by auto
  ultimately have "(bytes_of ?f, map (file_byte ?c) [unat ?o..<unat ?o + unat ?n], ?n) = bytes_call (bytes_of f) (Read n)"
    using c'(3) o by (simp add: bytes_of_def Let_def)
  moreover have "file_ok ?f"
    using assms(1) c' o range ok(2) by (auto simp: file_ok_def)
  ultimately show ?thesis
    using r by blast
qed

lemma put_bytes_nth:
  assumes "i < max (length data) (pos + length bs)"
  shows "put_bytes pos bs data ! i = (if pos \<le> i \<and> i < pos + length bs then bs ! (i - pos) else if i < length data then data ! i else 0)"
proof -
  let ?a = "take pos (data @ replicate (pos - length data) 0)"
  have "length ?a = pos"
    by simp
  then show ?thesis
    using assms by (auto simp: put_bytes_def nth_append max_def split: if_splits)
qed

lemma length_put_bytes: "bs \<noteq> [] \<Longrightarrow> length (put_bytes pos bs data) = max (length data) (pos + length bs)"
  by (auto simp: put_bytes_def max_def)

lemma write_refines:
  assumes "file_ok f" "call_fits (bytes_of f) (Write bs)"
  shows "\<exists>f' ret. vfs_io_ops_write zero_fill f bs (of_nat (length bs)) = Some (f', ret) \<and> file_ok f' \<and>
    (bytes_of f', [], ret) = bytes_call (bytes_of f) (Write bs)"
proof -
  let ?c = "fo_cache f" let ?o = "fo_offset f" let ?n = "of_nat (length bs) :: u64"
  have ok: "cache_ok ?c" "unat (ic_size ?c) < 2 ^ 63" "unat ?o + length bs < 2 ^ 63" "\<forall>i < 2 ^ 64. unat (ic_size ?c) \<le> i \<longrightarrow> file_byte ?c i = 0"
    using assms by (auto simp: file_ok_def bytes_of_def)
  then have n: "unat ?n = length bs"
    by (simp add: unat_of_nat take_bit_eq_mod)
  have range: "unat ?o + unat ?n < 2 ^ 64" "unat ?n < 2 ^ 63"
    using ok(3) n by simp_all
  have zero: "?n = 0 \<longleftrightarrow> bs = []"
    using n by (metis length_0_conv unat_0 unat_eq_zero)
  obtain c' where c': "write_pages zero_fill ?c bs ?n ?o = Some c'" "cache_ok c'"
      "unat (ic_size c') = (if bs = [] then unat (ic_size ?c) else max (unat (ic_size ?c)) (unat ?o + length bs))"
      "\<forall>i < 2 ^ 64. file_byte c' i = (if unat ?o \<le> i \<and> i < unat ?o + length bs then bs ! (i - unat ?o) else file_byte ?c i)"
    using write_pages_ok [OF ok(1) range(1) n] n zero by auto
  let ?f = "f\<lparr>fo_cache := c', fo_offset := ?o + ?n\<rparr>"
  have w: "vfs_io_ops_write zero_fill f bs ?n = Some (?f, ?n)"
    using c'(1) not_err [OF range(2)] by (simp add: vfs_io_ops_write_def vfs_generic_write_def vfs_write_pagecache_def Let_def)
  have o: "unat (?o + ?n) = unat ?o + length bs"
    using range(1) n by (simp add: unat_add_fits)
  have size: "unat (ic_size c') < 2 ^ 63"
    using c'(3) ok(2,3) by (simp split: if_splits)
  have "file_ok ?f"
    using c' o ok size by (auto simp: file_ok_def)
  moreover have "map (file_byte c') [0..<unat (ic_size c')] = (if bs = [] then map (file_byte ?c) [0..<unat (ic_size ?c)]
      else put_bytes (unat ?o) bs (map (file_byte ?c) [0..<unat (ic_size ?c)]))" (is "?l = ?r")
  proof (rule nth_equalityI)
    show len: "length ?l = length ?r"
      using c'(3) by (simp add: length_put_bytes)
    fix i assume i: "i < length ?l"
    then have "i < 2 ^ 64"
      using size by simp
    then show "?l ! i = ?r ! i"
      using i len c'(3,4) ok(4) put_bytes_nth [of i "map (file_byte ?c) [0..<unat (ic_size ?c)]" "unat ?o" bs] by (auto simp: not_less)
  qed
  then have "(bytes_of ?f, [], ?n) = bytes_call (bytes_of f) (Write bs)"
    using o by (auto simp: bytes_of_def)
  ultimately show ?thesis
    using w by blast
qed

lemma call_refines:
  assumes "file_ok f" "call_fits (bytes_of f) call"
  obtains f' bs ret where "do_call zero_fill f call = Some (f', bs, ret)" "file_ok f'" "bytes_call (bytes_of f) call = (bytes_of f', bs, ret)"
proof (cases call)
  case (Read n)
  then show ?thesis
    using that read_refines [OF assms(1), of n] assms(2) by (fastforce simp del: bytes_call.simps call_fits.simps)
next
  case (Write bs)
  then show ?thesis
    using that write_refines [OF assms(1), of bs] assms(2) by (fastforce simp del: bytes_call.simps call_fits.simps)
next
  case (Seek offset whence)
  obtain f' ret where f': "vfs_io_ops_seek f offset whence = (f', ret)"
    by (cases "vfs_io_ops_seek f offset whence")
  then show ?thesis
    using that seek_refines [OF assms(1) _ f'] assms(2) Seek by (simp del: bytes_call.simps call_fits.simps)
qed

fun do_calls :: "fill \<Rightarrow> open_file \<Rightarrow> file_call list \<Rightarrow> (open_file \<times> (u8 list \<times> u64) list) option" where
  "do_calls fill f [] = Some (f, [])"
| "do_calls fill f (call # calls) = do {
     (f, out) \<leftarrow> do_call fill f call;
     (f, outs) \<leftarrow> do_calls fill f calls;
     Some (f, out # outs) }"

fun bytes_calls :: "bytes_file \<Rightarrow> file_call list \<Rightarrow> bytes_file \<times> (u8 list \<times> u64) list" where
  "bytes_calls b [] = (b, [])"
| "bytes_calls b (call # calls) = (let (b, out) = bytes_call b call; (b, outs) = bytes_calls b calls in (b, out # outs))"

fun calls_fit :: "bytes_file \<Rightarrow> file_call list \<Rightarrow> bool" where
  "calls_fit b [] \<longleftrightarrow> True"
| "calls_fit b (call # calls) \<longleftrightarrow> call_fits b call \<and> calls_fit (fst (bytes_call b call)) calls"

lemma calls_refine:
  assumes "file_ok f" "calls_fit (bytes_of f) calls"
  shows "\<exists>f' outs. do_calls zero_fill f calls = Some (f', outs) \<and> file_ok f' \<and> bytes_calls (bytes_of f) calls = (bytes_of f', outs)"
  using assms
proof (induction calls arbitrary: f)
  case (Cons call calls)
  have "call_fits (bytes_of f) call"
    using Cons.prems(2) by simp
  then obtain g bs ret where g: "do_call zero_fill f call = Some (g, bs, ret)" "file_ok g" "bytes_call (bytes_of f) call = (bytes_of g, bs, ret)"
    by (rule call_refines [OF Cons.prems(1)])
  then obtain f' outs where "do_calls zero_fill g calls = Some (f', outs)" "file_ok f'" "bytes_calls (bytes_of g) calls = (bytes_of f', outs)"
    using Cons.IH [of g] Cons.prems(2) by auto
  then show ?case
    using g by simp
qed simp

definition new_file :: open_file where
  "new_file = \<lparr>fo_cache = \<lparr>ic_pages = Map.empty, ic_size = 0\<rparr>, fo_offset = 0\<rparr>"

lemma new_file_ok: "file_ok new_file" "bytes_of new_file = \<lparr>bf_data = [], bf_pos = 0\<rparr>"
  by (simp_all add: file_ok_def new_file_def cache_ok_def file_byte_def bytes_of_def)

section \<open>Properties\<close>

text \<open>
  C9: A file of tmpfs is an array of bytes with a position.  Whatever sequence of reads, writes and seeks is done on a new file, as
  long as positions stay below the largest signed number and no read starts behind the end of the file, the calls return, all bytes
  and results are those of the array, where writing behind the end fills the gap with zeros, and the contents of the page
  cache at the end are the array's.  Free memory is assumed for all pages.\<close>

theorem file_refines_bytes:
  assumes "calls_fit \<lparr>bf_data = [], bf_pos = 0\<rparr> calls"
  shows "\<exists>f outs. do_calls zero_fill new_file calls = Some (f, outs) \<and> bytes_calls \<lparr>bf_data = [], bf_pos = 0\<rparr> calls = (bytes_of f, outs)"
  using calls_refine [OF new_file_ok(1), of calls] assms by (auto simp: new_file_ok(2))

theorem file_refines_bytes_witness:
  "calls_fit \<lparr>bf_data = [], bf_pos = 0\<rparr> [Write [1, 2], Seek 4 IO_SEEK_SET, Write [3], Seek 0 IO_SEEK_SET, Read 9] \<and>
   (\<exists>f outs. do_calls zero_fill new_file [Write [1, 2], Seek 4 IO_SEEK_SET, Write [3], Seek 0 IO_SEEK_SET, Read 9] = Some (f, outs) \<and>
     List.last outs = ([1, 2, 0, 0, 3], 5))"
proof -
  let ?calls = "[Write [1, 2], Seek 4 IO_SEEK_SET, Write [3], Seek 0 IO_SEEK_SET, Read 9]"
  have fit: "calls_fit \<lparr>bf_data = [], bf_pos = 0\<rparr> ?calls"
    by (simp add: put_bytes_def)
  have two: "replicate 2 (0 :: u8) = [0, 0]"
    by (simp add: numeral_2_eq_2)
  have "snd (bytes_calls \<lparr>bf_data = [], bf_pos = 0\<rparr> ?calls) = [([], 2), ([], 4), ([], 1), ([], 0), ([1, 2, 0, 0, 3], 5)]"
    by (simp add: put_bytes_def two)
  then show ?thesis
    using file_refines_bytes [OF fit] fit by auto
qed

text \<open>
  C40: Reading behind the end of a file is not stopped.  The number of bytes up to the end is computed as an unsigned difference, so
  for an offset behind the end it is large; as long as it is at least \<open>n\<close> the call returns \<open>n\<close> zeros and moves the position,
  as if the file went on, instead of reporting the end of the file.\<close>

theorem vfs_read_past_end:
  assumes "file_ok f" "unat (ic_size (fo_cache f)) < unat (fo_offset f)" "unat n + unat (fo_offset f) < 2 ^ 63"
  shows "\<exists>f'. vfs_io_ops_read zero_fill f n = Some (f', replicate (unat n) 0, n) \<and> fo_offset f' = fo_offset f + n"
proof -
  let ?c = "fo_cache f" let ?o = "fo_offset f"
  have "unat (ic_size ?c - ?o) = 2 ^ 64 - (unat ?o - unat (ic_size ?c))"
    using assms(2) by (simp add: unat_sub_if_size word_le_nat_alt word_size)
  then have "unat n \<le> unat (ic_size ?c - ?o)"
    using assms(2,3) by simp
  then have n: "min n (ic_size ?c - ?o) = n"
    by (simp add: min_def word_le_nat_alt)
  have range: "unat ?o + unat n < 2 ^ 64" "unat n < 2 ^ 63"
    using assms(3) by simp_all
  obtain c' where c': "vfs_generic_read zero_fill ?c n ?o = Some (c', map (file_byte ?c) [unat ?o..<unat ?o + unat n], n)"
    using read_pages_ok [OF _ range(1), of ?c "[]"] assms(1) by (auto simp: vfs_generic_read_def vfs_read_pagecache_def n file_ok_def)
  have "file_byte ?c i = 0" if "i \<in> set [unat ?o..<unat ?o + unat n]" for i
    using assms that by (auto simp: file_ok_def)
  then have "map (file_byte ?c) [unat ?o..<unat ?o + unat n] = map (\<lambda>_. 0) [unat ?o..<unat ?o + unat n]"
    by (rule list.map_cong0)
  then have "map (file_byte ?c) [unat ?o..<unat ?o + unat n] = replicate (unat n) 0"
    by (simp add: map_replicate_const)
  then show ?thesis
    using c' not_err [OF range(2)] by (simp add: vfs_io_ops_read_def Let_def)
qed

theorem vfs_read_past_end_witness:
  "\<exists>f'. vfs_io_ops_read zero_fill (new_file\<lparr>fo_offset := 10\<rparr>) 3 = Some (f', [0, 0, 0], 3) \<and> fo_offset f' = 13"
proof -
  have "file_ok (new_file\<lparr>fo_offset := 10\<rparr>)"
    by (simp add: file_ok_def new_file_def cache_ok_def file_byte_def)
  moreover have "replicate 3 (0 :: u8) = [0, 0, 0]"
    by (simp add: numeral_3_eq_3)
  ultimately show ?thesis
    using vfs_read_past_end [of "new_file\<lparr>fo_offset := 10\<rparr>" 3] by (simp add: new_file_def)
qed

end
