(* ===== verification/Spec2Isabelle.thy ===== *)
theory Spec2Isabelle
  imports Pmm HashMap Printf Bitmap Signals Mutex Io Pipe Slab VmapCalls PtUnmap VfsTree FileIo
begin

text \<open>
  A verification development of the MOS kernel and of the C library it shares with its programs.

  \<^bold>\<open>The program.\<close>  MOS is a small operating system: a kernel for 64-bit processors (\<^verbatim>\<open>src/kernel\<close>), the parts
  of it that depend on the processor (\<^verbatim>\<open>src/arch\<close>), libraries (\<^verbatim>\<open>src/libs\<close>) and programs (\<^verbatim>\<open>src/userspace\<close>).
  The development is about the kernel: its data structures, its memory allocators, the address
  spaces of processes and the page tables behind them, its synchronisation and scheduling primitives,
  signals, I/O objects with the file descriptors of processes, pipes, the virtual file system with
  tmpfs, and the string and printing functions.

  \<^bold>\<open>Conventions.\<close>  Every C function is a HOL function on explicit state.  A result of type \<open>'a option\<close> is
  \<^const>\<open>None\<close> when the C code panics, fails an assertion, does something that C leaves undefined, or spins
  forever on a lock that is held; error numbers that the code returns are ordinary results.  So a
  theorem that a function yields \<^const>\<open>Some\<close> says that the code returns.  One exception: unmapping a whole mapping
  writes to the lock of the mapping that has just been freed, and this write is taken to have no effect.  Words have the width of the C
  types wherever a wrap-around matters; counters and indices that the code never lets overflow are
  natural numbers.  The answers of an allocator that another part of the kernel provides are
  arguments.  A lock is a flag in the object that it protects.  A context switch is the end of the
  operation that causes it; what concurrent threads do is a step relation with one step for each
  atomic action.

  \<^bold>\<open>The theories.\<close>
  \<^item> \<^verbatim>\<open>MOS_Prelude\<close>: the integer types of \<^verbatim>\<open>mos/types.h\<close>, panics, bounded arrays, page alignment, and
    facts on words that do not wrap.
  \<^item> \<^verbatim>\<open>FifoSpec\<close>: the contract of a bounded byte queue, a locale.  \<^verbatim>\<open>RingBuffer\<close> models \<^verbatim>\<open>ring_buffer.c\<close> with
    a block of bytes and word-sized positions, and provides the contract; every interleaving of
    pushes and pops is first in, first out.
  \<^item> \<^verbatim>\<open>LinkedList\<close>: the intrusive list of \<^verbatim>\<open>list.c\<close> on a heap of \<^verbatim>\<open>prev\<close> and \<^verbatim>\<open>next\<close> fields, with the list
    that a well-formed heap represents; insertions, removal and the walks.
  \<^item> \<^verbatim>\<open>BuddyBlocks\<close>, \<^verbatim>\<open>Buddy\<close>, \<^verbatim>\<open>BuddyInv\<close>, \<^verbatim>\<open>BuddyOps\<close>, \<^verbatim>\<open>Pmm\<close>: the physical frame allocator, \<^verbatim>\<open>buddy.c\<close> and
    \<^verbatim>\<open>pmm.c\<close>.  The blocks of a power-of-two size and their buddies, the functions on the frame array and the
    free lists (which are the lists of \<^verbatim>\<open>LinkedList\<close>), the invariant, its preservation, and the
    properties of the interface: frames are never handed out twice and never lost.
  \<^item> \<^verbatim>\<open>Slab\<close>: the slab allocator, \<^verbatim>\<open>slab.c\<close>, on a byte memory; its objects never overlap, whatever their
    owners write into them.
  \<^item> \<^verbatim>\<open>Vmaps\<close>, \<^verbatim>\<open>VmapCalls\<close>: the memory map of a process, a sorted list of mappings (\<^verbatim>\<open>mm.c\<close>, \<^verbatim>\<open>paging.c\<close>, \<^verbatim>\<open>mmap.c\<close>,
    \<^verbatim>\<open>cow.c\<close>): the search for a gap, splitting and removing mappings, and the system calls on them; every sequence of
    calls whose requests fit into the address space keeps the mappings sorted and disjoint, and other requests may not.
  \<^item> \<^verbatim>\<open>PageTables\<close>, \<^verbatim>\<open>PtWalk\<close>, \<^verbatim>\<open>PtOps\<close>, \<^verbatim>\<open>PtUnmap\<close>: the page tables, \<^verbatim>\<open>pml1.c\<close> to \<^verbatim>\<open>pml5.c\<close>, \<^verbatim>\<open>table_ops\<close> and the entries of
    x86-64 (\<^verbatim>\<open>arch/x86_64/mm/paging.c\<close>).  \<open>PageTables\<close> has the definitions on a memory of tables; \<open>PtWalk\<close> reads a tree of
    tables as one function of the page number and shows, in the locale \<open>table_walk\<close>, that a traversal is a loop over the pages of
    its range; \<open>PtOps\<close> and \<open>PtUnmap\<close> give the operations as changes of the translation from addresses to frames.
  \<^item> \<^verbatim>\<open>HashMap\<close>: \<^verbatim>\<open>hashmap.c\<close>, which refines a finite map.  \<^verbatim>\<open>Bitmap\<close>: \<^verbatim>\<open>bitmap.c\<close>, with the search for free
    runs and the setting of ranges.
  \<^item> \<^verbatim>\<open>Strings\<close>, \<^verbatim>\<open>Stdlib\<close>, \<^verbatim>\<open>Printf\<close>: the library of \<^verbatim>\<open>libs/stdlib\<close> on a byte memory whose unmapped addresses
    fault; \<^verbatim>\<open>vsnprintf\<close> with all its conversions but the pointer formats of the kernel stays within its buffer, and its
    numbers read back.
  \<^item> \<^verbatim>\<open>Tasks\<close>: wait lists, the decisions of the scheduler, joining and ending threads (\<^verbatim>\<open>wait.c\<close>,
    \<^verbatim>\<open>schedule.c\<close>, \<^verbatim>\<open>thread.c\<close>).  \<^verbatim>\<open>Signals\<close>: \<^verbatim>\<open>signal.c\<close> over it; pending signals are delivered.
  \<^item> \<^verbatim>\<open>Mutex\<close>: \<^verbatim>\<open>futex.c\<close> and \<^verbatim>\<open>mutex.c\<close>; mutual exclusion of all interleavings.
  \<^item> \<^verbatim>\<open>Io\<close>: reference-counted I/O objects (\<^verbatim>\<open>io.c\<close>) and descriptor tables (\<^verbatim>\<open>process.c\<close>, \<^verbatim>\<open>fork.c\<close>,
    \<^verbatim>\<open>ksyscall.c\<close>); the counts are exact, up to the references that \<^verbatim>\<open>io_dup\<close> leaks.
  \<^item> \<^verbatim>\<open>Pipe\<close>: \<^verbatim>\<open>pipe.c\<close>, a client of the queue contract, of the wait lists and of the signals; bytes are delivered in
    order.
  \<^item> \<^verbatim>\<open>Dentry\<close>, \<^verbatim>\<open>Vfs\<close>: the directory entry cache (\<^verbatim>\<open>dentry.c\<close>, \<^verbatim>\<open>dentry_utils.c\<close>, \<^verbatim>\<open>mount.c\<close>), the system calls of \<^verbatim>\<open>vfs.c\<close>
    with \<^verbatim>\<open>inode.c\<close>, and tmpfs (\<^verbatim>\<open>tmpfs.c\<close>); entries, inodes and mounts are maps from addresses.  \<^verbatim>\<open>DentryRefs\<close> shows that taking
    and dropping a reference adds and subtracts one along the way to the root, \<^verbatim>\<open>DentryWalk\<close> that path resolution, with mount
    points and symbolic links, finds what a walk of the tree without reference counts finds, and \<^verbatim>\<open>VfsTree\<close> that making a
    directory keeps the tree in order.
  \<^item> \<^verbatim>\<open>FileIo\<close>: the page cache (\<^verbatim>\<open>page_cache.c\<close>) and reading, writing and seeking in files, which refine an array of bytes with a
    position.

  \<^bold>\<open>Interfaces.\<close>  The locale \<open>byte_fifo\<close> stands between ring buffer and pipe, \<open>intrusive_list\<close> between the list
  and its users, \<open>frame_allocator\<close> between the frame allocator and its clients, \<open>kernel_map\<close> between the
  hash map and the tables kept in it, \<open>table_walk\<close> between the traversal of page tables and the callbacks of an operation.  Each is interpreted on the definitions of the model in the
  theory that provides it.

  \<^bold>\<open>Bounds.\<close>  No loop uses fuel: loops are structural recursions, functions with a termination
  proof, or partial functions whose termination is a theorem.  The number of nested symbolic links that fit on the
  kernel stack is an argument of path resolution, and running out of it a failure; the theorems hold for every number.  Objects are smaller than half of the
  address space; the frame allocator has fewer than \<open>2 ^ 26\<close> frames (256 GiB); the page table theorems are about the
  \<open>2 ^ 35\<close> pages of the lower half of the address space, and unmapping about ranges below 1 GiB.

  \<^bold>\<open>Where the code falls short.\<close>  Some properties describe what the code really does where that differs
  from its purpose: resizing a wrapped ring buffer reorders it, a merge of the largest buddy blocks leaves
  the array of free lists, the pointer formats of the kernel leave their buffer, an octal prefix is
  lost, sleeping on a wait list races with waking, wake-ups of a futex can be lost, masked signals
  panic a restarted system call, \<^verbatim>\<open>io_dup\<close> leaks a reference, two ends of a pipe that close at the same time use it after it is freed,
  the heap grows over other mappings, the search for free addresses wraps around for huge sizes, unmapping the first part of a mapping drops the
  rest of it, unmapping passes over pages behind a missing page table, making a directory under an existing name
  drops references twice and panics, and reading behind the end of a file returns zeros.

  \<^bold>\<open>Not modelled.\<close>  Code that depends on the processor (boot, interrupts, context
  switches), device access, the mapping of files into memory, the file systems other than tmpfs, inter-process
  communication, program loading, the configuration tools, the tests, and the programs in user space.
  They are pure input and output, assembly, code around external services, or parts that this
  development has not reached.
\<close>

end
